(* ===== verification/TazerPrelude.thy ===== *)
theory TazerPrelude
  imports Main "HOL-Library.Word"
begin

text \<open>
  Shared vocabulary of the development.

  \<^item> machine integers: \<open>u8\<close>, \<open>u16\<close>, \<open>u32\<close>, \<open>u64\<close> are the unsigned types of the C++
    sources (\<open>uint8_t\<close> and so on), with wrap-around arithmetic;
  \<^item> memory blocks are lists; \<open>mem_slice\<close> and \<open>blit\<close> are the reading and the writing half of
    \<open>memcpy\<close>, and both answer \<open>None\<close> where the C++ code would touch memory outside of the
    block, so that "no out of range access" is a theorem and never an assumption;
  \<^item> the generic facts about lists, counting and words that several components use.
\<close>

type_synonym u8 = "8 word"
type_synonym u16 = "16 word"
type_synonym u32 = "32 word"
type_synonym u64 = "64 word"
type_synonym bytes = "u8 list"

named_theorems mem_simps \<open>evaluation of slices and blits\<close>

subsection \<open>Memory blocks\<close>

definition mem_slice :: "nat \<Rightarrow> nat \<Rightarrow> 'a list \<Rightarrow> 'a list option" where
  "mem_slice off n xs = (if off + n \<le> length xs then Some (take n (drop off xs)) else None)"

definition blit :: "'a list \<Rightarrow> nat \<Rightarrow> 'a list \<Rightarrow> 'a list option" where
  "blit dst off src =
     (if off + length src \<le> length dst
      then Some (take off dst @ src @ drop (off + length src) dst) else None)"

text \<open>\<open>memcpy(dst + doff, src + soff, n)\<close> between two different blocks.\<close>

definition memcpy :: "'a list \<Rightarrow> nat \<Rightarrow> 'a list \<Rightarrow> nat \<Rightarrow> nat \<Rightarrow> 'a list option" where
  "memcpy dst doff src soff n =
     (case mem_slice soff n src of None \<Rightarrow> None | Some xs \<Rightarrow> blit dst doff xs)"

lemma mem_slice_Some_iff [mem_simps]:
  "mem_slice off n xs = Some ys \<longleftrightarrow> off + n \<le> length xs \<and> ys = take n (drop off xs)"
  by (auto simp: mem_slice_def)

lemma length_mem_slice: "mem_slice off n xs = Some ys \<Longrightarrow> length ys = n"
  by (auto simp: mem_slice_def split: if_splits)

lemma blit_Some_iff [mem_simps]:
  "blit dst off src = Some d \<longleftrightarrow>
     off + length src \<le> length dst \<and> d = take off dst @ src @ drop (off + length src) dst"
  by (auto simp: blit_def)

lemma length_blit: "blit dst off src = Some d \<Longrightarrow> length d = length dst"
  by (auto simp: blit_def split: if_splits)

lemma blit_in_range: "off + length src \<le> length dst \<Longrightarrow> \<exists>d. blit dst off src = Some d"
  by (simp add: blit_def)

lemma mem_slice_blit_same:
  assumes "blit dst off src = Some d"
  shows "mem_slice off (length src) d = Some src"
  using assms by (auto simp: mem_slice_def blit_def split: if_splits)

lemma mem_slice_blit_disjoint:
  assumes "blit dst off src = Some d" and "o' + n \<le> off \<or> off + length src \<le> o'"
  shows "mem_slice o' n d = mem_slice o' n dst"
proof -
  from assms(1) have len: "off + length src \<le> length dst" "length d = length dst"
    and d: "d = take off dst @ src @ drop (off + length src) dst"
    by (auto simp: blit_def split: if_splits)
  have "take n (drop o' d) = take n (drop o' dst)" if "o' + n \<le> length dst"
  proof (rule nth_equalityI)
    show "length (take n (drop o' d)) = length (take n (drop o' dst))"
      using len by simp
  next
    fix i assume "i < length (take n (drop o' d))"
    with that len have i: "i < n" "o' + i < length dst" by simp_all
    then show "take n (drop o' d) ! i = take n (drop o' dst) ! i"
      using assms(2) len by (auto simp: d nth_append)
  qed
  then show ?thesis using len by (simp add: mem_slice_def)
qed

lemma memcpy_Some_iff [mem_simps]:
  "memcpy dst doff src soff n = Some d \<longleftrightarrow>
     soff + n \<le> length src \<and> doff + n \<le> length dst \<and>
     d = take doff dst @ take n (drop soff src) @ drop (doff + n) dst"
  by (auto simp: memcpy_def mem_slice_def blit_def split: if_splits)

lemma length_memcpy: "memcpy dst doff src soff n = Some d \<Longrightarrow> length d = length dst"
  by (auto simp: mem_simps)

subsection \<open>Counting the elements of a list that satisfy a predicate\<close>

abbreviation count_if :: "('a \<Rightarrow> bool) \<Rightarrow> 'a list \<Rightarrow> nat" where
  "count_if P xs \<equiv> length (filter P xs)"

lemma count_if_update:
  "i < length xs \<Longrightarrow>
     count_if P (xs[i := x]) + of_bool (P (xs ! i)) = count_if P xs + of_bool (P x)"
proof (induction xs arbitrary: i)
  case (Cons y ys)
  show ?case
  proof (cases i)
    case (Suc j)
    with Cons show ?thesis by (cases "P y") auto
  qed simp
qed simp

lemma count_if_pos: "i < length xs \<Longrightarrow> P (xs ! i) \<Longrightarrow> 0 < count_if P xs"
  by (auto simp: filter_empty_conv)

lemma count_if_zero: "count_if P xs = 0 \<Longrightarrow> i < length xs \<Longrightarrow> \<not> P (xs ! i)"
  using count_if_pos by fastforce

lemma count_if_le: "count_if P xs \<le> length xs"
  by (rule length_filter_le)

lemma count_if_two:
  assumes "i < length xs" "j < length xs" "i \<noteq> j" "P (xs ! i)" "P (xs ! j)"
  shows "2 \<le> count_if P xs"
proof -
  have "{i, j} \<subseteq> {k. k < length xs \<and> P (xs ! k)}" using assms by auto
  then have "card {i, j} \<le> card {k. k < length xs \<and> P (xs ! k)}"
    by (intro card_mono) auto
  then show ?thesis using assms(3) by (simp add: length_filter_conv_card)
qed

subsection \<open>Words\<close>

lemma of_nat_word_eq_0_iff_small:
  "n < 2 ^ LENGTH('a) \<Longrightarrow> (of_nat n :: 'a::len word) = 0 \<longleftrightarrow> n = 0"
  by (auto simp: word_of_nat_eq_0_iff dest: nat_dvd_not_less)

lemma unat_of_nat_small: "n < 2 ^ LENGTH('a) \<Longrightarrow> unat (of_nat n :: 'a::len word) = n"
  by (simp add: unsigned_of_nat take_bit_nat_eq_self)

lemma unat_add_small:
  fixes a b :: "'a::len word"
  assumes "unat a + unat b < 2 ^ LENGTH('a)"
  shows "unat (a + b) = unat a + unat b"
  using assms by (simp add: unat_word_ariths)

lemma unat_mult_small:
  fixes a b :: "'a::len word"
  assumes "unat a * unat b < 2 ^ LENGTH('a)"
  shows "unat (a * b) = unat a * unat b"
  using assms by (simp add: unat_word_ariths)

lemma unat_diff_le:
  fixes a b :: "'a::len word"
  assumes "b \<le> a"
  shows "unat (a - b) = unat a - unat b"
  using assms by (simp add: unat_sub)

lemma unat_bound: "unat (w :: 'a::len word) < 2 ^ LENGTH('a)"
  by (rule unsigned_less)

lemma unat_inc_small: "Suc (unat (w :: 'a::len word)) < 2 ^ LENGTH('a) \<Longrightarrow> unat (w + 1) = Suc (unat w)"
  by (subst unat_add_small) simp_all

lemma unat_ucast_small: "unat (x :: 'a::len word) < 2 ^ LENGTH('b) \<Longrightarrow> unat (ucast x :: 'b::len word) = unat x"
  by (simp add: unsigned_ucast_eq take_bit_nat_eq_self)

subsection \<open>Blocks\<close>

definition ceil_div :: "nat \<Rightarrow> nat \<Rightarrow> nat" where
  "ceil_div a b = (a + b - 1) div b"

lemma less_ceil_div: "0 < b \<Longrightarrow> k < ceil_div a b \<longleftrightarrow> k * b < a"
  by (auto simp: ceil_div_def less_eq_div_iff_mult_less_eq Suc_le_eq [symmetric])

lemma ceil_div_eq: "0 < b \<Longrightarrow> ceil_div a b = a div b + (if a mod b = 0 then 0 else 1)"
proof -
  assume b: "0 < b"
  define q r where "q = a div b" and "r = a mod b"
  have a: "a = q * b + r" and r: "r < b" using b by (simp_all add: q_def r_def)
  have "ceil_div a b = q + (if r = 0 then 0 else 1)"
    unfolding ceil_div_def by (rule div_nat_eqI) (use a r b in \<open>auto simp: mult.commute\<close>)
  then show ?thesis by (simp add: q_def r_def)
qed

lemma word_mod_eq_0_iff: "(x :: 'a::len word) mod y = 0 \<longleftrightarrow> unat x mod unat y = 0"
  by (simp add: unat_mod_distrib [symmetric] unsigned_eq_0_iff)

lemma ceil_div_mono: "a \<le> c \<Longrightarrow> ceil_div a b \<le> ceil_div c b"
  by (simp add: ceil_div_def div_le_mono)

lemma ceil_div_le: "0 < b \<Longrightarrow> ceil_div a b \<le> a"
proof -
  assume b: "0 < b"
  have "\<not> a < ceil_div a b" using less_ceil_div [OF b, of a a] b by simp
  then show ?thesis by simp
qed

end
