(* ===== verification/RWLock.thy ===== *)
theory RWLock
  imports TazerPrelude
begin

text \<open>
  The spinning reader/writer locks of \<^verbatim>\<open>src/common/ReaderWriterLock.cpp\<close>.

  Every access of a lock method to one of the atomics is one step of a thread: \<open>pc\<close> names
  the accesses, \<open>rw_thr_step\<close> (for \<open>ReaderWriterLock\<close>) and \<open>mrw_thr_step\<close> (for one entry of
  \<open>MultiReaderWriterLock\<close>) perform one. \<open>sys_step\<close> interleaves any number of threads in any
  order, \<open>msys_step\<close> does so over an array of locks. The locale \<open>rw_protocol\<close> says what an
  atomic step must promise for the lock to exclude readers from writers; both locks
  provide it for every method but \<open>MultiReaderWriterLock::fairWriterLock\<close>.
\<close>

subsection \<open>The methods as sequences of atomic accesses\<close>

text \<open>
  Program counters. \<open>Idle\<close>: outside of the lock (also after a failed try). \<open>Reading\<close> and
  \<open>Writing\<close>: the method has returned with the lock. The others stand before an access: for
  instance \<open>RSpin\<close> before the load of \<open>_writers\<close> in the loop of \<open>readerLock\<close>, \<open>WSwap\<close>
  before the exchange of \<open>writerLock\<close>, \<open>FLoad t\<close> before the load of \<open>_cur\<close> by the holder
  of ticket \<open>t\<close>.
\<close>

datatype 'c pc =
    Idle | Reading | Writing
  | RSpin | RInc | RTest | RBack
  | RUnl
  | WSwap | WDrain
  | WUnl
  | FTicket | FLoad 'c | FSwap 'c
  | FUnl | FBump
  | TSwap
  | CSwap | CTest | CUndo
  | TRLoad | TRInc | TRTest | TRBack

datatype lock_op =
    ReaderLock | ReaderUnlock | WriterLock | WriterUnlock
  | FairWriterLock | FairWriterUnlock
  | TryWriterLock | CowardlyTryWriterLock | TryReaderLock

text \<open>Where a call starts: locking from outside, unlocking by the holder.\<close>

definition enter :: "lock_op \<Rightarrow> 'c pc \<Rightarrow> 'c pc option" where
  "enter opn p =
     (case p of
        Idle \<Rightarrow>
          (case opn of
             ReaderLock \<Rightarrow> Some RSpin
           | WriterLock \<Rightarrow> Some WSwap
           | FairWriterLock \<Rightarrow> Some FTicket
           | TryWriterLock \<Rightarrow> Some TSwap
           | CowardlyTryWriterLock \<Rightarrow> Some CSwap
           | TryReaderLock \<Rightarrow> Some TRLoad
           | _ \<Rightarrow> None)
      | Reading \<Rightarrow> (if opn = ReaderUnlock then Some RUnl else None)
      | Writing \<Rightarrow>
          (if opn = WriterUnlock then Some WUnl
           else if opn = FairWriterUnlock then Some FUnl else None)
      | _ \<Rightarrow> None)"

record rw_mem =
  readers :: u32
  writers :: u32
  cnt :: u64
  cur :: u64

definition rw_init :: rw_mem where
  "rw_init = \<lparr>readers = 0, writers = 0, cnt = 0, cur = 0\<rparr>"

fun rw_thr_step :: "rw_mem \<Rightarrow> u64 pc \<Rightarrow> rw_mem \<times> u64 pc" where
  \<comment> \<open>readerLock\<close>
  "rw_thr_step m RSpin = (m, if writers m \<noteq> 0 then RSpin else RInc)"
| "rw_thr_step m RInc = (m\<lparr>readers := readers m + 1\<rparr>, RTest)"
| "rw_thr_step m RTest = (m, if writers m = 0 then Reading else RBack)"
| "rw_thr_step m RBack = (m\<lparr>readers := readers m - 1\<rparr>, RSpin)"
  \<comment> \<open>readerUnlock\<close>
| "rw_thr_step m RUnl = (m\<lparr>readers := readers m - 1\<rparr>, Idle)"
  \<comment> \<open>writerLock\<close>
| "rw_thr_step m WSwap = (m\<lparr>writers := 1\<rparr>, if writers m = 1 then WSwap else WDrain)"
| "rw_thr_step m WDrain = (m, if readers m \<noteq> 0 then WDrain else Writing)"
  \<comment> \<open>writerUnlock\<close>
| "rw_thr_step m WUnl = (m\<lparr>writers := 0\<rparr>, Idle)"
  \<comment> \<open>fairWriterLock: \<open>while (my_cnt == _cur.load() || _writers.exchange(check) == 1)\<close>\<close>
| "rw_thr_step m FTicket = (m\<lparr>cnt := cnt m + 1\<rparr>, FLoad (cnt m))"
| "rw_thr_step m (FLoad t) = (m, if t = cur m then FLoad t else FSwap t)"
| "rw_thr_step m (FSwap t) = (m\<lparr>writers := 1\<rparr>, if writers m = 1 then FLoad t else WDrain)"
  \<comment> \<open>fairWriterUnlock\<close>
| "rw_thr_step m FUnl = (m\<lparr>writers := 0\<rparr>, FBump)"
| "rw_thr_step m FBump = (m\<lparr>cur := cur m + 1\<rparr>, Idle)"
  \<comment> \<open>tryWriterLock\<close>
| "rw_thr_step m TSwap = (m\<lparr>writers := 1\<rparr>, if writers m = 0 then WDrain else Idle)"
  \<comment> \<open>cowardlyTryWriterLock\<close>
| "rw_thr_step m CSwap = (m\<lparr>writers := 1\<rparr>, if writers m = 0 then CTest else Idle)"
| "rw_thr_step m CTest = (m, if readers m \<noteq> 0 then CUndo else Writing)"
| "rw_thr_step m CUndo = (m\<lparr>writers := 0\<rparr>, Idle)"
  \<comment> \<open>tryReaderLock\<close>
| "rw_thr_step m TRLoad = (m, if writers m = 0 then TRInc else Idle)"
| "rw_thr_step m TRInc = (m\<lparr>readers := readers m + 1\<rparr>, TRTest)"
| "rw_thr_step m TRTest = (m, if writers m = 0 then Reading else TRBack)"
| "rw_thr_step m TRBack = (m\<lparr>readers := readers m - 1\<rparr>, Idle)"
  \<comment> \<open>no access outside of a method\<close>
| "rw_thr_step m Idle = (m, Idle)"
| "rw_thr_step m Reading = (m, Reading)"
| "rw_thr_step m Writing = (m, Writing)"

text \<open>One entry of \<open>MultiReaderWriterLock\<close>: 16-bit counters, and no try methods.\<close>

record mrw_mem =
  m_readers :: u16
  m_writers :: u16
  m_cnt :: u16
  m_cur :: u16

definition mrw_init :: mrw_mem where
  "mrw_init = \<lparr>m_readers = 0, m_writers = 0, m_cnt = 0, m_cur = 0\<rparr>"

fun mrw_thr_step :: "mrw_mem \<Rightarrow> u16 pc \<Rightarrow> mrw_mem \<times> u16 pc" where
  "mrw_thr_step m RSpin = (m, if m_writers m \<noteq> 0 then RSpin else RInc)"
| "mrw_thr_step m RInc = (m\<lparr>m_readers := m_readers m + 1\<rparr>, RTest)"
| "mrw_thr_step m RTest = (m, if m_writers m = 0 then Reading else RBack)"
| "mrw_thr_step m RBack = (m\<lparr>m_readers := m_readers m - 1\<rparr>, RSpin)"
| "mrw_thr_step m RUnl = (m\<lparr>m_readers := m_readers m - 1\<rparr>, Idle)"
| "mrw_thr_step m WSwap = (m\<lparr>m_writers := 1\<rparr>, if m_writers m = 1 then WSwap else WDrain)"
| "mrw_thr_step m WDrain = (m, if m_readers m \<noteq> 0 then WDrain else Writing)"
| "mrw_thr_step m WUnl = (m\<lparr>m_writers := 0\<rparr>, Idle)"
  \<comment> \<open>fairWriterLock: \<open>while (my_cnt == _cur[entry].load() && _writers[entry].exchange(check) == 1)\<close>\<close>
| "mrw_thr_step m FTicket = (m\<lparr>m_cnt := m_cnt m + 1\<rparr>, FLoad (m_cnt m))"
| "mrw_thr_step m (FLoad t) = (m, if t = m_cur m then FSwap t else WDrain)"
| "mrw_thr_step m (FSwap t) =
     (m\<lparr>m_writers := 1\<rparr>, if m_writers m = 1 then FLoad t else WDrain)"
| "mrw_thr_step m FUnl = (m\<lparr>m_writers := 0\<rparr>, FBump)"
| "mrw_thr_step m FBump = (m\<lparr>m_cur := m_cur m + 1\<rparr>, Idle)"
| "mrw_thr_step m p = (m, p)"

text \<open>\<open>init_atomic_array\<close> of \<^verbatim>\<open>AtomicHelper.h\<close>, the loop that the constructors run.\<close>

function init_atomic_array_from :: "nat \<Rightarrow> 'a list \<Rightarrow> nat \<Rightarrow> 'a \<Rightarrow> 'a list" where
  "init_atomic_array_from i array numElements initVal =
     (if i < numElements
      then init_atomic_array_from (Suc i) (array[i := initVal]) numElements initVal
      else array)"
  by pat_completeness auto
termination
  by (relation "measure (\<lambda>(i, array, numElements, initVal). numElements - i)") auto

definition init_atomic_array :: "'a list \<Rightarrow> nat \<Rightarrow> 'a \<Rightarrow> 'a list" where
  "init_atomic_array array numElements initVal =
     init_atomic_array_from 0 array numElements initVal"

declare init_atomic_array_from.simps [simp del]

text \<open>
  The constructor allocates the four arrays (with whatever the memory holds) and
  initialises every entry.
\<close>

definition MultiReaderWriterLock ::
  "nat \<Rightarrow> u16 list \<Rightarrow> u16 list \<Rightarrow> u16 list \<Rightarrow> u16 list \<Rightarrow> mrw_mem list" where
  "MultiReaderWriterLock numEntries rs ws cs ns =
     (let rs' = init_atomic_array rs numEntries 0;
          ws' = init_atomic_array ws numEntries 0;
          cs' = init_atomic_array cs numEntries 0;
          ns' = init_atomic_array ns numEntries 0
      in map (\<lambda>i. \<lparr>m_readers = rs' ! i, m_writers = ws' ! i, m_cnt = ns' ! i, m_cur = cs' ! i\<rparr>)
           [0..<numEntries])"


subsection \<open>Threads in any order\<close>

text \<open>
  A system is the lock's memory and one program counter per thread. A step is one thread
  calling a method (among the \<open>allowed\<close> ones) or making its next access.
\<close>

inductive sys_step ::
  "('m \<Rightarrow> 'c pc \<Rightarrow> 'm \<times> 'c pc) \<Rightarrow> (lock_op \<Rightarrow> bool) \<Rightarrow>
   'm \<times> 'c pc list \<Rightarrow> 'm \<times> 'c pc list \<Rightarrow> bool"
  for step :: "'m \<Rightarrow> 'c pc \<Rightarrow> 'm \<times> 'c pc" and allowed :: "lock_op \<Rightarrow> bool" where
  sys_call: "i < length ps \<Longrightarrow> allowed opn \<Longrightarrow> enter opn (ps ! i) = Some p \<Longrightarrow>
     sys_step step allowed (m, ps) (m, ps[i := p])"
| sys_run: "i < length ps \<Longrightarrow> step m (ps ! i) = (m', p') \<Longrightarrow>
     sys_step step allowed (m, ps) (m', ps[i := p'])"

inductive_cases sys_stepE: "sys_step step allowed (m, ps) t"

abbreviation sys_reach ::
  "('m \<Rightarrow> 'c pc \<Rightarrow> 'm \<times> 'c pc) \<Rightarrow> (lock_op \<Rightarrow> bool) \<Rightarrow>
   'm \<times> 'c pc list \<Rightarrow> 'm \<times> 'c pc list \<Rightarrow> bool" where
  "sys_reach step allowed \<equiv> (sys_step step allowed)\<^sup>*\<^sup>*"

text \<open>
  A thread is \<open>counted\<close> while it is in \<open>_readers\<close>, and \<open>holds\<close> while the 1 in \<open>_writers\<close> is
  its own.
\<close>

fun counted :: "'c pc \<Rightarrow> bool" where
  "counted RTest = True" | "counted RBack = True" | "counted Reading = True"
| "counted RUnl = True" | "counted TRTest = True" | "counted TRBack = True"
| "counted _ = False"

fun holds :: "'c pc \<Rightarrow> bool" where
  "holds WDrain = True" | "holds Writing = True" | "holds WUnl = True"
| "holds FUnl = True" | "holds CTest = True" | "holds CUndo = True"
| "holds _ = False"

lemma enter_counted: "enter opn p = Some q \<Longrightarrow> counted q = counted p"
  by (auto simp: enter_def split: pc.splits lock_op.splits if_splits)

lemma enter_holds: "enter opn p = Some q \<Longrightarrow> holds q = holds p"
  by (auto simp: enter_def split: pc.splits lock_op.splits if_splits)

lemma enter_not_locked: "enter opn p = Some q \<Longrightarrow> q \<noteq> Reading \<and> q \<noteq> Writing"
  by (auto simp: enter_def split: pc.splits lock_op.splits if_splits)

subsection \<open>What an atomic step has to promise\<close>

text \<open>
  The interface between a lock's code and the argument that it excludes: \<open>rd\<close> and \<open>wr\<close>
  are its two counters, \<open>ok\<close> the program counters of the methods that are allowed.
\<close>

locale rw_protocol =
  fixes step :: "'m \<Rightarrow> 'c pc \<Rightarrow> 'm \<times> 'c pc"
    and rd :: "'m \<Rightarrow> 'w::len word"
    and wr :: "'m \<Rightarrow> 'w::len word"
    and ok :: "'c pc \<Rightarrow> bool"
    and allowed :: "lock_op \<Rightarrow> bool"
  assumes ok_Idle: "ok Idle"
    and ok_enter: "ok p \<Longrightarrow> allowed opn \<Longrightarrow> enter opn p = Some q \<Longrightarrow> ok q"
    and ok_step: "ok p \<Longrightarrow> step m p = (m', q) \<Longrightarrow> ok q"
    and rd_step: "ok p \<Longrightarrow> step m p = (m', q) \<Longrightarrow>
          rd m' + of_bool (counted p) = rd m + of_bool (counted q)"
    and wr_step: "ok p \<Longrightarrow> step m p = (m', q) \<Longrightarrow> wr m = 0 \<or> wr m = 1 \<Longrightarrow>
          (holds p \<Longrightarrow> wr m = 1) \<Longrightarrow> wr m' + of_bool (holds p) = wr m + of_bool (holds q)"
    and acquire: "ok p \<Longrightarrow> step m p = (m', q) \<Longrightarrow> holds q \<Longrightarrow> \<not> holds p \<Longrightarrow> wr m \<noteq> 1"
    and to_reading: "ok p \<Longrightarrow> step m p = (m', Reading) \<Longrightarrow> p \<noteq> Reading \<Longrightarrow> wr m = 0"
    and to_writing: "ok p \<Longrightarrow> step m p = (m', Writing) \<Longrightarrow> p \<noteq> Writing \<Longrightarrow> rd m = 0"
begin

definition inv :: "'m \<times> 'c pc list \<Rightarrow> bool" where
  "inv s \<longleftrightarrow>
     (\<forall>p \<in> set (snd s). ok p) \<and>
     rd (fst s) = of_nat (count_if counted (snd s)) \<and>
     wr (fst s) = of_nat (count_if holds (snd s)) \<and>
     count_if holds (snd s) \<le> 1 \<and>
     (\<forall>i j. i < length (snd s) \<longrightarrow> j < length (snd s) \<longrightarrow>
        snd s ! i = Writing \<longrightarrow> snd s ! j \<noteq> Reading)"

lemma inv_init: "rd m = 0 \<Longrightarrow> wr m = 0 \<Longrightarrow> inv (m, replicate n Idle)"
  by (auto simp: inv_def ok_Idle)

lemma word_add_bool_cancel:
  fixes a b :: "'v::len word"
  assumes "x' + (of_bool P :: 'v word) = x + of_bool Q" and "x = of_nat k"
    and "l + of_bool P = k + (of_bool Q :: nat)"
  shows "x' = of_nat l"
proof -
  have "of_nat (l + of_bool P) = (of_nat (k + of_bool Q) :: 'v word)"
    using assms(3) by simp
  then have "of_nat l + (of_bool P :: 'v word) = of_nat k + of_bool Q" by simp
  then show ?thesis using assms(1,2) by (metis add_right_cancel)
qed

lemma inv_call:
  assumes inv: "inv (m, ps)" and i: "i < length ps" and al: "allowed opn"
    and en: "enter opn (ps ! i) = Some p"
  shows "inv (m, ps[i := p])"
proof -
  have c: "count_if counted (ps[i := p]) = count_if counted ps"
    using count_if_update [OF i, of counted p] enter_counted [OF en] by simp
  have h: "count_if holds (ps[i := p]) = count_if holds ps"
    using count_if_update [OF i, of holds p] enter_holds [OF en] by simp
  have "ok (ps ! i)" using inv i by (auto simp: inv_def)
  then have "ok p" using ok_enter al en by blast
  then show ?thesis
    using inv c h i enter_not_locked [OF en]
    by (auto simp: inv_def nth_list_update dest: set_update_subset_insert [THEN subsetD])
qed

lemma inv_run:
  assumes inv: "inv (m, ps)" and i: "i < length ps" and st: "step m (ps ! i) = (m', p')"
    and len: "length ps < 2 ^ LENGTH('w)"
  shows "inv (m', ps[i := p'])"
proof -
  let ?p = "ps ! i"
  have ok: "ok ?p" using inv i by (auto simp: inv_def)
  have rd: "rd m = of_nat (count_if counted ps)" and wr: "wr m = of_nat (count_if holds ps)"
    and le1: "count_if holds ps \<le> 1"
    using inv by (simp_all add: inv_def)
  have wr01: "wr m = 0 \<or> wr m = 1" using wr le1 by (cases "count_if holds ps") auto
  have hp: "wr m = 1" if "holds ?p"
    using count_if_pos [where P = holds, OF i that] le1 wr by (simp add: le_Suc_eq)
  have rd': "rd m' = of_nat (count_if counted (ps[i := p']))"
    using word_add_bool_cancel [OF rd_step [OF ok st] rd count_if_update [OF i]] .
  have wr': "wr m' = of_nat (count_if holds (ps[i := p']))"
    using word_add_bool_cancel [OF wr_step [OF ok st wr01 hp] wr count_if_update [OF i]] .
  have le1': "count_if holds (ps[i := p']) \<le> 1"
  proof (cases "holds p' \<and> \<not> holds ?p")
    case True
    then have "wr m \<noteq> 1" using acquire [OF ok st] by blast
    then have "count_if holds ps = 0" using wr le1 by (cases "count_if holds ps") auto
    then show ?thesis using count_if_update [OF i, of holds p'] True by simp
  next
    case False
    then show ?thesis using count_if_update [OF i, of holds p'] le1
      by (cases "holds p'"; cases "holds ?p") auto
  qed
  have nr: "\<forall>k < length ps. ps ! k \<noteq> Reading" if "p' = Writing" "?p \<noteq> Writing"
  proof -
    have "rd m = 0" using to_writing [OF ok] st that by blast
    then have "count_if counted ps = 0"
      using rd of_nat_word_eq_0_iff_small [where 'a='w, of "count_if counted ps"]
        count_if_le [of counted ps] len by simp
    then show ?thesis using count_if_zero [of counted ps] by fastforce
  qed
  have nw: "\<forall>k < length ps. ps ! k \<noteq> Writing" if "p' = Reading" "?p \<noteq> Reading"
  proof -
    have "wr m = 0" using to_reading [OF ok] st that by blast
    then have "count_if holds ps = 0" using wr le1 by (cases "count_if holds ps") auto
    then show ?thesis using count_if_zero [of holds ps] by fastforce
  qed
  have excl: "ps ! a = Writing \<Longrightarrow> ps ! b = Reading \<Longrightarrow> a < length ps \<Longrightarrow> b < length ps \<Longrightarrow> False"
    for a b using inv by (auto simp: inv_def)
  have "ps[i := p'] ! b \<noteq> Reading"
    if "a < length ps" "b < length ps" "ps[i := p'] ! a = Writing" for a b
    using that i nr nw excl [of a b] excl [of i b] excl [of a i]
    by (auto simp: nth_list_update split: if_splits)
  moreover have "\<forall>p \<in> set (ps[i := p']). ok p"
    using inv ok_step [OF ok st]
    by (auto simp: inv_def dest: set_update_subset_insert [THEN subsetD])
  ultimately show ?thesis
    using rd' wr' le1' by (simp add: inv_def)
qed

lemma sys_step_inv:
  assumes "sys_step step allowed s t" "inv s" "length (snd s) < 2 ^ LENGTH('w)"
  shows "inv t \<and> length (snd t) = length (snd s)"
  using assms
proof (cases rule: sys_step.cases)
  case (sys_call i ps opn p m)
  then show ?thesis using assms(2) inv_call by simp
next
  case (sys_run i ps m m' p')
  then show ?thesis using assms(2,3) inv_run by simp
qed

lemma sys_reach_inv:
  assumes "sys_reach step allowed s t" "inv s" "length (snd s) < 2 ^ LENGTH('w)"
  shows "inv t \<and> length (snd t) = length (snd s)"
  using assms
  by (induction rule: rtranclp_induct) (auto dest: sys_step_inv)

lemma exclusion:
  assumes "inv (m, ps)" "i < length ps" "ps ! i = Writing" "j < length ps" "j \<noteq> i"
  shows "ps ! j \<noteq> Reading \<and> ps ! j \<noteq> Writing"
proof
  show "ps ! j \<noteq> Reading" using assms by (auto simp: inv_def)
  show "ps ! j \<noteq> Writing"
    using assms count_if_two [of i ps j holds] by (force simp: inv_def)
qed

end


subsection \<open>Both locks keep the promise\<close>

interpretation rw: rw_protocol rw_thr_step readers writers "\<lambda>_. True" "\<lambda>_. True"
proof (unfold_locales, goal_cases)
  case (4 p m m' q) then show ?case by (cases p) (auto split: if_splits)
next
  case (5 p m m' q) then show ?case by (cases p) (auto split: if_splits)
next
  case (6 p m m' q) then show ?case by (cases p) (auto split: if_splits)
next
  case (7 p m m') then show ?case by (cases p) (auto split: if_splits)
next
  case (8 p m m') then show ?case by (cases p) (auto split: if_splits)
qed simp_all

text \<open>
  The accesses of \<open>MultiReaderWriterLock\<close> that keep the promise: all but those of
  \<open>fairWriterLock\<close>.
\<close>

fun unfair_pc :: "'c pc \<Rightarrow> bool" where
  "unfair_pc FTicket = False" | "unfair_pc (FLoad _) = False" | "unfair_pc (FSwap _) = False"
| "unfair_pc TSwap = False" | "unfair_pc CSwap = False" | "unfair_pc CTest = False"
| "unfair_pc CUndo = False" | "unfair_pc TRLoad = False" | "unfair_pc TRInc = False"
| "unfair_pc TRTest = False" | "unfair_pc TRBack = False"
| "unfair_pc _ = True"

definition multi_op :: "lock_op \<Rightarrow> bool" where
  "multi_op opn \<longleftrightarrow>
     opn \<in> {ReaderLock, ReaderUnlock, WriterLock, WriterUnlock, FairWriterUnlock}"

lemma mrw_ok_step: "unfair_pc p \<Longrightarrow> mrw_thr_step m p = (m', q) \<Longrightarrow> unfair_pc q"
  by (cases p) (auto split: if_splits)

interpretation mrw: rw_protocol mrw_thr_step m_readers m_writers unfair_pc multi_op
proof (unfold_locales, goal_cases)
  case (2 p opn q)
  then show ?case by (auto simp: enter_def multi_op_def split: pc.splits lock_op.splits if_splits)
next
  case (3 p m m' q) then show ?case by (rule mrw_ok_step)
next
  case (4 p m m' q) then show ?case by (cases p) (auto split: if_splits)
next
  case (5 p m m' q) then show ?case by (cases p) (auto split: if_splits)
next
  case (6 p m m' q) then show ?case by (cases p) (auto split: if_splits)
next
  case (7 p m m') then show ?case by (cases p) (auto split: if_splits)
next
  case (8 p m m') then show ?case by (cases p) (auto split: if_splits)
qed simp_all

subsection \<open>Schedules, for concrete runs\<close>

fun exec_sched ::
  "('m \<Rightarrow> 'c pc \<Rightarrow> 'm \<times> 'c pc) \<Rightarrow> (lock_op \<Rightarrow> bool) \<Rightarrow>
   (nat \<times> lock_op option) list \<Rightarrow> 'm \<times> 'c pc list \<Rightarrow> ('m \<times> 'c pc list) option" where
  "exec_sched step allowed [] s = Some s"
| "exec_sched step allowed ((i, Some opn) # es) (m, ps) =
     (if i < length ps \<and> allowed opn
      then (case enter opn (ps ! i) of None \<Rightarrow> None
            | Some p \<Rightarrow> exec_sched step allowed es (m, ps[i := p]))
      else None)"
| "exec_sched step allowed ((i, None) # es) (m, ps) =
     (if i < length ps
      then (case step m (ps ! i) of (m', p') \<Rightarrow> exec_sched step allowed es (m', ps[i := p']))
      else None)"

lemma exec_sched_reach:
  "exec_sched step allowed es s = Some t \<Longrightarrow> sys_reach step allowed s t"
proof (induction step allowed es s rule: exec_sched.induct)
  case (2 step allowed i opn es m ps)
  then show ?case
    by (auto split: if_splits option.splits
        intro: converse_rtranclp_into_rtranclp sys_call)
next
  case (3 step allowed i es m ps)
  then show ?case
    by (auto split: if_splits prod.splits intro: converse_rtranclp_into_rtranclp sys_run)
qed simp

text \<open>The accesses of one thread that runs alone.\<close>

definition run_alone :: "('m \<Rightarrow> 'c pc \<Rightarrow> 'm \<times> 'c pc) \<Rightarrow> nat \<Rightarrow> 'm \<times> 'c pc \<Rightarrow> 'm \<times> 'c pc" where
  "run_alone step k = (\<lambda>(m, p). step m p) ^^ k"

lemma run_alone_0 [simp]: "run_alone step 0 s = s"
  by (simp add: run_alone_def)

lemma run_alone_Suc [simp]: "run_alone step (Suc k) (m, p) = run_alone step k (step m p)"
  by (simp add: run_alone_def funpow_swap1)

subsection \<open>Properties of the single lock\<close>

text \<open>
  C32: \<open>ReaderWriterLock\<close> excludes: in every state that fewer than \<open>2^32\<close> threads can reach by
  calling its methods (the fair and the try variants included) in any interleaving of
  their atomic accesses, a thread that holds the lock for writing is alone.
\<close>

theorem rw_mutual_exclusion:
  assumes "sys_reach rw_thr_step (\<lambda>_. True) (rw_init, replicate n Idle) (m, ps)"
    and "n < 2 ^ 32" and "i < n" and "j < n" and "j \<noteq> i" and "ps ! i = Writing"
  shows "ps ! j \<noteq> Reading \<and> ps ! j \<noteq> Writing"
proof -
  have "rw.inv (rw_init, replicate n Idle)"
    by (rule rw.inv_init) (simp_all add: rw_init_def)
  moreover have "length (snd (rw_init, replicate n (Idle :: u64 pc))) < 2 ^ LENGTH(32)"
    using assms(2) by simp
  ultimately have "rw.inv (m, ps) \<and> length (snd (m, ps)) = length (replicate n (Idle :: u64 pc))"
    using rw.sys_reach_inv [OF assms(1)] by (metis snd_conv)
  then show ?thesis using rw.exclusion [of m ps i j] assms(3-6) by simp
qed

definition rw_demo :: "(nat \<times> lock_op option) list" where
  "rw_demo = [(0, Some ReaderLock), (0, None), (0, None), (1, Some WriterLock), (1, None),
     (0, None), (0, None), (1, None)]"

theorem rw_mutual_exclusion_witness:
  "sys_reach rw_thr_step (\<lambda>_. True) (rw_init, replicate 2 Idle)
     (rw_init\<lparr>writers := 1\<rparr>, [RSpin, Writing]) \<and>
   [RSpin, Writing :: u64 pc] ! 0 \<noteq> Reading"
proof -
  have r: "sys_reach rw_thr_step (\<lambda>_. True) (rw_init, replicate 2 Idle)
      (rw_init\<lparr>writers := 1\<rparr>, [RSpin, Writing])"
    by (rule exec_sched_reach [where es = rw_demo]) code_simp
  show ?thesis using r rw_mutual_exclusion [OF r, of 1 0] by simp
qed

text \<open>
  an uncontended lock is acquired in a bounded number of accesses, and unlocking puts
  the memory back: the writer needs two accesses, the reader three.
\<close>

theorem rw_lock_unlock_roundtrip:
  assumes "readers m = 0" and "writers m = 0"
  shows "run_alone rw_thr_step 2 (m, WSwap) = (m\<lparr>writers := 1\<rparr>, Writing)
    \<and> run_alone rw_thr_step 1 (m\<lparr>writers := 1\<rparr>, WUnl) = (m, Idle)
    \<and> run_alone rw_thr_step 3 (m, RSpin) = (m\<lparr>readers := 1\<rparr>, Reading)
    \<and> run_alone rw_thr_step 1 (m\<lparr>readers := 1\<rparr>, RUnl) = (m, Idle)"
  using assms by (cases m) (simp add: numeral_2_eq_2 numeral_3_eq_3)

theorem rw_lock_unlock_roundtrip_witness:
  "run_alone rw_thr_step 2 (rw_init, WSwap) = (rw_init\<lparr>writers := 1\<rparr>, Writing)"
  using rw_lock_unlock_roundtrip [of rw_init] by (simp add: rw_init_def)

text \<open>
  the first caller of \<open>ReaderWriterLock::fairWriterLock\<close> waits for ever: it spins while
  its ticket equals \<open>_cur\<close>, which is so from the start, and never tries the exchange.
\<close>

theorem rw_fair_first_caller_spins:
  "run_alone rw_thr_step (Suc k) (rw_init, FTicket) = (rw_init\<lparr>cnt := 1\<rparr>, FLoad 0)"
proof -
  have "run_alone rw_thr_step k (rw_init\<lparr>cnt := 1\<rparr>, FLoad 0) = (rw_init\<lparr>cnt := 1\<rparr>, FLoad 0)"
    by (induction k) (simp_all add: rw_init_def)
  then show ?thesis by (simp add: rw_init_def)
qed

subsection \<open>Arrays of locks\<close>

lemma init_atomic_array_from_eq:
  "i \<le> n \<Longrightarrow> n \<le> length a \<Longrightarrow>
     init_atomic_array_from i a n v = take i a @ replicate (n - i) v @ drop n a"
proof (induction i a n v rule: init_atomic_array_from.induct)
  case (1 i a n v)
  show ?case
  proof (cases "i < n")
    case True
    with 1 have "init_atomic_array_from (Suc i) (a[i := v]) n v
        = take (Suc i) (a[i := v]) @ replicate (n - Suc i) v @ drop n (a[i := v])"
      by simp
    also have "take (Suc i) (a[i := v]) = take i a @ [v]"
      using True 1(3) by (simp add: take_Suc_conv_app_nth)
    also have "n - i = Suc (n - Suc i)" using True by simp
    ultimately show ?thesis
      using True by (subst init_atomic_array_from.simps) (simp add: \<open>n - i = Suc (n - Suc i)\<close>)
  next
    case False
    with 1 show ?thesis by (subst init_atomic_array_from.simps) simp
  qed
qed

lemma init_atomic_array_eq:
  "n \<le> length a \<Longrightarrow> init_atomic_array a n v = replicate n v @ drop n a"
  by (simp add: init_atomic_array_def init_atomic_array_from_eq)

text \<open>A thread of the array stands at an access to one entry.\<close>

inductive msys_step ::
  "(lock_op \<Rightarrow> bool) \<Rightarrow> mrw_mem list \<times> (nat \<times> u16 pc) list \<Rightarrow>
   mrw_mem list \<times> (nat \<times> u16 pc) list \<Rightarrow> bool"
  for allowed :: "lock_op \<Rightarrow> bool" where
  msys_call: "i < length ts \<Longrightarrow> ts ! i = (e', p) \<Longrightarrow> e < length ms \<Longrightarrow> p = Idle \<or> e = e' \<Longrightarrow>
     allowed opn \<Longrightarrow> enter opn p = Some q \<Longrightarrow> msys_step allowed (ms, ts) (ms, ts[i := (e, q)])"
| msys_run: "i < length ts \<Longrightarrow> ts ! i = (e, p) \<Longrightarrow> e < length ms \<Longrightarrow>
     mrw_thr_step (ms ! e) p = (m', q) \<Longrightarrow>
     msys_step allowed (ms, ts) (ms[e := m'], ts[i := (e, q)])"

definition at_entry :: "nat \<Rightarrow> nat \<times> 'c pc \<Rightarrow> 'c pc" where
  "at_entry e t = (if fst t = e then snd t else Idle)"

definition proj :: "nat \<Rightarrow> mrw_mem list \<times> (nat \<times> u16 pc) list \<Rightarrow> mrw_mem \<times> u16 pc list" where
  "proj e s = (fst s ! e, map (at_entry e) (snd s))"

text \<open>Each entry behaves as a single lock of its own: a step elsewhere does not touch it.\<close>

lemma msys_step_proj:
  assumes "msys_step allowed s t" "e < length (fst s)"
  shows "sys_reach mrw_thr_step allowed (proj e s) (proj e t) \<and> length (fst t) = length (fst s)"
  using assms(1)
proof cases
  case (msys_call i ts e' p f ms opn q)
  show ?thesis
  proof (cases "f = e")
    case True
    have "at_entry e (ts ! i) = p" using msys_call True by (auto simp: at_entry_def)
    then have "sys_step mrw_thr_step allowed (ms ! e, map (at_entry e) ts)
        (ms ! e, (map (at_entry e) ts)[i := q])"
      using msys_call by (intro sys_call) auto
    then show ?thesis
      using msys_call True by (simp add: proj_def map_update at_entry_def)
  next
    case False
    then have "(map (at_entry e) ts)[i := Idle] = map (at_entry e) ts"
      using msys_call by (intro list_update_same_conv [THEN iffD2]) (auto simp: at_entry_def)
    then show ?thesis
      using msys_call False by (simp add: proj_def map_update at_entry_def)
  qed
next
  case (msys_run i ts f p ms m' q)
  show ?thesis
  proof (cases "f = e")
    case True
    have "at_entry e (ts ! i) = p" using msys_run True by (auto simp: at_entry_def)
    then have "sys_step mrw_thr_step allowed (ms ! e, map (at_entry e) ts)
        (m', (map (at_entry e) ts)[i := q])"
      using msys_run True by (intro sys_run) auto
    then show ?thesis
      using msys_run True by (simp add: proj_def map_update at_entry_def)
  next
    case False
    then have "(map (at_entry e) ts)[i := Idle] = map (at_entry e) ts"
      using msys_run by (intro list_update_same_conv [THEN iffD2]) (auto simp: at_entry_def)
    then show ?thesis
      using msys_run False by (simp add: proj_def map_update at_entry_def)
  qed
qed

lemma msys_reach_proj:
  assumes "(msys_step allowed)\<^sup>*\<^sup>* s t" "e < length (fst s)"
  shows "sys_reach mrw_thr_step allowed (proj e s) (proj e t) \<and> length (fst t) = length (fst s)"
  using assms
  by (induction rule: rtranclp_induct) (auto dest: msys_step_proj)

lemma MultiReaderWriterLock_eq:
  assumes "n \<le> length rs" "n \<le> length ws" "n \<le> length cs" "n \<le> length ns"
  shows "MultiReaderWriterLock n rs ws cs ns = replicate n mrw_init"
  using assms
  by (intro nth_equalityI)
     (simp_all add: MultiReaderWriterLock_def init_atomic_array_eq nth_append mrw_init_def Let_def)

text \<open>
  C35: \<open>MultiReaderWriterLock\<close> excludes entry by entry: from the constructed array, in every
  state that fewer than \<open>2^16\<close> threads can reach with readerLock, writerLock and the unlock
  methods on any entries, a thread that holds entry \<open>e\<close> for writing is alone at \<open>e\<close>.
\<close>

theorem multi_mutual_exclusion:
  assumes "(msys_step multi_op)\<^sup>*\<^sup>*
      (MultiReaderWriterLock numEntries rs ws cs ns, replicate n (0, Idle)) (ms, ts)"
    and "numEntries \<le> length rs" and "numEntries \<le> length ws"
    and "numEntries \<le> length cs" and "numEntries \<le> length ns"
    and "n < 2 ^ 16" and "e < numEntries" and "i < n" and "j < n" and "j \<noteq> i"
    and "ts ! i = (e, Writing)"
  shows "ts ! j \<noteq> (e, Reading) \<and> ts ! j \<noteq> (e, Writing)"
proof -
  let ?s = "(MultiReaderWriterLock numEntries rs ws cs ns, replicate n (0::nat, Idle))"
  have "proj e ?s = (mrw_init, replicate n Idle)"
    using assms(2-5,7) by (simp add: proj_def MultiReaderWriterLock_eq at_entry_def)
  moreover have "e < length (fst ?s)"
    using assms(2-5,7) by (simp add: MultiReaderWriterLock_eq)
  ultimately have r: "sys_reach mrw_thr_step multi_op (mrw_init, replicate n Idle) (proj e (ms, ts))"
    using msys_reach_proj [OF assms(1)] by metis
  have "mrw.inv (mrw_init, replicate n Idle)"
    by (rule mrw.inv_init) (simp_all add: mrw_init_def)
  moreover have "length (snd (mrw_init, replicate n (Idle :: u16 pc))) < 2 ^ LENGTH(16)"
    using assms(6) by simp
  ultimately have inv: "mrw.inv (proj e (ms, ts))"
    and len: "length (snd (proj e (ms, ts))) = n"
    using mrw.sys_reach_inv [OF r] by (metis length_replicate snd_conv)+
  then have "length ts = n" by (simp add: proj_def)
  moreover have "mrw.inv (ms ! e, map (at_entry e) ts)" using inv by (simp add: proj_def)
  ultimately show ?thesis
    using mrw.exclusion [of "ms ! e" "map (at_entry e) ts" i j] assms(8-11)
    by (auto simp: at_entry_def)
qed

lemma msys_example:
  "(msys_step multi_op)\<^sup>*\<^sup>* ([mrw_init], [(0, Idle), (0, Idle)])
     ([mrw_init\<lparr>m_writers := 1\<rparr>], [(0, Writing), (0, Idle)])"
proof -
  have 1: "msys_step multi_op ([mrw_init], [(0, Idle), (0, Idle)]) ([mrw_init], [(0, WSwap), (0, Idle)])"
    using msys_call [of 0 "[(0, Idle), (0, Idle)]" 0 Idle 0 "[mrw_init]" multi_op WriterLock WSwap]
    by (simp add: multi_op_def enter_def)
  have 2: "msys_step multi_op ([mrw_init], [(0, WSwap), (0, Idle)])
      ([mrw_init\<lparr>m_writers := 1\<rparr>], [(0, WDrain), (0, Idle)])"
    using msys_run [of 0 "[(0, WSwap), (0, Idle)]" 0 WSwap "[mrw_init]"
        "mrw_init\<lparr>m_writers := 1\<rparr>" WDrain multi_op]
    by (simp add: mrw_init_def)
  have 3: "msys_step multi_op ([mrw_init\<lparr>m_writers := 1\<rparr>], [(0, WDrain), (0, Idle)])
      ([mrw_init\<lparr>m_writers := 1\<rparr>], [(0, Writing), (0, Idle)])"
    using msys_run [of 0 "[(0, WDrain), (0, Idle)]" 0 WDrain "[mrw_init\<lparr>m_writers := 1\<rparr>]"
        "mrw_init\<lparr>m_writers := 1\<rparr>" Writing multi_op]
    by (simp add: mrw_init_def)
  from 1 2 3 show ?thesis by (meson r_into_rtranclp rtranclp_trans)
qed

theorem multi_mutual_exclusion_witness:
  "(msys_step multi_op)\<^sup>*\<^sup>* (MultiReaderWriterLock 1 [7] [7] [7] [7], replicate 2 (0, Idle))
     ([mrw_init\<lparr>m_writers := 1\<rparr>], [(0, Writing), (0, Idle)]) \<and>
   [(0, Writing), (0, Idle :: u16 pc)] ! 1 \<noteq> (0::nat, Writing)"
proof -
  have r: "(msys_step multi_op)\<^sup>*\<^sup>* (MultiReaderWriterLock 1 [7] [7] [7] [7], replicate 2 (0, Idle))
     ([mrw_init\<lparr>m_writers := 1\<rparr>], [(0, Writing), (0, Idle)])"
    using msys_example by (simp add: MultiReaderWriterLock_eq numeral_2_eq_2)
  show ?thesis using r multi_mutual_exclusion [OF r, of 0 0 1] by simp
qed

definition fair_demo :: "(nat \<times> lock_op option) list" where
  "fair_demo = [(0, Some FairWriterLock), (0, None), (0, None), (0, None), (0, None),
     (1, Some FairWriterLock), (1, None), (1, None), (1, None)]"

text \<open>
  \<open>MultiReaderWriterLock::fairWriterLock\<close> does not exclude. Its loop ends as soon as
  the ticket differs from \<open>_cur\<close>, without the exchange: the second caller walks in while
  the first one writes.
\<close>

theorem multi_fair_not_exclusive:
  "sys_reach mrw_thr_step (\<lambda>opn. opn = FairWriterLock) (mrw_init, [Idle, Idle])
     (mrw_init\<lparr>m_writers := 1, m_cnt := 2\<rparr>, [Writing, Writing])"
  by (rule exec_sched_reach [where es = fair_demo]) code_simp

end
