(* ===== verification/Registry.thy ===== *)
theory Registry
  imports TazerPrelude
begin

text \<open>
  The registries of the program.

  \<^item> \<open>trackable\<close>: the reference-counted map of \<^verbatim>\<open>inc/tazer/Trackable.h\<close> through which
    connections, files, pools, caches, descriptors and streams are shared by name. An
    object's reference count is 32 bits wide and wraps;
  \<^item> the descriptor and stream tables \<^verbatim>\<open>src/client/TazerFileDescriptor.cpp\<close> and
    \<^verbatim>\<open>src/client/TazerFileStream.cpp\<close>, two clients of it;
  \<^item> \<open>fc_register\<close>: the table of \<^verbatim>\<open>src/common/FileCacheRegister.cpp\<close> that gives every file
    name a number.

  The locale \<open>refcounted\<close> is the contract of a reference-counted map; its clients see a
  key for as long as one more reference was taken than given back.
\<close>

subsection \<open>Trackable\<close>

record 'v tracked =
  t_id :: u32
  t_users :: u32
  t_freed :: bool
  t_val :: 'v

record ('k, 'v) trackable =
  total :: u32
  active :: "'k \<rightharpoonup> 'v tracked"

definition trackable_init :: "('k, 'v) trackable" where
  "trackable_init = \<lparr>total = 0, active = Map.empty\<rparr>"

text \<open>The constructor \<open>Trackable()\<close>: the next id, no users.\<close>

definition new_tracked :: "('k, 'v) trackable \<Rightarrow> 'v \<Rightarrow> ('k, 'v) trackable \<times> 'v tracked" where
  "new_tracked r v =
     (r\<lparr>total := total r + 1\<rparr>, \<lparr>t_id = total r, t_users = 0, t_freed = False, t_val = v\<rparr>)"

definition incUsers :: "'v tracked \<Rightarrow> 'v tracked" where
  "incUsers t = t\<lparr>t_users := t_users t + 1\<rparr>"

definition decUsers :: "'v tracked \<Rightarrow> u32 \<Rightarrow> 'v tracked \<times> bool" where
  "decUsers t dec = (t\<lparr>t_users := t_users t - dec\<rparr>, t_users t = 1)"

text \<open>
  \<open>AddTrackable(k, createNew, reuseOld, created)\<close>. \<open>createNew\<close> is what the factory makes of
  a new object (\<open>None\<close> where it returns NULL), \<open>reuseOld\<close> what it does to an existing one;
  the result is the new registry, the returned object and the out parameter \<open>created\<close>.
  (A factory that constructs an object and drops it again also uses up a number of \<open>total\<close>.)
\<close>

definition AddTrackable ::
  "('k, 'v) trackable \<Rightarrow> 'k \<Rightarrow> 'v option \<Rightarrow> ('v \<Rightarrow> 'v) option \<Rightarrow> bool \<Rightarrow>
   ('k, 'v) trackable \<times> 'v tracked option \<times> bool" where
  "AddTrackable r k createNew reuseOld created =
     (case active r k of
        None \<Rightarrow>
          (case createNew of
             None \<Rightarrow> (r, None, created)
           | Some v \<Rightarrow>
               (let (r1, t) = new_tracked r v; t' = incUsers t
                in (r1\<lparr>active := (active r1)(k \<mapsto> t')\<rparr>, Some t', True)))
      | Some t \<Rightarrow>
          (let t1 = (case reuseOld of None \<Rightarrow> t | Some f \<Rightarrow> t\<lparr>t_val := f (t_val t)\<rparr>);
               t' = incUsers t1
           in (r\<lparr>active := (active r)(k \<mapsto> t')\<rparr>, Some t', created)))"

definition RemoveTrackable ::
  "('k, 'v) trackable \<Rightarrow> 'k \<Rightarrow> u32 \<Rightarrow> ('k, 'v) trackable \<times> bool" where
  "RemoveTrackable r k dec =
     (case active r k of
        None \<Rightarrow> (r, False)
      | Some toDelete \<Rightarrow>
          (let (t', last) = decUsers toDelete dec
           in if last then (r\<lparr>active := (active r)(k := None)\<rparr>, True)
              else (r\<lparr>active := (active r)(k \<mapsto> t')\<rparr>, False)))"

definition LookupTrackable :: "('k, 'v) trackable \<Rightarrow> 'k \<Rightarrow> 'v tracked option" where
  "LookupTrackable r k = active r k"

text \<open>\<open>RemoveAllTrackable\<close> deletes every object but leaves the pointers in the map.\<close>

definition RemoveAllTrackable :: "('k, 'v) trackable \<Rightarrow> ('k, 'v) trackable" where
  "RemoveAllTrackable r =
     r\<lparr>active := (\<lambda>k. map_option (\<lambda>t. t\<lparr>t_freed := True\<rparr>) (active r k))\<rparr>"

subsection \<open>The contract of a reference-counted map\<close>

datatype 'k ref_op = Acquire 'k | Release 'k

fun balance :: "'k ref_op list \<Rightarrow> ('k \<Rightarrow> nat) \<Rightarrow> 'k \<Rightarrow> nat" where
  "balance [] c = c"
| "balance (Acquire k # ops) c = balance ops (c(k := Suc (c k)))"
| "balance (Release k # ops) c = balance ops (c(k := c k - 1))"

locale refcounted =
  fixes acq :: "'s \<Rightarrow> 'k \<Rightarrow> 's"
    and rel :: "'s \<Rightarrow> 'k \<Rightarrow> 's"
    and refs :: "'s \<Rightarrow> 'k \<Rightarrow> nat"
    and wf :: "'s \<Rightarrow> bool"
    and limit :: nat
  assumes wf_acq: "wf s \<Longrightarrow> Suc (refs s k) < limit \<Longrightarrow> wf (acq s k)"
    and wf_rel: "wf s \<Longrightarrow> wf (rel s k)"
    and refs_acq: "wf s \<Longrightarrow> Suc (refs s k) < limit \<Longrightarrow> refs (acq s k) = (refs s)(k := Suc (refs s k))"
    and refs_rel: "wf s \<Longrightarrow> refs (rel s k) = (refs s)(k := refs s k - 1)"
begin

fun run :: "'k ref_op list \<Rightarrow> 's \<Rightarrow> 's" where
  "run [] s = s"
| "run (Acquire k # ops) s = run ops (acq s k)"
| "run (Release k # ops) s = run ops (rel s k)"

lemma run_refs:
  assumes "wf s" "\<And>k. refs s k + length ops < limit"
  shows "wf (run ops s) \<and> refs (run ops s) = balance ops (refs s)"
  using assms
proof (induction ops arbitrary: s)
  case Nil
  then show ?case by simp
next
  case (Cons opn ops)
  show ?case
  proof (cases opn)
    case (Acquire k)
    have lim: "Suc (refs s k) < limit" using Cons.prems(2) [of k] by simp
    have "refs (acq s k) j + length ops < limit" for j
      using Cons.prems(2) [of j] refs_acq [OF Cons.prems(1) lim] by auto
    then show ?thesis
      using Cons.IH [of "acq s k"] wf_acq [OF Cons.prems(1) lim] refs_acq [OF Cons.prems(1) lim]
        Acquire by (simp add: fun_upd_def)
  next
    case (Release k)
    have "refs (rel s k) j + length ops < limit" for j
      using Cons.prems(2) [of j] Cons.prems(2) [of k] refs_rel [OF Cons.prems(1)] by auto
    then show ?thesis
      using Cons.IH [of "rel s k"] wf_rel [OF Cons.prems(1)] refs_rel [OF Cons.prems(1)]
        Release by (simp add: fun_upd_def)
  qed
qed

end

subsection \<open>Trackable fulfils it\<close>

definition track_refs :: "('k, 'v) trackable \<Rightarrow> 'k \<Rightarrow> nat" where
  "track_refs r k = (case active r k of None \<Rightarrow> 0 | Some t \<Rightarrow> unat (t_users t))"

text \<open>Every registered object has a user and is alive.\<close>

definition track_wf :: "('k, 'v) trackable \<Rightarrow> bool" where
  "track_wf r \<longleftrightarrow> (\<forall>k t. active r k = Some t \<longrightarrow> t_users t \<noteq> 0 \<and> \<not> t_freed t)"

definition track_acq :: "('k \<Rightarrow> 'v) \<Rightarrow> ('k, 'v) trackable \<Rightarrow> 'k \<Rightarrow> ('k, 'v) trackable" where
  "track_acq mk r k = fst (AddTrackable r k (Some (mk k)) None False)"

definition track_rel :: "('k, 'v) trackable \<Rightarrow> 'k \<Rightarrow> ('k, 'v) trackable" where
  "track_rel r k = fst (RemoveTrackable r k 1)"

lemma unat_Suc_small: "Suc (unat w) < 2 ^ 32 \<Longrightarrow> unat (w + 1 :: u32) = Suc (unat w)"
  using unat_add_small [of w 1] by simp

lemma word_plus1_nz: "Suc (unat w) < 2 ^ 32 \<Longrightarrow> (w + 1 :: u32) \<noteq> 0"
  by (metis unat_Suc_small unsigned_0 nat.distinct(1))

lemma unat_pred: "w \<noteq> 0 \<Longrightarrow> unat (w - 1 :: u32) = unat w - 1"
  by (simp add: unat_minus_one)

interpretation tr: refcounted "track_acq mk" track_rel track_refs track_wf "2 ^ 32" for mk
proof (unfold_locales, goal_cases)
  case (1 s k)
  then show ?case
    by (auto simp: track_wf_def track_acq_def AddTrackable_def new_tracked_def incUsers_def
        track_refs_def word_plus1_nz Let_def split: option.splits if_splits)
next
  case (2 s k)
  then show ?case
    by (auto simp: track_wf_def track_rel_def RemoveTrackable_def decUsers_def
        split: option.splits if_splits)
next
  case (3 s k)
  then show ?case
    by (auto simp: track_wf_def track_acq_def AddTrackable_def new_tracked_def incUsers_def
        track_refs_def unat_Suc_small Let_def fun_eq_iff split: option.splits)
next
  case (4 s k)
  then show ?case
    by (auto simp: track_wf_def track_rel_def RemoveTrackable_def decUsers_def
        track_refs_def unat_pred fun_eq_iff split: option.splits)
qed

lemma track_wf_init: "track_wf trackable_init"
  by (simp add: track_wf_def trackable_init_def)

lemma track_wf_present: "track_wf r \<Longrightarrow> LookupTrackable r k \<noteq> None \<longleftrightarrow> 0 < track_refs r k"
  by (auto simp: track_wf_def track_refs_def LookupTrackable_def unat_gt_0 split: option.splits)

text \<open>The operations in sequence, as one function of the registry.\<close>

fun track_run :: "('k \<Rightarrow> 'v) \<Rightarrow> 'k ref_op list \<Rightarrow> ('k, 'v) trackable \<Rightarrow> ('k, 'v) trackable" where
  "track_run mk [] r = r"
| "track_run mk (Acquire k # ops) r = track_run mk ops (track_acq mk r k)"
| "track_run mk (Release k # ops) r = track_run mk ops (track_rel r k)"

lemma track_run_eq: "track_run mk ops r = tr.run mk ops r"
  by (induction mk ops r rule: track_run.induct) simp_all



text \<open>
  \<open>RemoveTrackable\<close> with \<open>dec\<close> other than 1 can leave an object without users: the test
  for the last user compares the old count with 1 and not with \<open>dec\<close>, so two references
  given back at once keep the key registered for ever, at count zero.
\<close>

theorem remove_two_at_once_leaks:
  assumes "active r k = Some t" and "t_users t = 2"
  shows "snd (RemoveTrackable r k 2) = False
    \<and> LookupTrackable (fst (RemoveTrackable r k 2)) k = Some (t\<lparr>t_users := 0\<rparr>)"
  using assms by (simp add: RemoveTrackable_def decUsers_def LookupTrackable_def)

theorem remove_two_at_once_leaks_witness:
  "snd (RemoveTrackable (track_run (\<lambda>k. k) [Acquire CHR ''a'', Acquire CHR ''a''] trackable_init) CHR ''a'' 2) = False"
proof -
  let ?r = "track_run (\<lambda>k. k) [Acquire CHR ''a'', Acquire CHR ''a''] trackable_init"
  have "active ?r CHR ''a'' = Some \<lparr>t_id = 0, t_users = 2, t_freed = False, t_val = CHR ''a''\<rparr>"
    by (simp add: track_acq_def AddTrackable_def new_tracked_def incUsers_def trackable_init_def
        Let_def)
  from remove_two_at_once_leaks [OF this] show ?thesis by simp
qed


subsection \<open>File descriptors and streams\<close>

text \<open>
  A descriptor object holds the file (a pointer; here the key of the file) and the index
  of the file position in it.
\<close>

record 'f tazer_fd =
  fd_file :: 'f
  fd_index :: u32

definition lookupTazerFileDescriptor ::
  "(int, 'f tazer_fd) trackable \<Rightarrow> int \<Rightarrow> ('f \<times> u32) option" where
  "lookupTazerFileDescriptor r fd =
     (case LookupTrackable r fd of
        None \<Rightarrow> None
      | Some v \<Rightarrow> Some (fd_file (t_val v), fd_index (t_val v)))"

definition addTazerFileDescriptor ::
  "(int, 'f tazer_fd) trackable \<Rightarrow> int \<Rightarrow> 'f \<Rightarrow> u32 \<Rightarrow> (int, 'f tazer_fd) trackable \<times> bool" where
  "addTazerFileDescriptor r fd file index =
     (let (r', v, _) =
        AddTrackable r fd (Some \<lparr>fd_file = file, fd_index = index\<rparr>) None False
      in (r', v \<noteq> None))"

definition removeTazerFileDescriptor ::
  "(int, 'f tazer_fd) trackable \<Rightarrow> int \<Rightarrow> (int, 'f tazer_fd) trackable \<times> bool" where
  "removeTazerFileDescriptor r fd = RemoveTrackable r fd 1"

record tazer_stream =
  stream_fd :: int

definition addStream ::
  "('p, tazer_stream) trackable \<Rightarrow> 'p \<Rightarrow> int \<Rightarrow> ('p, tazer_stream) trackable \<times> bool" where
  "addStream r fp fd =
     (let (r', v, _) = AddTrackable r fp (Some \<lparr>stream_fd = fd\<rparr>) None False in (r', v \<noteq> None))"

definition removeStream ::
  "('p, tazer_stream) trackable \<Rightarrow> 'p \<Rightarrow> ('p, tazer_stream) trackable \<times> bool" where
  "removeStream r fp = RemoveTrackable r fp 1"

text \<open>The lock of the stream is the stream's own, so its key \<open>fp\<close> stands for it.\<close>

definition lookupStream :: "('p, tazer_stream) trackable \<Rightarrow> 'p \<Rightarrow> int \<times> 'p option" where
  "lookupStream r fp =
     (case LookupTrackable r fp of
        None \<Rightarrow> (- 1, None)
      | Some v \<Rightarrow> (stream_fd (t_val v), Some fp))"

text \<open>
  the descriptor table maps a descriptor to the file and the position index it was
  opened with until it is closed as often as it was added; adding it a second time keeps
  the first file. Other descriptors are not touched.
\<close>

theorem descriptor_table:
  fixes r :: "(int, 'f tazer_fd) trackable" and f :: 'f and ix :: u32
  assumes "lookupTazerFileDescriptor r fd = None"
  defines "r1 \<equiv> fst (addTazerFileDescriptor r fd f ix)"
  shows "snd (addTazerFileDescriptor r fd f ix)
    \<and> lookupTazerFileDescriptor r1 fd = Some (f, ix)
    \<and> lookupTazerFileDescriptor (fst (addTazerFileDescriptor r1 fd f' ix')) fd
        = Some (f, ix)
    \<and> lookupTazerFileDescriptor (fst (removeTazerFileDescriptor r1 fd)) fd = None
    \<and> (fd' \<noteq> fd \<longrightarrow> lookupTazerFileDescriptor r1 fd' = lookupTazerFileDescriptor r fd')"
proof -
  have "active r fd = None"
    using assms(1) by (auto simp: lookupTazerFileDescriptor_def LookupTrackable_def split: option.splits)
  then show ?thesis
    by (simp add: r1_def lookupTazerFileDescriptor_def addTazerFileDescriptor_def
        removeTazerFileDescriptor_def AddTrackable_def RemoveTrackable_def LookupTrackable_def
        new_tracked_def incUsers_def decUsers_def Let_def)
qed

theorem descriptor_table_witness:
  "lookupTazerFileDescriptor
     (fst (addTazerFileDescriptor (trackable_init :: (int, nat tazer_fd) trackable) 7 42 0)) 7
   = Some (42, 0)"
  using descriptor_table [of "trackable_init :: (int, nat tazer_fd) trackable" 7 42 0 0 0 0]
  by (simp add: lookupTazerFileDescriptor_def LookupTrackable_def trackable_init_def)

subsection \<open>The file cache register\<close>

text \<open>
  The register is one array of \<open>NUMENTRIES\<close> rows of \<open>MAXFILENAME\<close> characters, each a C string,
  and the number of rows handed out. \<open>None\<close> as a result is an access outside of the array or
  of a row.
\<close>

definition NUMENTRIES :: nat where "NUMENTRIES = 10000"
definition MAXFILENAME :: nat where "MAXFILENAME = 1024"

record fc_register =
  available :: int
  fileName :: "string list"

definition FileCacheRegister_init :: fc_register where
  "FileCacheRegister_init = \<lparr>available = 0, fileName = replicate NUMENTRIES []\<rparr>"

text \<open>The loop of \<open>registerFile\<close>: the first row that holds the name.\<close>

function find_row :: "string list \<Rightarrow> string \<Rightarrow> int \<Rightarrow> int \<Rightarrow> int option option" where
  "find_row rows name i temp =
     (if i < temp
      then (if i < 0 \<or> int (length rows) \<le> i then None
            else if rows ! nat i = name then Some (Some i)
            else find_row rows name (i + 1) temp)
      else Some None)"
  by pat_completeness auto
termination
  by (relation "measure (\<lambda>(rows, name, i, temp). nat (temp - i))") auto

declare find_row.simps [simp del]

definition c_str :: "string \<Rightarrow> string" where
  "c_str s = takeWhile (\<lambda>c. c \<noteq> CHR 0x00) s"

definition registerFile :: "fc_register \<Rightarrow> string \<Rightarrow> (fc_register \<times> nat) option" where
  "registerFile r name =
     (case find_row (fileName r) name 0 (available r) of
        None \<Rightarrow> None
      | Some (Some i) \<Rightarrow> Some (r, nat (i + 1))
      | Some None \<Rightarrow>
          (let index = available r; r' = r\<lparr>available := available r + 1\<rparr>
           in if index < int NUMENTRIES
              then if length name + 1 \<le> MAXFILENAME
                   then Some (r'\<lparr>fileName := (fileName r')[nat index := c_str name]\<rparr>, nat (index + 1))
                   else None
              else Some (r', 0)))"

text \<open>The loop of \<open>getFileRegisterIndex\<close> does not stop at the first match.\<close>

function last_row :: "string list \<Rightarrow> string \<Rightarrow> int \<Rightarrow> int \<Rightarrow> nat \<Rightarrow> nat option" where
  "last_row rows name i temp index =
     (if i < temp
      then (if i < 0 \<or> int (length rows) \<le> i then None
            else last_row rows name (i + 1) temp
                   (if rows ! nat i = name then nat (i + 1) else index))
      else Some index)"
  by pat_completeness auto
termination
  by (relation "measure (\<lambda>(rows, name, i, temp, index). nat (temp - i))") auto

declare last_row.simps [simp del]

definition getFileRegisterIndex :: "fc_register \<Rightarrow> string \<Rightarrow> nat option" where
  "getFileRegisterIndex r name = last_row (fileName r) name 0 (available r) 0"


definition reg_wf :: "fc_register \<Rightarrow> bool" where
  "reg_wf r \<longleftrightarrow> length (fileName r) = NUMENTRIES \<and> 0 \<le> available r \<and>
     available r \<le> int NUMENTRIES \<and> distinct (take (nat (available r)) (fileName r))"

lemma reg_wf_init: "reg_wf FileCacheRegister_init"
  by (simp add: reg_wf_def FileCacheRegister_init_def)

lemma find_row_result:
  "0 \<le> i \<Longrightarrow> temp \<le> int (length rows) \<Longrightarrow>
     (case find_row rows name i temp of
        None \<Rightarrow> False
      | Some None \<Rightarrow> \<forall>j. i \<le> j \<and> j < temp \<longrightarrow> rows ! nat j \<noteq> name
      | Some (Some k) \<Rightarrow> i \<le> k \<and> k < temp \<and> rows ! nat k = name)"
proof (induction rows name i temp rule: find_row.induct)
  case (1 rows name i temp)
  show ?case
  proof (cases "i < temp \<and> rows ! nat i \<noteq> name")
    case True
    with 1 have IH: "case find_row rows name (i + 1) temp of
        None \<Rightarrow> False
      | Some None \<Rightarrow> \<forall>j. i + 1 \<le> j \<and> j < temp \<longrightarrow> rows ! nat j \<noteq> name
      | Some (Some k) \<Rightarrow> i + 1 \<le> k \<and> k < temp \<and> rows ! nat k = name"
      by simp
    have "find_row rows name i temp = find_row rows name (i + 1) temp"
      using True "1.prems" by (subst find_row.simps) simp
    moreover have "j = i \<or> i + 1 \<le> j" if "i \<le> j" for j :: int using that by auto
    ultimately show ?thesis
      using IH True by (auto split: option.splits)
  next
    case False
    then show ?thesis
      using "1.prems" by (subst find_row.simps) auto
  qed
qed

lemma find_row_hit:
  assumes "0 \<le> temp" "temp \<le> int (length rows)" "distinct (take (nat temp) rows)"
    and "k < nat temp" "rows ! k = name"
  shows "find_row rows name 0 temp = Some (Some (int k))"
proof -
  have r: "case find_row rows name 0 temp of
        None \<Rightarrow> False
      | Some None \<Rightarrow> \<forall>j. 0 \<le> j \<and> j < temp \<longrightarrow> rows ! nat j \<noteq> name
      | Some (Some k) \<Rightarrow> 0 \<le> k \<and> k < temp \<and> rows ! nat k = name"
    using find_row_result [of 0 temp rows name] assms(2) by simp
  have "j = int k" if "0 \<le> j" "j < temp" "rows ! nat j = name" for j
  proof -
    have "take (nat temp) rows ! nat j = take (nat temp) rows ! k" "nat j < nat temp"
      using that assms(4,5) by simp_all
    then have "nat j = k"
      using assms(2-4) nth_eq_iff_index_eq [of "take (nat temp) rows" "nat j" k] by simp
    with that show ?thesis by auto
  qed
  moreover have "0 \<le> int k \<and> int k < temp \<and> rows ! nat (int k) = name" using assms(4,5) by auto
  moreover from this have "\<not> (\<forall>j. 0 \<le> j \<and> j < temp \<longrightarrow> rows ! nat j \<noteq> name)" by blast
  ultimately show ?thesis using r by (auto split: option.splits)
qed

lemma last_row_none:
  "0 \<le> i \<Longrightarrow> temp \<le> int (length rows) \<Longrightarrow>
     (\<And>j. i \<le> j \<Longrightarrow> j < temp \<Longrightarrow> rows ! nat j \<noteq> name) \<Longrightarrow>
     last_row rows name i temp index = Some index"
proof (induction rows name i temp index rule: last_row.induct)
  case (1 rows name i temp index)
  show ?case
  proof (cases "i < temp")
    case True
    then have ne: "rows ! nat i \<noteq> name" using "1.prems"(3) by simp
    have "last_row rows name (i + 1) temp index = Some index"
      using "1.IH" "1.prems" True ne by simp
    then show ?thesis using "1.prems"(1,2) True ne by (subst last_row.simps) simp
  next
    case False
    then show ?thesis by (subst last_row.simps) simp
  qed
qed

lemma last_row_one:
  "0 \<le> i \<Longrightarrow> temp \<le> int (length rows) \<Longrightarrow> i \<le> k \<Longrightarrow> k < temp \<Longrightarrow> rows ! nat k = name \<Longrightarrow>
     (\<And>j. i \<le> j \<Longrightarrow> j < temp \<Longrightarrow> rows ! nat j = name \<Longrightarrow> j = k) \<Longrightarrow>
     last_row rows name i temp index = Some (nat (k + 1))"
proof (induction rows name i temp index rule: last_row.induct)
  case (1 rows name i temp index)
  have lt: "i < temp" using "1.prems"(3,4) by simp
  show ?case
  proof (cases "i = k")
    case True
    have "rows ! nat j \<noteq> name" if "i + 1 \<le> j" "j < temp" for j
      using "1.prems"(6) [of j] True that by auto
    then have "last_row rows name (i + 1) temp (nat (k + 1)) = Some (nat (k + 1))"
      using "1.prems"(1,2) by (intro last_row_none) auto
    then show ?thesis using "1.prems"(1,2,5) lt True by (subst last_row.simps) simp
  next
    case False
    then have ne: "rows ! nat i \<noteq> name" using "1.prems"(6) [of i] lt by blast
    have "last_row rows name (i + 1) temp (if rows ! nat i = name then nat (i + 1) else index)
        = Some (nat (k + 1))"
    proof (rule "1.IH" [OF lt])
      show "j = k" if "i + 1 \<le> j" "j < temp" "rows ! nat j = name" for j
        using "1.prems"(6) [of j] that by simp
    qed (use "1.prems"(1-5) lt False in auto)
    then have "last_row rows name (i + 1) temp index = Some (nat (k + 1))" using ne by simp
    then show ?thesis using "1.prems"(1,2) lt ne by (subst last_row.simps) simp
  qed
qed

lemma reg_lookup:
  assumes wf: "reg_wf r" and k: "k < nat (available r)" and name: "fileName r ! k = name"
  shows "getFileRegisterIndex r name = Some (Suc k)"
proof -
  let ?t = "take (nat (available r)) (fileName r)"
  have "j = int k" if "0 \<le> j" "j < available r" "fileName r ! nat j = name" for j
  proof -
    have "?t ! nat j = ?t ! k" "nat j < length ?t" "k < length ?t"
      using that wf k name by (auto simp: reg_wf_def)
    then have "nat j = k"
      using wf nth_eq_iff_index_eq [of ?t "nat j" k] by (simp add: reg_wf_def)
    then show ?thesis using that by simp
  qed
  moreover have "available r \<le> int (length (fileName r))" using wf by (simp add: reg_wf_def)
  ultimately have "last_row (fileName r) name 0 (available r) 0 = Some (nat (int k + 1))"
    using k name by (intro last_row_one) auto
  then show ?thesis by (simp add: getFileRegisterIndex_def nat_add_distrib)
qed

text \<open>The register as an abstract table: the names in the order of their numbers.\<close>

definition reg_names :: "fc_register \<Rightarrow> string list" where
  "reg_names r = take (nat (available r)) (fileName r)"

lemma registerFile_known:
  assumes "reg_wf r" "k < length (reg_names r)" "reg_names r ! k = name"
  shows "registerFile r name = Some (r, Suc k)" "getFileRegisterIndex r name = Some (Suc k)"
proof -
  have "find_row (fileName r) name 0 (available r) = Some (Some (int k))"
    using assms by (intro find_row_hit) (auto simp: reg_wf_def reg_names_def)
  then show "registerFile r name = Some (r, Suc k)" "getFileRegisterIndex r name = Some (Suc k)"
    using reg_lookup [OF assms(1), of k name] assms(2,3)
    by (simp_all add: registerFile_def nat_add_distrib reg_names_def)
qed

lemma find_row_new:
  assumes "reg_wf r" "name \<notin> set (reg_names r)"
  shows "find_row (fileName r) name 0 (available r) = Some None"
proof -
  have "fileName r ! nat j \<noteq> name" if "0 \<le> j" "j < available r" for j
  proof
    assume "fileName r ! nat j = name"
    then have "reg_names r ! nat j = name" "nat j < length (reg_names r)"
      using that assms(1) by (auto simp: reg_names_def reg_wf_def)
    then show False using assms(2) nth_mem by metis
  qed
  then show ?thesis
    using find_row_result [of 0 "available r" "fileName r" name] assms(1)
    by (auto simp: reg_wf_def split: option.splits)
qed

lemma c_str_id: "CHR 0x00 \<notin> set s \<Longrightarrow> c_str s = s"
  by (auto simp: c_str_def)

lemma registerFile_new:
  assumes wf: "reg_wf r" and new: "name \<notin> set (reg_names r)"
    and room: "available r < int NUMENTRIES" and len: "length name < MAXFILENAME"
    and nul: "CHR 0x00 \<notin> set name"
  shows "\<exists>r'. registerFile r name = Some (r', Suc (length (reg_names r))) \<and> reg_wf r' \<and>
    reg_names r' = reg_names r @ [name]"
proof -
  define r' where "r' = r\<lparr>available := available r + 1,
    fileName := (fileName r)[nat (available r) := name]\<rparr>"
  have n: "nat (available r) < length (fileName r)" "0 \<le> available r"
    using wf room by (auto simp: reg_wf_def)
  have names: "reg_names r' = reg_names r @ [name]"
    using n by (simp add: reg_names_def r'_def nat_add_distrib take_Suc_conv_app_nth)
  have "reg_wf r'"
    using wf room names new unfolding reg_names_def [symmetric] reg_wf_def
    by (auto simp: r'_def reg_names_def [symmetric])
  moreover have "registerFile r name = Some (r', Suc (length (reg_names r)))"
    using find_row_new [OF wf new] room len c_str_id [OF nul] n
    by (simp add: registerFile_def r'_def reg_names_def Let_def nat_add_distrib)
  ultimately show ?thesis using names by blast
qed

text \<open>
  registering a file gives it a number that \<open>getFileRegisterIndex\<close> finds again, that a
  second registration returns unchanged, and that no later registration of another name
  moves: the register behaves as the growing list of its names.
\<close>

theorem register_roundtrip:
  assumes wf: "reg_wf r" and len: "length name < MAXFILENAME" and nul: "CHR 0x00 \<notin> set name"
    and room: "available r < int NUMENTRIES"
  shows "\<exists>r' i. registerFile r name = Some (r', Suc i) \<and> reg_wf r' \<and>
     i < length (reg_names r') \<and> reg_names r' ! i = name \<and>
     getFileRegisterIndex r' name = Some (Suc i) \<and> registerFile r' name = Some (r', Suc i) \<and>
     (\<forall>k other. k < length (reg_names r) \<longrightarrow> reg_names r ! k = other \<longrightarrow>
        getFileRegisterIndex r' other = Some (Suc k))"
proof (cases "name \<in> set (reg_names r)")
  case True
  then obtain i where i: "i < length (reg_names r)" "reg_names r ! i = name"
    by (auto simp: in_set_conv_nth)
  then show ?thesis
    using registerFile_known [OF wf i] registerFile_known(2) [OF wf] wf by blast
next
  case False
  then obtain r' where r': "registerFile r name = Some (r', Suc (length (reg_names r)))"
      "reg_wf r'" "reg_names r' = reg_names r @ [name]"
    using registerFile_new [OF wf _ room len nul] by blast
  let ?i = "length (reg_names r)"
  have i: "?i < length (reg_names r')" "reg_names r' ! ?i = name" using r'(3) by simp_all
  have "getFileRegisterIndex r' (reg_names r ! k) = Some (Suc k)" if "k < ?i" for k
    using registerFile_known(2) [OF r'(2), of k "reg_names r ! k"] that r'(3)
    by (simp add: nth_append)
  then show ?thesis
    using r'(1,2) i registerFile_known [OF r'(2) i] by blast
qed

theorem register_roundtrip_witness:
  "\<exists>r' i. registerFile FileCacheRegister_init ''data.root'' = Some (r', Suc i)"
  using register_roundtrip [of FileCacheRegister_init "''data.root''"] reg_wf_init
  by (auto simp: MAXFILENAME_def NUMENTRIES_def FileCacheRegister_init_def)

text \<open>
  a full register answers 0 for a new name, but still counts it: the next
  registration of a new name reads past the end of the table.
\<close>

theorem register_overflow:
  assumes wf: "reg_wf r" and full: "available r = int NUMENTRIES"
    and new: "name \<notin> set (reg_names r)" and new': "name' \<notin> set (reg_names r)"
  shows "\<exists>r'. registerFile r name = Some (r', 0) \<and> registerFile r' name' = None"
proof -
  let ?r' = "r\<lparr>available := available r + 1\<rparr>"
  have 1: "registerFile r name = Some (?r', 0)"
    using find_row_new [OF wf new] full by (simp add: registerFile_def Let_def)
  have step: "find_row (fileName r) name' i (available r + 1) = None"
    if "0 \<le> i" "i \<le> available r" for i
    using that
  proof (induction "nat (available r - i)" arbitrary: i)
    case 0
    then have "i = available r" by simp
    then show ?case using wf full by (subst find_row.simps) (simp add: reg_wf_def)
  next
    case (Suc n)
    have "find_row (fileName r) name' (i + 1) (available r + 1) = None"
      using Suc by (intro Suc.hyps) auto
    moreover have "fileName r ! nat i \<noteq> name'"
    proof
      assume "fileName r ! nat i = name'"
      moreover have "nat i < nat (available r)" using Suc.hyps(2) Suc.prems by arith
      ultimately have "reg_names r ! nat i = name'" "nat i < length (reg_names r)"
        using wf by (auto simp: reg_names_def reg_wf_def)
      then show False using new' nth_mem by metis
    qed
    ultimately show ?case
      using Suc.hyps(2) Suc.prems wf by (subst find_row.simps) (simp add: reg_wf_def)
  qed
  have "registerFile ?r' name' = None"
    using step [of 0] wf by (simp add: registerFile_def reg_wf_def)
  with 1 show ?thesis by blast
qed

text \<open>A full register of distinct names.\<close>

definition full_register :: fc_register where
  "full_register = FileCacheRegister_init\<lparr>available := int NUMENTRIES,
     fileName := map (\<lambda>i. replicate i CHR ''a'') [0..<NUMENTRIES]\<rparr>"

lemma full_register_wf: "reg_wf full_register"
proof -
  have "inj_on (\<lambda>i. replicate i CHR ''a'') (set [0..<NUMENTRIES])"
    by (rule inj_onI) (metis length_replicate)
  then show ?thesis by (simp add: reg_wf_def full_register_def distinct_map)
qed

lemma full_register_names: "''b'' \<notin> set (reg_names full_register)"
proof -
  have "''b'' \<noteq> replicate i CHR ''a''" for i by (cases i) simp_all
  then show ?thesis by (auto simp: reg_names_def full_register_def)
qed

theorem register_overflow_witness:
  "\<exists>r'. registerFile full_register ''b'' = Some (r', 0) \<and> registerFile r' ''b'' = None"
proof (rule register_overflow)
  show "reg_wf full_register" by (rule full_register_wf)
  show "available full_register = int NUMENTRIES" by (simp add: full_register_def)
qed (rule full_register_names)+

end
