(* ===== verification/WireFormat.thy ===== *)
theory WireFormat
  imports TazerPrelude "HOL-Library.Monad_Syntax"
begin

text \<open>
  The messages of \<^verbatim>\<open>inc/tazer/Message.h\<close> and \<^verbatim>\<open>src/common/Message.cpp\<close> as bytes: the packed
  structs in the byte order of the machine (little endian), the builders that the send
  functions run, \<open>checkMsg\<close> and the parsers. A read outside of the buffer is \<open>None\<close>.
\<close>

named_theorems wire_simps \<open>reading fields out of concatenated layouts\<close>

subsection \<open>Integers in memory\<close>

fun le_bytes :: "nat \<Rightarrow> nat \<Rightarrow> bytes" where
  "le_bytes 0 x = []"
| "le_bytes (Suc n) x = of_nat (x mod 256) # le_bytes n (x div 256)"

fun le_val :: "bytes \<Rightarrow> nat" where
  "le_val [] = 0"
| "le_val (b # bs) = unat b + 256 * le_val bs"

lemma length_le_bytes [simp]: "length (le_bytes n x) = n"
  by (induction n arbitrary: x) simp_all

lemma le_val_le_bytes: "le_val (le_bytes n x) = x mod 256 ^ n"
proof (induction n arbitrary: x)
  case (Suc n)
  have "le_val (le_bytes (Suc n) x) = x mod 256 + 256 * (x div 256 mod 256 ^ n)"
    by (simp add: Suc unat_of_nat_small)
  also have "\<dots> = x mod (256 * 256 ^ n)" by (simp add: mod_mult2_eq)
  finally show ?case by simp
qed simp

definition put_u32 :: "u32 \<Rightarrow> bytes" where "put_u32 w = le_bytes 4 (unat w)"
definition put_u64 :: "u64 \<Rightarrow> bytes" where "put_u64 w = le_bytes 8 (unat w)"
definition put_bool :: "bool \<Rightarrow> u8" where "put_bool b = (if b then 1 else 0)"

definition get_u8 :: "bytes \<Rightarrow> nat \<Rightarrow> u8 option" where
  "get_u8 buf off = (if off < length buf then Some (buf ! off) else None)"

definition get_u32 :: "bytes \<Rightarrow> nat \<Rightarrow> u32 option" where
  "get_u32 buf off = map_option (\<lambda>bs. of_nat (le_val bs)) (mem_slice off 4 buf)"

definition get_u64 :: "bytes \<Rightarrow> nat \<Rightarrow> u64 option" where
  "get_u64 buf off = map_option (\<lambda>bs. of_nat (le_val bs)) (mem_slice off 8 buf)"

text \<open>\<open>std::string(p)\<close>: the bytes up to the first NUL; without one the read leaves the buffer.\<close>

definition cstring_at :: "bytes \<Rightarrow> nat \<Rightarrow> bytes option" where
  "cstring_at buf off =
     (if 0 \<in> set (drop off buf) then Some (takeWhile (\<lambda>b. b \<noteq> 0) (drop off buf)) else None)"

lemma length_put [simp]: "length (put_u32 w) = 4" "length (put_u64 v) = 8"
  by (simp_all add: put_u32_def put_u64_def)

lemma get_u32_put [wire_simps]: "get_u32 (put_u32 w @ r) 0 = Some w"
  using unat_bound [of w]
  by (simp add: get_u32_def put_u32_def mem_slice_def le_val_le_bytes)

lemma get_u64_put [wire_simps]: "get_u64 (put_u64 w @ r) 0 = Some w"
  using unat_bound [of w]
  by (simp add: get_u64_def put_u64_def mem_slice_def le_val_le_bytes)

lemmas get_put_last [wire_simps] = get_u32_put [where r = "[]", simplified]
  get_u64_put [where r = "[]", simplified]

lemma mem_slice_skip: "length p \<le> off \<Longrightarrow> mem_slice off n (p @ r) = mem_slice (off - length p) n r"
  by (auto simp: mem_slice_def)

lemma get_skip [wire_simps]:
  "4 \<le> off \<Longrightarrow> get_u32 (put_u32 w @ r) off = get_u32 r (off - 4)"
  "8 \<le> off \<Longrightarrow> get_u32 (put_u64 v @ r) off = get_u32 r (off - 8)"
  "4 \<le> off \<Longrightarrow> get_u64 (put_u32 w @ r) off = get_u64 r (off - 4)"
  "8 \<le> off \<Longrightarrow> get_u64 (put_u64 v @ r) off = get_u64 r (off - 8)"
  "4 \<le> off \<Longrightarrow> get_u8 (put_u32 w @ r) off = get_u8 r (off - 4)"
  "8 \<le> off \<Longrightarrow> get_u8 (put_u64 v @ r) off = get_u8 r (off - 8)"
  by (auto simp: get_u32_def get_u64_def get_u8_def mem_slice_skip nth_append)

lemma get_skip_byte [wire_simps]:
  "1 \<le> off \<Longrightarrow> get_u32 (b # r) off = get_u32 r (off - 1)"
  "1 \<le> off \<Longrightarrow> get_u64 (b # r) off = get_u64 r (off - 1)"
  "1 \<le> off \<Longrightarrow> get_u8 (b # r) off = get_u8 r (off - 1)"
  "get_u8 (b # r) 0 = Some b"
  using mem_slice_skip [of "[b]" off _ r]
  by (auto simp: get_u32_def get_u64_def get_u8_def nth_Cons')

lemma cstring_skip [wire_simps]:
  "4 \<le> off \<Longrightarrow> cstring_at (put_u32 w @ r) off = cstring_at r (off - 4)"
  "8 \<le> off \<Longrightarrow> cstring_at (put_u64 v @ r) off = cstring_at r (off - 8)"
  "1 \<le> off \<Longrightarrow> cstring_at (b # r) off = cstring_at r (off - 1)"
  by (simp_all add: cstring_at_def drop_Cons')

lemma cstring_here [wire_simps]:
  "0 \<notin> set name \<Longrightarrow> cstring_at (name @ 0 # r) 0 = Some name"
  by (auto simp: cstring_at_def takeWhile_tail takeWhile_eq_all_conv)

lemma put_bool_eq_0 [simp]: "put_bool b = 0 \<longleftrightarrow> \<not> b"
  by (simp add: put_bool_def)

subsection \<open>Header and message types\<close>

definition MAGIC :: u64 where "MAGIC = 0x32ab4fd"

datatype msgType =
    OPEN_FILE_MSG | REQ_FILE_SIZE_MSG | FILE_SIZE_MSG | REQ_BLK_MSG | SEND_BLK_MSG
  | CLOSE_FILE_MSG | CLOSE_CON_MSG | CLOSE_SERVER_MSG | PING_MSG | WRITE_MSG | ACK_MSG

fun msg_code :: "msgType \<Rightarrow> u32" where
  "msg_code OPEN_FILE_MSG = 0" | "msg_code REQ_FILE_SIZE_MSG = 1" | "msg_code FILE_SIZE_MSG = 2"
| "msg_code REQ_BLK_MSG = 3" | "msg_code SEND_BLK_MSG = 4" | "msg_code CLOSE_FILE_MSG = 5"
| "msg_code CLOSE_CON_MSG = 6" | "msg_code CLOSE_SERVER_MSG = 7" | "msg_code PING_MSG = 8"
| "msg_code WRITE_MSG = 9" | "msg_code ACK_MSG = 10"

definition all_msgTypes :: "msgType list" where
  "all_msgTypes = [OPEN_FILE_MSG, REQ_FILE_SIZE_MSG, FILE_SIZE_MSG, REQ_BLK_MSG, SEND_BLK_MSG,
     CLOSE_FILE_MSG, CLOSE_CON_MSG, CLOSE_SERVER_MSG, PING_MSG, WRITE_MSG, ACK_MSG]"

definition msg_of_code :: "u32 \<Rightarrow> msgType option" where
  "msg_of_code c = find (\<lambda>t. msg_code t = c) all_msgTypes"

lemma msg_of_code [simp]: "msg_of_code (msg_code t) = Some t"
  by (cases t) (simp_all add: msg_of_code_def all_msgTypes_def)

lemma msg_code_le: "msg_code t \<le> msg_code ACK_MSG"
  by (cases t) simp_all

text \<open>\<open>sizeof\<close> of the packed structs.\<close>

abbreviation (input) sizeof_msgHeader :: nat where "sizeof_msgHeader \<equiv> 20"
abbreviation (input) sizeof_openFileMsg :: nat where "sizeof_openFileMsg \<equiv> 26"
abbreviation (input) sizeof_fileSizeMsg :: nat where "sizeof_fileSizeMsg \<equiv> 29"
abbreviation (input) sizeof_requestFileSizeMsg :: nat where "sizeof_requestFileSizeMsg \<equiv> 20"
abbreviation (input) sizeof_requestBlkMsg :: nat where "sizeof_requestBlkMsg \<equiv> 28"
abbreviation (input) sizeof_sendBlkMsg :: nat where "sizeof_sendBlkMsg \<equiv> 32"
abbreviation (input) sizeof_closeFileMsg :: nat where "sizeof_closeFileMsg \<equiv> 20"
abbreviation (input) sizeof_closeConMsg :: nat where "sizeof_closeConMsg \<equiv> 20"
abbreviation (input) sizeof_closeServerMsg :: nat where "sizeof_closeServerMsg \<equiv> 20"
abbreviation (input) sizeof_writeMsg :: nat where "sizeof_writeMsg \<equiv> 40"
abbreviation (input) sizeof_ackMsg :: nat where "sizeof_ackMsg \<equiv> 24"

definition fillMsgHeader :: "msgType \<Rightarrow> u32 \<Rightarrow> u32 \<Rightarrow> bytes" where
  "fillMsgHeader type fileNameSize sz =
     put_u64 MAGIC @ put_u32 (msg_code type) @ put_u32 fileNameSize @ put_u32 sz"

definition getMsgType :: "bytes \<Rightarrow> msgType option" where
  "getMsgType pkt = get_u32 pkt 8 \<bind> msg_of_code"

lemma length_fillMsgHeader [simp]: "length (fillMsgHeader t f s) = 20"
  by (simp add: fillMsgHeader_def)

text \<open>\<open>checkMsg\<close>: all sums are of \<open>unsigned int\<close> and wrap.\<close>

definition checkMsg :: "bytes \<Rightarrow> u32 \<Rightarrow> bool option" where
  "checkMsg pkt sz =
     do {
       magic \<leftarrow> get_u64 pkt 0;
       if magic = MAGIC then do {
         type \<leftarrow> get_u32 pkt 8;
         if type \<le> msg_code ACK_MSG then do {
           hsize \<leftarrow> get_u32 pkt 16;
           if sz = hsize then do {
             checkSize \<leftarrow> get_u32 pkt 12;
             t \<leftarrow> msg_of_code type;
             checkSize' \<leftarrow>
               (case t of
                  OPEN_FILE_MSG \<Rightarrow> Some (checkSize + of_nat sizeof_openFileMsg)
                | REQ_FILE_SIZE_MSG \<Rightarrow> Some (checkSize + of_nat sizeof_requestFileSizeMsg)
                | FILE_SIZE_MSG \<Rightarrow> Some (checkSize + of_nat sizeof_fileSizeMsg)
                | REQ_BLK_MSG \<Rightarrow> Some (checkSize + of_nat sizeof_requestBlkMsg)
                | SEND_BLK_MSG \<Rightarrow> do {
                    dataSize \<leftarrow> get_u32 pkt 28;
                    Some (checkSize + (of_nat sizeof_sendBlkMsg + dataSize)) }
                | CLOSE_FILE_MSG \<Rightarrow> Some (checkSize + of_nat sizeof_closeFileMsg)
                | CLOSE_CON_MSG \<Rightarrow> Some (checkSize + of_nat sizeof_closeConMsg)
                | WRITE_MSG \<Rightarrow> do {
                    dataSize \<leftarrow> get_u32 pkt 20;
                    Some (checkSize + (of_nat sizeof_writeMsg + dataSize)) }
                | PING_MSG \<Rightarrow> Some (checkSize + of_nat sizeof_msgHeader)
                | ACK_MSG \<Rightarrow> Some (checkSize + of_nat sizeof_ackMsg)
                | CLOSE_SERVER_MSG \<Rightarrow> Some (checkSize + of_nat sizeof_closeServerMsg));
             Some (checkSize' = sz)
           } else Some False
         } else Some False
       } else Some False
     }"

subsection \<open>Building messages\<close>

text \<open>\<open>unsigned int fileNameSize = name.sz() + 1\<close>\<close>

definition name_size :: "bytes \<Rightarrow> u32" where
  "name_size name = of_nat (length name + 1)"

definition openFile_packet :: "bytes \<Rightarrow> u32 \<Rightarrow> bool \<Rightarrow> bool \<Rightarrow> bytes" where
  "openFile_packet name blkSize compress output =
     (let sz = of_nat sizeof_openFileMsg + name_size name
      in fillMsgHeader OPEN_FILE_MSG (name_size name) sz @
         put_u32 blkSize @ [put_bool compress] @ [put_bool output] @ name @ [0])"

definition requestBlk_packet :: "bytes \<Rightarrow> u32 \<Rightarrow> u32 \<Rightarrow> bytes" where
  "requestBlk_packet name start stop =
     (let sz = of_nat sizeof_requestBlkMsg + name_size name
      in fillMsgHeader REQ_BLK_MSG (name_size name) sz @
         put_u32 start @ put_u32 stop @ name @ [0])"

definition closeFile_packet :: "bytes \<Rightarrow> bytes" where
  "closeFile_packet name =
     (let sz = of_nat sizeof_closeFileMsg + name_size name
      in fillMsgHeader CLOSE_FILE_MSG (name_size name) sz @ name @ [0])"

definition requestFileSize_packet :: "bytes \<Rightarrow> bytes" where
  "requestFileSize_packet name =
     (let sz = of_nat sizeof_requestFileSizeMsg + name_size name
      in fillMsgHeader REQ_FILE_SIZE_MSG (name_size name) sz @ name @ [0])"

definition closeCon_packet :: bytes where
  "closeCon_packet = fillMsgHeader CLOSE_CON_MSG 0 (of_nat sizeof_closeConMsg)"

definition closeServer_packet :: bytes where
  "closeServer_packet = fillMsgHeader CLOSE_SERVER_MSG 0 (of_nat sizeof_closeConMsg)"

definition ping_packet :: bytes where
  "ping_packet = fillMsgHeader PING_MSG 0 (of_nat sizeof_msgHeader)"

definition fileSize_packet :: "bytes \<Rightarrow> u64 \<Rightarrow> u8 \<Rightarrow> bytes" where
  "fileSize_packet name fileSize open' =
     (let sz = of_nat sizeof_fileSizeMsg + name_size name
      in fillMsgHeader FILE_SIZE_MSG (name_size name) sz @
         put_u64 fileSize @ [open'] @ name @ [0])"

text \<open>
  \<open>sendSendBlkMsg\<close> sets neither \<open>compression\<close> nor \<open>dataSize\<close>: they are whatever the fresh
  buffer held (\<open>junk\<close>, \<open>junkSize\<close>).
\<close>

definition sendBlk_packet :: "u32 \<Rightarrow> u32 \<Rightarrow> bytes \<Rightarrow> u32 \<Rightarrow> bytes \<Rightarrow> bytes" where
  "sendBlk_packet junk junkSize name blk data =
     (let dataSize = of_nat (length data);
          sz = of_nat sizeof_sendBlkMsg + name_size name + dataSize
      in fillMsgHeader SEND_BLK_MSG (name_size name) sz @
         put_u32 junk @ put_u32 blk @ put_u32 junkSize @ name @ [0] @ data)"

definition ack_packet :: "msgType \<Rightarrow> bytes" where
  "ack_packet ackType =
     fillMsgHeader ACK_MSG 0 (of_nat sizeof_ackMsg) @ put_u32 (msg_code ackType)"

text \<open>
  \<open>sendWriteMsg\<close> fills the header into the front of a buffer \<open>pkt\<close> that already holds the
  data behind it, and sends the first \<open>sz\<close> bytes.
\<close>

definition write_packet ::
  "bytes \<Rightarrow> bytes \<Rightarrow> u32 \<Rightarrow> u32 \<Rightarrow> u64 \<Rightarrow> u32 \<Rightarrow> bytes option" where
  "write_packet pkt name dataSize compSize fp sn =
     (let sz = of_nat sizeof_writeMsg + name_size name + dataSize;
          front = fillMsgHeader WRITE_MSG (name_size name) sz @
            put_u32 dataSize @ put_u32 compSize @ put_u64 fp @ put_u32 sn @ name @ [0]
      in blit pkt 0 front \<bind> mem_slice 0 (unat sz))"

subsection \<open>Parsing messages\<close>

definition parseOpenFileMsg :: "bytes \<Rightarrow> (bytes \<times> u32 \<times> bool \<times> bool) option" where
  "parseOpenFileMsg pkt =
     do {
       blkSize \<leftarrow> get_u32 pkt 20;
       compress \<leftarrow> get_u8 pkt 24;
       output \<leftarrow> get_u8 pkt 25;
       name \<leftarrow> cstring_at pkt sizeof_openFileMsg;
       Some (name, blkSize, compress \<noteq> 0, output \<noteq> 0)
     }"

definition parseRequestBlkMsg :: "bytes \<Rightarrow> (bytes \<times> u32 \<times> u32) option" where
  "parseRequestBlkMsg pkt =
     do {
       start \<leftarrow> get_u32 pkt 20;
       stop \<leftarrow> get_u32 pkt 24;
       name \<leftarrow> cstring_at pkt sizeof_requestBlkMsg;
       Some (name, start, stop)
     }"

definition parseCloseFileMsg :: "bytes \<Rightarrow> bytes option" where
  "parseCloseFileMsg pkt = cstring_at pkt sizeof_closeFileMsg"

definition parseRequestFileSizeMsg :: "bytes \<Rightarrow> bytes option" where
  "parseRequestFileSizeMsg pkt = cstring_at pkt sizeof_requestFileSizeMsg"

text \<open>
  The result of \<open>parseWriteMsg\<close>: the name, the place of the data in the packet, the two
  sizes and the file position.
\<close>

definition parseWriteMsg :: "bytes \<Rightarrow> (bytes \<times> nat \<times> u32 \<times> u32 \<times> u64) option" where
  "parseWriteMsg pkt =
     do {
       dataSize \<leftarrow> get_u32 pkt 20;
       compSize \<leftarrow> get_u32 pkt 24;
       fp \<leftarrow> get_u64 pkt 28;
       fileNameSize \<leftarrow> get_u32 pkt 12;
       name \<leftarrow> cstring_at pkt sizeof_writeMsg;
       Some (name, sizeof_writeMsg + unat fileNameSize, dataSize, compSize, fp)
     }"

definition parseFileSizeMsg :: "bytes \<Rightarrow> (bytes \<times> u64 \<times> u8) option" where
  "parseFileSizeMsg pkt =
     do {
       fileSize \<leftarrow> get_u64 pkt 20;
       open' \<leftarrow> get_u8 pkt 28;
       name \<leftarrow> cstring_at pkt sizeof_fileSizeMsg;
       Some (name, fileSize, open')
     }"

subsection \<open>Round trips\<close>

lemmas packet_defs =
  openFile_packet_def requestBlk_packet_def closeFile_packet_def requestFileSize_packet_def
  closeCon_packet_def closeServer_packet_def ping_packet_def fileSize_packet_def
  sendBlk_packet_def ack_packet_def

definition accepted :: "bytes \<Rightarrow> bool" where
  "accepted p \<longleftrightarrow> checkMsg p (of_nat (length p)) = Some True"

lemma accepted_packets:
  "accepted (openFile_packet name blkSize compress output)" "accepted (requestBlk_packet name start stop)"
  "accepted (closeFile_packet name)" "accepted (requestFileSize_packet name)" "accepted closeCon_packet"
  "accepted closeServer_packet" "accepted ping_packet" "accepted (fileSize_packet name fileSize open')"
  "accepted (sendBlk_packet junk junkSize name blk data) \<longleftrightarrow> junkSize = of_nat (length data)"
  "accepted (ack_packet ackType)"
  by (simp_all add: accepted_def packet_defs checkMsg_def fillMsgHeader_def wire_simps
      Let_def name_size_def msg_code_le algebra_simps del: msg_code.simps)

text \<open>
  \<open>checkMsg\<close> accepts every message that the send functions build, received in its full
  length, whatever the name and the field values, but one: \<open>sendSendBlkMsg\<close> does not store
  the size of the data, so its message passes only when the stale bytes there happen to be
  that size.
\<close>

theorem built_messages_accepted:
  "accepted (openFile_packet name blkSize compress output) \<and>
   accepted (requestBlk_packet name start stop) \<and>
   accepted (closeFile_packet name) \<and> accepted (requestFileSize_packet name) \<and>
   accepted closeCon_packet \<and> accepted closeServer_packet \<and> accepted ping_packet \<and>
   accepted (fileSize_packet name fileSize open') \<and>
   (accepted (sendBlk_packet junk junkSize name blk data) \<longleftrightarrow> junkSize = of_nat (length data)) \<and>
   accepted (ack_packet ackType)"
  by (simp add: accepted_packets)

lemma parse_packets:
  assumes "0 \<notin> set name"
  shows "parseOpenFileMsg (openFile_packet name blkSize compress output) = Some (name, blkSize, compress, output)"
    "parseRequestBlkMsg (requestBlk_packet name start stop) = Some (name, start, stop)"
    "parseCloseFileMsg (closeFile_packet name) = Some name"
    "parseRequestFileSizeMsg (requestFileSize_packet name) = Some name"
    "parseFileSizeMsg (fileSize_packet name fileSize open') = Some (name, fileSize, open')"
  using assms cstring_here [of name "[]"]
  by (simp_all add: packet_defs parseOpenFileMsg_def parseRequestBlkMsg_def parseCloseFileMsg_def
      parseRequestFileSizeMsg_def parseFileSizeMsg_def fillMsgHeader_def wire_simps Let_def)



lemma write_packet_ok:
  assumes nul: "0 \<notin> set name" and room: "length room = 40 + length name + 1"
    and total: "length name + length data + 41 < 2 ^ 32"
    and dataSize: "dataSize = of_nat (length data)"
  shows "\<exists>p. write_packet (room @ data @ slack) name dataSize compSize fp sn = Some p \<and>
    length p = 41 + length name + length data \<and>
    checkMsg p (of_nat (length p)) = Some True \<and>
    parseWriteMsg p = Some (name, 41 + length name, dataSize, compSize, fp) \<and>
    mem_slice (41 + length name) (unat dataSize) p = Some data"
proof -
  let ?sz = "of_nat 40 + name_size name + dataSize :: u32"
  let ?front = "fillMsgHeader WRITE_MSG (name_size name) ?sz @
      put_u32 dataSize @ put_u32 compSize @ put_u64 fp @ put_u32 sn @ name @ [0]"
  have lf: "length ?front = 41 + length name" by simp
  have us: "unat ?sz = 41 + length name + length data"
  proof -
    have "?sz = of_nat (41 + length name + length data)"
      using dataSize by (simp add: name_size_def)
    moreover have "unat (of_nat (41 + length name + length data) :: u32)
        = 41 + length name + length data"
      using total by (intro unat_of_nat_small) simp
    ultimately show ?thesis by metis
  qed
  have ud: "unat dataSize = length data"
    unfolding dataSize using total by (intro unat_of_nat_small) simp
  have un: "unat (name_size name) = Suc (length name)"
    unfolding name_size_def using total by (subst unat_of_nat_small) simp_all
  let ?p = "?front @ data"
  have "blit (room @ data @ slack) 0 ?front = Some (?front @ data @ slack)"
    using room by (simp add: blit_def)
  moreover have "mem_slice 0 (unat ?sz) (?front @ data @ slack) = Some ?p"
    using us by (simp add: mem_slice_def)
  ultimately have wp: "write_packet (room @ data @ slack) name dataSize compSize fp sn = Some ?p"
    by (simp add: write_packet_def Let_def)
  have lp: "length ?p = 41 + length name + length data" using lf by simp
  have "checkMsg ?p (of_nat (length ?p)) = Some True"
    using dataSize
    by (simp add: checkMsg_def fillMsgHeader_def wire_simps name_size_def msg_code_le
        add_ac del: msg_code.simps)
  moreover have "parseWriteMsg ?p = Some (name, 41 + length name, dataSize, compSize, fp)"
    using nul cstring_here [of name data] un
    by (simp add: parseWriteMsg_def fillMsgHeader_def wire_simps)
  moreover have "mem_slice (41 + length name) (unat dataSize) ?p = Some data"
    using lf ud by (simp add: mem_slice_def)
  ultimately show ?thesis using wp lp by blast
qed

text \<open>
  a write message carries its data. With a buffer laid out as \<open>OutputFile\<close> does (the
  data after room for the header and the name), the built packet passes \<open>checkMsg\<close>, is
  parsed to the same name, sizes and position, and the data are found where
  \<open>parseWriteMsg\<close> points.
\<close>

theorem write_roundtrip:
  assumes nul: "0 \<notin> set name" and room: "length room = 40 + length name + 1"
    and total: "length name + length data + 41 < 2 ^ 32"
    and dataSize: "dataSize = of_nat (length data)"
  shows "\<exists>p. write_packet (room @ data @ slack) name dataSize compSize fp sn = Some p \<and>
    length p = 41 + length name + length data \<and>
    checkMsg p (of_nat (length p)) = Some True \<and>
    parseWriteMsg p = Some (name, 41 + length name, dataSize, compSize, fp) \<and>
    mem_slice (41 + length name) (unat dataSize) p = Some data"
  by (rule write_packet_ok [OF assms])

theorem write_roundtrip_witness:
  "\<exists>p. write_packet (replicate 42 0 @ [7, 8, 9] @ []) [65] 3 3 1000 4 = Some p \<and>
     mem_slice 42 3 p = Some [7, 8, 9]"
  using write_roundtrip [of "[65]" "replicate 42 0" "[7, 8, 9]" 3 "[]" 3 1000 4] by auto

definition overflow_packet :: bytes where
  "overflow_packet = fillMsgHeader WRITE_MSG 0xFFFFFFFF 41 @
     put_u32 2 @ put_u32 2 @ put_u64 0 @ put_u32 0 @ [0]"

text \<open>
  \<open>checkMsg\<close> adds 32-bit sizes without an overflow check. This 41 byte write message
  passes although it declares a name of \<open>2^32 - 1\<close> bytes; \<open>parseWriteMsg\<close> then points
  the data four gigabytes behind the packet.
\<close>

theorem checkMsg_overflow:
  "checkMsg overflow_packet 41 = Some True \<and> length overflow_packet = 41
   \<and> parseWriteMsg overflow_packet = Some ([], 40 + 0xFFFFFFFF, 2, 2, 0)"
  using cstring_here [of "[]" "[]"]
  by (simp add: overflow_packet_def checkMsg_def parseWriteMsg_def fillMsgHeader_def wire_simps
      msg_of_code_def all_msgTypes_def)

end
