(* ===== verification/Sockets.thy ===== *)
theory Sockets
  imports WireFormat
begin

text \<open>
  Connections: \<^verbatim>\<open>src/common/Connection.cpp\<close> with the socket pool of a client, the polled
  sockets of a server and the loops that send and receive. The system calls (and the
  \<open>RSocketAdapter\<close> in front of them) are the parameter \<open>sys\<close>, over a state of the operating
  system; a call of \<open>raise(SIGSEGV)\<close> ends the process and is \<open>None\<close>.
\<close>

subsection \<open>System calls\<close>

datatype errno =
    EACCES | EAGAIN | EBADF | ECONNREFUSED | ECONNRESET | EDESTADDRREQ | EFAULT | EINTR | EINVAL
  | EISCONN | EMSGSIZE | ENOBUFS | ENOMEM | ENOTCONN | ENOTSOCK | EOPNOTSUPP | EPIPE | EUnknown

datatype send_ret = Sent nat | SendErr errno
datatype recv_ret = Got bytes | RecvErr errno

record pollfd =
  p_fd :: int
  p_events :: u16
  p_revents :: u16

definition POLLIN :: u16 where "POLLIN = 1"

text \<open>
  \<open>getOutSocket\<close> connects to the address of the connection. \<open>rpoll\<close> gives back the
  descriptors with their \<open>revents\<close> set, and its result.
\<close>

record 'w sys =
  rsend :: "'w \<Rightarrow> int \<Rightarrow> bytes \<Rightarrow> 'w \<times> send_ret"
  rrecv :: "'w \<Rightarrow> int \<Rightarrow> nat \<Rightarrow> 'w \<times> recv_ret"
  rclose :: "'w \<Rightarrow> int \<Rightarrow> 'w \<times> int"
  rshutdown :: "'w \<Rightarrow> int \<Rightarrow> 'w \<times> int"
  getOutSocket :: "'w \<Rightarrow> 'w \<times> int"
  rpoll :: "'w \<Rightarrow> pollfd list \<Rightarrow> 'w \<times> pollfd list \<times> int"

definition messageRetry :: nat where "messageRetry = 100"
definition maxConRetry :: nat where "maxConRetry = 10"
definition socketRetry :: nat where "socketRetry = 1"
definition socketStep :: nat where "socketStep = 1024"

subsection \<open>Connections\<close>

record connection =
  k_isServer :: bool
  k_pfds :: "pollfd list"
  k_sockets :: "int list"
  k_numSockets :: u32
  k_nextSocket :: u32
  k_inMsgs :: int
  k_consecutiveCnt :: u64

text \<open>The thread locals \<open>_tlSocket\<close>, \<open>_tlSocketsClosed\<close> and \<open>_buffer\<close>.\<close>

record tls =
  tl_socket :: int
  tl_closed :: int
  tl_buffer :: bytes

definition new_client :: connection where
  "new_client = \<lparr>k_isServer = False, k_pfds = [], k_sockets = [], k_numSockets = 0, k_nextSocket = 0,
     k_inMsgs = -1, k_consecutiveCnt = 0\<rparr>"

definition incCnt :: "connection \<Rightarrow> connection" where
  "incCnt k = k\<lparr>k_consecutiveCnt := k_consecutiveCnt k + 1\<rparr>"

definition setCnt :: "u64 \<Rightarrow> connection \<Rightarrow> connection" where
  "setCnt n k = k\<lparr>k_consecutiveCnt := n\<rparr>"

definition clearCnt :: "connection \<Rightarrow> connection" where
  "clearCnt k = k\<lparr>k_consecutiveCnt := 0\<rparr>"

text \<open>
  \<open>lock\<close> of a client takes a socket from the pool; while the pool is empty it waits (\<open>None\<close>).
  \<open>lock\<close> of a server takes the mutex, which is not part of the state.
\<close>

definition lock_connection :: "connection \<Rightarrow> tls \<Rightarrow> (connection \<times> tls) option" where
  "lock_connection k t =
     (if k_isServer k then Some (k, t\<lparr>tl_closed := 0\<rparr>)
      else case dropWhile (\<lambda>s. s < 0) (k_sockets k) of
          [] \<Rightarrow> None
        | s # ss \<Rightarrow> Some (k\<lparr>k_sockets := ss\<rparr>, t\<lparr>tl_socket := s\<rparr>))"

definition unlock_connection :: "connection \<Rightarrow> tls \<Rightarrow> connection \<times> tls \<times> int" where
  "unlock_connection k t =
     (if k_isServer k then (k, t, tl_closed t)
      else if 0 \<le> tl_socket t
      then (k\<lparr>k_sockets := k_sockets k @ [tl_socket t]\<rparr>, t\<lparr>tl_socket := -1\<rparr>, 0)
      else (k, t, 0))"

function init_loop :: "'w sys \<Rightarrow> 'w \<Rightarrow> nat \<Rightarrow> 'w \<times> int" where
  "init_loop sys w retry =
     (if maxConRetry < retry then (w, -1)
      else let (w', sock) = getOutSocket sys w
           in if sock < 0 then init_loop sys w' (retry + 1) else (w', sock))"
  by pat_completeness auto
termination by (relation "measure (\<lambda>(sys, w, retry). Suc maxConRetry - retry)") auto

declare init_loop.simps [simp del]

definition initializeSocket :: "'w sys \<Rightarrow> 'w \<Rightarrow> 'w \<times> int" where
  "initializeSocket sys w = init_loop sys w 0"

definition addSocket_client :: "'w sys \<Rightarrow> 'w \<Rightarrow> connection \<Rightarrow> 'w \<times> connection \<times> bool" where
  "addSocket_client sys w k =
     (if k_isServer k then (w, k, False)
      else let (w, sock) = initializeSocket sys w
           in if 0 < sock
              then (w, k\<lparr>k_sockets := k_sockets k @ [sock], k_numSockets := k_numSockets k + 1\<rparr>, True)
              else (w, k, False))"

text \<open>The first free entry of \<open>_pfds\<close>, or a new one.\<close>

fun put_pfd :: "int \<Rightarrow> pollfd list \<Rightarrow> pollfd list" where
  "put_pfd s [] = [\<lparr>p_fd = s, p_events = POLLIN, p_revents = 0\<rparr>]"
| "put_pfd s (p # ps) =
     (if p_fd p = -1 then \<lparr>p_fd = s, p_events = POLLIN, p_revents = 0\<rparr> # ps else p # put_pfd s ps)"

definition addSocket_server :: "int \<Rightarrow> connection \<Rightarrow> connection \<times> bool" where
  "addSocket_server s k =
     (if k_isServer k
      then (k\<lparr>k_pfds := put_pfd s (k_pfds k), k_numSockets := k_numSockets k + 1\<rparr>, True)
      else (k, False))"

definition new_server :: "int \<Rightarrow> connection" where
  "new_server s = fst (addSocket_server s (new_client\<lparr>k_isServer := True\<rparr>))"

definition restartSocket :: "'w sys \<Rightarrow> 'w \<Rightarrow> tls \<Rightarrow> 'w \<times> tls \<times> bool" where
  "restartSocket sys w t =
     (if 0 < tl_socket t
      then let (w, _) = rclose sys w (tl_socket t); (w, sock) = initializeSocket sys w
           in if 0 < sock then (w, t\<lparr>tl_socket := sock\<rparr>, False) else (w, t, False)
      else (w, t, False))"

fun initiate_loop :: "'w sys \<Rightarrow> nat \<Rightarrow> 'w \<Rightarrow> connection \<Rightarrow> bool \<Rightarrow> 'w \<times> connection \<times> bool" where
  "initiate_loop sys 0 w k ret = (w, k, ret)"
| "initiate_loop sys (Suc n) w k ret =
     (let (w, k, ok) = addSocket_client sys w k in initiate_loop sys n w k (ret \<or> ok))"

definition initiate :: "'w sys \<Rightarrow> nat \<Rightarrow> nat \<Rightarrow> 'w \<Rightarrow> connection \<Rightarrow> 'w \<times> connection \<times> bool" where
  "initiate sys socketsPerConnection numConnections w k =
     initiate_loop sys (if numConnections = 0 then socketsPerConnection else numConnections) w k False"

subsection \<open>Sending\<close>

text \<open>\<open>sendMsg\<close>: every error gives up with \<open>-1\<close>; so do more than 100 empty sends, with a short count.\<close>

function send_loop :: "'w sys \<Rightarrow> 'w \<Rightarrow> int \<Rightarrow> bytes \<Rightarrow> nat \<Rightarrow> nat \<Rightarrow> 'w \<times> int" where
  "send_loop sys w sock msg sentSize retryCnt =
     (if sentSize < length msg \<and> retryCnt \<le> messageRetry
      then case rsend sys w sock (drop sentSize msg) of
          (w', SendErr e) \<Rightarrow> (w', -1)
        | (w', Sent n) \<Rightarrow>
            if n = 0 then send_loop sys w' sock msg sentSize (retryCnt + 1)
            else send_loop sys w' sock msg (sentSize + n) 0
      else (w, int sentSize))"
  by pat_completeness auto
termination
  by (relation "measures [\<lambda>(sys, w, sock, msg, sentSize, retryCnt). length msg - sentSize,
        \<lambda>(sys, w, sock, msg, sentSize, retryCnt). Suc messageRetry - retryCnt]") auto

declare send_loop.simps [simp del]

definition sendMsg :: "'w sys \<Rightarrow> 'w \<Rightarrow> int \<Rightarrow> bytes \<Rightarrow> ('w \<times> int) option" where
  "sendMsg sys w sock msg = (if -1 < sock then Some (send_loop sys w sock msg 0 0) else None)"

subsection \<open>Receiving\<close>

text \<open>
  \<open>recvMsg(buf, bufSize)\<close>, writing from \<open>off\<close> on. \<open>EINVAL\<close> raises \<open>SIGSEGV\<close>, \<open>EINTR\<close> and an empty
  result are tried again. A negative size is no iteration, as 0 here.
\<close>

function recv_loop ::
  "'w sys \<Rightarrow> 'w \<Rightarrow> int \<Rightarrow> bytes \<Rightarrow> nat \<Rightarrow> nat \<Rightarrow> nat \<Rightarrow> nat \<Rightarrow> ('w \<times> bytes \<times> int) option" where
  "recv_loop sys w sock buf off bufSize recvSize retryCnt =
     (if recvSize < bufSize \<and> retryCnt \<le> messageRetry
      then case rrecv sys w sock (bufSize - recvSize) of
          (w', RecvErr e) \<Rightarrow>
            if e = EINVAL then None
            else if e \<noteq> EINTR then Some (w', buf, -1)
            else recv_loop sys w' sock buf off bufSize recvSize (retryCnt + 1)
        | (w', Got d) \<Rightarrow>
            if d = [] then recv_loop sys w' sock buf off bufSize recvSize (retryCnt + 1)
            else case blit buf (off + recvSize) d of
                None \<Rightarrow> None
              | Some buf' \<Rightarrow> recv_loop sys w' sock buf' off bufSize (recvSize + length d) 0
      else Some (w, buf, int recvSize))"
  by pat_completeness auto
termination
  by (relation "measures [\<lambda>(sys, w, sock, buf, off, bufSize, recvSize, retryCnt). bufSize - recvSize,
        \<lambda>(sys, w, sock, buf, off, bufSize, recvSize, retryCnt). Suc messageRetry - retryCnt]")
    (auto simp flip: length_greater_0_conv)

declare recv_loop.simps [simp del]

definition recvMsg_buf :: "'w sys \<Rightarrow> 'w \<Rightarrow> int \<Rightarrow> bytes \<Rightarrow> nat \<Rightarrow> nat \<Rightarrow> ('w \<times> bytes \<times> int) option" where
  "recvMsg_buf sys w sock buf off bufSize =
     (if -1 < sock then recv_loop sys w sock buf off bufSize 0 0 else None)"

text \<open>
  \<open>recvMsg(char **)\<close>: the header, then the rest that its size asks for, into \<open>_buffer\<close>. A
  size below that of the header is a negative size for the rest. \<open>fresh n\<close> is the contents of
  a new buffer of \<open>n\<close> bytes. The last component is the message handed to the caller.
\<close>

definition recvMsg ::
  "'w sys \<Rightarrow> (nat \<Rightarrow> bytes) \<Rightarrow> 'w \<Rightarrow> int \<Rightarrow> bytes \<Rightarrow> ('w \<times> bytes \<times> int \<times> bytes option) option" where
  "recvMsg sys fresh w sock buf =
     do {
       (w, buf, temp) \<leftarrow> recvMsg_buf sys w sock buf 0 sizeof_msgHeader;
       if temp = -1 then Some (w, buf, -1, None)
       else if 0 < temp then do {
         hsize \<leftarrow> get_u32 buf 16;
         buf \<leftarrow> (if length buf < unat hsize
                 then memcpy (fresh (unat hsize)) 0 buf 0 sizeof_msgHeader else Some buf);
         (w, buf, temp2) \<leftarrow> recvMsg_buf sys w sock buf sizeof_msgHeader (unat hsize - sizeof_msgHeader);
         if temp2 = -1 then Some (w, buf, -1, None)
         else do {
           ok \<leftarrow> checkMsg buf (of_int (temp + temp2));
           if ok then do {
             msg \<leftarrow> mem_slice 0 (unat hsize) buf;
             Some (w, buf, temp + temp2, Some msg)
           } else Some (w, buf, -1, None)
         }
       } else Some (w, buf, temp, None)
     }"

subsection \<open>Sending with the reactions of client and server\<close>

fun client_send_loop :: "'w sys \<Rightarrow> nat \<Rightarrow> 'w \<Rightarrow> tls \<Rightarrow> bytes \<Rightarrow> bool \<Rightarrow> ('w \<times> tls \<times> bool) option" where
  "client_send_loop sys 0 w t buff ret = Some (w, t, ret)"
| "client_send_loop sys (Suc n) w t buff ret =
     (case sendMsg sys w (tl_socket t) buff of
        None \<Rightarrow> None
      | Some (w, r) \<Rightarrow>
          if r = int (length buff) then Some (w, t, True)
          else let (w, t, _) = restartSocket sys w t in client_send_loop sys n w t buff False)"

definition clientSendRetry :: "'w sys \<Rightarrow> 'w \<Rightarrow> tls \<Rightarrow> bytes \<Rightarrow> ('w \<times> tls \<times> bool) option" where
  "clientSendRetry sys w t buff = client_send_loop sys socketRetry w t buff False"

definition sendCloseConMsg :: "'w sys \<Rightarrow> 'w \<Rightarrow> tls \<Rightarrow> ('w \<times> tls \<times> bool) option" where
  "sendCloseConMsg sys w t = clientSendRetry sys w t closeCon_packet"

text \<open>The first entry of \<open>_pfds\<close> for the socket is turned off.\<close>

definition pfd_off :: pollfd where
  "pfd_off = \<lparr>p_fd = -1, p_events = 0, p_revents = 0\<rparr>"

fun off_pfd :: "int \<Rightarrow> pollfd list \<Rightarrow> pollfd list \<times> bool" where
  "off_pfd s [] = ([], False)"
| "off_pfd s (p # ps) =
     (if p_fd p = s then (pfd_off # ps, True)
      else let (ps', found) = off_pfd s ps in (p # ps', found))"

text \<open>\<open>closeSocket(int &)\<close>; the last two components are the new value of the argument and the result.\<close>

definition closeSocket ::
  "'w sys \<Rightarrow> 'w \<Rightarrow> connection \<Rightarrow> tls \<Rightarrow> int \<Rightarrow> ('w \<times> connection \<times> tls \<times> int \<times> int) option" where
  "closeSocket sys w k t socket =
     (if socket = -1 then Some (w, k, t, socket, -1)
      else do {
        (w, k, t, socket') \<leftarrow>
          (if k_isServer k
           then let (ps, found) = off_pfd socket (k_pfds k); (w, _) = rshutdown sys w socket
                in Some (w, k\<lparr>k_pfds := ps\<rparr>,
                     if found then t\<lparr>tl_closed := tl_closed t + 1\<rparr> else t, if found then -1 else socket)
           else do {
             (w, t', _) \<leftarrow> sendCloseConMsg sys w (t\<lparr>tl_socket := socket\<rparr>);
             let (w, _) = rshutdown sys w socket;
             Some (w, k, t'\<lparr>tl_socket := tl_socket t\<rparr>, socket)
           });
        let (w, ret) = rclose sys w socket;
        Some (w, k\<lparr>k_numSockets := k_numSockets k - 1\<rparr>, t, socket', ret)
      })"

text \<open>\<open>closeSocket()\<close> passes \<open>_tlSocket\<close> itself.\<close>

definition closeSocket_tl :: "'w sys \<Rightarrow> 'w \<Rightarrow> connection \<Rightarrow> tls \<Rightarrow> ('w \<times> connection \<times> tls \<times> int) option" where
  "closeSocket_tl sys w k t =
     map_option (\<lambda>(w, k, t, s, ret). (w, k, t\<lparr>tl_socket := s\<rparr>, ret)) (closeSocket sys w k t (tl_socket t))"

definition serverSendClose ::
  "'w sys \<Rightarrow> 'w \<Rightarrow> connection \<Rightarrow> tls \<Rightarrow> bytes \<Rightarrow> ('w \<times> connection \<times> tls \<times> bool) option" where
  "serverSendClose sys w k t buff =
     do {
       (w, r) \<leftarrow> sendMsg sys w (tl_socket t) buff;
       if r \<noteq> int (length buff) then do {
         (w, k, t, _) \<leftarrow> closeSocket_tl sys w k t;
         Some (w, k, t, False)
       } else Some (w, k, t, True)
     }"

text \<open>The block, its name with the NUL and its data as three sends.\<close>

definition serverSendCloseNew ::
  "'w sys \<Rightarrow> 'w \<Rightarrow> connection \<Rightarrow> tls \<Rightarrow> bytes \<Rightarrow> bytes \<Rightarrow> bytes \<Rightarrow> ('w \<times> connection \<times> tls \<times> bool) option" where
  "serverSendCloseNew sys w k t packet name buff =
     do {
       (w, k, t, ok) \<leftarrow> serverSendClose sys w k t packet;
       if \<not> ok then Some (w, k, t, False)
       else do {
         (w, k, t, ok) \<leftarrow> serverSendClose sys w k t (name @ [0]);
         if \<not> ok then Some (w, k, t, False) else serverSendClose sys w k t buff
       }
     }"

subsection \<open>Receiving with the reactions of the client\<close>

text \<open>\<open>restartSocket\<close> in a loop that only stops early when it returns true.\<close>

fun restart_loop :: "'w sys \<Rightarrow> nat \<Rightarrow> 'w \<Rightarrow> tls \<Rightarrow> 'w \<times> tls" where
  "restart_loop sys 0 w t = (w, t)"
| "restart_loop sys (Suc n) w t =
     (let (w, t, ok) = restartSocket sys w t in if ok then (w, t) else restart_loop sys n w t)"

definition clientRecRetry ::
  "'w sys \<Rightarrow> (nat \<Rightarrow> bytes) \<Rightarrow> 'w \<Rightarrow> tls \<Rightarrow> ('w \<times> tls \<times> int \<times> bytes option) option" where
  "clientRecRetry sys fresh w t =
     do {
       (w, buf, ret, msg) \<leftarrow> recvMsg sys fresh w (tl_socket t) (tl_buffer t);
       let t = t\<lparr>tl_buffer := buf\<rparr>;
       if ret < 0 then let (w, t) = restart_loop sys socketRetry w t in Some (w, t, -1, msg)
       else Some (w, t, ret, msg)
     }"

definition clientRecRetryCount ::
  "'w sys \<Rightarrow> 'w \<Rightarrow> tls \<Rightarrow> bytes \<Rightarrow> nat \<Rightarrow> ('w \<times> tls \<times> bytes \<times> int) option" where
  "clientRecRetryCount sys w t buff n =
     do {
       (w, buff, ret) \<leftarrow> recvMsg_buf sys w (tl_socket t) buff 0 n;
       if ret \<noteq> int n then let (w, t) = restart_loop sys socketRetry w t in Some (w, t, buff, -1)
       else Some (w, t, buff, ret)
     }"

definition recFileSizeMsg :: "'w sys \<Rightarrow> (nat \<Rightarrow> bytes) \<Rightarrow> 'w \<Rightarrow> tls \<Rightarrow> ('w \<times> tls \<times> u64 \<times> bool) option" where
  "recFileSizeMsg sys fresh w t =
     do {
       (w, t, ret, msg) \<leftarrow> clientRecRetry sys fresh w t;
       if int sizeof_fileSizeMsg < ret then do {
         buff \<leftarrow> msg;
         (name, fileSize, opened) \<leftarrow> parseFileSizeMsg buff;
         Some (w, t, fileSize, True)
       } else Some (w, t, 0, False)
     }"

text \<open>
  \<open>recSendBlkMsg\<close>. \<open>data\<close> is the buffer of the caller, \<open>None\<close> when it gave none; \<open>fresh\<close> is the
  contents of new memory. The result: the name (with its NUL), the data, the block and the
  size of the data. It checks neither the magic number nor the type of the message.
\<close>

definition recSendBlkMsg ::
  "'w sys \<Rightarrow> (nat \<Rightarrow> bytes) \<Rightarrow> 'w \<Rightarrow> tls \<Rightarrow> bytes option \<Rightarrow> u32 \<Rightarrow>
   ('w \<times> tls \<times> bytes \<times> bytes option \<times> u32 \<times> u32) option" where
  "recSendBlkMsg sys fresh w t data dataBufSize =
     do {
       (w, t, msg, retMsgSize) \<leftarrow> clientRecRetryCount sys w t (fresh sizeof_sendBlkMsg) sizeof_sendBlkMsg;
       if retMsgSize < 0 then Some (w, t, [], data, 0, 0)
       else do {
         fileNameSize \<leftarrow> get_u32 msg 12;
         blk \<leftarrow> get_u32 msg 24;
         dataSize \<leftarrow> get_u32 msg 28;
         (w, t, fileName, retFileNameSize) \<leftarrow>
           clientRecRetryCount sys w t (fresh (unat fileNameSize)) (unat fileNameSize);
         if retFileNameSize < 0 then Some (w, t, [], data, 0, 0)
         else do {
           let bufSize = (if data = None \<and> dataBufSize = 0 then dataSize else dataBufSize);
           let target = (case data of Some d \<Rightarrow> d | None \<Rightarrow> fresh (unat bufSize));
           if bufSize < dataSize then Some (w, t, [], data, 0, 0)
           else do {
             (w, t, d, retDataSize) \<leftarrow> clientRecRetryCount sys w t target (unat dataSize);
             if retDataSize < 0 then Some (w, t, [], map_option (\<lambda>_. d) data, 0, 0)
             else Some (w, t, fileName, Some d, blk, dataSize)
           }
         }
       }
     }"

definition recAckMsg ::
  "'w sys \<Rightarrow> (nat \<Rightarrow> bytes) \<Rightarrow> 'w \<Rightarrow> tls \<Rightarrow> msgType \<Rightarrow> ('w \<times> bool) option" where
  "recAckMsg sys fresh w t expMsgType =
     do {
       (w, msg, ret) \<leftarrow> recvMsg_buf sys w (tl_socket t) (fresh sizeof_ackMsg) 0 sizeof_ackMsg;
       ackType \<leftarrow> get_u32 msg 20;
       Some (w, ret = int sizeof_ackMsg \<and> msg_code expMsgType = ackType)
     }"

subsection \<open>Polling\<close>

text \<open>The sockets of the range are closed, as after a failed \<open>rpoll\<close>.\<close>

fun close_range :: "'w sys \<Rightarrow> nat list \<Rightarrow> 'w \<Rightarrow> connection \<Rightarrow> tls \<Rightarrow> ('w \<times> connection \<times> tls) option" where
  "close_range sys [] w k t = Some (w, k, t)"
| "close_range sys (i # is) w k t =
     (case closeSocket sys w k t (p_fd (k_pfds k ! i)) of
        None \<Rightarrow> None
      | Some (w, k, t, _, _) \<Rightarrow> close_range sys is w (k\<lparr>k_pfds := (k_pfds k)[i := pfd_off]\<rparr>) t)"

fun poll_steps :: "'w sys \<Rightarrow> nat list \<Rightarrow> 'w \<Rightarrow> connection \<Rightarrow> tls \<Rightarrow> ('w \<times> connection \<times> tls) option" where
  "poll_steps sys [] w k t = Some (w, k, t)"
| "poll_steps sys (i # is) w k t =
     (let nfds = min socketStep (length (k_pfds k) - i);
          (w, ps, temp) = rpoll sys w (take nfds (drop i (k_pfds k)));
          k = k\<lparr>k_pfds := take i (k_pfds k) @ ps @ drop (i + nfds) (k_pfds k)\<rparr>
      in if temp = -1
         then case close_range sys [i..<i + nfds] w k t of
             None \<Rightarrow> None
           | Some (w, k, t) \<Rightarrow> poll_steps sys is w k t
         else poll_steps sys is w (k\<lparr>k_inMsgs := k_inMsgs k + temp\<rparr>) t)"

definition step_starts :: "nat \<Rightarrow> nat list" where
  "step_starts n = map (\<lambda>j. j * socketStep) [0..<(n + socketStep - 1) div socketStep]"

text \<open>
  The loop that looks for a socket with a message. \<open>None\<close>: the remainder by the size of an
  empty \<open>_pfds\<close>, or no end.
\<close>

partial_function (option) poll_scan ::
  "'w sys \<Rightarrow> 'w \<Rightarrow> connection \<Rightarrow> tls \<Rightarrow> ('w \<times> connection \<times> tls) option" where
  "poll_scan sys w k t =
     (if 0 < k_inMsgs k
      then if k_pfds k = [] then None
        else let index = unat (k_nextSocket k) mod length (k_pfds k);
                 p = k_pfds k ! index;
                 k = k\<lparr>k_nextSocket := k_nextSocket k + 1\<rparr>
             in if p_revents p = 0 then poll_scan sys w k t
                else if p_revents p = POLLIN
                then Some (w, k\<lparr>k_nextSocket := of_nat (index + 1),
                                k_pfds := (k_pfds k)[index := p\<lparr>p_revents := 0\<rparr>]\<rparr>,
                           t\<lparr>tl_socket := p_fd p\<rparr>)
                else Option.bind (closeSocket sys w k t (p_fd p)) (\<lambda>(w, k, t, _, _).
                  poll_scan sys w (k\<lparr>k_pfds := (k_pfds k)[index := pfd_off], k_inMsgs := k_inMsgs k - 1\<rparr>) t)
      else Some (w, k, t))"

definition pollMsg :: "'w sys \<Rightarrow> 'w \<Rightarrow> connection \<Rightarrow> tls \<Rightarrow> ('w \<times> connection \<times> tls \<times> int) option" where
  "pollMsg sys w k t =
     (if k_isServer k
      then do {
        let t = t\<lparr>tl_socket := -1\<rparr>;
        (w, k, t) \<leftarrow>
          (if k_inMsgs k < 0
           then poll_steps sys (step_starts (length (k_pfds k))) w (k\<lparr>k_inMsgs := 0\<rparr>) t
           else Some (w, k, t));
        (w, k, t) \<leftarrow> poll_scan sys w k t;
        Some (w, k\<lparr>k_inMsgs := k_inMsgs k - 1\<rparr>, t, k_inMsgs k)
      } else Some (w, k, t, -1))"

subsection \<open>Streams\<close>

text \<open>
  The documented behaviour of a connected stream socket. \<open>out\<close>: the bytes it has taken for
  sending; \<open>pending\<close>: the bytes that have arrived and are not read yet.
\<close>

definition stream_send :: "'w sys \<Rightarrow> ('w \<Rightarrow> bytes) \<Rightarrow> int \<Rightarrow> bool" where
  "stream_send sys out sock \<longleftrightarrow>
     (\<forall>w m. case rsend sys w sock m of
        (w', Sent n) \<Rightarrow> n \<le> length m \<and> out w' = out w @ take n m
      | (w', SendErr e) \<Rightarrow> out w' = out w)"

definition stream_recv :: "'w sys \<Rightarrow> ('w \<Rightarrow> bytes) \<Rightarrow> int \<Rightarrow> bool" where
  "stream_recv sys pending sock \<longleftrightarrow>
     (\<forall>w n. 0 < n \<longrightarrow> pending w \<noteq> [] \<longrightarrow>
        (\<exists>w' d. rrecv sys w sock n = (w', Got d) \<and> d \<noteq> [] \<and> length d \<le> n \<and> pending w = d @ pending w'))"


text \<open>A loopback that takes three bytes at a time and gives seven; the fields are what has arrived and been sent.\<close>

definition loop_sys :: "(bytes \<times> bytes) sys" where
  "loop_sys = \<lparr>rsend = (\<lambda>(i, out) s m. ((i, out @ take (min 3 (length m)) m), Sent (min 3 (length m)))),
     rrecv = (\<lambda>(i, out) s n. ((drop (min n 7) i, out), Got (take (min n 7) i))),
     rclose = (\<lambda>w s. (w, 0)), rshutdown = (\<lambda>w s. (w, 0)), getOutSocket = (\<lambda>w. (w, 5)),
     rpoll = (\<lambda>w ps. let ps' = map (\<lambda>p. p\<lparr>p_revents := if p_fd p = -1 then 0 else POLLIN\<rparr>) ps
                        in (w, ps', int (length (filter (\<lambda>p. p_revents p \<noteq> 0) ps'))))\<rparr>"

lemma loop_sys_streams: "stream_send loop_sys snd 4" "stream_recv loop_sys fst 4"
  by (auto simp: stream_send_def stream_recv_def loop_sys_def)

lemma take_drop_split:
  assumes "a + n \<le> m"
  shows "take n (drop a xs) @ drop (a + n) (take m xs) = drop a (take m xs)"
proof -
  let ?ys = "drop a (take m xs)"
  have "?ys = take n ?ys @ drop n ?ys" by (rule append_take_drop_id [symmetric])
  moreover have "take n ?ys = take n (drop a xs)" using assms by (simp add: drop_take)
  moreover have "drop n ?ys = drop (a + n) (take m xs)" by (simp add: add.commute)
  ultimately show ?thesis by metis
qed

lemma append_split:
  "d @ p = ys @ rest \<Longrightarrow> length d \<le> length ys \<Longrightarrow>
     d = take (length d) ys \<and> p = drop (length d) ys @ rest"
  by (auto simp: append_eq_append_conv2)

lemma send_loop_stream:
  assumes "stream_send sys out sock" "sentSize \<le> length msg" "send_loop sys w sock msg sentSize retryCnt = (w', r)"
  shows "\<exists>n. sentSize \<le> n \<and> n \<le> length msg \<and> out w' = out w @ drop sentSize (take n msg) \<and>
    (r = int n \<or> r = -1)"
  using assms
proof (induction sys w sock msg sentSize retryCnt rule: send_loop.induct)
  case (1 sys w sock msg sentSize retryCnt)
  note unf = send_loop.simps [of sys w sock msg sentSize retryCnt]
  show ?case
  proof (cases "sentSize < length msg \<and> retryCnt \<le> messageRetry")
    case False
    then have "w' = w \<and> r = int sentSize" using 1(5) by (auto simp: unf)
    then show ?thesis using 1(4) by (intro exI [of _ sentSize]) simp
  next
    case go: True
    obtain w1 x where s: "rsend sys w sock (drop sentSize msg) = (w1, x)" by fastforce
    show ?thesis
    proof (cases x)
      case (SendErr e)
      have "out w1 = out w" using SendErr 1(3) [unfolded stream_send_def, THEN spec, of w, THEN spec, of "drop sentSize msg"] s by simp
      moreover have "w' = w1 \<and> r = -1" using 1(5) s SendErr go by (auto simp: unf)
      ultimately show ?thesis using 1(4) by (intro exI [of _ sentSize]) simp
    next
      case (Sent n)
      have n: "n \<le> length msg - sentSize \<and> out w1 = out w @ take n (drop sentSize msg)"
        using 1(3) [unfolded stream_send_def, THEN spec, of w, THEN spec, of "drop sentSize msg"] s Sent by simp
      show ?thesis
      proof (cases "n = 0")
        case True
        have "send_loop sys w1 sock msg sentSize (retryCnt + 1) = (w', r)"
          using 1(5) s Sent go True by (simp add: unf)
        from 1(1) [OF go s [symmetric] Sent True 1(3,4) this] show ?thesis using n True by simp
      next
        case False
        have le: "sentSize + n \<le> length msg" using n 1(4) by linarith
        have "send_loop sys w1 sock msg (sentSize + n) 0 = (w', r)" using 1(5) s Sent go False by (simp add: unf)
        from 1(2) [OF go s [symmetric] Sent False 1(3) le this]
        obtain m where m: "sentSize + n \<le> m" "m \<le> length msg" "r = int m \<or> r = -1"
            "out w' = out w1 @ drop (sentSize + n) (take m msg)"
          by blast
        have "take n (drop sentSize msg) @ drop (sentSize + n) (take m msg) = drop sentSize (take m msg)"
          by (rule take_drop_split [OF m(1)])
        then show ?thesis using m n by (intro exI [of _ m]) simp
      qed
    qed
  qed
qed

text \<open>
  C19: \<open>sendMsg\<close> on a stream socket sends a prefix of the message, in order and without gaps
  or repeats, however the system call cuts it: the result is its length, or \<open>-1\<close> after an
  error. So a result of the full length means that exactly the message has been sent.
\<close>

theorem sendMsg_sends_prefix:
  assumes "stream_send sys out sock" "sendMsg sys w sock msg = Some (w', r)"
  shows "\<exists>n. n \<le> length msg \<and> out w' = out w @ take n msg \<and> (r = int n \<or> r = -1)"
proof -
  have "send_loop sys w sock msg 0 0 = (w', r)" using assms(2) by (simp add: sendMsg_def split: if_splits)
  from send_loop_stream [OF assms(1) _ this] show ?thesis by simp
qed

theorem sendMsg_sends_prefix_witness:
  "\<exists>w' r. sendMsg loop_sys ([], []) 4 [1, 2, 3, 4, 5] = Some (w', r) \<and>
     (\<exists>n. n \<le> length [1, 2, 3, 4, 5 :: u8] \<and> snd w' = take n [1, 2, 3, 4, 5] \<and> (r = int n \<or> r = -1))"
proof -
  obtain w' r where s: "sendMsg loop_sys ([], []) 4 [1, 2, 3, 4, 5] = Some (w', r)"
    by (simp add: sendMsg_def) fastforce
  have "\<exists>n. n \<le> length [1, 2, 3, 4, 5 :: u8] \<and> snd w' = snd ([] :: bytes, []) @ take n [1, 2, 3, 4, 5] \<and> (r = int n \<or> r = -1)"
    by (rule sendMsg_sends_prefix [OF loop_sys_streams(1) s])
  then show ?thesis unfolding snd_conv append_Nil using s by blast
qed

lemma recv_loop_stream:
  assumes "stream_recv sys pending sock" "pending w = drop recvSize xs @ rest" "recvSize \<le> length xs"
    "bufSize = length xs" "off + bufSize \<le> length buf" "take recvSize (drop off buf) = take recvSize xs"
    "retryCnt \<le> messageRetry"
  shows "\<exists>w'. recv_loop sys w sock buf off bufSize recvSize retryCnt
      = Some (w', take off buf @ xs @ drop (off + bufSize) buf, int bufSize) \<and> pending w' = rest"
  using assms
proof (induction sys w sock buf off bufSize recvSize retryCnt rule: recv_loop.induct)
  case (1 sys w sock buf off bufSize recvSize retryCnt)
  note unf = recv_loop.simps [of sys w sock buf off bufSize recvSize retryCnt]
  show ?case
  proof (cases "recvSize < bufSize")
    case False
    then have e: "recvSize = length xs" using "1.prems"(3,4) by simp
    have "buf = take off buf @ take (length xs) (drop off buf) @ drop (off + length xs) buf"
      by (metis append_take_drop_id drop_drop add.commute)
    then have "buf = take off buf @ xs @ drop (off + length xs) buf" using "1.prems"(6) e by simp
    moreover have "recv_loop sys w sock buf off bufSize recvSize retryCnt = Some (w, buf, int bufSize)"
      using False e "1.prems"(4) by (subst unf) simp
    ultimately show ?thesis using "1.prems"(2,4) e by simp
  next
    case True
    have ne: "pending w \<noteq> []" "0 < bufSize - recvSize" using "1.prems"(2,4) True by simp_all
    obtain w1 d where r: "rrecv sys w sock (bufSize - recvSize) = (w1, Got d)" "d \<noteq> []"
        "length d \<le> bufSize - recvSize" "pending w = d @ pending w1"
      using "1.prems"(1) ne unfolding stream_recv_def by blast
    have ld: "length d \<le> length (drop recvSize xs)" using r(3) "1.prems"(4) by simp
    note sp = append_split [OF r(4) [unfolded "1.prems"(2), symmetric] ld]
    have p1: "pending w1 = drop (recvSize + length d) xs @ rest" using sp by (simp add: add.commute)
    have room: "off + recvSize + length d \<le> length buf" using r(3) "1.prems"(5) True by linarith
    define b1 where "b1 = take (off + recvSize) buf @ d @ drop (off + recvSize + length d) buf"
    have b1: "blit buf (off + recvSize) d = Some b1" using room by (simp add: blit_def b1_def)
    have lb: "length b1 = length buf" using room by (simp add: b1_def)
    have "take (recvSize + length d) (drop off b1) = take recvSize (drop off buf) @ d"
      using room by (simp add: b1_def take_drop add.commute)
    also have "\<dots> = take recvSize xs @ take (length d) (drop recvSize xs)" using sp "1.prems"(6) by simp
    also have "\<dots> = take (recvSize + length d) xs" by (simp add: take_add)
    finally have t1: "take (recvSize + length d) (drop off b1) = take (recvSize + length d) xs" .
    have "go": "recvSize < bufSize \<and> retryCnt \<le> messageRetry" using True "1.prems"(7) by simp
    have le: "recvSize + length d \<le> length xs" using ld "1.prems"(3) by simp
    have le1: "off + bufSize \<le> length b1" using lb "1.prems"(5) by simp
    have zero: "0 \<le> messageRetry" by simp
    obtain w' where ih: "recv_loop sys w1 sock b1 off bufSize (recvSize + length d) 0
          = Some (w', take off b1 @ xs @ drop (off + bufSize) b1, int bufSize)" "pending w' = rest"
      using "1.IH"(2) [OF go r(1) [symmetric] refl r(2) b1 "1.prems"(1) p1 le "1.prems"(4) le1 t1 zero] by blast
    have "take off b1 = take off buf" "drop (off + bufSize) b1 = drop (off + bufSize) buf"
      using room r(3) True by (auto simp: b1_def add.commute)
    then show ?thesis using ih go r(1,2) b1 by (simp add: unf)
  qed
qed

lemma recvMsg_buf_stream:
  assumes "stream_recv sys pending sock" "pending w = xs @ rest" "0 \<le> sock" "off + length xs \<le> length buf"
  shows "\<exists>w'. recvMsg_buf sys w sock buf off (length xs)
      = Some (w', take off buf @ xs @ drop (off + length xs) buf, int (length xs)) \<and> pending w' = rest"
  using recv_loop_stream [OF assms(1), of w 0 xs rest "length xs" off buf 0] assms(2-4)
  by (simp add: recvMsg_buf_def)

lemma get_u32_append: "get_u32 p off = Some v \<Longrightarrow> get_u32 (p @ t) off = Some v"
  by (auto simp: get_u32_def mem_slice_def split: if_splits)

lemma get_u64_append: "get_u64 p off = Some v \<Longrightarrow> get_u64 (p @ t) off = Some v"
  by (auto simp: get_u64_def mem_slice_def split: if_splits)

lemma checkMsg_append:
  assumes "checkMsg p sz = Some b"
  shows "checkMsg (p @ t) sz = Some b"
proof -
  obtain magic where m: "get_u64 p 0 = Some magic" using assms by (auto simp: checkMsg_def bind_eq_Some_conv)
  have m': "get_u64 (p @ t) 0 = Some magic" by (rule get_u64_append [OF m])
  show ?thesis
  proof (cases "magic = MAGIC")
    case True
    obtain type where ty: "get_u32 p 8 = Some type" using assms m True by (auto simp: checkMsg_def bind_eq_Some_conv)
    note ty' = get_u32_append [OF ty, of t]
    show ?thesis
    proof (cases "type \<le> msg_code ACK_MSG")
      case le: True
      obtain hs where hs: "get_u32 p 16 = Some hs"
        using assms m True ty le by (auto simp: checkMsg_def bind_eq_Some_conv)
      note hs' = get_u32_append [OF hs, of t]
      show ?thesis
      proof (cases "sz = hs")
        case eq: True
        obtain cs tt where cs: "get_u32 p 12 = Some cs" "msg_of_code type = Some tt"
          using assms m True ty le hs eq by (auto simp: checkMsg_def bind_eq_Some_conv)
        note cs' = get_u32_append [OF cs(1), of t]
        show ?thesis
          using assms m m' True ty ty' le hs hs' eq cs cs'
          by (cases tt) (auto simp: checkMsg_def bind_eq_Some_conv intro: get_u32_append)
      qed (use assms m m' True ty ty' le hs hs' in \<open>simp add: checkMsg_def\<close>)
    qed (use assms m m' True ty ty' in \<open>simp add: checkMsg_def\<close>)
  qed (use assms m m' in \<open>simp add: checkMsg_def\<close>)
qed

lemma accepted_header:
  assumes "accepted p" "length p < 2 ^ 32"
  shows "get_u32 p 16 = Some (of_nat (length p))" "20 \<le> length p"
proof -
  show h: "get_u32 p 16 = Some (of_nat (length p))"
    using assms(1) by (auto simp: accepted_def checkMsg_def bind_eq_Some_conv split: if_splits)
  then show "20 \<le> length p" by (auto simp: get_u32_def mem_slice_def split: if_splits)
qed

text \<open>
  C18: a message crosses the network intact. When the bytes of an accepted message are next
  in the stream, \<open>recvMsg\<close> hands exactly these bytes to the caller and leaves the stream at
  the byte behind them, however the stream is cut into pieces, whatever the receive buffer
  held before, and also when the message is larger than the buffer.
\<close>

theorem recvMsg_complete:
  assumes "stream_recv sys pending sock" "0 \<le> sock" "pending w = p @ rest"
    "accepted p" "length p < 2 ^ 32" "20 \<le> length buf" "\<And>n. length (fresh n) = n"
  shows "\<exists>w' buf'. recvMsg sys fresh w sock buf = Some (w', buf', int (length p), Some p) \<and> pending w' = rest"
proof -
  let ?h = "take 20 p" and ?t = "drop 20 p"
  note hd = accepted_header [OF assms(4,5)]
  have us: "unat (of_nat (length p) :: u32) = length p" using assms(5) by (intro unat_of_nat_small) simp
  have lh: "length ?h = 20" "length ?t = length p - 20" using hd(2) by simp_all
  have "pending w = ?h @ (?t @ rest)" using assms(3) by simp
  from recvMsg_buf_stream [OF assms(1) this assms(2), of 0 buf] lh assms(6)
  obtain w1 where r1: "recvMsg_buf sys w sock buf 0 20 = Some (w1, ?h @ drop 20 buf, 20)" "pending w1 = ?t @ rest"
    by auto
  have "get_u32 ?h 16 = Some (of_nat (length p))"
    using hd by (auto simp: get_u32_def mem_slice_def drop_take split: if_splits)
  then have g: "get_u32 (?h @ drop 20 buf) 16 = Some (of_nat (length p))" by (rule get_u32_append)
  define b0 where "b0 = ?h @ drop 20 buf"
  have l0: "length b0 = length buf" "take 20 b0 = ?h" using hd(2) assms(6) by (simp_all add: b0_def)
  define b1 where "b1 = (if length b0 < length p then ?h @ drop 20 (fresh (length p)) else b0)"
  have m: "(if length b0 < length p then memcpy (fresh (length p)) 0 b0 0 20 else Some b0) = Some b1"
    using hd(2) assms(6) l0 assms(7) [of "length p"] by (auto simp: b1_def mem_simps)
  have b1: "take 20 b1 = ?h" "length p \<le> length b1"
    using hd(2) l0 assms(7) [of "length p"] by (auto simp: b1_def)
  have "20 + length ?t \<le> length b1" using b1(2) hd(2) by simp
  from recvMsg_buf_stream [OF assms(1) r1(2) assms(2) this] lh(2)
  obtain w2 where r2: "recvMsg_buf sys w1 sock b1 20 (length p - 20)
      = Some (w2, take 20 b1 @ ?t @ drop (20 + (length p - 20)) b1, int (length p - 20))" "pending w2 = rest"
    by auto
  define b2 where "b2 = p @ drop (length p) b1"
  have b2: "take 20 b1 @ ?t @ drop (20 + (length p - 20)) b1 = b2"
    using hd(2) by (simp add: b2_def b1(1) flip: append_assoc)
  have sum: "20 + int (length p - 20) = int (length p)" using hd(2) by simp
  have "checkMsg b2 (of_int (int (length p))) = Some True"
    using checkMsg_append [of p "of_nat (length p)" True] assms(4) by (simp add: b2_def accepted_def)
  moreover have "mem_slice 0 (length p) b2 = Some p" by (simp add: b2_def mem_slice_def)
  ultimately have "recvMsg sys fresh w sock buf = Some (w2, b2, int (length p), Some p)"
    unfolding recvMsg_def r1(1) [folded b0_def] using g [folded b0_def] m r2(1) sum us b2 hd(2)
    by (simp cong: if_cong)
  then show ?thesis using r2(2) by blast
qed

theorem recvMsg_complete_witness:
  "\<exists>w' buf'. recvMsg loop_sys (\<lambda>n. replicate n 0) (ping_packet @ [9], []) 4 (replicate 1024 0)
     = Some (w', buf', 20, Some ping_packet) \<and> fst w' = [9]"
proof -
  have "accepted ping_packet" by (rule accepted_packets)
  moreover have "length ping_packet = 20" by (simp add: ping_packet_def)
  ultimately show ?thesis
    using recvMsg_complete [OF loop_sys_streams(2), of "(ping_packet @ [9], [])" ping_packet "[9]"
        "replicate 1024 0" "\<lambda>n. replicate n 0"]
    by simp
qed

end
