(* ===== verification/SocketPool.thy ===== *)
theory SocketPool
  imports Sockets
begin

text \<open>
  What the socket management of \<^verbatim>\<open>src/common/Connection.cpp\<close> guarantees: polling returns, and the
  pool of a client gives each socket to one thread.
\<close>

subsection \<open>Polling returns\<close>

text \<open>
  The documented behaviour of \<open>rpoll\<close>: the descriptors keep their sockets; the result counts
  those with an event, or is \<open>-1\<close>.
\<close>

abbreviation ready :: "pollfd list \<Rightarrow> nat" where
  "ready ps \<equiv> count_if (\<lambda>p. p_revents p \<noteq> 0) ps"

definition polls :: "'w sys \<Rightarrow> bool" where
  "polls sys \<longleftrightarrow>
     (\<forall>w ps. case rpoll sys w ps of (w', ps', r) \<Rightarrow>
        map p_fd ps' = map p_fd ps \<and> (r = -1 \<or> r = int (ready ps')))"

text \<open>No socket has two entries.\<close>

definition fds_ok :: "pollfd list \<Rightarrow> bool" where
  "fds_ok ps \<longleftrightarrow> length ps < 2 ^ 32 \<and>
     (\<forall>i < length ps. \<forall>j < length ps. p_fd (ps ! i) = p_fd (ps ! j) \<longrightarrow> p_fd (ps ! i) = -1 \<or> i = j)"

text \<open>The counter of the messages that are left is the number of sockets with an event.\<close>

definition poll_ok :: "connection \<Rightarrow> bool" where
  "poll_ok k \<longleftrightarrow> k_isServer k \<and> fds_ok (k_pfds k)
     \<and> (0 \<le> k_inMsgs k \<longrightarrow> k_inMsgs k = int (ready (k_pfds k)))"

lemma pfd_off_sel [simp]: "p_fd pfd_off = -1" "p_revents pfd_off = 0"
  by (simp_all add: pfd_off_def)

lemma fds_ok_fds: "map p_fd qs = map p_fd ps \<Longrightarrow> fds_ok ps \<Longrightarrow> fds_ok qs"
  unfolding fds_ok_def by (metis length_map nth_map)

lemma fds_ok_off: "fds_ok ps \<Longrightarrow> fds_ok (ps[i := pfd_off])"
  by (cases "i < length ps") (auto simp: fds_ok_def nth_list_update split: if_splits)

lemma off_pfd_nth:
  assumes "i < length ps" "\<And>j. j < length ps \<Longrightarrow> p_fd (ps ! j) = p_fd (ps ! i) \<Longrightarrow> j = i"
  shows "off_pfd (p_fd (ps ! i)) ps = (ps[i := pfd_off], True)"
  using assms
proof (induction ps arbitrary: i)
  case (Cons p ps)
  show ?case
  proof (cases i)
    case (Suc m)
    have "j = m" if "j < length ps" "p_fd (ps ! j) = p_fd (ps ! m)" for j
      using Cons.prems(2) [of "Suc j"] that Suc by simp
    moreover have "p_fd p \<noteq> p_fd (ps ! m)" using Cons.prems(2) [of 0] Suc by auto
    ultimately show ?thesis using Cons.IH [of m] Cons.prems(1) Suc by auto
  qed simp
qed simp

lemma close_server:
  assumes "k_isServer k" "fds_ok (k_pfds k)" "i < length (k_pfds k)"
  shows "\<exists>w' k' t' s r. closeSocket sys w k t (p_fd (k_pfds k ! i)) = Some (w', k', t', s, r) \<and>
    (k_pfds k')[i := pfd_off] = (k_pfds k)[i := pfd_off] \<and> k_isServer k' \<and>
    k_inMsgs k' = k_inMsgs k \<and> k_nextSocket k' = k_nextSocket k"
proof (cases "p_fd (k_pfds k ! i) = -1")
  case False
  have "off_pfd (p_fd (k_pfds k ! i)) (k_pfds k) = ((k_pfds k)[i := pfd_off], True)"
    using assms(2,3) False by (intro off_pfd_nth) (auto simp: fds_ok_def)
  then show ?thesis using assms(1) False by (auto simp: closeSocket_def split: prod.splits)
qed (use assms in \<open>simp add: closeSocket_def\<close>)

lemma close_range_ok:
  assumes "k_isServer k" "fds_ok (k_pfds k)" "\<forall>i \<in> set is. i < length (k_pfds k)"
  shows "\<exists>w' k' t'. close_range sys is w k t = Some (w', k', t') \<and> k_isServer k' \<and> fds_ok (k_pfds k') \<and>
    k_inMsgs k' = k_inMsgs k \<and> length (k_pfds k') = length (k_pfds k) \<and>
    (\<forall>j < length (k_pfds k). k_pfds k' ! j = (if j \<in> set is then pfd_off else k_pfds k ! j))"
  using assms
proof (induction "is" arbitrary: w k t)
  case (Cons i "is")
  obtain w1 k1 t1 s r where c: "closeSocket sys w k t (p_fd (k_pfds k ! i)) = Some (w1, k1, t1, s, r)"
      "(k_pfds k1)[i := pfd_off] = (k_pfds k)[i := pfd_off]" "k_isServer k1" "k_inMsgs k1 = k_inMsgs k"
    using close_server [OF Cons.prems(1,2), of i sys w t] Cons.prems(3) by auto
  let ?k2 = "k1\<lparr>k_pfds := (k_pfds k1)[i := pfd_off]\<rparr>"
  have pre: "k_isServer ?k2" "fds_ok (k_pfds ?k2)" "\<forall>i \<in> set is. i < length (k_pfds ?k2)"
    using c Cons.prems fds_ok_off by auto
  obtain w2 k2 t2 where ih: "close_range sys is w1 ?k2 t1 = Some (w2, k2, t2)" "k_isServer k2" "fds_ok (k_pfds k2)"
      "k_inMsgs k2 = k_inMsgs ?k2" "length (k_pfds k2) = length (k_pfds ?k2)"
      "\<forall>j < length (k_pfds ?k2). k_pfds k2 ! j = (if j \<in> set is then pfd_off else k_pfds ?k2 ! j)"
    using Cons.IH [OF pre, of w1 t1] by blast
  have "close_range sys (i # is) w k t = Some (w2, k2, t2)" using c(1) ih(1) by simp
  moreover have "length (k_pfds k2) = length (k_pfds k)" "k_inMsgs k2 = k_inMsgs k" using ih(4,5) c by simp_all
  moreover have "k_pfds k2 ! j = (if j \<in> set (i # is) then pfd_off else k_pfds k ! j)"
    if "j < length (k_pfds k)" for j
    using ih(6) [rule_format, of j] that by (simp add: c(2) nth_list_update)
  ultimately show ?case using ih(2,3) by blast
qed auto

lemma ceil_steps:
  fixes s l :: nat
  assumes "0 < s"
  shows "l \<le> (l + s - 1) div s * s" "(l + s - 1) div s = 0 \<or> ((l + s - 1) div s - 1) * s < l"
proof -
  define q where "q = (l + s - 1) div s"
  have q: "q * s \<le> l + s - 1" "l + s - 1 < s + q * s"
    using div_times_less_eq_dividend [of "l + s - 1" s] dividend_less_div_times [OF assms, of "l + s - 1"]
    by (simp_all add: q_def)
  show "l \<le> (l + s - 1) div s * s" using q(2) assms unfolding q_def [symmetric] by linarith
  show "(l + s - 1) div s = 0 \<or> ((l + s - 1) div s - 1) * s < l"
    unfolding q_def [symmetric] using q(1) assms by (cases q) simp_all
qed

lemma poll_steps_ok:
  assumes "polls sys" "k_isServer k" "fds_ok (k_pfds k)" "length (k_pfds k) \<le> b * socketStep"
    "k_inMsgs k = int (ready (take (a * socketStep) (k_pfds k)))" "a \<le> b"
    "b = 0 \<or> (b - 1) * socketStep < length (k_pfds k)"
  shows "\<exists>w' k' t'. poll_steps sys (map (\<lambda>j. j * socketStep) [a..<b]) w k t = Some (w', k', t') \<and>
    poll_ok k' \<and> 0 \<le> k_inMsgs k' \<and> length (k_pfds k') = length (k_pfds k)"
  using assms
proof (induction "b - a" arbitrary: a w k t)
  case 0
  then have "a = b" by simp
  then show ?case using 0 by (simp add: poll_ok_def)
next
  case (Suc d)
  let ?i = "a * socketStep" and ?ps = "k_pfds k"
  define nfds where "nfds = min socketStep (length ?ps - ?i)"
  have ab: "a < b" "d = b - Suc a" using Suc.hyps(2) by simp_all
  then have up: "[a..<b] = a # [Suc a..<b]" by (simp add: upt_conv_Cons)
  have "a * socketStep \<le> (b - 1) * socketStep" using ab(1) by (intro mult_le_mono1) simp
  moreover have "(b - 1) * socketStep < length ?ps" using Suc.prems(7) ab(1) by auto
  ultimately have i: "?i < length ?ps" by linarith
  then have nf: "?i + nfds \<le> length ?ps" by (simp add: nfds_def)
  obtain w1 qs r where rp: "rpoll sys w (take nfds (drop ?i ?ps)) = (w1, qs, r)" by (metis prod_cases3)
  have q: "map p_fd qs = map p_fd (take nfds (drop ?i ?ps))" "r = -1 \<or> r = int (ready qs)"
    using Suc.prems(1) [unfolded polls_def, THEN spec, of w, THEN spec, of "take nfds (drop ?i ?ps)"] rp by simp_all
  have lq: "length qs = nfds" using arg_cong [OF q(1), of length] nf by simp
  define k1 where "k1 = k\<lparr>k_pfds := take ?i ?ps @ qs @ drop (?i + nfds) ?ps\<rparr>"
  have l1: "length (k_pfds k1) = length ?ps" using lq nf by (simp add: k1_def)
  have "map p_fd (k_pfds k1) = map p_fd ?ps"
  proof -
    have "map p_fd (k_pfds k1) = map p_fd (take ?i ?ps @ take nfds (drop ?i ?ps) @ drop (?i + nfds) ?ps)"
      by (simp add: k1_def q(1))
    also have "take ?i ?ps @ take nfds (drop ?i ?ps) @ drop (?i + nfds) ?ps = ?ps"
      by (metis append_take_drop_id drop_drop add.commute)
    finally show ?thesis .
  qed
  then have f1: "fds_ok (k_pfds k1)" using fds_ok_fds Suc.prems(3) by blast
  have ti: "take (?i + nfds) (k_pfds k1) = take ?i ?ps @ qs" "take ?i (k_pfds k1) = take ?i ?ps"
    using lq nf by (simp_all add: k1_def)
  have cover: "take (Suc a * socketStep) xs = take (?i + nfds) xs" if "length xs = length ?ps" for xs :: "pollfd list"
    using that i by (auto simp: nfds_def min_def add.commute)
  have "\<exists>w2 k2 t2. poll_steps sys (map (\<lambda>j. j * socketStep) [a..<b]) w k t
      = poll_steps sys (map (\<lambda>j. j * socketStep) [Suc a..<b]) w2 k2 t2 \<and> k_isServer k2 \<and>
      fds_ok (k_pfds k2) \<and> length (k_pfds k2) = length ?ps \<and>
      k_inMsgs k2 = int (ready (take (?i + nfds) (k_pfds k2)))"
  proof (cases "r = -1")
    case True
    have "\<forall>j \<in> set [?i..<?i + nfds]. j < length (k_pfds k1)" using nf l1 by simp
    from close_range_ok [OF _ f1 this, of sys w1 t] Suc.prems(2)
    obtain w2 k2 t2 where c: "close_range sys [?i..<?i + nfds] w1 k1 t = Some (w2, k2, t2)" "k_isServer k2"
        "fds_ok (k_pfds k2)" "k_inMsgs k2 = k_inMsgs k1" "length (k_pfds k2) = length (k_pfds k1)"
        "\<forall>j < length (k_pfds k1). k_pfds k2 ! j = (if j \<in> set [?i..<?i + nfds] then pfd_off else k_pfds k1 ! j)"
      by (auto simp: k1_def)
    have "take (?i + nfds) (k_pfds k2) = take ?i ?ps @ replicate nfds pfd_off"
      by (rule nth_equalityI) (use c(5,6) l1 nf in \<open>auto simp: nth_append k1_def\<close>)
    then have "k_inMsgs k2 = int (ready (take (?i + nfds) (k_pfds k2)))"
      using c(4) Suc.prems(5) by (simp add: k1_def)
    moreover have "poll_steps sys (map (\<lambda>j. j * socketStep) [a..<b]) w k t
        = poll_steps sys (map (\<lambda>j. j * socketStep) [Suc a..<b]) w2 k2 t2"
      using rp c(1) True by (simp add: up Let_def nfds_def [symmetric] k1_def [symmetric])
    ultimately show ?thesis using c l1 by auto
  next
    case False
    let ?k2 = "k1\<lparr>k_inMsgs := k_inMsgs k1 + r\<rparr>"
    have "k_inMsgs ?k2 = int (ready (take (?i + nfds) (k_pfds ?k2)))"
      using q(2) False Suc.prems(5) ti by (simp add: k1_def)
    moreover have "poll_steps sys (map (\<lambda>j. j * socketStep) [a..<b]) w k t
        = poll_steps sys (map (\<lambda>j. j * socketStep) [Suc a..<b]) w1 ?k2 t"
      using rp False by (simp add: up Let_def nfds_def [symmetric] k1_def [symmetric])
    moreover have "k_isServer ?k2" using Suc.prems(2) by (simp add: k1_def)
    ultimately show ?thesis using f1 l1 by (intro exI [of _ w1] exI [of _ ?k2] exI [of _ t]) simp
  qed
  then obtain w2 k2 t2 where s: "poll_steps sys (map (\<lambda>j. j * socketStep) [a..<b]) w k t
      = poll_steps sys (map (\<lambda>j. j * socketStep) [Suc a..<b]) w2 k2 t2" "k_isServer k2"
      "fds_ok (k_pfds k2)" "length (k_pfds k2) = length ?ps"
      "k_inMsgs k2 = int (ready (take (Suc a * socketStep) (k_pfds k2)))"
    using cover by (metis (no_types, lifting))
  show ?case
    unfolding s(1) using Suc.hyps(1) [OF ab(2) Suc.prems(1) s(2,3) _ s(5) _ _, of w2 t2] Suc.prems(4,7) s(4) ab(1)
    by simp
qed

text \<open>The scan passes the sockets without an event.\<close>

lemma poll_scan_skip:
  assumes "0 < k_inMsgs k" "k_pfds k \<noteq> []"
    and "p_revents (k_pfds k ! (unat (v + of_nat d) mod length (k_pfds k))) \<noteq> 0"
  shows "\<exists>v'. p_revents (k_pfds k ! (unat v' mod length (k_pfds k))) \<noteq> 0 \<and>
    poll_scan sys w (k\<lparr>k_nextSocket := v\<rparr>) t = poll_scan sys w (k\<lparr>k_nextSocket := v'\<rparr>) t"
  using assms(3)
proof (induction d arbitrary: v)
  case (Suc d)
  show ?case
  proof (cases "p_revents (k_pfds k ! (unat v mod length (k_pfds k))) = 0")
    case True
    then have "poll_scan sys w (k\<lparr>k_nextSocket := v\<rparr>) t = poll_scan sys w (k\<lparr>k_nextSocket := v + 1\<rparr>) t"
      using assms(1,2) by (subst poll_scan.simps) (simp add: Let_def)
    moreover have "p_revents (k_pfds k ! (unat (v + 1 + of_nat d) mod length (k_pfds k))) \<noteq> 0"
      using Suc.prems by (simp add: add_ac)
    ultimately show ?thesis using Suc.IH by metis
  qed blast
qed auto

lemma poll_scan_stop:
  assumes "k_inMsgs k \<le> 0" shows "poll_scan sys w k t = Some (w, k, t)"
  using assms by (subst poll_scan.simps) simp

lemma ready_off:
  assumes "i < length ps" "p_revents (ps ! i) \<noteq> 0" "p_revents x = 0"
  shows "ready (ps[i := x]) + 1 = ready ps"
  using count_if_update [OF assms(1), of "\<lambda>p. p_revents p \<noteq> 0" x] assms(2,3) by simp

lemma poll_scan_ok:
  assumes "poll_ok k" "k_inMsgs k = int n"
  shows "\<exists>w' k' t'. poll_scan sys w k t = Some (w', k', t') \<and> k_isServer k' \<and> fds_ok (k_pfds k') \<and>
    0 \<le> k_inMsgs k' \<and> length (k_pfds k') = length (k_pfds k) \<and>
    (0 < k_inMsgs k' \<longrightarrow> k_inMsgs k' = int (ready (k_pfds k')) + 1)"
  using assms
proof (induction n arbitrary: w k t)
  case 0
  then show ?case using poll_scan_stop [of k sys w t] by (simp add: poll_ok_def)
next
  case (Suc n)
  let ?ps = "k_pfds k" and ?l = "length (k_pfds k)"
  have inv: "k_isServer k" "fds_ok ?ps" "ready ?ps = Suc n" using Suc.prems by (simp_all add: poll_ok_def)
  have pos: "0 < k_inMsgs k" using Suc.prems(2) by simp
  have "filter (\<lambda>p. p_revents p \<noteq> 0) ?ps \<noteq> []" using inv(3) by auto
  then obtain p where "p \<in> set ?ps" "p_revents p \<noteq> 0" by (auto simp: filter_empty_conv)
  then obtain i where i: "i < ?l" "p_revents (?ps ! i) \<noteq> 0" by (auto simp: in_set_conv_nth)
  have ne: "?ps \<noteq> []" using i(1) by auto
  have "i < 2 ^ 32" using i(1) inv(2) by (simp add: fds_ok_def)
  then have "unat (of_nat i :: u32) = i" by (intro unat_of_nat_small) simp
  then have "p_revents (?ps ! (unat (k_nextSocket k + of_nat (unat (of_nat i - k_nextSocket k))) mod ?l)) \<noteq> 0"
    using i by simp
  from poll_scan_skip [OF pos ne this, of sys w t]
  obtain v where v: "p_revents (?ps ! (unat v mod ?l)) \<noteq> 0"
      "poll_scan sys w k t = poll_scan sys w (k\<lparr>k_nextSocket := v\<rparr>) t"
    by auto
  define x where "x = unat v mod ?l"
  have x: "x < ?l" "p_revents (?ps ! x) \<noteq> 0" using v(1) i(1) by (auto simp: x_def intro: mod_less_divisor)
  show ?case
  proof (cases "p_revents (?ps ! x) = POLLIN")
    case True
    let ?q = "(?ps ! x)\<lparr>p_revents := 0\<rparr>"
    have "map p_fd (?ps[x := ?q]) = map p_fd ?ps" using x(1) by (simp add: map_update list_update_same_conv)
    then have "fds_ok (?ps[x := ?q])" using fds_ok_fds inv(2) by blast
    moreover have "ready (?ps[x := ?q]) + 1 = ready ?ps" by (rule ready_off [OF x]) simp
    ultimately show ?thesis
      unfolding v(2) using pos ne inv Suc.prems(2) True x(2)
      by (subst poll_scan.simps) (simp add: Let_def x_def [symmetric])
  next
    case False
    let ?k = "k\<lparr>k_nextSocket := v + 1\<rparr>"
    have "x < length (k_pfds ?k)" "k_isServer ?k" "fds_ok (k_pfds ?k)" using x inv by simp_all
    from close_server [OF this(2,3,1), of sys w t]
    obtain w1 k1 t1 s r where c: "closeSocket sys w ?k t (p_fd (?ps ! x)) = Some (w1, k1, t1, s, r)"
        "(k_pfds k1)[x := pfd_off] = ?ps[x := pfd_off]" "k_isServer k1" "k_inMsgs k1 = k_inMsgs k"
      by auto
    define k2 where "k2 = k1\<lparr>k_pfds := (k_pfds k1)[x := pfd_off], k_inMsgs := k_inMsgs k1 - 1\<rparr>"
    have "ready (?ps[x := pfd_off]) + 1 = ready ?ps" by (rule ready_off [OF x]) simp
    then have k2: "poll_ok k2" "k_inMsgs k2 = int n" "length (k_pfds k2) = ?l"
      using c inv Suc.prems(2) fds_ok_off [OF inv(2)] by (simp_all add: k2_def poll_ok_def)
    have "poll_scan sys w k t = poll_scan sys w1 k2 t1"
      unfolding v(2) using pos ne x(2) False c(1)
      by (subst poll_scan.simps) (simp add: Let_def x_def [symmetric] k2_def)
    then show ?thesis using Suc.IH [OF k2(1,2), of w1 t1] k2(3) by auto
  qed
qed

text \<open>
  C20: \<open>pollMsg\<close> of a server always returns: the loop over the sockets finds as many events as
  were counted, also when sockets fail and are closed on the way, and every call leaves the
  counter of messages equal to the number of sockets that still have an event.
\<close>

theorem pollMsg_returns:
  assumes "polls sys" "poll_ok k"
  shows "\<exists>w' k' t' n. pollMsg sys w k t = Some (w', k', t', n) \<and> 0 \<le> n \<and> poll_ok k' \<and>
    length (k_pfds k') = length (k_pfds k)"
proof -
  let ?t = "t\<lparr>tl_socket := -1\<rparr>" and ?l = "length (k_pfds k)"
  have srv: "k_isServer k" "fds_ok (k_pfds k)" using assms(2) by (simp_all add: poll_ok_def)
  let ?first = "if k_inMsgs k < 0
      then poll_steps sys (step_starts ?l) w (k\<lparr>k_inMsgs := 0\<rparr>) ?t else Some (w, k, ?t)"
  have "\<exists>w1 k1 t1. ?first = Some (w1, k1, t1) \<and> poll_ok k1 \<and> 0 \<le> k_inMsgs k1 \<and> length (k_pfds k1) = ?l"
  proof (cases "k_inMsgs k < 0")
    case True
    let ?b = "(?l + socketStep - 1) div socketStep"
    have b: "?l \<le> ?b * socketStep" "?b = 0 \<or> (?b - 1) * socketStep < ?l"
      using ceil_steps [of socketStep ?l] by (simp_all add: socketStep_def)
    show ?thesis
      using poll_steps_ok [of sys "k\<lparr>k_inMsgs := 0\<rparr>" ?b 0 w ?t] assms(1) srv b True by (simp add: step_starts_def)
  next
    case False
    then show ?thesis using assms(2) by simp
  qed
  then obtain w1 k1 t1 where f: "?first = Some (w1, k1, t1)" "poll_ok k1" "0 \<le> k_inMsgs k1" "length (k_pfds k1) = ?l"
    by blast
  have "k_inMsgs k1 = int (nat (k_inMsgs k1))" using f(3) by simp
  from poll_scan_ok [OF f(2) this, of sys w1 t1]
  obtain w2 k2 t2 where g: "poll_scan sys w1 k1 t1 = Some (w2, k2, t2)" "k_isServer k2" "fds_ok (k_pfds k2)"
      "0 \<le> k_inMsgs k2" "length (k_pfds k2) = length (k_pfds k1)"
      "0 < k_inMsgs k2 \<longrightarrow> k_inMsgs k2 = int (ready (k_pfds k2)) + 1"
    by blast
  have "pollMsg sys w k t = Some (w2, k2\<lparr>k_inMsgs := k_inMsgs k2 - 1\<rparr>, t2, k_inMsgs k2)"
    unfolding pollMsg_def Let_def using srv(1) f(1) g(1) by (simp del: poll_steps.simps)
  moreover have "poll_ok (k2\<lparr>k_inMsgs := k_inMsgs k2 - 1\<rparr>)"
    using g(2-4,6) by (auto simp: poll_ok_def)
  ultimately show ?thesis using g(4,5) f(4) by auto
qed

theorem pollMsg_returns_witness:
  "\<exists>w' k' t' n. pollMsg loop_sys ([], []) (new_server 7) \<lparr>tl_socket = -1, tl_closed = 0, tl_buffer = []\<rparr>
     = Some (w', k', t', n)"
proof -
  have p: "poll_ok (new_server 7)"
    by (simp add: poll_ok_def fds_ok_def new_server_def addSocket_server_def new_client_def)
  have q: "polls loop_sys" by (auto simp: polls_def loop_sys_def Let_def)
  show ?thesis using pollMsg_returns [OF q p] by blast
qed

subsection \<open>The socket pool of a client\<close>

text \<open>The threads of a client, each with its \<open>_tlSocket\<close>, over one connection.\<close>

type_synonym 'w pool = "'w \<times> connection \<times> tls list"

inductive pool_step :: "'w sys \<Rightarrow> 'w pool \<Rightarrow> 'w pool \<Rightarrow> bool" for sys where
  PLock: "\<lbrakk>i < length ts; tl_socket (ts ! i) = -1; lock_connection k (ts ! i) = Some (k', t')\<rbrakk> \<Longrightarrow>
     pool_step sys (w, k, ts) (w, k', ts[i := t'])"
| PUnlock: "\<lbrakk>i < length ts; unlock_connection k (ts ! i) = (k', t', n)\<rbrakk> \<Longrightarrow>
     pool_step sys (w, k, ts) (w, k', ts[i := t'])"
| PRestart: "\<lbrakk>i < length ts; restartSocket sys w (ts ! i) = (w', t', b)\<rbrakk> \<Longrightarrow>
     pool_step sys (w, k, ts) (w', k, ts[i := t'])"
| PAdd: "addSocket_client sys w k = (w', k', b) \<Longrightarrow> pool_step sys (w, k, ts) (w', k', ts)"

text \<open>
  The documented behaviour of the kernel: a new socket is not open before, a closed one is not
  open any more. Here every connection attempt succeeds.
\<close>

definition connects :: "'w sys \<Rightarrow> ('w \<Rightarrow> int set) \<Rightarrow> bool" where
  "connects sys opened \<longleftrightarrow>
     (\<forall>w. case getOutSocket sys w of (w', s) \<Rightarrow> 0 < s \<and> s \<notin> opened w \<and> opened w' = insert s (opened w)) \<and>
     (\<forall>w s. opened (fst (rclose sys w s)) = opened w - {s})"

definition pool_ok :: "('w \<Rightarrow> int set) \<Rightarrow> 'w pool \<Rightarrow> bool" where
  "pool_ok opened s \<longleftrightarrow>
     (case s of (w, k, ts) \<Rightarrow>
        \<not> k_isServer k \<and> distinct (k_sockets k) \<and> (\<forall>x \<in> set (k_sockets k). 0 < x \<and> x \<in> opened w) \<and>
        (\<forall>i < length ts. tl_socket (ts ! i) = -1 \<or>
           (0 < tl_socket (ts ! i) \<and> tl_socket (ts ! i) \<in> opened w \<and> tl_socket (ts ! i) \<notin> set (k_sockets k))) \<and>
        (\<forall>i < length ts. \<forall>j < length ts.
           tl_socket (ts ! i) = tl_socket (ts ! j) \<longrightarrow> tl_socket (ts ! i) = -1 \<or> i = j))"

lemma connects_initialize:
  assumes "connects sys opened" "initializeSocket sys w = (w', s)"
  shows "0 < s" "s \<notin> opened w" "opened w' = insert s (opened w)"
proof -
  obtain w1 s1 where g: "getOutSocket sys w = (w1, s1)" by fastforce
  have c: "0 < s1 \<and> s1 \<notin> opened w \<and> opened w1 = insert s1 (opened w)"
    using assms(1) [unfolded connects_def, THEN conjunct1, THEN spec, of w] g by simp
  have "initializeSocket sys w = (w1, s1)"
    unfolding initializeSocket_def by (subst init_loop.simps) (use g c in \<open>simp add: Let_def\<close>)
  then show "0 < s" "s \<notin> opened w" "opened w' = insert s (opened w)" using c assms(2) by simp_all
qed

lemma pool_step_ok:
  assumes "connects sys opened" "pool_step sys s s'" "pool_ok opened s"
  shows "pool_ok opened s'"
  using assms(2,3)
proof (cases rule: pool_step.cases)
  case (PLock i ts k k' t' w)
  have pos: "\<forall>x \<in> set (k_sockets k). 0 < x" using assms(3) PLock(1) by (simp add: pool_ok_def)
  then have "dropWhile (\<lambda>s. s < 0) (k_sockets k) = k_sockets k" by (cases "k_sockets k") auto
  then obtain x xs where x: "k_sockets k = x # xs" "k' = k\<lparr>k_sockets := xs\<rparr>" "tl_socket t' = x"
    using PLock(5) assms(3) PLock(1)
    by (auto simp: lock_connection_def pool_ok_def split: list.splits)
  then show ?thesis
    using assms(3) PLock(1-4) by (auto simp: pool_ok_def nth_list_update)
next
  case (PUnlock i ts k k' t' n w)
  have own: "0 < tl_socket (ts ! i) \<and> tl_socket (ts ! i) \<in> opened w \<and> tl_socket (ts ! i) \<notin> set (k_sockets k)"
    if "0 \<le> tl_socket (ts ! i)"
    using assms(3) PUnlock(1,3) that by (auto simp: pool_ok_def)
  have oth: False if "0 \<le> tl_socket (ts ! i)" "j < length ts" "tl_socket (ts ! j) = tl_socket (ts ! i)" "i \<noteq> j" for j
    using assms(3) PUnlock(1,3) that by (auto simp: pool_ok_def)
  have nin: False if "j < length ts" "tl_socket (ts ! j) \<in> set (k_sockets k)" "tl_socket (ts ! j) \<noteq> -1" for j
    using assms(3) PUnlock(1) that by (auto simp: pool_ok_def)
  show ?thesis
  proof (cases "0 \<le> tl_socket (ts ! i)")
    case True
    then show ?thesis
      using assms(3) PUnlock own [OF True]
      by (auto simp: pool_ok_def unlock_connection_def nth_list_update dest: oth [OF True] nin)
  next
    case False
    then have "k' = k" "t' = ts ! i"
      using assms(3) PUnlock by (simp_all add: pool_ok_def unlock_connection_def)
    then show ?thesis using assms(3) PUnlock(1,2) by simp
  qed
next
  case (PRestart i ts w w' t' b k)
  show ?thesis
  proof (cases "0 < tl_socket (ts ! i)")
    case True
    obtain w1 r where c: "rclose sys w (tl_socket (ts ! i)) = (w1, r)" by fastforce
    obtain w2 x where n: "initializeSocket sys w1 = (w2, x)" by fastforce
    have o: "opened w1 = opened w - {tl_socket (ts ! i)}"
      using assms(1) c unfolding connects_def by (metis fst_conv)
    note nx = connects_initialize [OF assms(1) n]
    have e: "w' = w2" "tl_socket t' = x" using PRestart(4) True c n nx(1) by (auto simp: restartSocket_def)
    show ?thesis
      using assms(3) PRestart(1-3) nx o e True by (auto simp: pool_ok_def nth_list_update)
  next
    case False
    then have "w' = w" "t' = ts ! i" using PRestart(4) by (simp_all add: restartSocket_def)
    then show ?thesis using assms(3) PRestart(1-3) by simp
  qed
next
  case (PAdd w k w' k' b ts)
  obtain w1 x where n: "initializeSocket sys w = (w1, x)" by fastforce
  note nx = connects_initialize [OF assms(1) n]
  have "\<not> k_isServer k" using assms(3) PAdd(1) by (simp add: pool_ok_def)
  then have e: "w' = w1" "k' = k\<lparr>k_sockets := k_sockets k @ [x], k_numSockets := k_numSockets k + 1\<rparr>"
    using PAdd(3) n nx(1) by (simp_all add: addSocket_client_def)
  show ?thesis
    using assms(3) PAdd(1,2) nx e by (auto simp: pool_ok_def)
qed

definition idle_thread :: tls where
  "idle_thread = \<lparr>tl_socket = -1, tl_closed = 0, tl_buffer = []\<rparr>"

text \<open>
  C21: as long as connecting succeeds, the socket pool gives no socket to two threads: in every
  interleaving of locking, unlocking, restarting and adding sockets, the sockets held by the
  threads are open, pairwise different and not in the pool.
\<close>

theorem sockets_are_exclusive:
  assumes "connects sys opened"
    and "(pool_step sys)\<^sup>*\<^sup>* (w0, new_client, replicate n idle_thread) (w, k, ts)"
    and "i < length ts" "tl_socket (ts ! i) \<noteq> -1"
  shows "tl_socket (ts ! i) \<in> opened w \<and> tl_socket (ts ! i) \<notin> set (k_sockets k) \<and>
    (\<forall>j < length ts. tl_socket (ts ! j) = tl_socket (ts ! i) \<longrightarrow> j = i)"
proof -
  have "pool_ok opened (w0, new_client, replicate n idle_thread)"
    by (simp add: pool_ok_def new_client_def idle_thread_def)
  with assms(2) have "pool_ok opened (w, k, ts)"
    by (induction rule: rtranclp_induct) (use pool_step_ok [OF assms(1)] in blast)+
  then show ?thesis using assms(3,4) unfolding pool_ok_def split_conv by (metis (no_types, lifting))
qed

text \<open>
  A kernel: the first field says which connection attempts succeed (all of them behind the
  end of the list), the second one lists the open descriptors. A new one follows the largest.
\<close>

definition kernel_sys :: "(bool list \<times> int list) sys" where
  "kernel_sys = \<lparr>rsend = (\<lambda>w s m. (w, Sent (length m))), rrecv = (\<lambda>w s n. (w, Got [])),
     rclose = (\<lambda>(b, os) s. ((b, filter (\<lambda>x. x \<noteq> s) os), 0)), rshutdown = (\<lambda>w s. (w, 0)),
     getOutSocket = (\<lambda>(b, os). let n = fold max os 4 + 1 in
        case b of
          [] \<Rightarrow> (([], n # os), n)
        | ok # b \<Rightarrow> if ok then ((b, n # os), n) else ((b, os), -1)),
     rpoll = (\<lambda>w ps. (w, ps, 0))\<rparr>"

definition reliable_sys :: "(bool list \<times> int list) sys" where
  "reliable_sys = kernel_sys\<lparr>getOutSocket := (\<lambda>(b, os). getOutSocket kernel_sys ([], os))\<rparr>"

lemma fold_max: "a \<le> fold max xs a \<and> (x \<in> set xs \<longrightarrow> x \<le> fold max xs (a :: int))"
  by (induction xs arbitrary: a) (auto intro: order.trans [of _ "max _ _"] max.cobounded1 max.cobounded2)

lemma reliable_connects: "connects reliable_sys (\<lambda>w. set (snd w))"
proof -
  have "0 < fold max os 4 + 1 \<and> fold max os 4 + 1 \<notin> set os" for os :: "int list"
    using fold_max [of 4 os] by (metis add.commute add_pos_nonneg less_irrefl less_le_trans
      linorder_not_le order.trans zero_less_numeral zless_add1_eq zle_add1_eq_le)
  then show ?thesis by (auto simp: connects_def reliable_sys_def kernel_sys_def Let_def)
qed

text \<open>Runs that can be computed: one event per step.\<close>

datatype pool_event = ELock nat | EUnlock nat | ERestart nat | EAdd

fun pool_exec1 :: "'w sys \<Rightarrow> pool_event \<Rightarrow> 'w pool \<Rightarrow> 'w pool option" where
  "pool_exec1 sys (ELock i) (w, k, ts) =
     (if i < length ts \<and> tl_socket (ts ! i) = -1
      then map_option (\<lambda>(k, t). (w, k, ts[i := t])) (lock_connection k (ts ! i)) else None)"
| "pool_exec1 sys (EUnlock i) (w, k, ts) =
     (if i < length ts then let (k, t, n) = unlock_connection k (ts ! i) in Some (w, k, ts[i := t]) else None)"
| "pool_exec1 sys (ERestart i) (w, k, ts) =
     (if i < length ts then let (w, t, b) = restartSocket sys w (ts ! i) in Some (w, k, ts[i := t]) else None)"
| "pool_exec1 sys EAdd (w, k, ts) = (let (w, k, b) = addSocket_client sys w k in Some (w, k, ts))"

fun pool_exec :: "'w sys \<Rightarrow> pool_event list \<Rightarrow> 'w pool \<Rightarrow> 'w pool option" where
  "pool_exec sys [] s = Some s"
| "pool_exec sys (e # es) s = Option.bind (pool_exec1 sys e s) (pool_exec sys es)"

lemma pool_exec1_step: "pool_exec1 sys e s = Some s' \<Longrightarrow> pool_step sys s s'"
  by (cases e; cases s) (auto intro: pool_step.intros split: if_splits prod.splits)

lemma pool_exec_steps: "pool_exec sys es s = Some s' \<Longrightarrow> (pool_step sys)\<^sup>*\<^sup>* s s'"
proof (induction es arbitrary: s)
  case (Cons e es)
  then obtain u where u: "pool_exec1 sys e s = Some u" "pool_exec sys es u = Some s'"
    by (cases "pool_exec1 sys e s") auto
  show ?case by (rule converse_rtranclp_into_rtranclp [OF pool_exec1_step [OF u(1)] Cons.IH [OF u(2)]])
qed simp

definition two_locked :: "(bool list \<times> int list) pool" where
  "two_locked = the (pool_exec reliable_sys [EAdd, EAdd, ELock 0, ELock 1, ERestart 0]
     (([], []), new_client, replicate 2 idle_thread))"

theorem sockets_are_exclusive_witness:
  "tl_socket (snd (snd two_locked) ! 0) = 7 \<and> tl_socket (snd (snd two_locked) ! 1) \<noteq> 7"
proof -
  obtain w k ts where e: "two_locked = (w, k, ts)" by (metis prod_cases3)
  have "\<not> Option.is_none (pool_exec reliable_sys [EAdd, EAdd, ELock 0, ELock 1, ERestart 0]
      (([], []), new_client, replicate 2 idle_thread))" by code_simp
  then have "pool_exec reliable_sys [EAdd, EAdd, ELock 0, ELock 1, ERestart 0]
      (([], []), new_client, replicate 2 idle_thread) = Some (w, k, ts)"
    using e by (auto simp: two_locked_def Option.is_none_def)
  from pool_exec_steps [OF this]
  have run: "(pool_step reliable_sys)\<^sup>*\<^sup>* (([], []), new_client, replicate 2 idle_thread) (w, k, ts)" .
  have "length (snd (snd two_locked)) = 2" "tl_socket (snd (snd two_locked) ! 0) = 7" by code_simp+
  then have l: "length ts = 2" "tl_socket (ts ! 0) = 7" by (simp_all add: e)
  then have "0 < length ts" "tl_socket (ts ! 0) \<noteq> -1" by simp_all
  from sockets_are_exclusive [OF reliable_connects run this]
  have "tl_socket (ts ! 1) = tl_socket (ts ! 0) \<longrightarrow> 1 = (0 :: nat)" using l(1) by (metis one_less_numeral_iff semiring_norm(76))
  then show ?thesis using l by (auto simp: e)
qed

text \<open>
  a failed restart breaks this. \<open>restartSocket\<close> closes the socket first; when all attempts
  to connect again fail it leaves the closed descriptor in \<open>_tlSocket\<close>. As soon as the kernel
  gives the same descriptor to a new socket, two threads use one socket.
\<close>

theorem failed_restart_shares_socket:
  "\<exists>w k ts. (pool_step kernel_sys)\<^sup>*\<^sup>*
      ((replicate 2 True @ replicate 11 False, []), new_client, replicate 3 idle_thread) (w, k, ts) \<and>
     tl_socket (ts ! 1) = 6 \<and> tl_socket (ts ! 2) = 6"
proof -
  let ?es = "[EAdd, EAdd, ELock 0, ELock 1, ERestart 1, EAdd, ELock 2]"
  let ?s = "((replicate 2 True @ replicate 11 False, []), new_client, replicate 3 idle_thread)"
  have c: "\<not> Option.is_none (pool_exec kernel_sys ?es ?s)"
      "map tl_socket (snd (snd (the (pool_exec kernel_sys ?es ?s)))) = [5, 6, 6]" by code_simp+
  then obtain w k ts where e: "pool_exec kernel_sys ?es ?s = Some (w, k, ts)"
    by (auto simp: Option.is_none_def)
  then have "map tl_socket ts = [5, 6, 6]" using c(2) by simp
  then have "ts ! 1 \<in> {t. tl_socket t = 6}" "ts ! 2 \<in> {t. tl_socket t = 6}"
    by (auto simp: map_eq_Cons_conv)
  then show ?thesis using pool_exec_steps [OF e] by blast
qed

end
