(* ===== verification/ClientFile.thy ===== *)
theory ClientFile
  imports TazerPrelude
begin

text \<open>
  The files of the client that are read through the caches: \<^verbatim>\<open>src/client/InputFile.cpp\<close>,
  \<^verbatim>\<open>src/client/LocalFile.cpp\<close> and the file positions of \<^verbatim>\<open>src/client/TazerFile.cpp\<close>. The
  caches are parameters of \<open>read\<close>; the locale \<open>block_source\<close> says what \<open>read\<close> needs of them.
\<close>

subsection \<open>State and file positions\<close>

record tazer_file =
  f_active :: bool
  f_fileSize :: u64
  f_blkSize :: u64
  f_numBlks :: u32
  f_filePos :: "u64 list"
  f_eof :: "bool list"

text \<open>The fields that the constructors of \<open>TazerFile\<close> and its subclasses set.\<close>

definition new_tazer_file :: tazer_file where
  "new_tazer_file =
     \<lparr>f_active = False, f_fileSize = 0, f_blkSize = 1, f_numBlks = 0, f_filePos = [], f_eof = []\<rparr>"

definition newFilePosIndex :: "tazer_file \<Rightarrow> tazer_file \<times> u32" where
  "newFilePosIndex f =
     (f\<lparr>f_filePos := f_filePos f @ [0], f_eof := f_eof f @ [False]\<rparr>, of_nat (length (f_filePos f)))"

text \<open>An index outside of the vector is undefined in the code: \<open>None\<close>.\<close>

definition filePos :: "tazer_file \<Rightarrow> u32 \<Rightarrow> u64 option" where
  "filePos f index =
     (if unat index < length (f_filePos f) then Some (f_filePos f ! unat index) else None)"

definition setFilePos :: "tazer_file \<Rightarrow> u32 \<Rightarrow> u64 \<Rightarrow> tazer_file option" where
  "setFilePos f index pos =
     (if unat index < length (f_filePos f)
      then Some (f\<lparr>f_filePos := (f_filePos f)[unat index := pos]\<rparr>) else None)"

definition set_eof :: "tazer_file \<Rightarrow> u32 \<Rightarrow> bool \<Rightarrow> tazer_file" where
  "set_eof f index b = f\<lparr>f_eof := (f_eof f)[unat index := b]\<rparr>"

text \<open>
  The part of \<open>InputFile::open\<close> that sizes the blocks once the servers have told the file
  size, and \<open>LocalFile::open\<close>: the number of blocks is a 32-bit word. \<open>None\<close>: division by zero.
\<close>

definition open_blocks :: "u64 \<Rightarrow> u64 \<Rightarrow> (u64 \<times> u32) option" where
  "open_blocks memoryCacheBlocksize fileSize =
     (let blkSize = (if fileSize < memoryCacheBlocksize then fileSize else memoryCacheBlocksize)
      in if blkSize = 0 then None
         else let numBlks = ucast (fileSize div blkSize) :: u32
              in Some (blkSize, if fileSize mod blkSize \<noteq> 0 then numBlks + 1 else numBlks))"

definition InputFile_open :: "bool \<Rightarrow> u64 \<Rightarrow> u64 \<Rightarrow> tazer_file \<Rightarrow> tazer_file option" where
  "InputFile_open has_connections memoryCacheBlocksize size_from_servers f =
     (if \<not> has_connections \<or> f_active f then Some f
      else let f = f\<lparr>f_active := True, f_fileSize := size_from_servers\<rparr>
           in if f_fileSize f = 0 then Some (f\<lparr>f_active := False\<rparr>)
              else map_option (\<lambda>(bs, nb). f\<lparr>f_blkSize := bs, f_numBlks := nb\<rparr>)
                     (open_blocks memoryCacheBlocksize (f_fileSize f)))"

definition LocalFile_open :: "u64 \<Rightarrow> tazer_file \<Rightarrow> tazer_file option" where
  "LocalFile_open memoryCacheBlocksize f =
     map_option (\<lambda>(bs, nb). f\<lparr>f_blkSize := bs, f_numBlks := nb, f_active := True\<rparr>)
       (open_blocks memoryCacheBlocksize (f_fileSize f))"

definition close_file :: "tazer_file \<Rightarrow> tazer_file" where
  "close_file f = f\<lparr>f_active := False\<rparr>"

datatype whence = SEEK_SET | SEEK_CUR | SEEK_END

text \<open>\<open>seek\<close> of both files; the offset is a signed 64-bit word, its sums wrap.\<close>

definition seek :: "tazer_file \<Rightarrow> u64 \<Rightarrow> whence \<Rightarrow> u32 \<Rightarrow> (tazer_file \<times> u64) option" where
  "seek f offset wh index =
     (case filePos f index of
        None \<Rightarrow> None
      | Some old \<Rightarrow>
          (let pos = (case wh of
                 SEEK_SET \<Rightarrow> offset
               | SEEK_CUR \<Rightarrow> (if f_fileSize f < old + offset then f_fileSize f else old + offset)
               | SEEK_END \<Rightarrow> f_fileSize f + offset)
           in map_option (\<lambda>f. (set_eof f index False, pos)) (setFilePos f index pos)))"

lemma setFilePos_filePos:
  "filePos f index = Some old \<Longrightarrow> setFilePos f index pos = Some (f\<lparr>f_filePos := (f_filePos f)[unat index := pos]\<rparr>)"
  by (simp add: filePos_def setFilePos_def split: if_splits)

text \<open>The sum of a position and a signed offset, as an unsigned word.\<close>

lemma signed_offset:
  fixes old offset :: u64
  assumes "uint old < 2 ^ 63"
  shows "uint (old + offset) = (if uint old + sint offset < 0 then uint old + sint offset + 2 ^ 64
    else uint old + sint offset)"
proof -
  let ?t = "uint old + sint offset"
  have o: "- (2 ^ 63) \<le> sint offset" "sint offset < 2 ^ 63"
    using sint_greater_eq [of offset] sint_lt [of offset] by simp_all
  have t: "- (2 ^ 63) \<le> ?t" using o(1) uint_ge_0 [of old] by (simp only: add_increasing)
  have "old + offset = word_of_int ?t" by simp
  then have "uint (old + offset) = ?t mod 2 ^ 64" by (simp only: uint_word_of_int) simp
  moreover have "?t mod 2 ^ 64 = (if ?t < 0 then ?t + 2 ^ 64 else ?t)"
  proof (cases "?t < 0")
    case True
    have "?t mod 2 ^ 64 = (?t + 2 ^ 64) mod 2 ^ 64" by simp
    also have "\<dots> = ?t + 2 ^ 64"
      by (rule mod_pos_pos_trivial) (use True o t in simp_all)
    finally show ?thesis using True by simp
  next
    case False
    then show ?thesis using o assms by (simp add: mod_pos_pos_trivial)
  qed
  ultimately show ?thesis by simp
qed

text \<open>
  \<open>seek\<close> with \<open>SEEK_CUR\<close> moves to the sum of the position and the signed offset when that
  is inside of the file, and to its end when it is behind the end. A sum before the start of
  the file is no error either: the unsigned sum wraps, and the file is left at its end.
\<close>

theorem seek_cur_clamps_to_end:
  assumes "filePos f index = Some old" "uint old < 2 ^ 63" "uint (f_fileSize f) < 2 ^ 63"
  shows "\<exists>f' pos. seek f offset SEEK_CUR index = Some (f', pos) \<and> filePos f' index = Some pos \<and>
    uint pos = (let t = uint old + sint offset
      in if 0 \<le> t \<and> t \<le> uint (f_fileSize f) then t else uint (f_fileSize f))"
proof -
  define pos where "pos = (if f_fileSize f < old + offset then f_fileSize f else old + offset)"
  let ?g = "f\<lparr>f_filePos := (f_filePos f)[unat index := pos]\<rparr>"
  have "- (2 ^ 63) \<le> sint offset" using sint_greater_eq [of offset] by simp
  then have "- (2 ^ 63) \<le> uint old + sint offset" using uint_ge_0 [of old] by (simp only: add_increasing)
  then have "uint pos = (let t = uint old + sint offset
      in if 0 \<le> t \<and> t \<le> uint (f_fileSize f) then t else uint (f_fileSize f))"
    using signed_offset [OF assms(2), of offset] assms(3)
    by (simp add: pos_def word_less_def Let_def)
  moreover have "seek f offset SEEK_CUR index = Some (set_eof ?g index False, pos)"
    using assms(1) setFilePos_filePos [OF assms(1), of pos] by (simp add: seek_def pos_def Let_def)
  moreover have "filePos (set_eof ?g index False) index = Some pos"
    using assms(1) by (simp add: filePos_def set_eof_def split: if_splits)
  ultimately show ?thesis by blast
qed

theorem seek_cur_clamps_to_end_witness:
  "\<exists>f' pos. seek (new_tazer_file\<lparr>f_fileSize := 100, f_filePos := [10], f_eof := [False]\<rparr>) (- 11) SEEK_CUR 0
     = Some (f', pos) \<and> uint pos = 100"
  using seek_cur_clamps_to_end
    [of "new_tazer_file\<lparr>f_fileSize := 100, f_filePos := [10], f_eof := [False]\<rparr>" 0 10 "- 11"]
  by (auto simp: filePos_def new_tazer_file_def Let_def)

subsection \<open>Reading\<close>

text \<open>
  \<open>copyBlock\<close>, with the truncations to \<open>uint32_t\<close>. \<open>None\<close>: a copy outside of a buffer (or a
  division by a block size of zero).
\<close>

definition copyBlock ::
  "tazer_file \<Rightarrow> bytes \<Rightarrow> bytes \<Rightarrow> u32 \<Rightarrow> u32 \<Rightarrow> u32 \<Rightarrow> u64 \<Rightarrow> u64 \<Rightarrow> (bytes \<times> u32) option" where
  "copyBlock f buf blkBuf blk startBlock endBlock pos count =
     (if f_blkSize f = 0 then None
      else
        let blkOneSize = ucast (f_blkSize f - pos mod f_blkSize f) :: u32;
            localStart = ucast (ucast (blk - startBlock - 1) * f_blkSize f + ucast blkOneSize) :: u32;
            localSize = ucast (f_blkSize f) :: u32;
            temp = ucast ((pos + count) mod f_blkSize f) :: u32;
            (localStart, startFP, localSize) =
              (if blk = startBlock \<and> blk + 1 = endBlock
               then (0, ucast (pos mod f_blkSize f), ucast count)
               else if blk = startBlock
               then (0, ucast (pos mod f_blkSize f), localSize - ucast (pos mod f_blkSize f))
               else if blk + 1 = endBlock
               then (localStart, 0, if temp \<noteq> 0 then temp else localSize)
               else (localStart, 0 :: u32, localSize))
        in map_option (\<lambda>buf'. (buf', localSize))
             (memcpy buf (unat localStart) blkBuf (unat startFP) (unat localSize)))"

text \<open>The range of blocks and the count that \<open>read\<close> computes; \<open>pos < _fileSize\<close> here.\<close>

definition read_range :: "tazer_file \<Rightarrow> u64 \<Rightarrow> u64 \<Rightarrow> u64 \<times> u32 \<times> u32" where
  "read_range f pos count0 =
     (let count = (if f_fileSize f - pos < count0 then f_fileSize f - pos else count0);
          startBlock = ucast (pos div f_blkSize f);
          endBlock = ucast ((pos + count) div f_blkSize f);
          endBlock = (if (pos + count) mod f_blkSize f \<noteq> 0 then endBlock + 1 else endBlock);
          endBlock = (if f_numBlks f < endBlock then f_numBlks f else endBlock)
      in (count, startBlock, endBlock))"

definition block_list :: "u32 \<Rightarrow> u32 \<Rightarrow> u32 list" where
  "block_list startBlock endBlock = map of_nat [unat startBlock..<unat endBlock]"

text \<open>
  The first loop of \<open>InputFile::read\<close>. \<open>request s blk\<close> is \<open>requestBlock\<close>: the data of a block
  that is ready (the request is given back after the copy), or \<open>None\<close> when it has to be
  waited for. The last component collects the blocks to wait for.
\<close>

fun request_loop ::
  "('s \<Rightarrow> u32 \<Rightarrow> 's \<times> bytes option) \<Rightarrow> (bytes \<Rightarrow> bytes \<Rightarrow> u32 \<Rightarrow> (bytes \<times> u32) option) \<Rightarrow>
   u32 list \<Rightarrow> 's \<Rightarrow> bytes \<Rightarrow> ('s \<times> bytes \<times> u32 list) option" where
  "request_loop request copy [] s buf = Some (s, buf, [])"
| "request_loop request copy (blk # blks) s buf =
     (case request s blk of
        (s', Some d) \<Rightarrow>
          (case copy buf d blk of
             None \<Rightarrow> None
           | Some (buf', _) \<Rightarrow> request_loop request copy blks s' buf')
      | (s', None) \<Rightarrow>
          map_option (\<lambda>(s'', buf'', ws). (s'', buf'', blk # ws)) (request_loop request copy blks s' buf))"

text \<open>
  The loops over \<open>net_reads\<close> and \<open>local_reads\<close>: \<open>finish s blk\<close> waits for the futures of the
  block. A request that is not ready then is left out without an error.
\<close>

fun finish_loop ::
  "('s \<Rightarrow> u32 \<Rightarrow> 's \<times> bytes option) \<Rightarrow> (bytes \<Rightarrow> bytes \<Rightarrow> u32 \<Rightarrow> (bytes \<times> u32) option) \<Rightarrow>
   u32 list \<Rightarrow> 's \<Rightarrow> bytes \<Rightarrow> ('s \<times> bytes) option" where
  "finish_loop finish copy [] s buf = Some (s, buf)"
| "finish_loop finish copy (blk # blks) s buf =
     (case finish s blk of
        (s', Some d) \<Rightarrow>
          (case copy buf d blk of
             None \<Rightarrow> None
           | Some (buf', _) \<Rightarrow> finish_loop finish copy blks s' buf')
      | (s', None) \<Rightarrow> finish_loop finish copy blks s' buf)"

text \<open>
  \<open>InputFile::read\<close>. \<open>order\<close> is the order in which the hash maps \<open>net_reads\<close> and
  \<open>local_reads\<close> list the blocks, \<open>prefetch\<close> what the prefetcher does to the caches. The
  result is the new state, file and buffer and the returned count.
\<close>

definition InputFile_read ::
  "('s \<Rightarrow> u32 \<Rightarrow> 's \<times> bytes option) \<Rightarrow> ('s \<Rightarrow> u32 \<Rightarrow> 's \<times> bytes option) \<Rightarrow>
   (u32 list \<Rightarrow> u32 list) \<Rightarrow> (u32 \<Rightarrow> u32 \<Rightarrow> 's \<Rightarrow> 's) \<Rightarrow>
   's \<Rightarrow> tazer_file \<Rightarrow> bytes \<Rightarrow> u64 \<Rightarrow> u32 \<Rightarrow> ('s \<times> tazer_file \<times> bytes \<times> u64) option" where
  "InputFile_read request finish order prefetch s f buf count index =
     (if f_active f \<and> f_numBlks f \<noteq> 0
      then case filePos f index of
          None \<Rightarrow> None
        | Some pos \<Rightarrow>
            if f_fileSize f \<le> pos then Some (s, set_eof f index True, buf, 0)
            else
              let (count, startBlock, endBlock) = read_range f pos count;
                  copy = (\<lambda>buf d blk. copyBlock f buf d blk startBlock endBlock pos count)
              in case request_loop request copy (block_list startBlock endBlock) s buf of
                   None \<Rightarrow> None
                 | Some (s, buf, ws) \<Rightarrow>
                     (case finish_loop finish copy (order ws) (prefetch startBlock endBlock s) buf of
                        None \<Rightarrow> None
                      | Some (s, buf) \<Rightarrow>
                          map_option (\<lambda>f. (s, f, buf, count)) (setFilePos f index (pos + count)))
      else Some (s, f, buf, 0))"

text \<open>\<open>LocalFile::read\<close> waits for each block in turn and gives up (result 0) at the first failure.\<close>

fun local_loop ::
  "('s \<Rightarrow> u32 \<Rightarrow> 's \<times> bytes option) \<Rightarrow> ('s \<Rightarrow> u32 \<Rightarrow> 's \<times> bytes option) \<Rightarrow>
   (bytes \<Rightarrow> bytes \<Rightarrow> u32 \<Rightarrow> (bytes \<times> u32) option) \<Rightarrow> u32 list \<Rightarrow> 's \<Rightarrow> bytes \<Rightarrow>
   ('s \<times> bytes \<times> bool) option" where
  "local_loop request finish copy [] s buf = Some (s, buf, True)"
| "local_loop request finish copy (blk # blks) s buf =
     (let (s1, r) = request s blk;
          (s2, d) = (case r of Some d \<Rightarrow> (s1, Some d) | None \<Rightarrow> finish s1 blk)
      in case d of
           None \<Rightarrow> Some (s2, buf, False)
         | Some d \<Rightarrow>
             (case copy buf d blk of
                None \<Rightarrow> None
              | Some (buf', _) \<Rightarrow> local_loop request finish copy blks s2 buf'))"

definition LocalFile_read ::
  "('s \<Rightarrow> u32 \<Rightarrow> 's \<times> bytes option) \<Rightarrow> ('s \<Rightarrow> u32 \<Rightarrow> 's \<times> bytes option) \<Rightarrow>
   's \<Rightarrow> tazer_file \<Rightarrow> bytes \<Rightarrow> u64 \<Rightarrow> u32 \<Rightarrow> ('s \<times> tazer_file \<times> bytes \<times> u64) option" where
  "LocalFile_read request finish s f buf count index =
     (if f_active f \<and> f_numBlks f \<noteq> 0
      then case filePos f index of
          None \<Rightarrow> None
        | Some pos \<Rightarrow>
            if f_fileSize f \<le> pos then Some (s, set_eof f index True, buf, 0)
            else
              let (count, startBlock, endBlock) = read_range f pos count;
                  copy = (\<lambda>buf d blk. copyBlock f buf d blk startBlock endBlock pos count)
              in case local_loop request finish copy (block_list startBlock endBlock) s buf of
                   None \<Rightarrow> None
                 | Some (s, buf, False) \<Rightarrow> Some (s, f, buf, 0)
                 | Some (s, buf, True) \<Rightarrow>
                     map_option (\<lambda>f. (s, f, buf, count)) (setFilePos f index (pos + count))
      else Some (s, f, buf, 0))"

subsection \<open>Blocks of a file\<close>

text \<open>An open file with its contents, which are smaller than \<open>2^32\<close> blocks.\<close>

definition file_ok :: "tazer_file \<Rightarrow> bytes \<Rightarrow> bool" where
  "file_ok f content \<longleftrightarrow> f_active f \<and> unat (f_fileSize f) = length content
     \<and> 0 < unat (f_blkSize f) \<and> unat (f_blkSize f) < 2 ^ 32
     \<and> unat (f_numBlks f) = ceil_div (length content) (unat (f_blkSize f))"

lemma open_blocks_ok:
  assumes "open_blocks mbs fs = Some (bs, nb)" "unat mbs < 2 ^ 32"
    and "ceil_div (unat fs) (unat bs) < 2 ^ 32"
  shows "0 < unat bs \<and> unat bs < 2 ^ 32 \<and> unat nb = ceil_div (unat fs) (unat bs)"
proof -
  have bs: "bs = (if fs < mbs then fs else mbs)" "bs \<noteq> 0"
    and nb: "nb = (if fs mod bs \<noteq> 0 then ucast (fs div bs) + 1 else ucast (fs div bs))"
    using assms(1) by (auto simp: open_blocks_def Let_def split: if_splits)
  have b: "0 < unat bs" "unat bs \<le> unat mbs"
    using bs by (auto simp: unat_gt_0 word_less_nat_alt split: if_splits)
  have c: "unat fs div unat bs + (if unat fs mod unat bs = 0 then 0 else 1) < 2 ^ 32"
    using assms(3) ceil_div_eq [OF b(1)] by simp
  have q: "unat (ucast (fs div bs) :: u32) = unat fs div unat bs"
    using c by (subst unat_ucast_small) (simp_all add: unat_div_distrib)
  have m: "fs mod bs = 0 \<longleftrightarrow> unat fs mod unat bs = 0"
    by (rule word_mod_eq_0_iff)
  have "unat nb = unat fs div unat bs + (if unat fs mod unat bs = 0 then 0 else 1)"
    using c q m unat_inc_small [of "ucast (fs div bs) :: u32"] by (auto simp: nb split: if_splits)
  then show ?thesis using b assms(2) ceil_div_eq [OF b(1)] by simp
qed

lemma read_range_nat:
  fixes pos count :: u64
  assumes ok: "file_ok f content" and p: "unat pos < length content"
  defines "bs \<equiv> unat (f_blkSize f)" and "c \<equiv> min (unat count) (length content - unat pos)"
  shows "\<exists>cnt sb eb. read_range f pos count = (cnt, sb, eb) \<and> unat cnt = c
     \<and> unat sb = unat pos div bs \<and> unat eb = ceil_div (unat pos + c) bs"
proof -
  let ?fs = "f_fileSize f"
  have fs: "unat ?fs = length content" and bs: "0 < bs" "bs < 2 ^ 32"
    and nb: "unat (f_numBlks f) = ceil_div (length content) bs"
    using ok by (simp_all add: file_ok_def bs_def)
  define cnt where "cnt = (if ?fs - pos < count then ?fs - pos else count)"
  have "pos \<le> ?fs" using p fs by (simp add: word_le_nat_alt)
  then have diff: "unat (?fs - pos) = length content - unat pos" using fs by (simp add: unat_diff_le)
  have cnt: "unat cnt = c" by (auto simp: cnt_def c_def word_less_nat_alt diff)
  have pc: "unat pos + c \<le> length content" using p by (simp add: c_def)
  have sum: "unat (pos + cnt) = unat pos + c"
    using pc fs unat_bound [of ?fs] by (subst unat_add_small) (simp_all add: cnt)
  have le: "ceil_div (unat pos + c) bs \<le> unat (f_numBlks f)" unfolding nb by (rule ceil_div_mono [OF pc])
  have small: "ceil_div (unat pos + c) bs < 2 ^ 32" using le unat_bound [of "f_numBlks f"] by simp
  note ce = ceil_div_eq [OF bs(1), of "unat pos + c"]
  have "unat pos div bs \<le> (unat pos + c) div bs" by (simp add: div_le_mono)
  then have sb: "unat (ucast (pos div f_blkSize f) :: u32) = unat pos div bs"
    using small ce by (subst unat_ucast_small) (simp_all add: unat_div_distrib bs_def)
  define e1 where "e1 = (ucast ((pos + cnt) div f_blkSize f) :: u32)"
  have e1: "unat e1 = (unat pos + c) div bs"
    unfolding e1_def using small ce by (subst unat_ucast_small) (simp_all add: unat_div_distrib sum bs_def)
  have m: "(pos + cnt) mod f_blkSize f = 0 \<longleftrightarrow> (unat pos + c) mod bs = 0"
    by (simp add: word_mod_eq_0_iff sum bs_def)
  define e2 where "e2 = (if (pos + cnt) mod f_blkSize f \<noteq> 0 then e1 + 1 else e1)"
  have e2: "unat e2 = ceil_div (unat pos + c) bs"
    using small e1 m ce unat_inc_small [of e1] by (auto simp: e2_def split: if_splits)
  then have "\<not> f_numBlks f < e2" using le by (simp add: word_less_nat_alt)
  then have "read_range f pos count = (cnt, ucast (pos div f_blkSize f), e2)"
    unfolding read_range_def Let_def cnt_def [symmetric] e1_def [symmetric] e2_def [symmetric] by simp
  then show ?thesis using cnt sb e2 by blast
qed

subsection \<open>Copying one block\<close>

text \<open>The piece of block \<open>b\<close> inside of the range from \<open>p\<close> to \<open>p + c\<close>.\<close>

definition piece_lo :: "nat \<Rightarrow> nat \<Rightarrow> nat \<Rightarrow> nat" where
  "piece_lo p bs b = max p (b * bs)"

definition piece_hi :: "nat \<Rightarrow> nat \<Rightarrow> nat \<Rightarrow> nat \<Rightarrow> nat" where
  "piece_hi p c bs b = min (p + c) (b * bs + bs)"

lemma piece_cases:
  fixes p c bs b :: nat
  assumes bs: "0 < bs" and b: "p div bs \<le> b" "b < ceil_div (p + c) bs"
  shows "b = p div bs \<Longrightarrow> piece_lo p bs b = p \<and> p - b * bs = p mod bs"
    "b \<noteq> p div bs \<Longrightarrow> piece_lo p bs b = b * bs
       \<and> b * bs - p = (b - p div bs - 1) * bs + (bs - p mod bs) \<and> p \<le> b * bs"
    "b + 1 = ceil_div (p + c) bs \<Longrightarrow> piece_hi p c bs b = p + c"
    "b + 1 \<noteq> ceil_div (p + c) bs \<Longrightarrow> piece_hi p c bs b = b * bs + bs"
    "b + 1 = ceil_div (p + c) bs \<Longrightarrow> b \<noteq> p div bs \<Longrightarrow>
       p + c - b * bs = (if (p + c) mod bs = 0 then bs else (p + c) mod bs)"
    "piece_lo p bs b \<le> piece_hi p c bs b"
proof -
  define s r where "s = p div bs" and "r = p mod bs"
  have p: "p = s * bs + r" and r: "r < bs" using bs by (simp_all add: s_def r_def)
  have in_range: "b * bs < p + c" using b(2) less_ceil_div [OF bs] by blast
  show 1: "b = p div bs \<Longrightarrow> piece_lo p bs b = p \<and> p - b * bs = p mod bs"
    by (simp add: piece_lo_def max_absorb1 minus_div_mult_eq_mod)
  show 2: "b \<noteq> p div bs \<Longrightarrow> piece_lo p bs b = b * bs
       \<and> b * bs - p = (b - p div bs - 1) * bs + (bs - p mod bs) \<and> p \<le> b * bs"
  proof -
    assume "b \<noteq> p div bs"
    then obtain k where k: "b = s + 1 + k" using b(1) by (metis add.assoc less_imp_Suc_add nat_less_le Suc_eq_plus1 s_def add.commute)
    have "b * bs = s * bs + bs + k * bs" by (simp add: k algebra_simps)
    then show ?thesis
      unfolding s_def [symmetric] r_def [symmetric] piece_lo_def using p r k by auto
  qed
  show 3: "piece_hi p c bs b = p + c" if "b + 1 = ceil_div (p + c) bs"
  proof -
    have "\<not> b + 1 < ceil_div (p + c) bs" using that by simp
    then have "\<not> (b + 1) * bs < p + c" using less_ceil_div [OF bs] by blast
    then show ?thesis by (simp add: piece_hi_def)
  qed
  show 4: "piece_hi p c bs b = b * bs + bs" if "b + 1 \<noteq> ceil_div (p + c) bs"
  proof -
    have "(b + 1) * bs < p + c" using less_ceil_div [OF bs, of "b + 1" "p + c"] that b(2) by simp
    then show ?thesis by (simp add: piece_hi_def)
  qed
  show "p + c - b * bs = (if (p + c) mod bs = 0 then bs else (p + c) mod bs)"
    if e: "b + 1 = ceil_div (p + c) bs" and "b \<noteq> p div bs"
  proof -
    have le: "p + c \<le> b * bs + bs" using 3 [OF e] by (simp add: piece_hi_def)
    define t where "t = p + c - b * bs"
    have t: "p + c = b * bs + t" "0 < t" "t \<le> bs" using in_range le by (simp_all add: t_def)
    then have m: "(p + c) mod bs = t mod bs" by simp
    have "t = (if t mod bs = 0 then bs else t mod bs)"
      using t(2,3) by (cases "t = bs") (simp_all add: mod_less)
    then show ?thesis unfolding m using t_def by simp
  qed
  show "piece_lo p bs b \<le> piece_hi p c bs b"
  proof -
    have "p \<le> b * bs + bs"
      using dividend_less_div_times [OF bs, of p] mult_le_mono1 [OF b(1), of bs] by linarith
    then show ?thesis using in_range by (simp add: piece_lo_def piece_hi_def)
  qed
qed

lemma copyBlock_eq:
  assumes ok: "file_ok f content" and pc: "unat pos + unat cnt \<le> length content"
    and small: "unat cnt + unat (f_blkSize f) < 2 ^ 32"
    and sb: "unat sb = unat pos div unat (f_blkSize f)"
    and eb: "unat eb = ceil_div (unat pos + unat cnt) (unat (f_blkSize f))"
    and b: "unat sb \<le> unat blk" "unat blk < unat eb"
  defines "lo \<equiv> piece_lo (unat pos) (unat (f_blkSize f)) (unat blk)"
    and "hi \<equiv> piece_hi (unat pos) (unat cnt) (unat (f_blkSize f)) (unat blk)"
  shows "copyBlock f buf d blk sb eb pos cnt =
    map_option (\<lambda>x. (x, of_nat (hi - lo)))
      (memcpy buf (lo - unat pos) d (lo - unat blk * unat (f_blkSize f)) (hi - lo))"
proof -
  let ?bs = "unat (f_blkSize f)" and ?p = "unat pos" and ?c = "unat cnt" and ?b = "unat blk"
  have bs: "0 < ?bs" "?bs < 2 ^ 32" "f_blkSize f \<noteq> 0"
    using ok by (auto simp: file_ok_def)
  have fs: "length content < 2 ^ 64" using ok unat_bound [of "f_fileSize f"] by (simp add: file_ok_def)
  note pieces = piece_cases [OF bs(1), of ?p ?b ?c, unfolded sb [symmetric] eb [symmetric], OF b, folded lo_def hi_def]
  have eq: "blk = sb \<longleftrightarrow> ?b = unat sb" by (simp add: word_unat_eq_iff)
  have inc: "unat (blk + 1) = ?b + 1" using b(2) unat_bound [of eb] by (subst unat_inc_small) simp_all
  have eq1: "blk + 1 = eb \<longleftrightarrow> ?b + 1 = unat eb" by (simp add: word_unat_eq_iff inc)
  have m: "unat (ucast (pos mod f_blkSize f) :: u32) = ?p mod ?bs"
    using bs by (subst unat_ucast_small) (simp_all add: unat_mod_distrib less_trans [OF mod_less_divisor])
  have bs32: "unat (ucast (f_blkSize f) :: u32) = ?bs" using bs by (intro unat_ucast_small) simp
  have c32: "unat (ucast cnt :: u32) = ?c" using small by (intro unat_ucast_small) simp
  have start: "unat (ucast (ucast (blk - sb - 1) * f_blkSize f
        + ucast (ucast (f_blkSize f - pos mod f_blkSize f) :: u32)) :: u32) = lo - ?p"
    if ne: "?b \<noteq> unat sb"
  proof -
    have lo: "lo = ?b * ?bs" "?b * ?bs - ?p = (?b - unat sb - 1) * ?bs + (?bs - ?p mod ?bs)" "?p \<le> ?b * ?bs"
      using pieces(2) ne by simp_all
    have "sb \<le> blk" "1 \<le> blk - sb"
      using b(1) ne by (simp_all add: word_le_nat_alt unat_diff_le)
    then have k: "unat (blk - sb - 1) = ?b - unat sb - 1" by (simp add: unat_diff_le)
    have k64: "unat (ucast (blk - sb - 1) :: u64) = ?b - unat sb - 1"
      unfolding k [symmetric] using unat_bound [of "blk - sb - 1"] by (intro unat_ucast_small) simp
    have "pos mod f_blkSize f \<le> f_blkSize f"
      using bs by (simp add: word_le_nat_alt unat_mod_distrib less_imp_le)
    then have one: "unat (f_blkSize f - pos mod f_blkSize f) = ?bs - ?p mod ?bs"
      by (simp add: unat_diff_le unat_mod_distrib)
    then have one32: "unat (ucast (f_blkSize f - pos mod f_blkSize f) :: u32) = ?bs - ?p mod ?bs"
      using bs(2) by (subst unat_ucast_small) simp_all
    then have one64: "unat (ucast (ucast (f_blkSize f - pos mod f_blkSize f) :: u32) :: u64) = ?bs - ?p mod ?bs"
      using bs(2) by (subst unat_ucast_small) simp_all
    have hilo: "lo \<le> hi" "hi \<le> ?p + ?c" using pieces(6) by (simp_all add: hi_def piece_hi_def)
    then have tot: "(?b - unat sb - 1) * ?bs + (?bs - ?p mod ?bs) \<le> ?c" using lo by simp
    then have "unat (ucast (blk - sb - 1) * f_blkSize f) = (?b - unat sb - 1) * ?bs"
      using small by (subst unat_mult_small) (simp_all add: k64)
    then have "unat (ucast (blk - sb - 1) * f_blkSize f
        + ucast (ucast (f_blkSize f - pos mod f_blkSize f) :: u32)) = lo - ?p"
      using tot small lo one64 by (subst unat_add_small) simp_all
    then show ?thesis using tot small lo by (subst unat_ucast_small) simp_all
  qed
  have sz: "unat (ucast ((pos + cnt) mod f_blkSize f) :: u32) = (?p + ?c) mod ?bs"
  proof -
    have "unat (pos + cnt) = ?p + ?c" using pc fs by (intro unat_add_small) simp
    then show ?thesis
      using bs by (subst unat_ucast_small) (simp_all add: unat_mod_distrib less_trans [OF mod_less_divisor])
  qed
  have result: ?thesis
    if "copyBlock f buf d blk sb eb pos cnt =
        map_option (\<lambda>x. (x, sz)) (memcpy buf (unat st) d (unat fp) (unat sz))"
      "unat st = lo - ?p" "unat fp = lo - ?b * ?bs" "unat sz = hi - lo" for st fp sz :: u32
  proof -
    have "sz = of_nat (hi - lo)" unfolding that(4) [symmetric] by simp
    then show ?thesis using that(1-3) that(4) by simp
  qed
  note w = copyBlock_def Let_def eq eq1 bs(3)
  show ?thesis
  proof (cases "?b = unat sb")
    case first: True
    then have lo: "lo = ?p" "?p - ?b * ?bs = ?p mod ?bs" using pieces(1) by simp_all
    show ?thesis
    proof (cases "?b + 1 = unat eb")
      case True
      then have "hi = ?p + ?c" using pieces(3) by simp
      then show ?thesis
        by (intro result [of "ucast cnt" 0 "ucast (pos mod f_blkSize f)"])
          (use first True lo m c32 in \<open>simp_all add: w\<close>)
    next
      case False
      then have hi: "hi = ?b * ?bs + ?bs" using pieces(4) by simp
      have le: "ucast (pos mod f_blkSize f) \<le> (ucast (f_blkSize f) :: u32)"
        using bs by (simp add: word_le_nat_alt m bs32 less_imp_le)
      have "?b * ?bs \<le> ?p" using first sb by simp
      then show ?thesis
        by (intro result [of "ucast (f_blkSize f) - ucast (pos mod f_blkSize f)" 0 "ucast (pos mod f_blkSize f)"])
          (use first False lo hi m bs32 unat_diff_le [OF le] in \<open>simp_all add: w\<close>)
    qed
  next
    case notfirst: False
    then have lo: "lo = ?b * ?bs" "?p \<le> ?b * ?bs" using pieces(2) by simp_all
    let ?st = "ucast (ucast (blk - sb - 1) * f_blkSize f
        + ucast (ucast (f_blkSize f - pos mod f_blkSize f) :: u32)) :: u32"
    show ?thesis
    proof (cases "?b + 1 = unat eb")
      case True
      let ?t = "ucast ((pos + cnt) mod f_blkSize f) :: u32"
      have hi: "hi = ?p + ?c" using pieces(3) True by simp
      have t: "?t = 0 \<longleftrightarrow> (?p + ?c) mod ?bs = 0" using sz by (metis unsigned_eq_0_iff)
      have "unat (if ?t \<noteq> 0 then ?t else ucast (f_blkSize f)) = hi - lo"
        using pieces(5) [OF True notfirst] sz bs32 hi lo t by simp
      then show ?thesis
        by (intro result [of "if ?t \<noteq> 0 then ?t else ucast (f_blkSize f)" ?st 0])
          (use notfirst True lo start in \<open>simp_all add: w\<close>)
    next
      case False
      then have hi: "hi = ?b * ?bs + ?bs" using pieces(4) by simp
      then show ?thesis
        by (intro result [of "ucast (f_blkSize f)" ?st 0])
          (use notfirst False lo start bs32 in \<open>simp_all add: w\<close>)
    qed
  qed
qed

text \<open>The data of block \<open>b\<close>, as far as the file goes.\<close>

definition good_block :: "bytes \<Rightarrow> nat \<Rightarrow> nat \<Rightarrow> bytes \<Rightarrow> bool" where
  "good_block content bs b d \<longleftrightarrow>
     (let m = min bs (length content - b * bs)
      in m \<le> length d \<and> take m d = take m (drop (b * bs) content))"

lemma good_block_nth:
  assumes "good_block content bs b d" "b * bs \<le> q" "q < b * bs + bs" "q < length content"
  shows "q - b * bs < length d" "d ! (q - b * bs) = content ! q"
proof -
  let ?m = "min bs (length content - b * bs)" and ?i = "q - b * bs"
  have i: "?i < ?m" unfolding min_less_iff_conj using assms(2-4) by linarith
  have g: "?m \<le> length d" "take ?m d = take ?m (drop (b * bs) content)"
    using assms(1) by (simp_all add: good_block_def Let_def)
  show "?i < length d" by (rule less_le_trans [OF i g(1)])
  have "d ! ?i = take ?m d ! ?i" using i by simp
  also have "\<dots> = drop (b * bs) content ! ?i" using i unfolding g(2) by simp
  also have "\<dots> = content ! q" using assms(2,4) by simp
  finally show "d ! ?i = content ! q" .
qed

text \<open>
  The buffer after the blocks \<open>S\<close> of the range from \<open>p\<close> to \<open>p + c\<close> have been copied into
  \<open>buf0\<close>.
\<close>

definition filled :: "bytes \<Rightarrow> nat \<Rightarrow> nat \<Rightarrow> nat \<Rightarrow> nat set \<Rightarrow> bytes \<Rightarrow> bytes \<Rightarrow> bool" where
  "filled content bs p c S buf0 buf \<longleftrightarrow> length buf = length buf0 \<and>
     (\<forall>q < length buf0. buf ! q = (if q < c \<and> (p + q) div bs \<in> S then content ! (p + q) else buf0 ! q))"

lemma filled_empty: "filled content bs p c {} buf buf"
  by (simp add: filled_def)

lemma filled_all:
  assumes "filled content bs p c {p div bs..<ceil_div (p + c) bs} buf0 buf" "0 < bs" "c \<le> length buf0"
    "p + c \<le> length content"
  shows "take c buf = take c (drop p content)" "drop c buf = drop c buf0"
proof -
  have len: "length buf = length buf0" using assms(1) by (simp add: filled_def)
  have in_S: "(p + q) div bs \<in> {p div bs..<ceil_div (p + c) bs}" if "q < c" for q
  proof -
    have "(p + q) div bs * bs < p + c" using that div_times_less_eq_dividend [of "p + q" bs] by linarith
    then show ?thesis using less_ceil_div [OF assms(2)] by (simp add: div_le_mono)
  qed
  show "take c buf = take c (drop p content)"
    by (rule nth_equalityI) (use assms len in_S in \<open>auto simp: filled_def\<close>)
  show "drop c buf = drop c buf0"
    by (rule nth_equalityI) (use assms len in \<open>auto simp: filled_def\<close>)
qed

lemma memcpy_nth:
  assumes "soff + n \<le> length src" "doff + n \<le> length dst"
  shows "\<exists>x. memcpy dst doff src soff n = Some x \<and> length x = length dst \<and>
    (\<forall>q < length dst. x ! q = (if doff \<le> q \<and> q < doff + n then src ! (soff + (q - doff)) else dst ! q))"
proof -
  let ?x = "take doff dst @ take n (drop soff src) @ drop (doff + n) dst"
  have "memcpy dst doff src soff n = Some ?x" using assms by (simp add: mem_simps)
  moreover have "length ?x = length dst" using assms by simp
  moreover have "?x ! q = (if doff \<le> q \<and> q < doff + n then src ! (soff + (q - doff)) else dst ! q)"
    if "q < length dst" for q
  proof -
    have l: "length (take doff dst) = doff" "length (take n (drop soff src)) = n" using assms by simp_all
    consider "q < doff" | "doff \<le> q" "q < doff + n" | "doff + n \<le> q" by linarith
    then show ?thesis
    proof cases
      case 2
      then have "q - doff < n" by linarith
      then have "?x ! q = take n (drop soff src) ! (q - doff)" using 2 l by (simp add: nth_append)
      then show ?thesis using 2 assms by simp
    next
      case 3
      then have "?x ! q = drop (doff + n) dst ! (q - doff - n)" using l by (simp add: nth_append)
      then show ?thesis using 3 assms by simp
    qed (use l in \<open>simp add: nth_append\<close>)
  qed
  ultimately show ?thesis by blast
qed

lemma copyBlock_filled:
  assumes ok: "file_ok f content" and pc: "unat pos + unat cnt \<le> length content"
    and small: "unat cnt + unat (f_blkSize f) < 2 ^ 32"
    and sb: "unat sb = unat pos div unat (f_blkSize f)"
    and eb: "unat eb = ceil_div (unat pos + unat cnt) (unat (f_blkSize f))"
    and b: "unat sb \<le> unat blk" "unat blk < unat eb"
    and d: "good_block content (unat (f_blkSize f)) (unat blk) d"
    and buf: "unat cnt \<le> length buf0" "filled content (unat (f_blkSize f)) (unat pos) (unat cnt) S buf0 buf"
  shows "\<exists>buf' n. copyBlock f buf d blk sb eb pos cnt = Some (buf', n) \<and>
    filled content (unat (f_blkSize f)) (unat pos) (unat cnt) (insert (unat blk) S) buf0 buf'"
proof -
  let ?bs = "unat (f_blkSize f)" and ?p = "unat pos" and ?c = "unat cnt" and ?b = "unat blk"
  define lo hi where "lo = piece_lo ?p ?bs ?b" and "hi = piece_hi ?p ?c ?bs ?b"
  have bs: "0 < ?bs" using ok by (simp add: file_ok_def)
  note eq = copyBlock_eq [OF ok pc small sb eb b, of buf d, folded lo_def hi_def]
  have lohi: "lo \<le> hi"
    using piece_cases(6) [OF bs, of ?p ?b ?c] b sb eb by (simp add: lo_def hi_def)
  have bnd: "?p \<le> lo" "?b * ?bs \<le> lo" "hi \<le> ?p + ?c" "hi \<le> ?b * ?bs + ?bs"
    by (simp_all add: lo_def hi_def piece_lo_def piece_hi_def)
  have len: "length buf = length buf0" using buf(2) by (simp add: filled_def)
  have src: "lo - ?b * ?bs + (hi - lo) \<le> length d"
  proof -
    have "hi - ?b * ?bs \<le> min ?bs (length content - ?b * ?bs)"
      unfolding min.bounded_iff using bnd pc by linarith
    also have "\<dots> \<le> length d" using d by (simp add: good_block_def Let_def)
    finally have "hi - ?b * ?bs \<le> length d" .
    then show ?thesis using lohi bnd(2) by simp
  qed
  have dst: "lo - ?p + (hi - lo) \<le> length buf" using bnd lohi len buf(1) by simp
  obtain x where x: "memcpy buf (lo - ?p) d (lo - ?b * ?bs) (hi - lo) = Some x" "length x = length buf"
      and nth: "\<forall>q < length buf. x ! q = (if lo - ?p \<le> q \<and> q < lo - ?p + (hi - lo)
        then d ! (lo - ?b * ?bs + (q - (lo - ?p))) else buf ! q)"
    using memcpy_nth [OF src dst] by blast
  have "filled content ?bs ?p ?c (insert ?b S) buf0 x"
    unfolding filled_def
  proof (intro conjI allI impI)
    show "length x = length buf0" using x(2) len by simp
    fix q assume q: "q < length buf0"
    show "x ! q = (if q < ?c \<and> (?p + q) div ?bs \<in> insert ?b S then content ! (?p + q) else buf0 ! q)"
    proof (cases "lo - ?p \<le> q \<and> q < lo - ?p + (hi - lo)")
      case True
      then have r: "?b * ?bs \<le> ?p + q" "?p + q < ?b * ?bs + ?bs" "q < ?c"
        using bnd lohi by linarith+
      then have "(?p + q) div ?bs = ?b" by (intro div_nat_eqI) (simp_all add: mult.commute)
      moreover have "lo - ?b * ?bs + (q - (lo - ?p)) = ?p + q - ?b * ?bs" using True bnd by linarith
      ultimately show ?thesis
        using True r q len nth good_block_nth(2) [OF d r(1,2)] pc by simp
    next
      case False
      have "?p + q < lo \<or> hi \<le> ?p + q" using False bnd lohi by linarith
      moreover have "?b * ?bs \<le> ?p + q \<and> ?p + q < ?b * ?bs + ?bs" if "(?p + q) div ?bs = ?b"
        using that bs by (metis dividend_less_div_times div_times_less_eq_dividend add.commute)
      ultimately have "\<not> (q < ?c \<and> (?p + q) div ?bs = ?b)"
        by (auto simp: lo_def hi_def piece_lo_def piece_hi_def)
      then show ?thesis using False q len nth buf(2) by (auto simp: filled_def)
    qed
  qed
  then show ?thesis using eq x(1) by auto
qed

subsection \<open>The caches as a source of blocks\<close>

lemma block_list_props:
  assumes "distinct ws" "set ws \<subseteq> set (block_list sb eb)" "b \<in> set ws"
  shows "unat sb \<le> unat b" "unat b < unat eb"
proof -
  obtain k where k: "b = of_nat k" "unat sb \<le> k" "k < unat eb"
    using assms(2,3) by (auto simp: block_list_def)
  then have "unat b = k" using unat_bound [of eb] by (simp add: unat_of_nat_small)
  then show "unat sb \<le> unat b" "unat b < unat eb" using k by simp_all
qed

lemma distinct_block_list: "distinct (block_list sb eb)"
proof -
  have "inj_on (of_nat :: nat \<Rightarrow> u32) {unat sb..<unat eb}"
  proof (rule inj_onI)
    fix x y assume "x \<in> {unat sb..<unat eb}" "y \<in> {unat sb..<unat eb}" and e: "(of_nat x :: u32) = of_nat y"
    then have "x < 2 ^ 32" "y < 2 ^ 32" using unat_bound [of eb] by simp_all
    then have "unat (of_nat x :: u32) = x" "unat (of_nat y :: u32) = y" by (simp_all add: unat_of_nat_small)
    then show "x = y" using e by metis
  qed
  then show ?thesis by (simp add: block_list_def distinct_map)
qed

lemma unat_block_list: "unat ` set (block_list sb eb) = {unat sb..<unat eb}"
proof -
  have "unat (of_nat k :: u32) = k" if "k < unat eb" for k
    using that unat_bound [of eb] by (simp add: unat_of_nat_small)
  then show ?thesis by (force simp: block_list_def image_iff)
qed

text \<open>
  What \<open>read\<close> needs of the caches. \<open>inv n W s\<close>: the state \<open>s\<close> is good for \<open>n\<close> more calls
  and the blocks \<open>W\<close> have been requested but not delivered. A block that is delivered, at
  once or later, has the data of the file; a block that was requested is delivered.
\<close>

locale block_source =
  fixes request finish :: "'s \<Rightarrow> u32 \<Rightarrow> 's \<times> bytes option"
    and inv :: "nat \<Rightarrow> u32 set \<Rightarrow> 's \<Rightarrow> bool"
    and content :: bytes and bs :: nat
  assumes inv_mono: "inv n W s \<Longrightarrow> m \<le> n \<Longrightarrow> inv m W s"
    and request_Some: "\<lbrakk>inv (Suc n) W s; b \<notin> W; unat b * bs < length content; request s b = (s', Some d)\<rbrakk>
      \<Longrightarrow> inv n W s' \<and> good_block content bs (unat b) d"
    and request_None: "\<lbrakk>inv (Suc n) W s; b \<notin> W; unat b * bs < length content; request s b = (s', None)\<rbrakk>
      \<Longrightarrow> inv n (insert b W) s'"
    and finish: "\<lbrakk>inv (Suc n) W s; b \<in> W\<rbrakk>
      \<Longrightarrow> \<exists>s' d. finish s b = (s', Some d) \<and> inv n (W - {b}) s' \<and> good_block content bs (unat b) d"
begin

text \<open>A copy that fills the buffer block by block.\<close>

definition copies :: "(bytes \<Rightarrow> bytes \<Rightarrow> u32 \<Rightarrow> (bytes \<times> u32) option) \<Rightarrow> nat \<Rightarrow> nat \<Rightarrow> u32 set \<Rightarrow> bytes \<Rightarrow> bool" where
  "copies copy p c B buf0 \<longleftrightarrow>
     (\<forall>b \<in> B. \<forall>d S buf. good_block content bs (unat b) d \<longrightarrow> filled content bs p c S buf0 buf \<longrightarrow>
        (\<exists>buf' n. copy buf d b = Some (buf', n) \<and> filled content bs p c (insert (unat b) S) buf0 buf'))"

lemma copiesD:
  "copies copy p c B buf0 \<Longrightarrow> b \<in> B \<Longrightarrow> good_block content bs (unat b) d \<Longrightarrow>
     filled content bs p c S buf0 buf \<Longrightarrow>
     \<exists>buf' n. copy buf d b = Some (buf', n) \<and> filled content bs p c (insert (unat b) S) buf0 buf'"
  by (simp add: copies_def)

lemma request_loop_ok:
  assumes "copies copy p c (set blks) buf0" "distinct blks" "set blks \<inter> W = {}"
    and "\<forall>b \<in> set blks. unat b * bs < length content"
    and "inv (length blks + n) W s" "filled content bs p c S buf0 buf"
  shows "\<exists>s' buf' ws. request_loop request copy blks s buf = Some (s', buf', ws) \<and>
    set ws \<subseteq> set blks \<and> distinct ws \<and> inv n (W \<union> set ws) s' \<and>
    filled content bs p c (S \<union> unat ` (set blks - set ws)) buf0 buf'"
  using assms
proof (induction blks arbitrary: W s S buf)
  case (Cons b blks)
  have iv: "inv (Suc (length blks + n)) W s" and b: "b \<notin> W" "unat b * bs < length content"
    and cp: "copies copy p c (set blks) buf0"
    using Cons.prems by (auto simp: copies_def)
  obtain s1 r where rq: "request s b = (s1, r)" by fastforce
  show ?case
  proof (cases r)
    case None
    have iv1: "inv (length blks + n) (insert b W) s1"
      using request_None [OF iv b] rq None by simp
    obtain s' buf' ws where ih: "request_loop request copy blks s1 buf = Some (s', buf', ws)"
        "set ws \<subseteq> set blks" "distinct ws" "inv n (insert b W \<union> set ws) s'"
        "filled content bs p c (S \<union> unat ` (set blks - set ws)) buf0 buf'"
      using Cons.IH [OF cp _ _ _ iv1 Cons.prems(6)] Cons.prems(2-4) by auto
    have "set (b # blks) - set (b # ws) = set blks - set ws" using Cons.prems(2) by auto
    then show ?thesis using ih rq None Cons.prems(2)
      by (intro exI [of _ s'] exI [of _ buf'] exI [of _ "b # ws"]) auto
  next
    case (Some d)
    have iv1: "inv (length blks + n) W s1" and g: "good_block content bs (unat b) d"
      using request_Some [OF iv b] rq Some by simp_all
    obtain buf1 k where c1: "copy buf d b = Some (buf1, k)"
        "filled content bs p c (insert (unat b) S) buf0 buf1"
      using copiesD [OF Cons.prems(1) _ g Cons.prems(6)] by auto
    obtain s' buf' ws where ih: "request_loop request copy blks s1 buf1 = Some (s', buf', ws)"
        "set ws \<subseteq> set blks" "distinct ws" "inv n (W \<union> set ws) s'"
        "filled content bs p c (insert (unat b) S \<union> unat ` (set blks - set ws)) buf0 buf'"
      using Cons.IH [OF cp _ _ _ iv1 c1(2)] Cons.prems(2-4) by auto
    have "set (b # blks) - set ws = insert b (set blks - set ws)" using Cons.prems(2) ih(2) by auto
    then show ?thesis using ih rq Some c1(1)
      by (intro exI [of _ s'] exI [of _ buf'] exI [of _ ws]) auto
  qed
qed auto

lemma finish_loop_ok:
  assumes "copies copy p c (set ws) buf0" "distinct ws" "set ws \<subseteq> W"
    and "inv (length ws + n) W s" "filled content bs p c S buf0 buf"
  shows "\<exists>s' buf'. finish_loop finish copy ws s buf = Some (s', buf') \<and>
    inv n (W - set ws) s' \<and> filled content bs p c (S \<union> unat ` set ws) buf0 buf'"
  using assms
proof (induction ws arbitrary: W s S buf)
  case (Cons b ws)
  have iv: "inv (Suc (length ws + n)) W s" and b: "b \<in> W" and cp: "copies copy p c (set ws) buf0"
    using Cons.prems by (auto simp: copies_def)
  obtain s1 d where f: "finish s b = (s1, Some d)" "inv (length ws + n) (W - {b}) s1"
      "good_block content bs (unat b) d"
    using finish [OF iv b] by blast
  obtain buf1 k where c1: "copy buf d b = Some (buf1, k)"
      "filled content bs p c (insert (unat b) S) buf0 buf1"
    using copiesD [OF Cons.prems(1) _ f(3) Cons.prems(5)] by auto
  obtain s' buf' where ih: "finish_loop finish copy ws s1 buf1 = Some (s', buf')"
      "inv n (W - {b} - set ws) s'" "filled content bs p c (insert (unat b) S \<union> unat ` set ws) buf0 buf'"
    using Cons.IH [OF cp _ _ f(2) c1(2)] Cons.prems(2,3) by auto
  have "W - {b} - set ws = W - set (b # ws)" by auto
  then show ?case using ih f(1) c1(1) by auto
qed auto

text \<open>What both versions of \<open>read\<close> compute before they ask for the first block.\<close>

lemma read_plan:
  assumes ok: "file_ok f content" "bs = unat (f_blkSize f)"
    and pos: "filePos f index = Some pos" "unat pos < length content"
    and cnt: "c = min (unat count) (length content - unat pos)" "c + bs < 2 ^ 32" "c \<le> length buf"
  obtains cw sb eb where "read_range f pos count = (cw, sb, eb)" "cw = of_nat c"
    "copies (\<lambda>buf d blk. copyBlock f buf d blk sb eb pos cw) (unat pos) c (set (block_list sb eb)) buf"
    "\<forall>b \<in> set (block_list sb eb). unat b * bs < length content"
    "length (block_list sb eb) \<le> ceil_div (unat pos + c) bs"
    "\<And>buf'. filled content bs (unat pos) c (unat ` set (block_list sb eb)) buf buf' \<Longrightarrow>
       take c buf' = take c (drop (unat pos) content) \<and> drop c buf' = drop c buf"
    "\<not> f_fileSize f \<le> pos" "f_active f" "f_numBlks f \<noteq> 0"
proof -
  let ?p = "unat pos"
  obtain cw sb eb where rr: "read_range f pos count = (cw, sb, eb)" "unat cw = c"
      "unat sb = ?p div bs" "unat eb = ceil_div (?p + c) bs"
    using read_range_nat [OF ok(1) pos(2), of count] ok(2) cnt(1) by auto
  have bs0: "0 < bs" using ok by (simp add: file_ok_def)
  have pc: "?p + c \<le> length content" using pos(2) by (simp add: cnt(1))
  have rng: "unat sb \<le> unat b \<and> unat b < unat eb" if "b \<in> set (block_list sb eb)" for b
    using block_list_props [OF distinct_block_list subset_refl that] by simp
  show thesis
  proof (rule that [OF rr(1)])
    show "cw = of_nat c" unfolding rr(2) [symmetric] by simp
    show "copies (\<lambda>buf d blk. copyBlock f buf d blk sb eb pos cw) ?p c (set (block_list sb eb)) buf"
      unfolding copies_def
    proof (intro ballI allI impI)
      fix b d S buf1
      assume b: "b \<in> set (block_list sb eb)" and g: "good_block content bs (unat b) d"
        and fl: "filled content bs ?p c S buf buf1"
      show "\<exists>buf' n. copyBlock f buf1 d b sb eb pos cw = Some (buf', n) \<and>
          filled content bs ?p c (insert (unat b) S) buf buf'"
        using copyBlock_filled [OF ok(1), of pos cw sb eb b d buf S buf1] rng [OF b] pc cnt(2,3) rr g fl
        by (simp add: ok(2))
    qed
    show "\<forall>b \<in> set (block_list sb eb). unat b * bs < length content"
    proof
      fix b assume "b \<in> set (block_list sb eb)"
      then have "unat b < ceil_div (?p + c) bs" using rng rr(4) by simp
      then show "unat b * bs < length content" using less_ceil_div [OF bs0] pc by (meson less_le_trans)
    qed
    show "length (block_list sb eb) \<le> ceil_div (?p + c) bs" by (simp add: block_list_def rr(4))
    fix buf' assume "filled content bs ?p c (unat ` set (block_list sb eb)) buf buf'"
    then have "filled content bs ?p c {?p div bs..<ceil_div (?p + c) bs} buf buf'"
      by (simp add: unat_block_list rr)
    then show "take c buf' = take c (drop ?p content) \<and> drop c buf' = drop c buf"
      using filled_all [OF _ bs0 cnt(3) pc] by blast
  next
    show "\<not> f_fileSize f \<le> pos" using ok(1) pos(2) by (simp add: file_ok_def word_le_nat_alt)
    show "f_active f" using ok(1) by (simp add: file_ok_def)
    have "0 < unat (f_numBlks f)" using ok less_ceil_div [OF bs0, of 0 "length content"] pos(2)
      by (cases content) (simp_all add: file_ok_def)
    then show "f_numBlks f \<noteq> 0" by auto
  qed
qed

lemma read_ok:
  assumes ok: "file_ok f content" "bs = unat (f_blkSize f)"
    and pos: "filePos f index = Some pos" "unat pos < length content"
    and cnt: "c = min (unat count) (length content - unat pos)" "c + bs < 2 ^ 32" "c \<le> length buf"
    and order: "\<And>ws. distinct ws \<Longrightarrow> distinct (order ws) \<and> set (order ws) = set ws"
    and prefetch: "\<And>n W a b s. inv n W s \<Longrightarrow> inv n W (prefetch a b s)"
    and iv: "inv (2 * ceil_div (unat pos + c) bs) {} s"
  shows "\<exists>s' f' buf'. InputFile_read request finish order prefetch s f buf count index
      = Some (s', f', buf', of_nat c) \<and> inv 0 {} s' \<and>
     take c buf' = take c (drop (unat pos) content) \<and> drop c buf' = drop c buf \<and>
     filePos f' index = Some (pos + of_nat c)"
proof -
  from ok pos cnt show ?thesis
  proof (rule read_plan)
    fix cw sb eb
    let ?B = "block_list sb eb"
    let ?copy = "\<lambda>buf d blk. copyBlock f buf d blk sb eb pos cw"
    assume rr: "read_range f pos count = (cw, sb, eb)" and cw: "cw = of_nat c"
      and cp: "copies ?copy (unat pos) c (set ?B) buf"
      and inside: "\<forall>b \<in> set ?B. unat b * bs < length content"
      and lenB: "length ?B \<le> ceil_div (unat pos + c) bs"
      and all: "\<And>buf'. filled content bs (unat pos) c (unat ` set ?B) buf buf' \<Longrightarrow>
         take c buf' = take c (drop (unat pos) content) \<and> drop c buf' = drop c buf"
      and go: "\<not> f_fileSize f \<le> pos" "f_active f" "f_numBlks f \<noteq> 0"
    have ivB: "inv (length ?B + length ?B) {} s" by (rule inv_mono [OF iv]) (use lenB in simp)
    obtain s1 buf1 ws where r1: "request_loop request ?copy ?B s buf = Some (s1, buf1, ws)"
        "set ws \<subseteq> set ?B" "distinct ws" "inv (length ?B) (set ws) s1"
        "filled content bs (unat pos) c (unat ` (set ?B - set ws)) buf buf1"
      using request_loop_ok [OF cp distinct_block_list _ inside ivB filled_empty] by auto
    have o: "distinct (order ws)" "set (order ws) = set ws" using order [OF r1(3)] by simp_all
    have "card (set ws) \<le> card (set ?B)" using r1(2) by (intro card_mono) simp_all
    then have len: "length (order ws) \<le> length ?B"
      using o r1(3) by (metis distinct_card distinct_block_list)
    have iv1: "inv (length (order ws) + 0) (set ws) (prefetch sb eb s1)"
      using prefetch [OF inv_mono [OF r1(4) len]] by simp
    have cp1: "copies ?copy (unat pos) c (set (order ws)) buf"
      using cp o(2) r1(2) unfolding copies_def by blast
    obtain s2 buf2 where r2: "finish_loop finish ?copy (order ws) (prefetch sb eb s1) buf1 = Some (s2, buf2)"
        "inv 0 (set ws - set (order ws)) s2"
        "filled content bs (unat pos) c (unat ` (set ?B - set ws) \<union> unat ` set (order ws)) buf buf2"
      using finish_loop_ok [OF cp1 o(1) _ iv1 r1(5)] o(2) by blast
    have "unat ` (set ?B - set ws) \<union> unat ` set (order ws) = unat ` set ?B" using o(2) r1(2) by auto
    then have "filled content bs (unat pos) c (unat ` set ?B) buf buf2" using r2(3) by simp
    moreover have "inv 0 {} s2" using r2(2) o(2) by simp
    moreover have "InputFile_read request finish order prefetch s f buf count index
        = Some (s2, f\<lparr>f_filePos := (f_filePos f)[unat index := pos + cw]\<rparr>, buf2, cw)"
      using r1(1) r2(1) go by (simp add: InputFile_read_def pos(1) rr setFilePos_filePos [OF pos(1)])
    ultimately show ?thesis using all pos(1) by (simp add: cw filePos_def split: if_splits)
  qed
qed

text \<open>\<open>LocalFile::read\<close> finishes each block before it asks for the next one.\<close>

lemma local_loop_ok:
  assumes "copies copy p c (set blks) buf0" "\<forall>b \<in> set blks. unat b * bs < length content"
    and "inv (2 * length blks + n) {} s" "filled content bs p c S buf0 buf"
  shows "\<exists>s' buf'. local_loop request finish copy blks s buf = Some (s', buf', True) \<and> inv n {} s' \<and>
    filled content bs p c (S \<union> unat ` set blks) buf0 buf'"
  using assms
proof (induction blks arbitrary: s S buf)
  case (Cons b blks)
  have iv: "inv (Suc (Suc (2 * length blks + n))) {} s" and b: "b \<notin> {}" "unat b * bs < length content"
    and cp: "copies copy p c (set blks) buf0"
    using Cons.prems by (auto simp: copies_def)
  obtain s1 r where rq: "request s b = (s1, r)" by fastforce
  have "\<exists>s2 d. (case r of Some d \<Rightarrow> (s1, Some d) | None \<Rightarrow> finish s1 b) = (s2, Some d) \<and>
      inv (2 * length blks + n) {} s2 \<and> good_block content bs (unat b) d"
  proof (cases r)
    case None
    then show ?thesis using finish [OF request_None [OF iv b]] rq by auto
  next
    case (Some d)
    then show ?thesis using request_Some [OF iv b] rq inv_mono [of "Suc (2 * length blks + n)"] by auto
  qed
  then obtain s2 d where d: "(case r of Some d \<Rightarrow> (s1, Some d) | None \<Rightarrow> finish s1 b) = (s2, Some d)"
      "inv (2 * length blks + n) {} s2" "good_block content bs (unat b) d" by blast
  obtain buf1 k where c1: "copy buf d b = Some (buf1, k)"
      "filled content bs p c (insert (unat b) S) buf0 buf1"
    using copiesD [OF Cons.prems(1) _ d(3) Cons.prems(4)] by auto
  obtain s' buf' where "local_loop request finish copy blks s2 buf1 = Some (s', buf', True)"
      "inv n {} s'" "filled content bs p c (insert (unat b) S \<union> unat ` set blks) buf0 buf'"
    using Cons.IH [OF cp _ d(2) c1(2)] Cons.prems(2) by auto
  then show ?case using rq d(1) c1(1) by (simp add: Let_def)
qed auto

lemma local_read_ok:
  assumes ok: "file_ok f content" "bs = unat (f_blkSize f)"
    and pos: "filePos f index = Some pos" "unat pos < length content"
    and cnt: "c = min (unat count) (length content - unat pos)" "c + bs < 2 ^ 32" "c \<le> length buf"
    and iv: "inv (2 * ceil_div (unat pos + c) bs) {} s"
  shows "\<exists>s' f' buf'. LocalFile_read request finish s f buf count index
      = Some (s', f', buf', of_nat c) \<and> inv 0 {} s' \<and>
     take c buf' = take c (drop (unat pos) content) \<and> drop c buf' = drop c buf \<and>
     filePos f' index = Some (pos + of_nat c)"
proof -
  from ok pos cnt show ?thesis
  proof (rule read_plan)
    fix cw sb eb
    let ?B = "block_list sb eb"
    let ?copy = "\<lambda>buf d blk. copyBlock f buf d blk sb eb pos cw"
    assume rr: "read_range f pos count = (cw, sb, eb)" and cw: "cw = of_nat c"
      and cp: "copies ?copy (unat pos) c (set ?B) buf"
      and inside: "\<forall>b \<in> set ?B. unat b * bs < length content"
      and lenB: "length ?B \<le> ceil_div (unat pos + c) bs"
      and all: "\<And>buf'. filled content bs (unat pos) c (unat ` set ?B) buf buf' \<Longrightarrow>
         take c buf' = take c (drop (unat pos) content) \<and> drop c buf' = drop c buf"
      and go: "\<not> f_fileSize f \<le> pos" "f_active f" "f_numBlks f \<noteq> 0"
    have ivB: "inv (2 * length ?B + 0) {} s" by (rule inv_mono [OF iv]) (use lenB in simp)
    obtain s1 buf1 where r1: "local_loop request finish ?copy ?B s buf = Some (s1, buf1, True)"
        "inv 0 {} s1" "filled content bs (unat pos) c (unat ` set ?B) buf buf1"
      using local_loop_ok [OF cp inside ivB filled_empty] by auto
    moreover have "LocalFile_read request finish s f buf count index
        = Some (s1, f\<lparr>f_filePos := (f_filePos f)[unat index := pos + cw]\<rparr>, buf1, cw)"
      using r1(1) go by (simp add: LocalFile_read_def pos(1) rr setFilePos_filePos [OF pos(1)])
    ultimately show ?thesis using all pos(1) by (simp add: cw filePos_def split: if_splits)
  qed
qed

end

end
