(* ===== verification/CacheCore.thy ===== *)
theory CacheCore
  imports TazerPrelude
begin

text \<open>
  What all caches share: the kinds of caches (\<^verbatim>\<open>inc/tazer/caches/CacheTypes.h\<close>), the request
  that travels through the levels (\<^verbatim>\<open>inc/tazer/Request.h\<close>) and the file table of a cache
  (\<^verbatim>\<open>inc/tazer/caches/Cache.h\<close>).
\<close>

subsection \<open>Cache types and requests\<close>

datatype CacheType =
    Empty | Base | PrivateMemory | SharedMemory | BurstBuffer | NodeFile | BoundedGlobalFile
  | GlobalFileLock | GlobalFcntl | Network | Local | UrlCache

text \<open>
  The pointer \<open>data\<close> of a request: NULL, the memory of a block inside the cache at a level,
  or a buffer of its own with the given contents.
\<close>

datatype data_ref = DNull | DBlock nat nat | DBuf bytes

text \<open>
  A cache is known by its level. \<open>originating\<close> is a pointer to a cache; \<open>r_origType\<close> is what
  its \<open>type()\<close> returns. \<open>reservedMap\<close> is read with \<open>operator[]\<close>, so a missing key is 0. The
  fields that only serve timing and tracing are left out.
\<close>

record request =
  r_data :: data_ref
  r_originating :: nat
  r_origType :: CacheType
  r_blkIndex :: u32
  r_fileIndex :: u32
  r_size :: u64
  r_reservedMap :: "nat \<Rightarrow> u8"
  r_ready :: bool
  r_waitingCache :: CacheType

text \<open>
  \<open>Cache::requestBlock\<close> up to the call of the next level: the new request of the cache
  \<open>this\<close> at level \<open>orig\<close>, with no reservation at any level.
\<close>

definition new_request :: "nat \<Rightarrow> CacheType \<Rightarrow> u32 \<Rightarrow> u32 \<Rightarrow> u64 \<Rightarrow> request" where
  "new_request orig ty blk fileIndex sz =
     \<lparr>r_data = DNull, r_originating = orig, r_origType = ty, r_blkIndex = blk,
      r_fileIndex = fileIndex, r_size = sz, r_reservedMap = (\<lambda>_. 0), r_ready = False,
      r_waitingCache = Empty\<rparr>"

subsection \<open>The file table\<close>

record file_entry =
  fe_name :: string
  fe_blockSize :: u64
  fe_fileSize :: u64
  fe_hash :: u64

text \<open>\<open>_fileMap[fileIndex]\<close> adds an entry of zeros when there is none.\<close>

definition default_file :: file_entry where
  "default_file = \<lparr>fe_name = [], fe_blockSize = 0, fe_fileSize = 0, fe_hash = 0\<rparr>"

type_synonym file_map = "u32 \<rightharpoonup> file_entry"

definition fileMap_at :: "file_map \<Rightarrow> u32 \<Rightarrow> file_map \<times> file_entry" where
  "fileMap_at m f =
     (case m f of
        Some e \<Rightarrow> (m, e)
      | None \<Rightarrow> (m(f \<mapsto> default_file), default_file))"

lemma fileMap_at_known [simp]: "m f = Some e \<Longrightarrow> fileMap_at m f = (m, e)"
  by (simp add: fileMap_at_def)

end
