(* ===== verification/BoundedCache.thy ===== *)
theory BoundedCache
  imports CacheCore
begin

text \<open>
  The set-associative block cache \<open>NewBoundedCache\<close> with the two stores that keep the blocks in
  memory, \<open>NewMemoryCache\<close> and \<open>NewSharedMemoryCache\<close>.

  The table of block entries and the block data are one state; \<open>readBlock\<close> and \<open>writeBlock\<close>
  hold the lock of a bin for their whole access to it, so each is one transition here. The
  machine \<open>cstep\<close> interleaves them for any number of outstanding requests.
\<close>

subsection \<open>Block entries\<close>

datatype blk_status = BLK_EMPTY | BLK_PRE | BLK_RES | BLK_WR | BLK_AVAIL | BLK_EVICT

record block_entry =
  e_id :: u32
  e_fileIndex :: u32
  e_blockIndex :: u32
  e_timeStamp :: u32
  e_status :: blk_status
  e_prefetched :: u32
  e_origCache :: CacheType
  e_activeCnt :: u32

definition init_entry :: "u32 \<Rightarrow> block_entry" where
  "init_entry entryId =
     \<lparr>e_id = entryId, e_fileIndex = 0, e_blockIndex = 0, e_timeStamp = 0,
      e_status = BLK_EMPTY, e_prefetched = 0, e_origCache = Empty, e_activeCnt = 0\<rparr>"

definition incBlkCnt :: "block_entry \<Rightarrow> block_entry" where
  "incBlkCnt b = b\<lparr>e_activeCnt := e_activeCnt b + 1\<rparr>"

text \<open>\<open>fetch_sub\<close> also returns the old count.\<close>

definition decBlkCnt :: "block_entry \<Rightarrow> block_entry \<times> u32" where
  "decBlkCnt b = (b\<lparr>e_activeCnt := e_activeCnt b - 1\<rparr>, e_activeCnt b)"

definition anyUsers :: "block_entry \<Rightarrow> bool" where
  "anyUsers b \<longleftrightarrow> e_activeCnt b \<noteq> 0"

definition sameBlk :: "block_entry \<Rightarrow> u32 \<Rightarrow> u32 \<Rightarrow> bool" where
  "sameBlk b index fileIndex \<longleftrightarrow> e_fileIndex b = fileIndex \<and> e_blockIndex b = index"

text \<open>
  \<open>NewMemoryCache::blockSet\<close>, its stores in order. The time is the 64-bit count of
  nanoseconds, cut to the 32 bits of \<open>timeStamp\<close>.
\<close>

definition blockSet ::
  "u64 \<Rightarrow> block_entry \<Rightarrow> u32 \<Rightarrow> u32 \<Rightarrow> blk_status \<Rightarrow> CacheType \<Rightarrow> int \<Rightarrow> int \<Rightarrow> block_entry" where
  "blockSet now blk fileIndex blockIndex status type prefetched activeUpdate =
     (let b = blk\<lparr>e_fileIndex := fileIndex\<rparr>;
          b = b\<lparr>e_blockIndex := blockIndex\<rparr>;
          b = b\<lparr>e_timeStamp := ucast now\<rparr>;
          b = (if 0 \<le> prefetched then b\<lparr>e_prefetched := of_int prefetched\<rparr> else b);
          b = b\<lparr>e_origCache := type\<rparr>;
          b = b\<lparr>e_status := status\<rparr>
      in if 0 < activeUpdate then incBlkCnt b
         else if activeUpdate < 0 then fst (decBlkCnt b)
         else b)"

text \<open>\<open>NewSharedMemoryCache::blockSet\<close> stores \<open>prefetched\<close> last.\<close>

definition shm_blockSet ::
  "u64 \<Rightarrow> block_entry \<Rightarrow> u32 \<Rightarrow> u32 \<Rightarrow> blk_status \<Rightarrow> CacheType \<Rightarrow> int \<Rightarrow> int \<Rightarrow> block_entry" where
  "shm_blockSet now blk fileIndex blockIndex status type prefetched activeUpdate =
     (let b = blk\<lparr>e_fileIndex := fileIndex\<rparr>;
          b = b\<lparr>e_blockIndex := blockIndex\<rparr>;
          b = b\<lparr>e_timeStamp := ucast now\<rparr>;
          b = b\<lparr>e_origCache := type\<rparr>;
          b = b\<lparr>e_status := status\<rparr>;
          b = (if 0 \<le> prefetched then b\<lparr>e_prefetched := of_int prefetched\<rparr> else b)
      in if 0 < activeUpdate then incBlkCnt b
         else if activeUpdate < 0 then fst (decBlkCnt b)
         else b)"

lemma shm_blockSet_eq: "shm_blockSet = blockSet"
proof (intro ext)
  fix now b f i st ty pre act
  show "shm_blockSet now b f i st ty pre act = blockSet now b f i st ty pre act"
    by (cases b) (simp add: shm_blockSet_def blockSet_def incBlkCnt_def decBlkCnt_def Let_def)
qed

lemma blockSet_sel [simp]:
  "e_id (blockSet now b f i st ty pre act) = e_id b"
  "e_fileIndex (blockSet now b f i st ty pre act) = f"
  "e_blockIndex (blockSet now b f i st ty pre act) = i"
  "e_status (blockSet now b f i st ty pre act) = st"
  "e_origCache (blockSet now b f i st ty pre act) = ty"
  "e_timeStamp (blockSet now b f i st ty pre act) = ucast now"
  "e_activeCnt (blockSet now b f i st ty pre act) =
     (if 0 < act then e_activeCnt b + 1 else if act < 0 then e_activeCnt b - 1 else e_activeCnt b)"
  by (simp_all add: blockSet_def incBlkCnt_def decBlkCnt_def Let_def)

subsection \<open>The cache\<close>

record bcache =
  c_level :: nat
  c_name :: string
  c_type :: CacheType
  c_cacheSize :: u64
  c_blockSize :: u64
  c_associativity :: u32
  c_numBlocks :: u32
  c_numBins :: u32
  c_collisions :: u64
  c_prefetchCollisions :: u64
  c_terminating :: bool
  c_fileMap :: file_map
  c_blkIndex :: "block_entry list"
  c_blocks :: bytes

text \<open>
  The constructors of \<open>NewBoundedCache\<close> and \<open>NewMemoryCache\<close>. \<open>None\<close>: a division by zero, for
  a block size of 0 or a cache smaller than one block.
\<close>

definition NewMemoryCache ::
  "nat \<Rightarrow> string \<Rightarrow> CacheType \<Rightarrow> u64 \<Rightarrow> u64 \<Rightarrow> u32 \<Rightarrow> bcache option" where
  "NewMemoryCache level cacheName type cacheSize blockSize associativity =
     (if blockSize = 0 then None
      else
        let numBlocks = ucast (cacheSize div blockSize) :: u32;
            assoc = (if associativity = 0 \<or> numBlocks < associativity then numBlocks
                     else associativity)
        in if assoc = 0 then None
           else Some
             \<lparr>c_level = level, c_name = cacheName, c_type = type, c_cacheSize = cacheSize,
              c_blockSize = blockSize, c_associativity = assoc, c_numBlocks = numBlocks,
              c_numBins = numBlocks div assoc, c_collisions = 0, c_prefetchCollisions = 0,
              c_terminating = False, c_fileMap = (\<lambda>_. None),
              c_blkIndex = map (\<lambda>i. init_entry (of_nat i)) [0..<unat numBlocks],
              c_blocks = replicate (unat cacheSize) 0\<rparr>)"

definition getBinIndex :: "bcache \<Rightarrow> u32 \<Rightarrow> u32 \<Rightarrow> bcache \<times> u32" where
  "getBinIndex c index fileIndex =
     (let (m, fe) = fileMap_at (c_fileMap c) fileIndex;
          temp = fe_hash fe + ucast index
      in (c\<lparr>c_fileMap := m\<rparr>, ucast (temp mod ucast (c_numBins c))))"

text \<open>\<open>readBin\<close>: the entries of a bin, each with its place in the table.\<close>

definition readBin :: "bcache \<Rightarrow> u32 \<Rightarrow> (nat \<times> block_entry) list" where
  "readBin c binIndex =
     (let startIndex = unat (binIndex * c_associativity c)
      in take (unat (c_associativity c)) (drop startIndex (enumerate 0 (c_blkIndex c))))"

definition set_entry :: "bcache \<Rightarrow> nat \<Rightarrow> block_entry \<Rightarrow> bcache" where
  "set_entry c k b = c\<lparr>c_blkIndex := (c_blkIndex c)[k := b]\<rparr>"

fun find_avail :: "u32 \<Rightarrow> u32 \<Rightarrow> (nat \<times> block_entry) list \<Rightarrow> nat option" where
  "find_avail index fileIndex [] = None"
| "find_avail index fileIndex ((k, b) # bs) =
     (if sameBlk b index fileIndex \<and> e_status b = BLK_AVAIL then Some k
      else find_avail index fileIndex bs)"

definition getBlock :: "bcache \<Rightarrow> u32 \<Rightarrow> u32 \<Rightarrow> bcache \<times> nat option" where
  "getBlock c index fileIndex =
     (let (c1, binIndex) = getBinIndex c index fileIndex
      in (c1, find_avail index fileIndex (readBin c1 binIndex)))"

text \<open>The local variables of the loop of \<open>oldestBlock\<close>.\<close>

record lru =
  l_minTime :: u32
  l_minEntry :: "nat option"
  l_minPrefetchTime :: u32
  l_minPrefetchEntry :: "nat option"

definition lru_init :: lru where
  "lru_init = \<lparr>l_minTime = - 1, l_minEntry = None, l_minPrefetchTime = - 1,
     l_minPrefetchEntry = None\<rparr>"

definition lru_step :: "bool \<Rightarrow> nat \<Rightarrow> block_entry \<Rightarrow> lru \<Rightarrow> lru" where
  "lru_step prefetchEvict k b a =
     (let a = (if e_timeStamp b < l_minTime a \<and> \<not> anyUsers b
               then a\<lparr>l_minTime := e_timeStamp b, l_minEntry := Some k\<rparr> else a)
      in if prefetchEvict \<and> e_prefetched b \<noteq> 0 \<and> e_timeStamp b < l_minPrefetchTime a \<and> \<not> anyUsers b
         then a\<lparr>l_minPrefetchTime := e_timeStamp b, l_minPrefetchEntry := Some k\<rparr> else a)"

text \<open>The loop: \<open>Inl k\<close> when it returns the entry \<open>k\<close>, \<open>Inr\<close> its variables at the end.\<close>

fun oldest_scan :: "bool \<Rightarrow> u32 \<Rightarrow> u32 \<Rightarrow> (nat \<times> block_entry) list \<Rightarrow> lru \<Rightarrow> nat + lru" where
  "oldest_scan prefetchEvict index fileIndex [] a = Inr a"
| "oldest_scan prefetchEvict index fileIndex ((k, b) # bs) a =
     (if sameBlk b index fileIndex then Inl k
      else if e_status b = BLK_EMPTY then Inl k
      else oldest_scan prefetchEvict index fileIndex bs
             (if e_status b = BLK_AVAIL then lru_step prefetchEvict k b a else a))"

definition evict :: "bcache \<Rightarrow> nat \<Rightarrow> bcache" where
  "evict c k = set_entry c k ((c_blkIndex c ! k)\<lparr>e_status := BLK_EVICT\<rparr>)"

definition oldestBlock :: "bool \<Rightarrow> bcache \<Rightarrow> u32 \<Rightarrow> u32 \<Rightarrow> bcache \<times> nat option" where
  "oldestBlock prefetchEvict c index fileIndex =
     (let (c1, binIndex) = getBinIndex c index fileIndex
      in case oldest_scan prefetchEvict index fileIndex (readBin c1 binIndex) lru_init of
           Inl k \<Rightarrow> (c1, Some k)
         | Inr a \<Rightarrow>
             (case (if prefetchEvict \<and> l_minPrefetchTime a \<noteq> - 1 then l_minPrefetchEntry a
                    else None) of
                Some k \<Rightarrow>
                  (evict (c1\<lparr>c_prefetchCollisions := c_prefetchCollisions c1 + 1\<rparr>) k, Some k)
              | None \<Rightarrow>
                  (case (if l_minTime a \<noteq> - 1 then l_minEntry a else None) of
                     Some k \<Rightarrow> (evict (c1\<lparr>c_collisions := c_collisions c1 + 1\<rparr>) k, Some k)
                   | None \<Rightarrow> (c1, None))))"

text \<open>\<open>setBlockData\<close> copies \<open>size\<close> bytes to the block; \<open>None\<close>: outside of one of the buffers.\<close>

definition setBlockData :: "bcache \<Rightarrow> bytes \<Rightarrow> u32 \<Rightarrow> u64 \<Rightarrow> bcache option" where
  "setBlockData c data blockIndex sz =
     map_option (\<lambda>bs. c\<lparr>c_blocks := bs\<rparr>)
       (memcpy (c_blocks c) (unat (ucast blockIndex * c_blockSize c)) data 0 (unat sz))"

text \<open>The bytes behind the pointer that \<open>getBlockData\<close> returns.\<close>

definition getBlockData :: "bcache \<Rightarrow> nat \<Rightarrow> nat \<Rightarrow> bytes option" where
  "getBlockData c blockIndex len =
     mem_slice (unat (of_nat blockIndex * c_blockSize c)) len (c_blocks c)"

text \<open>
  \<open>blockAvailable\<close>: whether the block can be read, and the cache it came from; it spins while
  that is \<open>Empty\<close> (the result \<open>Some (True, Empty)\<close> stands for that).
\<close>

definition blockAvailable :: "bcache \<Rightarrow> nat \<Rightarrow> bool \<times> CacheType" where
  "blockAvailable c k =
     (let b = c_blkIndex c ! k in (e_status b = BLK_AVAIL, e_origCache b))"

definition addFile :: "(string \<Rightarrow> u32) \<Rightarrow> bcache \<Rightarrow> u32 \<Rightarrow> string \<Rightarrow> u64 \<Rightarrow> u64 \<Rightarrow> bcache" where
  "addFile XXH32 c index filename blockSize fileSize =
     (if c_fileMap c index = None
      then c\<lparr>c_fileMap := (c_fileMap c)(index \<mapsto>
             \<lparr>fe_name = filename, fe_blockSize = blockSize, fe_fileSize = fileSize,
              fe_hash = ucast (XXH32 (c_name c @ filename))\<rparr>)\<rparr>
      else c)"

subsection \<open>Reading and writing a block\<close>

text \<open>
  What \<open>readBlock\<close> does after its critical section: \<open>ReadHit\<close> returns with the data;
  \<open>ReadNext\<close> asks the next level, with the entry that it reserved (\<open>None\<close>: no space);
  \<open>ReadWait k\<close> leaves a deferred wait for the entry \<open>k\<close>, which another request fills;
  \<open>ReadCrash\<close> raises \<open>SIGSEGV\<close>.
\<close>

datatype read_outcome = ReadHit | ReadNext "nat option" | ReadWait nat | ReadCrash

abbreviation reserved :: "request \<Rightarrow> nat \<Rightarrow> u8" where
  "reserved req level \<equiv> r_reservedMap req level"

definition reserve :: "nat \<Rightarrow> request \<Rightarrow> request" where
  "reserve level req = req\<lparr>r_reservedMap := (r_reservedMap req)(level := 1)\<rparr>"

definition hit_request :: "bcache \<Rightarrow> nat \<Rightarrow> request \<Rightarrow> request" where
  "hit_request c k req =
     req\<lparr>r_data := DBlock (c_level c) k, r_originating := c_level c, r_origType := c_type c,
        r_ready := True\<rparr>"

text \<open>\<open>if (!req->size) req->size = tsize\<close>, where \<open>tsize\<close> is an \<open>int\<close>.\<close>

definition default_size :: "file_entry \<Rightarrow> request \<Rightarrow> request" where
  "default_size fe req =
     (if r_size req = 0 then req\<lparr>r_size := scast (ucast (fe_blockSize fe) :: u32)\<rparr> else req)"

definition readBlock ::
  "bool \<Rightarrow> u64 \<Rightarrow> bcache \<Rightarrow> request \<Rightarrow> u64 \<Rightarrow> bcache \<times> request \<times> read_outcome" where
  "readBlock prefetchEvict now c0 req0 priority =
     (let prefetch = (priority \<noteq> 0);
          index = r_blkIndex req0; fileIndex = r_fileIndex req0;
          (m, fe) = fileMap_at (c_fileMap c0) fileIndex;
          c = c0\<lparr>c_fileMap := m\<rparr>;
          req = default_size fe req0
      in if r_size req \<le> c_blockSize c
         then case oldestBlock prefetchEvict c index fileIndex of
             (c, None) \<Rightarrow> (c, req, ReadNext None)
           | (c, Some k) \<Rightarrow>
               (let entry = c_blkIndex c ! k; req = reserve (c_level c) req
                in if e_status entry = BLK_AVAIL
                   then let entry = (if 0 < e_prefetched entry
                                     then entry\<lparr>e_prefetched := of_bool prefetch\<rparr> else entry);
                            entry = blockSet now entry fileIndex index BLK_AVAIL (c_type c)
                                      (sint (e_prefetched entry)) 1
                        in (set_entry c k entry, hit_request c (unat (e_id entry)) req, ReadHit)
                   else if e_status entry = BLK_EMPTY \<or> e_status entry = BLK_EVICT
                   then (set_entry c k
                           (blockSet now entry fileIndex index
                              (if prefetch then BLK_PRE else BLK_RES) (c_type c)
                              (of_bool prefetch) 1),
                         req, ReadNext (Some k))
                   else (set_entry c k (incBlkCnt entry), req, ReadWait (unat (e_id entry))))
         else (c, req, ReadCrash))"

text \<open>
  The deferred wait. When the entry has become available, the request gets the block as on
  a hit; after the timeout it is read again from the last level, whose answer is the
  parameter here.
\<close>

definition wait_available :: "bcache \<Rightarrow> nat \<Rightarrow> request \<Rightarrow> request option" where
  "wait_available c k req =
     (let (avail, waitingCacheType) = blockAvailable c k
      in if avail
         then Some ((hit_request c k req)\<lparr>r_waitingCache := waitingCacheType\<rparr>)
         else None)"

text \<open>
  \<open>WriteDone ret\<close>: the request is deleted and \<open>writeBlock\<close> returns. \<open>WriteNext ret\<close>: the next
  level is called with the request (without one the request is deleted), the result is
  \<open>ret\<close> and that of the call. \<open>WriteExit\<close>: \<open>exit(0)\<close>. \<open>WriteFreedNext\<close>: the next level is
  called with a request that has just been deleted. \<open>WriteFault\<close>: a copy outside of a buffer.
\<close>

datatype write_outcome =
  WriteDone bool | WriteNext bool | WriteExit | WriteFreedNext bool | WriteFault

text \<open>\<open>src\<close> are the bytes behind the pointer \<open>req->data\<close>.\<close>

definition writeBlock ::
  "bool \<Rightarrow> u64 \<Rightarrow> bcache \<Rightarrow> request \<Rightarrow> bytes \<Rightarrow> bcache \<times> write_outcome" where
  "writeBlock prefetchEvict now c0 req src =
     (let this = c_level c0
      in if 0 < reserved req this \<or> \<not> c_terminating c0
         then
           let index = r_blkIndex req; fileIndex = r_fileIndex req;
               (c, binIndex) = getBinIndex c0 index fileIndex
           in if r_originating req = this
              then case getBlock c index fileIndex of
                  (c, Some k) \<Rightarrow>
                    if 0 < reserved req this
                    then let (entry, t_cnt) = decBlkCnt (c_blkIndex c ! k)
                         in if t_cnt = 0 then (set_entry c k entry, WriteExit)
                            else (set_entry c k entry, WriteDone True)
                    else (c, WriteDone True)
                | (c, None) \<Rightarrow> (c, WriteExit)
              else if r_size req \<le> c_blockSize c
              then case oldestBlock prefetchEvict c index fileIndex of
                  (c, None) \<Rightarrow> (c, WriteNext False)
                | (c, Some k) \<Rightarrow>
                    (let entry = c_blkIndex c ! k;
                         entry' = blockSet now entry fileIndex index BLK_AVAIL (r_origType req)
                                    (sint (e_prefetched entry)) (uint (reserved req this))
                     in if (e_status entry \<noteq> BLK_WR \<and> e_status entry \<noteq> BLK_AVAIL)
                             \<or> e_status entry = BLK_EVICT
                        then case setBlockData c src (e_id entry) (r_size req) of
                            None \<Rightarrow> (c, WriteFault)
                          | Some c \<Rightarrow> (set_entry c k entry', WriteNext True)
                        else if e_status entry = BLK_AVAIL
                        then (set_entry c k entry', WriteNext True)
                        else (c, WriteNext True))
              else (c, WriteNext False)
         else if r_originating req = this then (c0, WriteFreedNext True)
         else (c0, WriteNext False))"

subsection \<open>Bins and slots\<close>

definition used :: "block_entry \<Rightarrow> bool" where
  "used b \<longleftrightarrow> e_status b \<noteq> BLK_EMPTY"

definition evictable :: "block_entry \<Rightarrow> bool" where
  "evictable b \<longleftrightarrow> e_status b = BLK_AVAIL \<and> \<not> anyUsers b"

definition bin_of :: "bcache \<Rightarrow> u32 \<Rightarrow> u32 \<Rightarrow> nat" where
  "bin_of c fileIndex index = unat (snd (getBinIndex c index fileIndex))"

definition in_bin :: "bcache \<Rightarrow> nat \<Rightarrow> nat \<Rightarrow> bool" where
  "in_bin c b k \<longleftrightarrow> k div unat (c_associativity c) = b"

text \<open>The sizes that the constructor sets up and that no operation changes.\<close>

definition shape :: "bcache \<Rightarrow> bool" where
  "shape c \<longleftrightarrow> 0 < unat (c_associativity c) \<and> 0 < unat (c_numBins c)
     \<and> unat (c_numBins c) * unat (c_associativity c) \<le> length (c_blkIndex c)
     \<and> unat (c_numBlocks c) = length (c_blkIndex c)
     \<and> length (c_blkIndex c) * unat (c_blockSize c) \<le> length (c_blocks c)
     \<and> length (c_blocks c) < 2 ^ 64
     \<and> (\<forall>k < length (c_blkIndex c). e_id (c_blkIndex c ! k) = of_nat k)"

lemma shape_id: "shape c \<Longrightarrow> k < length (c_blkIndex c) \<Longrightarrow> unat (e_id (c_blkIndex c ! k)) = k"
  using unat_bound [of "c_numBlocks c"] by (auto simp: shape_def unat_of_nat_small)

lemma getBinIndex_known:
  assumes "c_fileMap c f \<noteq> None"
  shows "getBinIndex c i f = (c, snd (getBinIndex c i f))"
  using assms by (auto simp: getBinIndex_def split: prod.splits)

lemma bin_of_less: "0 < unat (c_numBins c) \<Longrightarrow> bin_of c f i < unat (c_numBins c)"
proof -
  assume "0 < unat (c_numBins c)"
  moreover have "unat (ucast (c_numBins c) :: u64) = unat (c_numBins c)"
    using unat_bound [of "c_numBins c"] by (simp add: unsigned_ucast_eq take_bit_nat_eq_self)
  ultimately have "unat (x mod ucast (c_numBins c) :: u64) < unat (c_numBins c)" for x
    by (simp add: unat_mod_distrib)
  moreover have "unat (ucast y :: u32) \<le> unat y" for y :: u64
    by (simp add: unsigned_ucast_eq take_bit_nat_less_eq_self)
  ultimately show ?thesis
    by (auto simp: bin_of_def getBinIndex_def split: prod.splits intro: le_less_trans)
qed

lemma take_drop_enumerate:
  "a + n \<le> length xs \<Longrightarrow> take n (drop a (enumerate 0 xs)) = map (\<lambda>k. (k, xs ! k)) [a..<a + n]"
  by (rule nth_equalityI) (auto simp: nth_enumerate_eq)

lemma readBin_eq:
  assumes "shape c" and b: "unat b < unat (c_numBins c)"
  shows "readBin c b =
    map (\<lambda>k. (k, c_blkIndex c ! k))
      [unat b * unat (c_associativity c)..<unat b * unat (c_associativity c) + unat (c_associativity c)]"
proof -
  let ?a = "unat (c_associativity c)"
  have "unat b * ?a + ?a = Suc (unat b) * ?a" by simp
  also have "\<dots> \<le> unat (c_numBins c) * ?a" using b by (intro mult_le_mono1) simp
  also have "\<dots> \<le> length (c_blkIndex c)" using assms(1) by (simp add: shape_def)
  finally have le: "unat b * ?a + ?a \<le> length (c_blkIndex c)" .
  moreover have "length (c_blkIndex c) < 2 ^ 32"
    using assms(1) unat_bound [of "c_numBlocks c"] by (simp add: shape_def)
  ultimately have "unat (b * c_associativity c) = unat b * ?a"
    by (intro unat_mult_small) simp
  with le show ?thesis by (simp add: readBin_def Let_def take_drop_enumerate)
qed

lemma in_bin_iff:
  assumes "0 < unat (c_associativity c)"
  shows "in_bin c b k \<longleftrightarrow>
    k \<in> {b * unat (c_associativity c)..<b * unat (c_associativity c) + unat (c_associativity c)}"
  using assms dividend_less_times_div [of "unat (c_associativity c)" k]
  by (auto simp: in_bin_def div_nat_eqI mult.commute)

subsection \<open>The search for the place of a block\<close>

lemma oldest_scan_Inl:
  "oldest_scan pe i f (map (\<lambda>k. (k, es ! k)) ks) a = Inl k \<Longrightarrow>
     \<exists>ps qs. ks = ps @ k # qs \<and> (sameBlk (es ! k) i f \<or> \<not> used (es ! k)) \<and>
       (\<forall>p \<in> set ps. \<not> sameBlk (es ! p) i f \<and> used (es ! p))"
proof (induction ks arbitrary: a)
  case (Cons p ks)
  show ?case
  proof (cases "sameBlk (es ! p) i f \<or> \<not> used (es ! p)")
    case True
    then have "k = p" using Cons.prems by (auto simp: used_def split: if_splits)
    with True show ?thesis by (intro exI [of _ "[]"] exI [of _ ks]) auto
  next
    case False
    then obtain ps qs where "ks = ps @ k # qs" "sameBlk (es ! k) i f \<or> \<not> used (es ! k)"
        "\<forall>q \<in> set ps. \<not> sameBlk (es ! q) i f \<and> used (es ! q)"
      using Cons.IH Cons.prems by (fastforce simp: used_def split: if_splits)
    with False show ?thesis by (intro exI [of _ "p # ps"] exI [of _ qs]) auto
  qed
qed simp

text \<open>
  What the local variables of the loop say of the entries seen so far: the entry with the
  smallest time of those that pass the test \<open>P\<close>, or none if all their times are the
  greatest of 32 bits.
\<close>

definition least :: "(nat \<Rightarrow> bool) \<Rightarrow> block_entry list \<Rightarrow> nat set \<Rightarrow> u32 \<Rightarrow> nat option \<Rightarrow> bool" where
  "least P es seen t m \<longleftrightarrow>
     (case m of
        None \<Rightarrow> t = - 1 \<and> (\<forall>p \<in> seen. P p \<longrightarrow> e_timeStamp (es ! p) = - 1)
      | Some k \<Rightarrow> k \<in> seen \<and> P k \<and> t = e_timeStamp (es ! k) \<and> t \<noteq> - 1 \<and>
          (\<forall>p \<in> seen. P p \<longrightarrow> e_timeStamp (es ! k) \<le> e_timeStamp (es ! p)))"

lemma not_less_max [simp]: "\<not> (t::u32) < - 1 \<longleftrightarrow> t = - 1"
  by (metis word_n1_ge word_order.not_eq_extremum)

lemma least_empty [simp]: "least P es {} (- 1) None"
  by (simp add: least_def)

lemma least_insert:
  assumes "least P es seen t m"
  shows "least P es (insert p seen)
     (if e_timeStamp (es ! p) < t \<and> P p then e_timeStamp (es ! p) else t)
     (if e_timeStamp (es ! p) < t \<and> P p then Some p else m)"
proof (cases "e_timeStamp (es ! p) < t \<and> P p")
  case True
  then have "e_timeStamp (es ! p) \<noteq> - 1" by (metis word_order.extremum_strict)
  moreover have "e_timeStamp (es ! p) \<le> e_timeStamp (es ! q)" if "q \<in> seen" "P q" for q
    using assms that True by (auto simp: least_def split: option.splits)
  ultimately show ?thesis using True by (auto simp: least_def)
next
  case False
  show ?thesis
  proof (cases m)
    case None
    then have "t = - 1" using assms by (simp add: least_def)
    with False None assms show ?thesis by (auto simp: least_def)
  next
    case (Some k)
    with False assms show ?thesis by (auto simp: least_def)
  qed
qed

lemma least_skip: "least P es seen t m \<Longrightarrow> \<not> P p \<Longrightarrow> least P es (insert p seen) t m"
  using least_insert [of P es seen t m p] by simp

definition lru_ok :: "bool \<Rightarrow> block_entry list \<Rightarrow> nat set \<Rightarrow> lru \<Rightarrow> bool" where
  "lru_ok pe es seen a \<longleftrightarrow>
     least (\<lambda>p. evictable (es ! p)) es seen (l_minTime a) (l_minEntry a) \<and>
     least (\<lambda>p. pe \<and> e_prefetched (es ! p) \<noteq> 0 \<and> evictable (es ! p)) es seen
       (l_minPrefetchTime a) (l_minPrefetchEntry a)"

lemma lru_ok_init: "lru_ok pe es {} lru_init"
  by (simp add: lru_ok_def lru_init_def)

lemma lru_ok_step:
  assumes "lru_ok pe es seen a"
  shows "lru_ok pe es (insert p seen)
     (if e_status (es ! p) = BLK_AVAIL then lru_step pe p (es ! p) a else a)"
proof (cases "e_status (es ! p) = BLK_AVAIL")
  case True
  then show ?thesis
    using assms least_insert [of "\<lambda>p. evictable (es ! p)" es seen "l_minTime a" "l_minEntry a" p]
      least_insert [of "\<lambda>p. pe \<and> e_prefetched (es ! p) \<noteq> 0 \<and> evictable (es ! p)" es seen
        "l_minPrefetchTime a" "l_minPrefetchEntry a" p]
    by (auto simp: lru_ok_def lru_step_def evictable_def Let_def split: if_splits)
next
  case False
  then show ?thesis
    using assms by (simp add: lru_ok_def least_skip evictable_def)
qed

lemma oldest_scan_Inr:
  "oldest_scan pe i f (map (\<lambda>k. (k, es ! k)) ks) a = Inr a' \<Longrightarrow> lru_ok pe es seen a \<Longrightarrow>
     lru_ok pe es (seen \<union> set ks) a' \<and> (\<forall>p \<in> set ks. \<not> sameBlk (es ! p) i f \<and> used (es ! p))"
proof (induction ks arbitrary: a seen)
  case (Cons p ks)
  let ?a = "if e_status (es ! p) = BLK_AVAIL then lru_step pe p (es ! p) a else a"
  have p: "\<not> sameBlk (es ! p) i f" "used (es ! p)"
    and r: "oldest_scan pe i f (map (\<lambda>k. (k, es ! k)) ks) ?a = Inr a'"
    using Cons.prems(1) by (auto simp: used_def split: if_splits)
  from Cons.IH [OF r lru_ok_step [OF Cons.prems(2)]] p show ?case by simp
qed simp

lemma find_avail_Some:
  "find_avail i f (map (\<lambda>k. (k, es ! k)) ks) = Some k \<Longrightarrow>
     k \<in> set ks \<and> sameBlk (es ! k) i f \<and> e_status (es ! k) = BLK_AVAIL"
  by (induction ks) (auto split: if_splits)

lemma find_avail_None:
  "find_avail i f (map (\<lambda>k. (k, es ! k)) ks) = None \<Longrightarrow> p \<in> set ks \<Longrightarrow>
     \<not> (sameBlk (es ! p) i f \<and> e_status (es ! p) = BLK_AVAIL)"
  by (induction ks) (auto split: if_splits)

subsection \<open>The invariant of the table\<close>

text \<open>
  A used entry lies in the bin of its block and no block has two; the empty entries of a bin
  come last; outside of the critical sections no entry is being written or evicted, and an
  available one knows the cache it came from.
\<close>

definition table_ok :: "bcache \<Rightarrow> bool" where
  "table_ok c \<longleftrightarrow> shape c \<and>
     (\<forall>k < length (c_blkIndex c). let b = c_blkIndex c ! k in
        (used b \<longrightarrow> c_fileMap c (e_fileIndex b) \<noteq> None \<and>
           in_bin c (bin_of c (e_fileIndex b) (e_blockIndex b)) k) \<and>
        e_status b \<noteq> BLK_WR \<and> e_status b \<noteq> BLK_EVICT \<and>
        (e_status b = BLK_AVAIL \<longrightarrow> e_origCache b \<noteq> Empty)) \<and>
     (\<forall>k < length (c_blkIndex c). \<forall>p < length (c_blkIndex c).
        used (c_blkIndex c ! k) \<longrightarrow> used (c_blkIndex c ! p) \<longrightarrow>
        sameBlk (c_blkIndex c ! p) (e_blockIndex (c_blkIndex c ! k)) (e_fileIndex (c_blkIndex c ! k)) \<longrightarrow>
        p = k) \<and>
     (\<forall>k < length (c_blkIndex c). \<forall>p < k.
        p div unat (c_associativity c) = k div unat (c_associativity c) \<longrightarrow>
        used (c_blkIndex c ! k) \<longrightarrow> used (c_blkIndex c ! p))"

lemma table_okD:
  assumes "table_ok c" "k < length (c_blkIndex c)"
  shows "used (c_blkIndex c ! k) \<Longrightarrow> c_fileMap c (e_fileIndex (c_blkIndex c ! k)) \<noteq> None"
    "used (c_blkIndex c ! k) \<Longrightarrow>
       in_bin c (bin_of c (e_fileIndex (c_blkIndex c ! k)) (e_blockIndex (c_blkIndex c ! k))) k"
    "e_status (c_blkIndex c ! k) \<noteq> BLK_WR" "e_status (c_blkIndex c ! k) \<noteq> BLK_EVICT"
    "e_status (c_blkIndex c ! k) = BLK_AVAIL \<Longrightarrow> e_origCache (c_blkIndex c ! k) \<noteq> Empty"
  using assms by (simp_all add: table_ok_def Let_def)

lemma table_ok_uniq:
  assumes "table_ok c" "k < length (c_blkIndex c)" "p < length (c_blkIndex c)"
    "used (c_blkIndex c ! k)" "used (c_blkIndex c ! p)"
    "sameBlk (c_blkIndex c ! k) i f" "sameBlk (c_blkIndex c ! p) i f"
  shows "p = k"
  using assms by (simp add: table_ok_def sameBlk_def)

lemma table_ok_prefix:
  assumes "table_ok c" "k < length (c_blkIndex c)" "p < k"
    "p div unat (c_associativity c) = k div unat (c_associativity c)" "used (c_blkIndex c ! k)"
  shows "used (c_blkIndex c ! p)"
  using assms by (simp add: table_ok_def)

lemma table_ok_shape: "table_ok c \<Longrightarrow> shape c"
  by (simp add: table_ok_def)

lemma bin_of_cong:
  "c_fileMap d = c_fileMap c \<Longrightarrow> c_numBins d = c_numBins c \<Longrightarrow> bin_of d = bin_of c"
  by (intro ext) (simp add: bin_of_def getBinIndex_def split: prod.splits)

lemma in_bin_cong: "c_associativity d = c_associativity c \<Longrightarrow> in_bin d = in_bin c"
  by (simp add: in_bin_def fun_eq_iff)

text \<open>The part of a cache that the invariant reads; counters and the like may differ.\<close>

definition same_table :: "bcache \<Rightarrow> bcache \<Rightarrow> bool" where
  "same_table c d \<longleftrightarrow> c_blkIndex d = c_blkIndex c \<and> c_fileMap d = c_fileMap c
     \<and> c_numBins d = c_numBins c \<and> c_numBlocks d = c_numBlocks c
     \<and> c_associativity d = c_associativity c \<and> c_blockSize d = c_blockSize c
     \<and> c_level d = c_level c \<and> c_type d = c_type c \<and> length (c_blocks d) = length (c_blocks c)"

lemma same_table_refl [simp]: "same_table c c"
  by (simp add: same_table_def)

lemma same_table_counters [simp]:
  "same_table c (c\<lparr>c_collisions := x\<rparr>)" "same_table c (c\<lparr>c_prefetchCollisions := y\<rparr>)"
  by (simp_all add: same_table_def)

lemma same_table_ok: "same_table c d \<Longrightarrow> table_ok c \<Longrightarrow> table_ok d"
proof -
  assume st: "same_table c d" and ok: "table_ok c"
  have eqs: "c_blkIndex d = c_blkIndex c" "c_fileMap d = c_fileMap c" "c_numBins d = c_numBins c"
      "c_numBlocks d = c_numBlocks c" "c_associativity d = c_associativity c"
      "c_blockSize d = c_blockSize c" "length (c_blocks d) = length (c_blocks c)"
    using st by (simp_all add: same_table_def)
  have bins: "bin_of d = bin_of c" "in_bin d = in_bin c"
    by (rule bin_of_cong in_bin_cong; simp only: eqs)+
  show "table_ok d" using ok unfolding table_ok_def shape_def eqs bins .
qed

text \<open>Where the block \<open>(f, i)\<close> may be put.\<close>

definition slot_for :: "bcache \<Rightarrow> u32 \<Rightarrow> u32 \<Rightarrow> nat \<Rightarrow> bool" where
  "slot_for c f i k \<longleftrightarrow> k < length (c_blkIndex c) \<and> c_fileMap c f \<noteq> None
     \<and> in_bin c (bin_of c f i) k
     \<and> (\<forall>p < k. p div unat (c_associativity c) = k div unat (c_associativity c) \<longrightarrow>
          used (c_blkIndex c ! p))
     \<and> (\<forall>p < length (c_blkIndex c). p \<noteq> k \<longrightarrow> used (c_blkIndex c ! p) \<longrightarrow>
          \<not> sameBlk (c_blkIndex c ! p) i f)"

lemma set_entry_sel [simp]:
  "c_level (set_entry c k b) = c_level c" "c_type (set_entry c k b) = c_type c"
  "c_blockSize (set_entry c k b) = c_blockSize c"
  "c_associativity (set_entry c k b) = c_associativity c"
  "c_numBlocks (set_entry c k b) = c_numBlocks c" "c_numBins (set_entry c k b) = c_numBins c"
  "c_fileMap (set_entry c k b) = c_fileMap c" "c_blocks (set_entry c k b) = c_blocks c"
  "c_terminating (set_entry c k b) = c_terminating c"
  "c_blkIndex (set_entry c k b) = (c_blkIndex c)[k := b]"
  by (simp_all add: set_entry_def)

lemma set_entry_twice [simp]: "set_entry (set_entry c k b) k b' = set_entry c k b'"
  by (simp add: set_entry_def)

lemma set_entry_ok:
  assumes ok: "table_ok c" and slot: "slot_for c f i k"
    and b: "e_id b = e_id (c_blkIndex c ! k)" "sameBlk b i f" "used b"
      "e_status b \<noteq> BLK_WR" "e_status b \<noteq> BLK_EVICT" "e_status b = BLK_AVAIL \<Longrightarrow> e_origCache b \<noteq> Empty"
  shows "table_ok (set_entry c k b)"
proof -
  let ?d = "set_entry c k b" and ?a = "unat (c_associativity c)"
  have fi: "e_fileIndex b = f" "e_blockIndex b = i" using b(2) by (simp_all add: sameBlk_def)
  have bin: "bin_of ?d = bin_of c" "in_bin ?d = in_bin c"
    by (auto intro!: bin_of_cong in_bin_cong)
  have "shape ?d"
    using table_ok_shape [OF ok] b(1) slot by (simp add: shape_def slot_for_def nth_list_update)
  moreover have "(used (c_blkIndex ?d ! p) \<longrightarrow> c_fileMap ?d (e_fileIndex (c_blkIndex ?d ! p)) \<noteq> None \<and>
      in_bin ?d (bin_of ?d (e_fileIndex (c_blkIndex ?d ! p)) (e_blockIndex (c_blkIndex ?d ! p))) p) \<and>
      e_status (c_blkIndex ?d ! p) \<noteq> BLK_WR \<and> e_status (c_blkIndex ?d ! p) \<noteq> BLK_EVICT \<and>
      (e_status (c_blkIndex ?d ! p) = BLK_AVAIL \<longrightarrow> e_origCache (c_blkIndex ?d ! p) \<noteq> Empty)"
    if "p < length (c_blkIndex ?d)" for p
    using table_okD [OF ok, of p] that slot b fi bin
    by (cases "p = k") (auto simp: slot_for_def)
  moreover have "p = q"
    if "p < length (c_blkIndex ?d)" "q < length (c_blkIndex ?d)"
      "used (c_blkIndex ?d ! q)" "used (c_blkIndex ?d ! p)"
      "sameBlk (c_blkIndex ?d ! p) (e_blockIndex (c_blkIndex ?d ! q)) (e_fileIndex (c_blkIndex ?d ! q))"
    for p q
    using that slot fi b(2) table_ok_uniq [OF ok, of q p "e_blockIndex (c_blkIndex ?d ! q)"
        "e_fileIndex (c_blkIndex ?d ! q)"]
    by (cases "p = k"; cases "q = k") (auto simp: slot_for_def sameBlk_def)
  moreover have "used (c_blkIndex ?d ! p)"
    if "q < length (c_blkIndex ?d)" "p < q" "p div ?a = q div ?a" "used (c_blkIndex ?d ! q)" for p q
  proof (cases "p = k")
    case True
    then show ?thesis using that b(3) by simp
  next
    case False
    then show ?thesis
      using that slot table_ok_prefix [OF ok, of q p] by (cases "q = k") (auto simp: slot_for_def)
  qed
  ultimately show ?thesis unfolding table_ok_def Let_def by simp
qed

lemma slot_for_present:
  assumes "table_ok c" "k < length (c_blkIndex c)" "used (c_blkIndex c ! k)"
    "sameBlk (c_blkIndex c ! k) i f"
  shows "slot_for c f i k"
  unfolding slot_for_def
proof (intro conjI allI impI)
  show "k < length (c_blkIndex c)" by (rule assms(2))
  show "c_fileMap c f \<noteq> None" "in_bin c (bin_of c f i) k"
    using table_okD(1,2) [OF assms(1,2,3)] assms(4) by (simp_all add: sameBlk_def)
  show "used (c_blkIndex c ! p)"
    if "p < k" "p div unat (c_associativity c) = k div unat (c_associativity c)" for p
    using table_ok_prefix [OF assms(1,2) that assms(3)] .
  show "\<not> sameBlk (c_blkIndex c ! p) i f"
    if "p < length (c_blkIndex c)" "p \<noteq> k" "used (c_blkIndex c ! p)" for p
    using table_ok_uniq [OF assms(1,2) that(1) assms(3) that(3) assms(4)] that(2) by blast
qed

lemma bin_slots:
  assumes "shape c"
  shows "readBin c (snd (getBinIndex c i f)) = map (\<lambda>k. (k, c_blkIndex c ! k))
      [bin_of c f i * unat (c_associativity c)..<
       bin_of c f i * unat (c_associativity c) + unat (c_associativity c)]"
    "k \<in> set [bin_of c f i * unat (c_associativity c)..<
       bin_of c f i * unat (c_associativity c) + unat (c_associativity c)]
     \<longleftrightarrow> in_bin c (bin_of c f i) k"
    "in_bin c (bin_of c f i) k \<Longrightarrow> k < length (c_blkIndex c)"
proof -
  let ?a = "unat (c_associativity c)" and ?b = "bin_of c f i"
  have lt: "?b < unat (c_numBins c)" and a: "0 < ?a"
    using assms bin_of_less by (simp_all add: shape_def)
  show "readBin c (snd (getBinIndex c i f)) = map (\<lambda>k. (k, c_blkIndex c ! k)) [?b * ?a..<?b * ?a + ?a]"
    using readBin_eq [OF assms] lt by (simp add: bin_of_def)
  show "k \<in> set [?b * ?a..<?b * ?a + ?a] \<longleftrightarrow> in_bin c ?b k"
    using in_bin_iff [OF a] by auto
  assume "in_bin c ?b k"
  then have "k < Suc ?b * ?a" using in_bin_iff [OF a] by auto
  also have "\<dots> \<le> unat (c_numBins c) * ?a" using lt by (intro mult_le_mono1) simp
  also have "\<dots> \<le> length (c_blkIndex c)" using assms by (simp add: shape_def)
  finally show "k < length (c_blkIndex c)" .
qed

text \<open>\<open>c\<close> with other collision counters.\<close>

definition counted :: "bcache \<Rightarrow> u64 \<Rightarrow> u64 \<Rightarrow> bcache" where
  "counted c x y = c\<lparr>c_collisions := x, c_prefetchCollisions := y\<rparr>"

lemma counted_same [simp]: "same_table c (counted c x y)"
  by (simp add: counted_def same_table_def)

lemma counted_sel [simp]:
  "c_level (counted c x y) = c_level c" "c_type (counted c x y) = c_type c"
  "c_blockSize (counted c x y) = c_blockSize c" "c_associativity (counted c x y) = c_associativity c"
  "c_fileMap (counted c x y) = c_fileMap c" "c_blocks (counted c x y) = c_blocks c"
  "c_blkIndex (counted c x y) = c_blkIndex c" "c_terminating (counted c x y) = c_terminating c"
  by (simp_all add: counted_def)

lemma counted_self: "counted c (c_collisions c) (c_prefetchCollisions c) = c"
  by (simp add: counted_def)

lemma slot_for_same: "same_table c d \<Longrightarrow> slot_for c f i k \<Longrightarrow> slot_for d f i k"
  using bin_of_cong [of d c] in_bin_cong [of d c] by (simp add: slot_for_def same_table_def)

text \<open>The slots of the bin of a block, and the scan over them.\<close>

definition bin_slots_of :: "bcache \<Rightarrow> u32 \<Rightarrow> u32 \<Rightarrow> nat list" where
  "bin_slots_of c f i =
     [bin_of c f i * unat (c_associativity c)..<
      bin_of c f i * unat (c_associativity c) + unat (c_associativity c)]"

definition scan_bin :: "bool \<Rightarrow> bcache \<Rightarrow> u32 \<Rightarrow> u32 \<Rightarrow> nat + lru" where
  "scan_bin pe c f i =
     oldest_scan pe i f (map (\<lambda>k. (k, c_blkIndex c ! k)) (bin_slots_of c f i)) lru_init"

lemma set_bin_slots: "shape c \<Longrightarrow> k \<in> set (bin_slots_of c f i) \<longleftrightarrow> in_bin c (bin_of c f i) k"
  unfolding bin_slots_of_def by (rule bin_slots(2))

definition victim :: "bool \<Rightarrow> lru \<Rightarrow> nat option" where
  "victim pe a =
     (if pe \<and> l_minPrefetchTime a \<noteq> - 1 \<and> l_minPrefetchEntry a \<noteq> None then l_minPrefetchEntry a
      else if l_minTime a \<noteq> - 1 then l_minEntry a else None)"

lemma oldestBlock_scan:
  assumes "shape c" and known: "c_fileMap c f \<noteq> None"
  shows "scan_bin pe c f i = Inl k \<Longrightarrow> oldestBlock pe c i f = (c, Some k)"
    "scan_bin pe c f i = Inr a \<Longrightarrow> victim pe a = None \<Longrightarrow> oldestBlock pe c i f = (c, None)"
    "scan_bin pe c f i = Inr a \<Longrightarrow> victim pe a = Some k \<Longrightarrow>
       \<exists>x y. oldestBlock pe c i f
         = (set_entry (counted c x y) k ((c_blkIndex c ! k)\<lparr>e_status := BLK_EVICT\<rparr>), Some k)"
proof -
  have gb: "getBinIndex c i f = (c, snd (getBinIndex c i f))" by (rule getBinIndex_known [OF known])
  have ob: "oldestBlock pe c i f =
      (case scan_bin pe c f i of
         Inl k \<Rightarrow> (c, Some k)
       | Inr a \<Rightarrow>
           (case (if pe \<and> l_minPrefetchTime a \<noteq> - 1 then l_minPrefetchEntry a else None) of
              Some k \<Rightarrow> (evict (c\<lparr>c_prefetchCollisions := c_prefetchCollisions c + 1\<rparr>) k, Some k)
            | None \<Rightarrow> (case (if l_minTime a \<noteq> - 1 then l_minEntry a else None) of
                Some k \<Rightarrow> (evict (c\<lparr>c_collisions := c_collisions c + 1\<rparr>) k, Some k)
              | None \<Rightarrow> (c, None))))"
    by (subst oldestBlock_def, subst gb)
      (simp add: bin_slots(1) [OF assms(1)] scan_bin_def bin_slots_of_def)
  show "scan_bin pe c f i = Inl k \<Longrightarrow> oldestBlock pe c i f = (c, Some k)"
    by (simp add: ob)
  show "scan_bin pe c f i = Inr a \<Longrightarrow> victim pe a = None \<Longrightarrow> oldestBlock pe c i f = (c, None)"
    by (auto simp: ob victim_def split: if_splits option.splits)
  show "scan_bin pe c f i = Inr a \<Longrightarrow> victim pe a = Some k \<Longrightarrow>
       \<exists>x y. oldestBlock pe c i f
         = (set_entry (counted c x y) k ((c_blkIndex c ! k)\<lparr>e_status := BLK_EVICT\<rparr>), Some k)"
    by (rule exI [of _ "c_collisions (fst (oldestBlock pe c i f))"],
        rule exI [of _ "c_prefetchCollisions (fst (oldestBlock pe c i f))"])
      (auto simp: ob victim_def evict_def set_entry_def counted_def split: if_splits option.splits)
qed

text \<open>
  The victim: with \<open>prefetchEvict\<close> the oldest of the prefetched blocks that no one uses, if
  there is one, else the oldest of all blocks that no one uses. Blocks with the greatest
  time stamp are never chosen.
\<close>

definition chosen :: "bool \<Rightarrow> block_entry list \<Rightarrow> nat set \<Rightarrow> nat \<Rightarrow> bool" where
  "chosen pe es S k \<longleftrightarrow> k \<in> S \<and> evictable (es ! k) \<and> e_timeStamp (es ! k) \<noteq> - 1 \<and>
     (let pre = (\<lambda>p. evictable (es ! p) \<and> e_prefetched (es ! p) \<noteq> 0 \<and> e_timeStamp (es ! p) \<noteq> - 1)
      in if pe \<and> (\<exists>p \<in> S. pre p)
         then pre k \<and> (\<forall>p \<in> S. pre p \<longrightarrow> e_timeStamp (es ! k) \<le> e_timeStamp (es ! p))
         else \<forall>p \<in> S. evictable (es ! p) \<longrightarrow> e_timeStamp (es ! k) \<le> e_timeStamp (es ! p))"

lemma victim_chosen: "lru_ok pe es S a \<Longrightarrow> victim pe a = Some k \<Longrightarrow> chosen pe es S k"
  by (auto simp: victim_def lru_ok_def least_def chosen_def Let_def split: if_splits option.splits)

lemma no_victim:
  "lru_ok pe es S a \<Longrightarrow> victim pe a = None \<Longrightarrow> p \<in> S \<Longrightarrow> evictable (es ! p) \<Longrightarrow>
     e_timeStamp (es ! p) = - 1"
  by (auto simp: victim_def lru_ok_def least_def split: if_splits option.splits)

lemma scan_bin_Inr:
  assumes "shape c" "scan_bin pe c f i = Inr a"
  shows "lru_ok pe (c_blkIndex c) (set (bin_slots_of c f i)) a"
    "in_bin c (bin_of c f i) p \<Longrightarrow> \<not> sameBlk (c_blkIndex c ! p) i f \<and> used (c_blkIndex c ! p)"
  using oldest_scan_Inr [OF assms(2) [unfolded scan_bin_def] lru_ok_init] set_bin_slots [OF assms(1)]
  by auto

lemma scan_bin_Inl:
  assumes "shape c" "scan_bin pe c f i = Inl k"
  shows "in_bin c (bin_of c f i) k" "sameBlk (c_blkIndex c ! k) i f \<or> \<not> used (c_blkIndex c ! k)"
    "p < k \<Longrightarrow> in_bin c (bin_of c f i) p \<Longrightarrow>
       \<not> sameBlk (c_blkIndex c ! p) i f \<and> used (c_blkIndex c ! p)"
proof -
  obtain ps qs where pq: "bin_slots_of c f i = ps @ k # qs"
      "sameBlk (c_blkIndex c ! k) i f \<or> \<not> used (c_blkIndex c ! k)"
      "\<forall>p \<in> set ps. \<not> sameBlk (c_blkIndex c ! p) i f \<and> used (c_blkIndex c ! p)"
    using oldest_scan_Inl [OF assms(2) [unfolded scan_bin_def]] by blast
  show "in_bin c (bin_of c f i) k"
    using pq(1) set_bin_slots [OF assms(1)] by (metis in_set_conv_decomp)
  show "sameBlk (c_blkIndex c ! k) i f \<or> \<not> used (c_blkIndex c ! k)" by (rule pq(2))
  assume p: "p < k" "in_bin c (bin_of c f i) p"
  have "sorted_wrt (<) (bin_slots_of c f i)" by (simp add: bin_slots_of_def)
  then have "\<forall>q \<in> set qs. k < q" using pq(1) by (simp add: sorted_wrt_append)
  moreover have "p \<in> set ps \<union> {k} \<union> set qs"
    using p(2) set_bin_slots [OF assms(1), of p f i] pq(1) by auto
  ultimately have "p \<in> set ps" using p(1) by auto
  then show "\<not> sameBlk (c_blkIndex c ! p) i f \<and> used (c_blkIndex c ! p)" using pq(3) by blast
qed

text \<open>A block that its bin does not hold before the first empty entry is nowhere.\<close>

lemma block_absent:
  assumes ok: "table_ok c"
    and bin: "\<And>q. in_bin c (bin_of c f i) q \<Longrightarrow> (\<exists>k \<le> q. in_bin c (bin_of c f i) k \<and> \<not> used (c_blkIndex c ! k)) \<or>
       \<not> sameBlk (c_blkIndex c ! q) i f"
    and p: "p < length (c_blkIndex c)" "used (c_blkIndex c ! p)"
  shows "\<not> sameBlk (c_blkIndex c ! p) i f"
proof
  assume same: "sameBlk (c_blkIndex c ! p) i f"
  then have pin: "in_bin c (bin_of c f i) p"
    using table_okD(2) [OF ok p] by (simp add: sameBlk_def)
  then obtain k where k: "k \<le> p" "in_bin c (bin_of c f i) k" "\<not> used (c_blkIndex c ! k)"
    using bin same by blast
  then have "k < p" using p(2) by (cases "k = p") auto
  then show False
    using table_ok_prefix [OF ok p(1), of k] pin k p(2) by (simp add: in_bin_def)
qed

lemma fresh_slot:
  assumes "table_ok c" "c_fileMap c f \<noteq> None" "in_bin c (bin_of c f i) k"
    "\<And>p. p < k \<Longrightarrow> in_bin c (bin_of c f i) p \<Longrightarrow> used (c_blkIndex c ! p)"
    "\<And>p. p < length (c_blkIndex c) \<Longrightarrow> used (c_blkIndex c ! p) \<Longrightarrow> \<not> sameBlk (c_blkIndex c ! p) i f"
  shows "slot_for c f i k" "k < length (c_blkIndex c)"
  using assms bin_slots(3) [OF table_ok_shape [OF assms(1)] assms(3)]
  by (auto simp: slot_for_def in_bin_def)

text \<open>
  The three ends of \<open>oldestBlock\<close>: the block is there (\<open>found\<close>), it gets an empty entry or
  one that no one uses (\<open>fresh\<close>), or every entry of the bin is taken (\<open>full\<close>).
\<close>

lemma oldestBlock_cases [consumes 2, case_names found fresh full]:
  assumes ok: "table_ok c" and known: "c_fileMap c f \<noteq> None"
  obtains k where "oldestBlock pe c i f = (c, Some k)" "k < length (c_blkIndex c)"
      "used (c_blkIndex c ! k)" "sameBlk (c_blkIndex c ! k) i f"
  | k x y st where
      "oldestBlock pe c i f = (set_entry (counted c x y) k ((c_blkIndex c ! k)\<lparr>e_status := st\<rparr>), Some k)"
      "k < length (c_blkIndex c)" "slot_for c f i k"
      "\<not> used (c_blkIndex c ! k) \<and> st = BLK_EMPTY \<or> evictable (c_blkIndex c ! k) \<and> st = BLK_EVICT"
      "\<And>p. p < length (c_blkIndex c) \<Longrightarrow> used (c_blkIndex c ! p) \<Longrightarrow> \<not> sameBlk (c_blkIndex c ! p) i f"
  | "oldestBlock pe c i f = (c, None)"
      "\<And>p. in_bin c (bin_of c f i) p \<Longrightarrow> used (c_blkIndex c ! p) \<and>
         (evictable (c_blkIndex c ! p) \<longrightarrow> e_timeStamp (c_blkIndex c ! p) = - 1)"
      "\<And>p. p < length (c_blkIndex c) \<Longrightarrow> used (c_blkIndex c ! p) \<Longrightarrow> \<not> sameBlk (c_blkIndex c ! p) i f"
proof (cases "scan_bin pe c f i")
  case (Inl k)
  note sh = table_ok_shape [OF ok]
  note r = scan_bin_Inl [OF sh Inl] and old = oldestBlock_scan(1) [OF sh known Inl]
  show thesis
  proof (cases "used (c_blkIndex c ! k)")
    case True
    then show thesis using that(1) [OF old bin_slots(3) [OF sh r(1)]] r(2) by blast
  next
    case False
    have none: "\<not> sameBlk (c_blkIndex c ! p) i f"
      if "p < length (c_blkIndex c)" "used (c_blkIndex c ! p)" for p
      by (rule block_absent [OF ok _ that]) (use False r in \<open>meson not_le\<close>)
    have "(c_blkIndex c ! k)\<lparr>e_status := BLK_EMPTY\<rparr> = c_blkIndex c ! k"
      using False by (cases "c_blkIndex c ! k") (simp add: used_def)
    then have "oldestBlock pe c i f = (set_entry (counted c (c_collisions c) (c_prefetchCollisions c)) k
        ((c_blkIndex c ! k)\<lparr>e_status := BLK_EMPTY\<rparr>), Some k)"
      by (simp add: old counted_self set_entry_def)
    then show thesis
      using that(2) fresh_slot [OF ok known r(1) conjunct2 [OF r(3)] none] False none by blast
  qed
next
  case (Inr a)
  note sh = table_ok_shape [OF ok]
  note r = scan_bin_Inr [OF sh Inr]
  have none: "\<not> sameBlk (c_blkIndex c ! p) i f"
    if "p < length (c_blkIndex c)" "used (c_blkIndex c ! p)" for p
    by (rule block_absent [OF ok _ that]) (use r(2) in blast)
  show thesis
  proof (cases "victim pe a")
    case None
    then show thesis
      using that(3) [OF oldestBlock_scan(2) [OF sh known Inr None] _ none] r(2)
        no_victim [OF r(1) None] set_bin_slots [OF sh] by blast
  next
    case (Some k)
    then have "in_bin c (bin_of c f i) k" "evictable (c_blkIndex c ! k)"
      using victim_chosen [OF r(1) Some] set_bin_slots [OF sh] by (auto simp: chosen_def)
    then show thesis
      using that(2) oldestBlock_scan(3) [OF sh known Inr Some] r(2) none
        fresh_slot [OF ok known _ _ none, of k] by blast
  qed
qed

subsection \<open>Block data\<close>

lemma block_addr:
  assumes sh: "shape c" and k: "k < length (c_blkIndex c)"
  shows "unat (of_nat k * c_blockSize c) = k * unat (c_blockSize c)"
    "(ucast (e_id (c_blkIndex c ! k)) :: u64) = of_nat k"
    "k * unat (c_blockSize c) + unat (c_blockSize c) \<le> length (c_blocks c)"
proof -
  let ?bs = "unat (c_blockSize c)"
  have "Suc k * ?bs \<le> length (c_blkIndex c) * ?bs" using k by (intro mult_le_mono1) simp
  also have "\<dots> \<le> length (c_blocks c)" using sh by (simp add: shape_def)
  finally show le: "k * ?bs + ?bs \<le> length (c_blocks c)" by simp
  have k32: "k < 2 ^ 32"
    using k sh unat_bound [of "c_numBlocks c"] by (simp add: shape_def)
  then have kk: "unat (of_nat k :: u64) = k" by (intro unat_of_nat_small) simp
  have "k * ?bs < 2 ^ 64" using le sh unfolding shape_def by linarith
  then show "unat (of_nat k * c_blockSize c) = k * ?bs"
    using kk by (subst unat_mult_small) simp_all
  have "unat (e_id (c_blkIndex c ! k)) = k" by (rule shape_id [OF sh k])
  then show "(ucast (e_id (c_blkIndex c ! k)) :: u64) = of_nat k"
    by (metis of_nat_unat)
qed

lemma getBlockData_eq:
  "shape c \<Longrightarrow> k < length (c_blkIndex c) \<Longrightarrow>
     getBlockData c k len = mem_slice (k * unat (c_blockSize c)) len (c_blocks c)"
  by (simp add: getBlockData_def block_addr)

text \<open>Storing a block changes that block only.\<close>

lemma setBlockData_Some:
  assumes sh: "shape c" and k: "k < length (c_blkIndex c)"
    and sz: "sz \<le> c_blockSize c" "unat sz \<le> length data"
  obtains bs where "setBlockData c data (e_id (c_blkIndex c ! k)) sz = Some (c\<lparr>c_blocks := bs\<rparr>)"
    "length bs = length (c_blocks c)"
    "\<And>d. c_blkIndex d = c_blkIndex c \<Longrightarrow> c_blocks d = bs \<Longrightarrow> c_blockSize d = c_blockSize c \<Longrightarrow> shape d \<Longrightarrow>
       getBlockData d k (unat sz) = Some (take (unat sz) data)"
    "\<And>p n. p < length (c_blkIndex c) \<Longrightarrow> p \<noteq> k \<Longrightarrow> n \<le> unat (c_blockSize c) \<Longrightarrow>
       mem_slice (p * unat (c_blockSize c)) n bs = mem_slice (p * unat (c_blockSize c)) n (c_blocks c)"
proof -
  let ?bs = "unat (c_blockSize c)" and ?n = "unat sz"
  have n: "?n \<le> ?bs" using sz(1) by (simp add: word_le_nat_alt)
  note addr = block_addr [OF sh k]
  obtain m where m: "blit (c_blocks c) (k * ?bs) (take ?n data) = Some m"
    using blit_in_range [of "k * ?bs" "take ?n data" "c_blocks c"] addr(3) n sz(2) by auto
  have "memcpy (c_blocks c) (k * ?bs) data 0 ?n = Some m"
    using m sz(2) by (simp add: memcpy_def mem_slice_def)
  then have "setBlockData c data (e_id (c_blkIndex c ! k)) sz = Some (c\<lparr>c_blocks := m\<rparr>)"
    by (simp add: setBlockData_def addr)
  moreover have "mem_slice (k * ?bs) ?n m = Some (take ?n data)"
    using mem_slice_blit_same [OF m] sz(2) by simp
  moreover have "mem_slice (p * ?bs) l m = mem_slice (p * ?bs) l (c_blocks c)"
    if "p \<noteq> k" "l \<le> ?bs" for p l
  proof (rule mem_slice_blit_disjoint [OF m])
    have "p * ?bs + ?bs \<le> k * ?bs \<or> k * ?bs + ?bs \<le> p * ?bs"
    proof (cases "p < k")
      case True
      then have "Suc p * ?bs \<le> k * ?bs" by (intro mult_le_mono1) simp
      then show ?thesis by simp
    next
      case False
      then have "Suc k * ?bs \<le> p * ?bs" using that(1) by (intro mult_le_mono1) simp
      then show ?thesis by simp
    qed
    then show "p * ?bs + l \<le> k * ?bs \<or> k * ?bs + length (take ?n data) \<le> p * ?bs"
      using that(2) n sz(2) by auto
  qed
  ultimately show thesis
    using that [of m] length_blit [OF m] k by (simp add: getBlockData_eq)
qed

lemma setBlockData_ex:
  assumes "shape c" "k < length (c_blkIndex c)" "sz \<le> c_blockSize c" "unat sz \<le> length data"
  shows "\<exists>bs. setBlockData c data (e_id (c_blkIndex c ! k)) sz = Some (c\<lparr>c_blocks := bs\<rparr>)"
  by (rule setBlockData_Some [OF assms]) (rule exI)

lemma setBlockData_D:
  assumes "shape c" "k < length (c_blkIndex c)" "sz \<le> c_blockSize c" "unat sz \<le> length data"
    and set: "setBlockData c data (e_id (c_blkIndex c ! k)) sz = Some (c\<lparr>c_blocks := bs\<rparr>)"
  shows "length bs = length (c_blocks c)"
    "c_blkIndex d = c_blkIndex c \<Longrightarrow> c_blocks d = bs \<Longrightarrow> c_blockSize d = c_blockSize c \<Longrightarrow> shape d \<Longrightarrow>
       getBlockData d k (unat sz) = Some (take (unat sz) data)"
    "p < length (c_blkIndex c) \<Longrightarrow> p \<noteq> k \<Longrightarrow> n \<le> unat (c_blockSize c) \<Longrightarrow>
       mem_slice (p * unat (c_blockSize c)) n bs = mem_slice (p * unat (c_blockSize c)) n (c_blocks c)"
proof (rule_tac [!] setBlockData_Some [OF assms(1-4)])
  fix m assume "setBlockData c data (e_id (c_blkIndex c ! k)) sz = Some (c\<lparr>c_blocks := m\<rparr>)"
  then have m: "m = bs" using set by (auto dest: arg_cong [where f = c_blocks])
  { assume "length m = length (c_blocks c)"
    then show "length bs = length (c_blocks c)" by (simp add: m) }
  { assume "\<And>d. c_blkIndex d = c_blkIndex c \<Longrightarrow> c_blocks d = m \<Longrightarrow> c_blockSize d = c_blockSize c \<Longrightarrow>
      shape d \<Longrightarrow> getBlockData d k (unat sz) = Some (take (unat sz) data)"
    moreover assume "c_blkIndex d = c_blkIndex c" "c_blocks d = bs" "c_blockSize d = c_blockSize c" "shape d"
    ultimately show "getBlockData d k (unat sz) = Some (take (unat sz) data)" by (simp add: m) }
  { assume "\<And>p n. p < length (c_blkIndex c) \<Longrightarrow> p \<noteq> k \<Longrightarrow> n \<le> unat (c_blockSize c) \<Longrightarrow>
      mem_slice (p * unat (c_blockSize c)) n m = mem_slice (p * unat (c_blockSize c)) n (c_blocks c)"
    moreover assume "p < length (c_blkIndex c)" "p \<noteq> k" "n \<le> unat (c_blockSize c)"
    ultimately show "mem_slice (p * unat (c_blockSize c)) n bs
        = mem_slice (p * unat (c_blockSize c)) n (c_blocks c)" by (simp add: m) }
qed

subsection \<open>The ends of a read and of a write\<close>

text \<open>
  In every case the new cache is \<open>set_entry (counted c x y) k b\<close> for one entry \<open>k\<close>, or \<open>c\<close>.
\<close>

lemma readBlock_cases [consumes 4, case_names hit reserve wait full]:
  assumes ok: "table_ok c" and known: "c_fileMap c (r_fileIndex r) = Some fe"
    and sz: "r_size r \<noteq> 0" "r_size r \<le> c_blockSize c"
  obtains k b where "readBlock pe now c r prio
        = (set_entry c k b, hit_request c k (reserve (c_level c) r), ReadHit)"
      "k < length (c_blkIndex c)" "sameBlk (c_blkIndex c ! k) (r_blkIndex r) (r_fileIndex r)"
      "e_status (c_blkIndex c ! k) = BLK_AVAIL"
      "e_id b = e_id (c_blkIndex c ! k)" "sameBlk b (r_blkIndex r) (r_fileIndex r)"
      "e_status b = BLK_AVAIL" "e_origCache b = c_type c"
      "e_activeCnt b = e_activeCnt (c_blkIndex c ! k) + 1"
  | k b x y where "readBlock pe now c r prio
        = (set_entry (counted c x y) k b, reserve (c_level c) r, ReadNext (Some k))"
      "k < length (c_blkIndex c)" "slot_for c (r_fileIndex r) (r_blkIndex r) k"
      "\<not> used (c_blkIndex c ! k) \<or> evictable (c_blkIndex c ! k)"
      "e_id b = e_id (c_blkIndex c ! k)" "sameBlk b (r_blkIndex r) (r_fileIndex r)"
      "e_status b = (if prio \<noteq> 0 then BLK_PRE else BLK_RES)" "e_origCache b = c_type c"
      "e_activeCnt b = e_activeCnt (c_blkIndex c ! k) + 1"
  | k where "readBlock pe now c r prio
        = (set_entry c k (incBlkCnt (c_blkIndex c ! k)), reserve (c_level c) r, ReadWait k)"
      "k < length (c_blkIndex c)" "sameBlk (c_blkIndex c ! k) (r_blkIndex r) (r_fileIndex r)"
      "e_status (c_blkIndex c ! k) = BLK_PRE \<or> e_status (c_blkIndex c ! k) = BLK_RES"
  | "readBlock pe now c r prio = (c, r, ReadNext None)"
proof -
  let ?f = "r_fileIndex r" and ?i = "r_blkIndex r"
  have known': "c_fileMap c ?f \<noteq> None" using known by simp
  have c0: "c\<lparr>c_fileMap := c_fileMap c\<rparr> = c" and r0: "default_size fe r = r"
    using sz(1) by (simp_all add: default_size_def)
  note rd = readBlock_def known c0 r0 sz(2) Let_def
  note sh = table_ok_shape [OF ok]
  from ok known' show thesis
  proof (cases rule: oldestBlock_cases [where pe = pe and i = ?i])
    case (found k)
    let ?e = "c_blkIndex c ! k"
    note idk = shape_id [OF sh found(2)]
    have st: "e_status ?e \<in> {BLK_AVAIL, BLK_PRE, BLK_RES}"
      using table_okD(3,4) [OF ok found(2)] found(3)
      by (cases "e_status ?e") (auto simp: used_def)
    show thesis
    proof (cases "e_status ?e = BLK_AVAIL")
      case True
      define e where "e = (if 0 < e_prefetched ?e then ?e\<lparr>e_prefetched := of_bool (prio \<noteq> 0)\<rparr> else ?e)"
      define b where "b = blockSet now e ?f ?i BLK_AVAIL (c_type c) (sint (e_prefetched e)) 1"
      have e: "e_id e = e_id ?e" "e_activeCnt e = e_activeCnt ?e" by (simp_all add: e_def)
      have r: "readBlock pe now c r prio
          = (set_entry c k b, hit_request c k (reserve (c_level c) r), ReadHit)"
        by (simp add: rd found(1) True idk b_def e_def)
      show thesis
        using that(1) [OF r found(2,4) True] e by (simp add: b_def sameBlk_def)
    next
      case False
      then have r: "readBlock pe now c r prio
          = (set_entry c k (incBlkCnt ?e), reserve (c_level c) r, ReadWait k)"
        using st by (auto simp: rd found(1) idk)
      show thesis using that(3) [OF r found(2,4)] False st by blast
    qed
  next
    case (fresh k x y st)
    let ?e = "(c_blkIndex c ! k)\<lparr>e_status := st\<rparr>"
    define b where "b = blockSet now ?e ?f ?i (if prio \<noteq> 0 then BLK_PRE else BLK_RES) (c_type c)
      (of_bool (prio \<noteq> 0)) 1"
    have st: "st = BLK_EMPTY \<or> st = BLK_EVICT" using fresh(4) by blast
    then have r: "readBlock pe now c r prio
        = (set_entry (counted c x y) k b, reserve (c_level c) r, ReadNext (Some k))"
      using fresh(2) by (auto simp: rd fresh(1) b_def)
    show thesis
      using that(2) [OF r fresh(2,3)] fresh(4) by (auto simp: b_def sameBlk_def)
  next
    case full
    then show thesis using that(4) by (simp add: rd)
  qed
qed

lemma blockSet_cnt:
  "e_activeCnt (blockSet now b f i st ty pre (uint u)) = e_activeCnt b + of_bool (0 < u)"
proof (cases "u = 0")
  case False
  then have "0 < uint u" "0 < u" by (simp_all add: word_less_def uint_0_iff order.not_eq_order_implies_strict)
  then show ?thesis by simp
qed simp

lemma writeBlock_originating:
  assumes ok: "table_ok c" and known: "c_fileMap c (r_fileIndex r) \<noteq> None"
    and orig: "r_originating r = c_level c" and res: "0 < reserved r (c_level c)"
    and k: "k < length (c_blkIndex c)" "sameBlk (c_blkIndex c ! k) (r_blkIndex r) (r_fileIndex r)"
      "e_status (c_blkIndex c ! k) = BLK_AVAIL" and cnt: "e_activeCnt (c_blkIndex c ! k) \<noteq> 0"
  shows "writeBlock pe now c r src = (set_entry c k (fst (decBlkCnt (c_blkIndex c ! k))), WriteDone True)"
proof -
  let ?f = "r_fileIndex r" and ?i = "r_blkIndex r"
  have gb: "getBinIndex c ?i ?f = (c, snd (getBinIndex c ?i ?f))" by (rule getBinIndex_known [OF known])
  then obtain bn where gb': "getBinIndex c ?i ?f = (c, bn)" by blast
  note sh = table_ok_shape [OF ok]
  note bin = bin_slots [OF sh, where i = ?i and f = ?f]
  have usedk: "used (c_blkIndex c ! k)" using k(3) by (simp add: used_def)
  have kin: "in_bin c (bin_of c ?f ?i) k"
    using table_okD(2) [OF ok k(1) usedk] k(2) by (simp add: sameBlk_def)
  let ?found = "find_avail ?i ?f (readBin c (snd (getBinIndex c ?i ?f)))"
  have "?found = Some k"
  proof (cases ?found)
    case None
    then show ?thesis
      using find_avail_None [OF None [unfolded bin(1)]] bin(2) [of k] kin k(2,3) by blast
  next
    case (Some p)
    then have p: "in_bin c (bin_of c ?f ?i) p" "sameBlk (c_blkIndex c ! p) ?i ?f" "used (c_blkIndex c ! p)"
      using find_avail_Some [OF Some [unfolded bin(1)]] bin(2) [of p] by (auto simp: used_def)
    have "k = p"
      by (rule table_ok_uniq [OF ok bin(3) [OF p(1)] k(1) p(3) usedk p(2) k(2)])
    with Some show ?thesis by simp
  qed
  then have "getBlock c ?i ?f = (c, Some k)" by (subst getBlock_def, subst gb) simp
  then show ?thesis
    using orig res cnt gb' by (simp add: writeBlock_def decBlkCnt_def Let_def)
qed

text \<open>The request comes from another cache: its block is stored, touched, or left out.\<close>

lemma writeBlock_cases [consumes 7, case_names fill touch fresh full]:
  assumes ok: "table_ok c" and known: "c_fileMap c (r_fileIndex r) \<noteq> None"
    and orig: "r_originating r \<noteq> c_level c" "r_origType r \<noteq> Empty"
    and go: "0 < reserved r (c_level c) \<or> \<not> c_terminating c"
    and sz: "r_size r \<le> c_blockSize c" "unat (r_size r) \<le> length src"
  obtains k b bs where "writeBlock pe now c r src = (set_entry (c\<lparr>c_blocks := bs\<rparr>) k b, WriteNext True)"
      "setBlockData c src (e_id (c_blkIndex c ! k)) (r_size r) = Some (c\<lparr>c_blocks := bs\<rparr>)"
      "k < length (c_blkIndex c)" "sameBlk (c_blkIndex c ! k) (r_blkIndex r) (r_fileIndex r)"
      "e_status (c_blkIndex c ! k) = BLK_PRE \<or> e_status (c_blkIndex c ! k) = BLK_RES"
      "e_id b = e_id (c_blkIndex c ! k)" "sameBlk b (r_blkIndex r) (r_fileIndex r)"
      "e_status b = BLK_AVAIL" "e_origCache b = r_origType r"
      "e_activeCnt b = e_activeCnt (c_blkIndex c ! k) + of_bool (0 < reserved r (c_level c))"
  | k b where "writeBlock pe now c r src = (set_entry c k b, WriteNext True)"
      "k < length (c_blkIndex c)" "sameBlk (c_blkIndex c ! k) (r_blkIndex r) (r_fileIndex r)"
      "e_status (c_blkIndex c ! k) = BLK_AVAIL"
      "e_id b = e_id (c_blkIndex c ! k)" "sameBlk b (r_blkIndex r) (r_fileIndex r)"
      "e_status b = BLK_AVAIL" "e_origCache b = r_origType r"
      "e_activeCnt b = e_activeCnt (c_blkIndex c ! k) + of_bool (0 < reserved r (c_level c))"
  | k b bs x y where "writeBlock pe now c r src
        = (set_entry ((counted c x y)\<lparr>c_blocks := bs\<rparr>) k b, WriteNext True)"
      "setBlockData c src (e_id (c_blkIndex c ! k)) (r_size r) = Some (c\<lparr>c_blocks := bs\<rparr>)"
      "k < length (c_blkIndex c)" "slot_for c (r_fileIndex r) (r_blkIndex r) k"
      "\<not> used (c_blkIndex c ! k) \<or> evictable (c_blkIndex c ! k)"
      "\<And>p. p < length (c_blkIndex c) \<Longrightarrow> used (c_blkIndex c ! p) \<Longrightarrow>
         \<not> sameBlk (c_blkIndex c ! p) (r_blkIndex r) (r_fileIndex r)"
      "e_id b = e_id (c_blkIndex c ! k)" "sameBlk b (r_blkIndex r) (r_fileIndex r)"
      "e_status b = BLK_AVAIL" "e_origCache b = r_origType r"
      "e_activeCnt b = e_activeCnt (c_blkIndex c ! k) + of_bool (0 < reserved r (c_level c))"
  | "writeBlock pe now c r src = (c, WriteNext False)"
      "\<And>p. p < length (c_blkIndex c) \<Longrightarrow> used (c_blkIndex c ! p) \<Longrightarrow>
         \<not> sameBlk (c_blkIndex c ! p) (r_blkIndex r) (r_fileIndex r)"
proof -
  let ?f = "r_fileIndex r" and ?i = "r_blkIndex r" and ?res = "reserved r (c_level c)"
  have gb: "getBinIndex c ?i ?f = (c, snd (getBinIndex c ?i ?f))" by (rule getBinIndex_known [OF known])
  then obtain bn where gb': "getBinIndex c ?i ?f = (c, bn)" by blast
  note sh = table_ok_shape [OF ok]
  have wr: "writeBlock pe now c r src = (case oldestBlock pe c ?i ?f of
       (c, None) \<Rightarrow> (c, WriteNext False)
     | (c, Some k) \<Rightarrow>
         (let entry = c_blkIndex c ! k;
              entry' = blockSet now entry ?f ?i BLK_AVAIL (r_origType r)
                         (sint (e_prefetched entry)) (uint ?res)
          in if (e_status entry \<noteq> BLK_WR \<and> e_status entry \<noteq> BLK_AVAIL) \<or> e_status entry = BLK_EVICT
             then case setBlockData c src (e_id entry) (r_size r) of
                 None \<Rightarrow> (c, WriteFault)
               | Some c \<Rightarrow> (set_entry c k entry', WriteNext True)
             else if e_status entry = BLK_AVAIL then (set_entry c k entry', WriteNext True)
             else (c, WriteNext True)))"
  proof -
    obtain d ko where ob: "oldestBlock pe c ?i ?f = (d, ko)" by fastforce
    show ?thesis using orig(1) go sz(1) gb' by (cases ko) (simp_all add: writeBlock_def Let_def ob)
  qed
  from ok known show thesis
  proof (cases rule: oldestBlock_cases [where pe = pe and i = ?i])
    case (found k)
    let ?e = "c_blkIndex c ! k"
    define b where "b = blockSet now ?e ?f ?i BLK_AVAIL (r_origType r) (sint (e_prefetched ?e)) (uint ?res)"
    have st: "e_status ?e \<in> {BLK_AVAIL, BLK_PRE, BLK_RES}"
      using table_okD(3,4) [OF ok found(2)] found(3)
      by (cases "e_status ?e") (auto simp: used_def)
    have b: "e_id b = e_id ?e" "sameBlk b ?i ?f" "e_status b = BLK_AVAIL" "e_origCache b = r_origType r"
        "e_activeCnt b = e_activeCnt ?e + of_bool (0 < ?res)"
      by (simp_all add: b_def sameBlk_def blockSet_cnt del: blockSet_sel(7))
    show thesis
    proof (cases "e_status ?e = BLK_AVAIL")
      case True
      then have "writeBlock pe now c r src = (set_entry c k b, WriteNext True)"
        by (simp add: wr found(1) b_def Let_def)
      from that(2) [OF this found(2,4) True b] show thesis .
    next
      case False
      obtain bs where bs: "setBlockData c src (e_id ?e) (r_size r) = Some (c\<lparr>c_blocks := bs\<rparr>)"
        using setBlockData_ex [OF sh found(2) sz] by blast
      have "writeBlock pe now c r src = (set_entry (c\<lparr>c_blocks := bs\<rparr>) k b, WriteNext True)"
        using False table_okD(3) [OF ok found(2)] by (simp add: wr found(1) b_def bs Let_def)
      moreover have "e_status ?e = BLK_PRE \<or> e_status ?e = BLK_RES" using False st by blast
      ultimately show thesis using that(1) [OF _ bs found(2,4) _ b] by blast
    qed
  next
    case (fresh k x y st)
    let ?e = "c_blkIndex c ! k" and ?c1 = "set_entry (counted c x y) k ((c_blkIndex c ! k)\<lparr>e_status := st\<rparr>)"
    define b where "b = blockSet now (?e\<lparr>e_status := st\<rparr>) ?f ?i BLK_AVAIL (r_origType r)
        (sint (e_prefetched ?e)) (uint ?res)"
    have st: "st = BLK_EMPTY \<or> st = BLK_EVICT" using fresh(4) by blast
    obtain bs where bs: "setBlockData c src (e_id ?e) (r_size r) = Some (c\<lparr>c_blocks := bs\<rparr>)"
      using setBlockData_ex [OF sh fresh(2) sz] by blast
    then have bs': "setBlockData ?c1 src (e_id ?e) (r_size r) = Some (?c1\<lparr>c_blocks := bs\<rparr>)"
      by (auto simp: setBlockData_def dest: arg_cong [where f = c_blocks])
    have "writeBlock pe now c r src = (set_entry (?c1\<lparr>c_blocks := bs\<rparr>) k b, WriteNext True)"
    proof -
      have "writeBlock pe now c r src = (case setBlockData ?c1 src (e_id ?e) (r_size r) of
          None \<Rightarrow> (?c1, WriteFault) | Some d \<Rightarrow> (set_entry d k b, WriteNext True))"
        using st fresh(2) by (elim disjE) (simp_all add: wr fresh(1) b_def Let_def cong: option.case_cong)
      then show ?thesis by (simp only: bs' option.case)
    qed
    also have "set_entry (?c1\<lparr>c_blocks := bs\<rparr>) k b = set_entry ((counted c x y)\<lparr>c_blocks := bs\<rparr>) k b"
      by (simp add: set_entry_def counted_def)
    finally have r: "writeBlock pe now c r src
        = (set_entry ((counted c x y)\<lparr>c_blocks := bs\<rparr>) k b, WriteNext True)" .
    have b: "e_id b = e_id ?e" "sameBlk b ?i ?f" "e_status b = BLK_AVAIL" "e_origCache b = r_origType r"
        "e_activeCnt b = e_activeCnt ?e + of_bool (0 < ?res)"
      by (simp_all add: b_def sameBlk_def blockSet_cnt del: blockSet_sel(7))
    have v: "\<not> used ?e \<or> evictable ?e" using fresh(4) by blast
    show thesis by (rule that(3) [OF r bs fresh(2,3) v fresh(5) b])
  next
    case full
    then show thesis using that(4) by (simp add: wr)
  qed
qed

subsection \<open>Construction, files, eviction\<close>

lemma NewMemoryCache_Some:
  assumes "NewMemoryCache level nm ty cs bs a = Some c"
  shows "c_level c = level" "c_type c = ty" "c_blockSize c = bs" "bs \<noteq> 0" "c_terminating c = False"
    "c_collisions c = 0" "c_prefetchCollisions c = 0"
    "c_numBlocks c = ucast (cs div bs)" "c_associativity c \<noteq> 0" "c_associativity c \<le> c_numBlocks c"
    "c_numBins c = c_numBlocks c div c_associativity c"
    "c_blkIndex c = map (\<lambda>i. init_entry (of_nat i)) [0..<unat (c_numBlocks c)]"
    "c_blocks c = replicate (unat cs) 0"
  using assms by (auto simp: NewMemoryCache_def Let_def not_less split: if_splits)

lemma NewMemoryCache_table:
  assumes new: "NewMemoryCache level nm ty cs bs a = Some c"
  shows "table_ok c \<and> (\<forall>k < length (c_blkIndex c). e_status (c_blkIndex c ! k) = BLK_EMPTY
           \<and> e_activeCnt (c_blkIndex c ! k) = 0)
    \<and> length (c_blkIndex c) = unat (ucast (cs div bs) :: u32)"
proof -
  note d = NewMemoryCache_Some [OF new]
  let ?n = "unat (c_numBlocks c)" and ?a = "unat (c_associativity c)"
  have len: "length (c_blkIndex c) = ?n" by (simp add: d(12))
  have es: "c_blkIndex c ! k = init_entry (of_nat k)" if "k < ?n" for k
    using that by (simp add: d(12))
  have a: "0 < ?a" "?a \<le> ?n" using d(9,10) by (simp_all add: unat_gt_0 word_le_nat_alt)
  have bins: "unat (c_numBins c) = ?n div ?a" by (simp add: d(11) unat_div_distrib)
  have "?n \<le> unat (cs div bs)"
    unfolding d(8) by (simp add: unsigned_ucast_eq take_bit_nat_less_eq_self)
  then have "?n * unat bs \<le> unat cs div unat bs * unat bs"
    by (intro mult_le_mono1) (simp add: unat_div_distrib)
  also have "\<dots> \<le> unat cs" by (rule div_times_less_eq_dividend)
  finally have "?n * unat bs \<le> length (c_blocks c)" by (simp add: d(13))
  moreover have "unat (c_numBins c) * ?a \<le> ?n" unfolding bins by (rule div_times_less_eq_dividend)
  moreover have "0 < unat (c_numBins c)" unfolding bins using a by (simp add: div_greater_zero_iff)
  moreover have "length (c_blocks c) < 2 ^ 64" using unat_bound [of cs] by (simp add: d(13))
  ultimately have "shape c" using a len by (simp add: shape_def d(3) es init_entry_def)
  then show ?thesis
    using len d(8) by (simp add: table_ok_def es init_entry_def used_def)
qed

text \<open>
  the constructor sets up a well-formed table of empty blocks: at least one bin, all
  bins inside of the table, each block inside of the data.
\<close>

theorem NewMemoryCache_ok:
  assumes "NewMemoryCache level nm ty cs bs a = Some c"
  shows "table_ok c \<and> (\<forall>k < length (c_blkIndex c). e_status (c_blkIndex c ! k) = BLK_EMPTY
           \<and> e_activeCnt (c_blkIndex c ! k) = 0)
    \<and> length (c_blkIndex c) = unat (ucast (cs div bs) :: u32)"
  by (rule NewMemoryCache_table [OF assms])

theorem NewMemoryCache_ok_witness:
  "length (c_blkIndex (the (NewMemoryCache 1 ''privatememory'' PrivateMemory 64 16 2))) = 4"
proof -
  have "NewMemoryCache 1 ''privatememory'' PrivateMemory 64 16 2
      = Some (the (NewMemoryCache 1 ''privatememory'' PrivateMemory 64 16 2))"
    by (simp add: NewMemoryCache_def Let_def)
  from NewMemoryCache_ok [OF this] show ?thesis by simp
qed

lemma addFile_ok:
  assumes ok: "table_ok c"
  shows "table_ok (addFile XXH32 c f nm bs fs)"
proof (cases "c_fileMap c f")
  case None
  let ?d = "addFile XXH32 c f nm bs fs"
  have bin: "bin_of ?d g i = bin_of c g i" if "c_fileMap c g \<noteq> None" for g i
    using that None by (auto simp: bin_of_def getBinIndex_def addFile_def fileMap_at_def)
  have eqs: "c_blkIndex ?d = c_blkIndex c" "in_bin ?d = in_bin c"
      "c_associativity ?d = c_associativity c"
    using None by (simp_all add: addFile_def in_bin_def fun_eq_iff)
  have sh: "shape ?d" using table_ok_shape [OF ok] None by (simp add: shape_def addFile_def)
  have known: "c_fileMap ?d g \<noteq> None" if "c_fileMap c g \<noteq> None" for g
    using that None by (auto simp: addFile_def)
  show ?thesis
    using ok sh bin known unfolding table_ok_def eqs Let_def by simp
qed (simp add: addFile_def ok)


definition lru_demo :: bcache where
  "lru_demo = \<lparr>c_level = 1, c_name = ''m'', c_type = PrivateMemory, c_cacheSize = 4, c_blockSize = 2,
     c_associativity = 2, c_numBlocks = 2, c_numBins = 1, c_collisions = 0, c_prefetchCollisions = 0,
     c_terminating = False, c_fileMap = [1 \<mapsto> default_file],
     c_blkIndex = [(init_entry 0)\<lparr>e_fileIndex := 1, e_blockIndex := 5, e_timeStamp := 9, e_status := BLK_AVAIL,
                     e_origCache := Network\<rparr>,
                   (init_entry 1)\<lparr>e_fileIndex := 1, e_blockIndex := 6, e_timeStamp := 4, e_status := BLK_AVAIL,
                     e_origCache := Network\<rparr>],
     c_blocks = [0, 0, 0, 0]\<rparr>"

lemma lru_demo_bin: "bin_of lru_demo f i = 0"
  using bin_of_less [of lru_demo f i] by (simp add: lru_demo_def)

lemma lru_demo_ok: "table_ok lru_demo"
proof -
  have two: "(\<forall>k < Suc (Suc 0). P k) \<longleftrightarrow> P 0 \<and> P 1" for P by (auto simp: less_Suc_eq)
  have "shape lru_demo" by (simp add: shape_def lru_demo_def two init_entry_def)
  then show ?thesis
    unfolding table_ok_def lru_demo_bin Let_def
    by (simp add: lru_demo_def two init_entry_def used_def sameBlk_def in_bin_def)
qed


end
