(* ===== verification/CacheMachine.thy ===== *)
theory CacheMachine
  imports BoundedCache
begin

text \<open>
  One bounded cache serving any number of outstanding requests. Each request runs through
  \<open>readBlock\<close> (or passes the cache by), gets its data from this cache or from another one,
  and comes back through \<open>writeBlock\<close>; the critical sections interleave in any order.
\<close>

subsection \<open>The machine\<close>

text \<open>
  Where a request is: not in use; read without an entry here (\<open>PFree\<close>); holding the block in
  slot \<open>k\<close> (\<open>PHit k\<close>); about to fill the slot it reserved (\<open>PFetch k\<close>); waiting for another
  request to fill it (\<open>PWait k\<close>).
\<close>

datatype phase = PDone | PFree | PHit nat | PFetch nat | PWait nat

fun slot_of :: "phase \<Rightarrow> nat option" where
  "slot_of (PHit k) = Some k"
| "slot_of (PFetch k) = Some k"
| "slot_of (PWait k) = Some k"
| "slot_of _ = None"

definition phase_after :: "read_outcome \<Rightarrow> request \<Rightarrow> phase" where
  "phase_after out r =
     (case out of
        ReadHit \<Rightarrow> (case r_data r of DBlock _ k \<Rightarrow> PHit k | _ \<Rightarrow> PDone)
      | ReadNext None \<Rightarrow> PFree
      | ReadNext (Some k) \<Rightarrow> PFetch k
      | ReadWait k \<Rightarrow> PWait k
      | ReadCrash \<Rightarrow> PDone)"

type_synonym client = "request \<times> phase"
type_synonym content = "u32 \<Rightarrow> u32 \<Rightarrow> bytes"
type_synonym mstate = "bcache \<times> client list \<times> nat"

text \<open>The bytes that \<open>req->data\<close> points to, seen from the cache \<open>c\<close>.\<close>

definition req_bytes :: "bcache \<Rightarrow> request \<Rightarrow> bytes" where
  "req_bytes c r =
     (case r_data r of
        DBuf bs \<Rightarrow> bs
      | DBlock l k \<Rightarrow> (case getBlockData c k (unat (r_size r)) of Some bs \<Rightarrow> bs | None \<Rightarrow> [])
      | DNull \<Rightarrow> [])"

text \<open>
  A request as the clients make it: for a known file, of the size of the block, which fits.
  \<open>content\<close> is what the files hold.
\<close>

definition good_req :: "content \<Rightarrow> bcache \<Rightarrow> request \<Rightarrow> bool" where
  "good_req content c r \<longleftrightarrow> r_size r \<noteq> 0 \<and> r_size r \<le> c_blockSize c
     \<and> unat (r_size r) = length (content (r_fileIndex r) (r_blkIndex r))
     \<and> c_fileMap c (r_fileIndex r) \<noteq> None \<and> r_origType r \<noteq> Empty"

definition fresh_req :: "content \<Rightarrow> bcache \<Rightarrow> request \<Rightarrow> bool" where
  "fresh_req content c r \<longleftrightarrow> good_req content c r \<and> r_originating r \<noteq> c_level c
     \<and> reserved r (c_level c) = 0 \<and> \<not> r_ready r"

text \<open>The data arrive from another cache, which names itself as the origin.\<close>

definition deliver :: "content \<Rightarrow> nat \<Rightarrow> CacheType \<Rightarrow> request \<Rightarrow> request" where
  "deliver content orig ty r =
     r\<lparr>r_data := DBuf (content (r_fileIndex r) (r_blkIndex r)), r_originating := orig,
       r_origType := ty, r_ready := True\<rparr>"

text \<open>The third component counts the critical sections run so far.\<close>

inductive cstep :: "bool \<Rightarrow> content \<Rightarrow> mstate \<Rightarrow> mstate \<Rightarrow> bool" for pe content where
  Read: "\<lbrakk>j < length cl; snd (cl ! j) = PDone; fresh_req content c r;
          readBlock pe now c r prio = (c', r', out)\<rbrakk> \<Longrightarrow>
     cstep pe content (c, cl, n) (c', cl[j := (r', phase_after out r')], n + 1)"
| Bypass: "\<lbrakk>j < length cl; snd (cl ! j) = PDone; fresh_req content c r\<rbrakk> \<Longrightarrow>
     cstep pe content (c, cl, n) (c, cl[j := (r, PFree)], n)"
| Arrive: "\<lbrakk>j < length cl; cl ! j = (r, ph); ph = PFree \<or> ph = PFetch k \<or> ph = PWait k;
            \<not> r_ready r; orig \<noteq> c_level c; ty \<noteq> Empty\<rbrakk> \<Longrightarrow>
     cstep pe content (c, cl, n) (c, cl[j := (deliver content orig ty r, ph)], n)"
| WaitDone: "\<lbrakk>j < length cl; cl ! j = (r, PWait k); \<not> r_ready r; wait_available c k r = Some r'\<rbrakk> \<Longrightarrow>
     cstep pe content (c, cl, n) (c, cl[j := (r', PHit k)], n)"
| Write: "\<lbrakk>j < length cl; cl ! j = (r, ph); ph \<noteq> PDone; r_ready r;
           writeBlock pe now c r (req_bytes c r) = (c', out)\<rbrakk> \<Longrightarrow>
     cstep pe content (c, cl, n) (c', cl[j := (r, PDone)], n + 1)"
| AddFile: "cstep pe content (c, cl, n) (addFile XXH32 c f nm bs fs, cl, n)"
| Terminate: "cstep pe content (c, cl, n) (c\<lparr>c_terminating := True\<rparr>, cl, n)"

inductive_cases cstepE: "cstep pe content (c, cl, n) t"

subsection \<open>The invariant\<close>

definition users :: "client list \<Rightarrow> nat \<Rightarrow> nat" where
  "users cl k = count_if (\<lambda>(r, ph). slot_of ph = Some k) cl"

definition holds_slot :: "bcache \<Rightarrow> request \<Rightarrow> nat \<Rightarrow> bool" where
  "holds_slot c r k \<longleftrightarrow> k < length (c_blkIndex c) \<and> used (c_blkIndex c ! k)
     \<and> sameBlk (c_blkIndex c ! k) (r_blkIndex r) (r_fileIndex r) \<and> reserved r (c_level c) = 1"

definition elsewhere :: "content \<Rightarrow> bcache \<Rightarrow> request \<Rightarrow> bool" where
  "elsewhere content c r \<longleftrightarrow> r_originating r \<noteq> c_level c \<and>
     (r_ready r \<longrightarrow> r_data r = DBuf (content (r_fileIndex r) (r_blkIndex r)))"

definition client_ok :: "content \<Rightarrow> bcache \<Rightarrow> client \<Rightarrow> bool" where
  "client_ok content c x \<longleftrightarrow>
     (case x of (r, ph) \<Rightarrow>
       (case ph of
          PDone \<Rightarrow> True
        | PFree \<Rightarrow> good_req content c r \<and> elsewhere content c r \<and> reserved r (c_level c) = 0
        | PHit k \<Rightarrow> good_req content c r \<and> holds_slot c r k \<and> e_status (c_blkIndex c ! k) = BLK_AVAIL
            \<and> r_originating r = c_level c \<and> r_data r = DBlock (c_level c) k \<and> r_ready r
        | PFetch k \<Rightarrow> good_req content c r \<and> holds_slot c r k \<and> elsewhere content c r
        | PWait k \<Rightarrow> good_req content c r \<and> holds_slot c r k \<and> elsewhere content c r))"

text \<open>The data of a slot are those of its block.\<close>

definition slot_data :: "content \<Rightarrow> bcache \<Rightarrow> nat \<Rightarrow> bool" where
  "slot_data content c k \<longleftrightarrow>
     (let d = content (e_fileIndex (c_blkIndex c ! k)) (e_blockIndex (c_blkIndex c ! k))
      in length d \<le> unat (c_blockSize c) \<and> getBlockData c k (length d) = Some d)"

definition filling :: "block_entry \<Rightarrow> bool" where
  "filling b \<longleftrightarrow> e_status b = BLK_PRE \<or> e_status b = BLK_RES"

definition minv :: "content \<Rightarrow> mstate \<Rightarrow> bool" where
  "minv content s \<longleftrightarrow>
     (case s of (c, cl, n) \<Rightarrow>
        table_ok c \<and> c_type c \<noteq> Empty \<and>
        (\<forall>j < length cl. client_ok content c (cl ! j)) \<and>
        (\<forall>k < length (c_blkIndex c).
           users cl k \<le> unat (e_activeCnt (c_blkIndex c ! k)) \<and>
           unat (e_activeCnt (c_blkIndex c ! k)) \<le> n \<and>
           (\<not> used (c_blkIndex c ! k) \<longrightarrow> e_activeCnt (c_blkIndex c ! k) = 0) \<and>
           (e_status (c_blkIndex c ! k) = BLK_AVAIL \<longrightarrow> slot_data content c k) \<and>
           (filling (c_blkIndex c ! k) \<longrightarrow> (\<exists>j < length cl. snd (cl ! j) = PFetch k))))"

lemma minvD:
  assumes "minv content (c, cl, n)"
  shows "table_ok c" "c_type c \<noteq> Empty" "j < length cl \<Longrightarrow> client_ok content c (cl ! j)"
    "k < length (c_blkIndex c) \<Longrightarrow> users cl k \<le> unat (e_activeCnt (c_blkIndex c ! k))"
    "k < length (c_blkIndex c) \<Longrightarrow> unat (e_activeCnt (c_blkIndex c ! k)) \<le> n"
    "k < length (c_blkIndex c) \<Longrightarrow> e_status (c_blkIndex c ! k) = BLK_AVAIL \<Longrightarrow> slot_data content c k"
    "k < length (c_blkIndex c) \<Longrightarrow> filling (c_blkIndex c ! k) \<Longrightarrow>
       \<exists>j < length cl. snd (cl ! j) = PFetch k"
    "k < length (c_blkIndex c) \<Longrightarrow> \<not> used (c_blkIndex c ! k) \<Longrightarrow> e_activeCnt (c_blkIndex c ! k) = 0"
  using assms by (simp_all add: minv_def)

lemma users_update:
  "j < length cl \<Longrightarrow> users (cl[j := x]) k + of_bool (slot_of (snd (cl ! j)) = Some k)
     = users cl k + of_bool (slot_of (snd x) = Some k)"
  using count_if_update [of j cl "\<lambda>(r, ph). slot_of ph = Some k" x]
  by (simp add: users_def split_beta)

lemma users_pos: "j < length cl \<Longrightarrow> slot_of (snd (cl ! j)) = Some k \<Longrightarrow> 0 < users cl k"
  using count_if_pos [of j cl "\<lambda>(r, ph). slot_of ph = Some k"] by (simp add: users_def split_beta)

text \<open>Changing one entry keeps the other requests' claims.\<close>

definition frame :: "bcache \<Rightarrow> bcache \<Rightarrow> bool" where
  "frame c d \<longleftrightarrow> c_level d = c_level c \<and> c_type d = c_type c \<and> c_blockSize d = c_blockSize c
     \<and> (\<forall>f. c_fileMap c f \<noteq> None \<longrightarrow> c_fileMap d f \<noteq> None)"

lemma client_ok_frame:
  assumes "client_ok content c x" "frame c d" "length (c_blkIndex d) = length (c_blkIndex c)"
    and "\<And>k. slot_of (snd x) = Some k \<Longrightarrow>
      e_fileIndex (c_blkIndex d ! k) = e_fileIndex (c_blkIndex c ! k) \<and>
      e_blockIndex (c_blkIndex d ! k) = e_blockIndex (c_blkIndex c ! k) \<and>
      (used (c_blkIndex c ! k) \<longrightarrow> used (c_blkIndex d ! k)) \<and>
      (e_status (c_blkIndex c ! k) = BLK_AVAIL \<longrightarrow> e_status (c_blkIndex d ! k) = BLK_AVAIL)"
  shows "client_ok content d x"
proof (cases x)
  case (Pair r ph)
  then show ?thesis
    using assms
    by (cases ph) (auto simp: client_ok_def frame_def good_req_def holds_slot_def elsewhere_def sameBlk_def)
qed

lemma minv_update:
  assumes inv: "minv content (c, cl, n)" and j: "j < length cl"
    and tab: "table_ok d" "frame c d" "c_blkIndex d = (c_blkIndex c)[k := b]" "k < length (c_blkIndex c)"
    and keep: "e_activeCnt (c_blkIndex c ! k) \<noteq> 0 \<Longrightarrow>
      e_fileIndex b = e_fileIndex (c_blkIndex c ! k) \<and> e_blockIndex b = e_blockIndex (c_blkIndex c ! k) \<and>
      (e_status (c_blkIndex c ! k) = BLK_AVAIL \<longrightarrow> e_status b = BLK_AVAIL)"
    and usedb: "used b"
    and dat: "e_status b = BLK_AVAIL \<Longrightarrow> slot_data content d k"
    and oth: "\<And>p m. p < length (c_blkIndex c) \<Longrightarrow> p \<noteq> k \<Longrightarrow> m \<le> unat (c_blockSize c) \<Longrightarrow>
      getBlockData d p m = getBlockData c p m"
    and x: "client_ok content d x" "\<And>p. p \<noteq> k \<Longrightarrow> slot_of (snd x) \<noteq> Some p"
    and cnt: "users (cl[j := x]) k \<le> unat (e_activeCnt b)" "unat (e_activeCnt b) \<le> m" "n \<le> m"
    and fill: "\<And>p. p \<noteq> k \<Longrightarrow> snd (cl ! j) \<noteq> PFetch p"
      "filling b \<Longrightarrow> \<exists>i < length cl. snd (cl[j := x] ! i) = PFetch k"
  shows "minv content (d, cl[j := x], m)"
proof -
  let ?es = "c_blkIndex c"
  have "client_ok content d (cl[j := x] ! i)" if i: "i < length cl" for i
  proof (cases "i = j")
    case True
    then show ?thesis using x(1) j by simp
  next
    case False
    have "client_ok content d (cl ! i)"
    proof (rule client_ok_frame [OF minvD(3) [OF inv i] tab(2)])
      fix p assume p: "slot_of (snd (cl ! i)) = Some p"
      show "e_fileIndex (c_blkIndex d ! p) = e_fileIndex (?es ! p) \<and>
        e_blockIndex (c_blkIndex d ! p) = e_blockIndex (?es ! p) \<and>
        (used (?es ! p) \<longrightarrow> used (c_blkIndex d ! p)) \<and>
        (e_status (?es ! p) = BLK_AVAIL \<longrightarrow> e_status (c_blkIndex d ! p) = BLK_AVAIL)"
      proof (cases "p = k")
        case True
        have "0 < users cl k" using users_pos [OF i] p True by simp
        then have "e_activeCnt (?es ! k) \<noteq> 0" using minvD(4) [OF inv tab(4)] by auto
        then show ?thesis using keep usedb tab(3,4) True by simp
      qed (use tab(3) in simp)
    qed (use tab(3) in simp)
    then show ?thesis using False by simp
  qed
  moreover have "users (cl[j := x]) p \<le> unat (e_activeCnt (c_blkIndex d ! p)) \<and>
      unat (e_activeCnt (c_blkIndex d ! p)) \<le> m" if p: "p < length ?es" for p
  proof (cases "p = k")
    case False
    have "users (cl[j := x]) p \<le> users cl p"
      using users_update [OF j, of x p] x(2) [OF False] by simp
    then show ?thesis
      using minvD(4,5) [OF inv p] False cnt(3) tab(3) by simp
  qed (use cnt(1,2) tab(3,4) in simp)
  moreover have "\<not> used (c_blkIndex d ! p) \<longrightarrow> e_activeCnt (c_blkIndex d ! p) = 0"
    if p: "p < length ?es" for p
    using minvD(8) [OF inv p] usedb tab(3,4) by (cases "p = k") simp_all
  moreover have "slot_data content d p"
    if p: "p < length ?es" "e_status (c_blkIndex d ! p) = BLK_AVAIL" for p
  proof (cases "p = k")
    case False
    then have "slot_data content c p" using minvD(6) [OF inv p(1)] p(2) tab(3) by simp
    then show ?thesis
      using False oth [OF p(1) False] tab(2,3) by (simp add: slot_data_def frame_def Let_def)
  qed (use dat p(2) tab(3,4) in simp)
  moreover have "\<exists>i < length cl. snd (cl[j := x] ! i) = PFetch p"
    if p: "p < length ?es" "filling (c_blkIndex d ! p)" for p
  proof (cases "p = k")
    case False
    then obtain i where "i < length cl" "snd (cl ! i) = PFetch p"
      using minvD(7) [OF inv p(1)] p(2) tab(3) by auto
    moreover have "i \<noteq> j" using fill(1) [OF False] calculation(2) by auto
    ultimately show ?thesis by (intro exI [of _ i]) simp
  qed (use fill(2) p(2) tab(3,4) in simp)
  ultimately show ?thesis
    using tab minvD(2) [OF inv] by (simp add: minv_def frame_def)
qed

lemma getBlockData_same [simp]:
  "getBlockData (set_entry c k b) = getBlockData c" "getBlockData (counted c x y) = getBlockData c"
  by (simp_all add: fun_eq_iff getBlockData_def)

lemma frame_simps [simp]:
  "frame c (set_entry c k b)" "frame c (set_entry (counted c x y) k b)"
  "frame c (set_entry ((counted c x y)\<lparr>c_blocks := bs\<rparr>) k b)"
  "frame c (set_entry (c\<lparr>c_blocks := bs\<rparr>) k b)" "frame c c"
  by (simp_all add: frame_def)

lemma slot_data_keep:
  "slot_data content c k \<Longrightarrow> k < length (c_blkIndex c) \<Longrightarrow>
     e_fileIndex b = e_fileIndex (c_blkIndex c ! k) \<Longrightarrow>
     e_blockIndex b = e_blockIndex (c_blkIndex c ! k) \<Longrightarrow> slot_data content (set_entry c k b) k"
  by (simp add: slot_data_def Let_def)

lemma inc_no_wrap:
  "unat (w :: u32) \<le> n \<Longrightarrow> n + 1 < 2 ^ 32 \<Longrightarrow> unat (w + 1) = unat w + 1"
  by (subst unat_add_small) simp_all

lemma reserve_sel [simp]:
  "r_reservedMap (reserve l r) = (r_reservedMap r)(l := 1)" "r_size (reserve l r) = r_size r"
  "r_fileIndex (reserve l r) = r_fileIndex r" "r_blkIndex (reserve l r) = r_blkIndex r"
  "r_originating (reserve l r) = r_originating r" "r_origType (reserve l r) = r_origType r"
  "r_ready (reserve l r) = r_ready r" "r_data (reserve l r) = r_data r"
  by (simp_all add: reserve_def)

lemma good_req_frame:
  "good_req content c r \<Longrightarrow> frame c d \<Longrightarrow> good_req content d r"
  by (auto simp: good_req_def frame_def)

lemma users_new:
  assumes "minv content (c, cl, n)" "j < length cl" "slot_of (snd (cl ! j)) = None"
    "k < length (c_blkIndex c)" "e_activeCnt b = e_activeCnt (c_blkIndex c ! k) + 1" "n + 1 < 2 ^ 32"
  shows "users (cl[j := x]) k \<le> unat (e_activeCnt b)" "unat (e_activeCnt b) \<le> n + 1"
  using users_update [OF assms(2), of x k] assms(3,5) minvD(4,5) [OF assms(1,4)]
    inc_no_wrap [of "e_activeCnt (c_blkIndex c ! k)" n] assms(6)
  by (auto simp: of_bool_def split: if_splits)

lemma free_slot_count:
  assumes "minv content (c, cl, n)" "k < length (c_blkIndex c)"
    "\<not> used (c_blkIndex c ! k) \<or> evictable (c_blkIndex c ! k)"
  shows "e_activeCnt (c_blkIndex c ! k) = 0"
  using assms(3) minvD(8) [OF assms(1,2)] by (auto simp: evictable_def anyUsers_def)

subsection \<open>Every step keeps the invariant\<close>

lemma minv_client:
  assumes inv: "minv content (c, cl, n)" and j: "j < length cl" and x: "client_ok content c x"
    and slot: "slot_of (snd x) = slot_of (snd (cl ! j))"
    and fetch: "\<And>p. snd (cl ! j) = PFetch p \<Longrightarrow> snd x = PFetch p" and n: "n \<le> m"
  shows "minv content (c, cl[j := x], m)"
proof -
  have "users (cl[j := x]) k = users cl k" for k
    using users_update [OF j, of x k] slot by simp
  moreover have "client_ok content c (cl[j := x] ! i)" if "i < length cl" for i
    using that x j minvD(3) [OF inv that] by (cases "i = j") simp_all
  moreover have "\<exists>i < length cl. snd (cl[j := x] ! i) = PFetch k"
    if k: "k < length (c_blkIndex c)" "filling (c_blkIndex c ! k)" for k
  proof -
    obtain i where "i < length cl" "snd (cl ! i) = PFetch k" using minvD(7) [OF inv k] by blast
    then show ?thesis using fetch j by (intro exI [of _ i]) (cases "i = j"; simp)
  qed
  moreover have "unat (e_activeCnt (c_blkIndex c ! k)) \<le> m" if "k < length (c_blkIndex c)" for k
    using minvD(5) [OF inv that] n by simp
  ultimately show ?thesis
    using minvD(1,2,4,6,8) [OF inv] by (simp add: minv_def)
qed

lemma minv_read:
  assumes inv: "minv content (c, cl, n)" and j: "j < length cl" "snd (cl ! j) = PDone"
    and r: "fresh_req content c r" and n: "n + 1 < 2 ^ 32"
    and rd: "readBlock pe now c r prio = (c', r', out)"
  shows "minv content (c', cl[j := (r', phase_after out r')], n + 1)"
proof -
  note ok = minvD(1) [OF inv]
  have g: "good_req content c r" and fr: "r_originating r \<noteq> c_level c" "reserved r (c_level c) = 0" "\<not> r_ready r"
    using r by (simp_all add: fresh_req_def)
  then obtain fe where known: "c_fileMap c (r_fileIndex r) = Some fe"
    and sz: "r_size r \<noteq> 0" "r_size r \<le> c_blockSize c"
    by (auto simp: good_req_def)
  have nos: "slot_of (snd (cl ! j)) = None" "\<And>p. snd (cl ! j) \<noteq> PFetch p" using j(2) by simp_all
  note new = users_new [OF inv j(1) nos(1) _ _ n]
  from ok known sz show ?thesis
  proof (cases rule: readBlock_cases [where pe = pe and now = now and prio = prio])
    case (hit k b)
    have us: "used (c_blkIndex c ! k)" "used b" using hit(4,7) by (simp_all add: used_def)
    have key: "e_fileIndex b = e_fileIndex (c_blkIndex c ! k)" "e_blockIndex b = e_blockIndex (c_blkIndex c ! k)"
      using hit(3,6) by (simp_all add: sameBlk_def)
    have e: "c' = set_entry c k b" "r' = hit_request c k (reserve (c_level c) r)" "out = ReadHit"
      using rd hit(1) by simp_all
    show ?thesis unfolding e
    proof (rule minv_update [OF inv j(1) _ _ _ hit(2)])
      show "table_ok (set_entry c k b)"
        using set_entry_ok [OF ok slot_for_present [OF ok hit(2) us(1) hit(3)] hit(5,6) us(2)] hit(7,8) minvD(2) [OF inv]
        by simp
      show "slot_data content (set_entry c k b) k"
        by (rule slot_data_keep [OF minvD(6) [OF inv hit(2,4)] hit(2) key])
      show "client_ok content (set_entry c k b) (hit_request c k (reserve (c_level c) r),
          phase_after ReadHit (hit_request c k (reserve (c_level c) r)))"
        using g hit us minvD(2) [OF inv]
        by (simp add: client_ok_def phase_after_def hit_request_def good_req_def holds_slot_def)
    qed (use key us hit(7) new [OF hit(2,9)] nos in \<open>auto simp: phase_after_def hit_request_def filling_def\<close>)
  next
    case (reserve k b x y)
    have us: "used b" using reserve(7) by (simp add: used_def)
    have cnt0: "e_activeCnt (c_blkIndex c ! k) = 0" by (rule free_slot_count [OF inv reserve(2,4)])
    have e: "c' = set_entry (counted c x y) k b" "r' = BoundedCache.reserve (c_level c) r" "out = ReadNext (Some k)"
      using rd reserve(1) by simp_all
    have st: "e_status b \<noteq> BLK_AVAIL" "e_status b \<noteq> BLK_WR" "e_status b \<noteq> BLK_EVICT"
      using reserve(7) by (simp_all split: if_splits)
    show ?thesis unfolding e
    proof (rule minv_update [OF inv j(1) _ _ _ reserve(2)])
      show "table_ok (set_entry (counted c x y) k b)"
        by (rule set_entry_ok [OF same_table_ok [OF counted_same ok] slot_for_same [OF counted_same reserve(3)]])
          (use reserve(5,6) us st in simp_all)
      show "client_ok content (set_entry (counted c x y) k b)
          (BoundedCache.reserve (c_level c) r, phase_after (ReadNext (Some k)) (BoundedCache.reserve (c_level c) r))"
        using g fr reserve(2,6) us
        by (simp add: client_ok_def phase_after_def good_req_def holds_slot_def elsewhere_def)
      show "\<exists>i < length cl. snd (cl[j := (BoundedCache.reserve (c_level c) r,
          phase_after (ReadNext (Some k)) (BoundedCache.reserve (c_level c) r))] ! i) = PFetch k"
        using j(1) by (intro exI [of _ j]) (simp add: phase_after_def)
    qed (use cnt0 us st new [OF reserve(2,9)] nos in \<open>auto simp: phase_after_def\<close>)
  next
    case (wait k)
    let ?b = "incBlkCnt (c_blkIndex c ! k)"
    have us: "used (c_blkIndex c ! k)" "used ?b" using wait(4) by (auto simp: used_def incBlkCnt_def)
    have b: "e_id ?b = e_id (c_blkIndex c ! k)" "e_status ?b = e_status (c_blkIndex c ! k)"
        "e_fileIndex ?b = e_fileIndex (c_blkIndex c ! k)" "e_blockIndex ?b = e_blockIndex (c_blkIndex c ! k)"
        "e_activeCnt ?b = e_activeCnt (c_blkIndex c ! k) + 1" "e_origCache ?b = e_origCache (c_blkIndex c ! k)"
      by (simp_all add: incBlkCnt_def)
    have same: "sameBlk ?b (r_blkIndex r) (r_fileIndex r)" using wait(3) b by (simp add: sameBlk_def)
    have st: "e_status (c_blkIndex c ! k) \<noteq> BLK_AVAIL" "e_status (c_blkIndex c ! k) \<noteq> BLK_WR"
        "e_status (c_blkIndex c ! k) \<noteq> BLK_EVICT" "filling (c_blkIndex c ! k)"
      using wait(4) by (auto simp: filling_def)
    have e: "c' = set_entry c k ?b" "r' = BoundedCache.reserve (c_level c) r" "out = ReadWait k"
      using rd wait(1) by simp_all
    obtain i where i: "i < length cl" "snd (cl ! i) = PFetch k" using minvD(7) [OF inv wait(2) st(4)] by blast
    then have "i \<noteq> j" using nos(2) by auto
    with i have i': "\<exists>i < length cl. snd (cl[j := x] ! i) = PFetch k" for x
      by (intro exI [of _ i]) simp
    show ?thesis unfolding e
    proof (rule minv_update [where b = "?b", OF inv j(1) _ _ _ wait(2)])
      show "table_ok (set_entry c k ?b)"
        using set_entry_ok [OF ok slot_for_present [OF ok wait(2) us(1) wait(3)] b(1) same us(2)] b st by simp
      show "client_ok content (set_entry c k ?b)
          (BoundedCache.reserve (c_level c) r, phase_after (ReadWait k) (BoundedCache.reserve (c_level c) r))"
        using g fr wait(2) same us
        by (simp add: client_ok_def phase_after_def good_req_def holds_slot_def elsewhere_def)
    qed (use b us st new [OF wait(2) b(5)] nos i' in \<open>auto simp: phase_after_def\<close>)
  next
    case full
    then have e: "c' = c" "r' = r" "out = ReadNext None" using rd by simp_all
    show ?thesis unfolding e
      by (rule minv_client [OF inv j(1)])
        (use g fr j(2) in \<open>auto simp: phase_after_def client_ok_def elsewhere_def\<close>)
  qed
qed

text \<open>Storing the block of a request in its slot.\<close>

lemma minv_store:
  assumes inv: "minv content (c, cl, n)" and j: "j < length cl" and n: "n + 1 < 2 ^ 32"
    and g: "good_req content c r"
    and slot: "slot_for c (r_fileIndex r) (r_blkIndex r) k"
    and set: "setBlockData c (content (r_fileIndex r) (r_blkIndex r)) (e_id (c_blkIndex c ! k)) (r_size r)
      = Some (c\<lparr>c_blocks := bs\<rparr>)"
    and old: "\<not> used (c_blkIndex c ! k) \<or> evictable (c_blkIndex c ! k) \<or>
      filling (c_blkIndex c ! k) \<and> sameBlk (c_blkIndex c ! k) (r_blkIndex r) (r_fileIndex r)"
    and b: "e_id b = e_id (c_blkIndex c ! k)" "sameBlk b (r_blkIndex r) (r_fileIndex r)"
      "e_status b = BLK_AVAIL" "e_origCache b = r_origType r"
      "e_activeCnt b = e_activeCnt (c_blkIndex c ! k) + of_bool t"
    and here: "\<And>p. slot_of (snd (cl ! j)) = Some p \<Longrightarrow> p = k"
  shows "minv content (set_entry ((counted c x y)\<lparr>c_blocks := bs\<rparr>) k b, cl[j := (r, PDone)], n + 1)"
proof -
  let ?d = "set_entry ((counted c x y)\<lparr>c_blocks := bs\<rparr>) k b"
  let ?ct = "content (r_fileIndex r) (r_blkIndex r)"
  note ok = minvD(1) [OF inv]
  note sh = table_ok_shape [OF ok]
  have k: "k < length (c_blkIndex c)" using slot by (simp add: slot_for_def)
  have sz: "r_size r \<le> c_blockSize c" "unat (r_size r) \<le> length ?ct" "unat (r_size r) = length ?ct"
    using g by (simp_all add: good_req_def)
  have us: "used b" using b(3) by (simp add: used_def)
  note eff = setBlockData_D [OF sh k sz(1,2) set]
  have st: "same_table c ((counted c x y)\<lparr>c_blocks := bs\<rparr>)"
    using eff(1) by (simp add: same_table_def counted_def)
  have tab: "table_ok ?d"
    by (rule set_entry_ok [OF same_table_ok [OF st ok] slot_for_same [OF st slot]])
      (use b us g in \<open>simp_all add: good_req_def\<close>)
  have "shape ((counted c x y)\<lparr>c_blocks := bs\<rparr>)"
    by (rule table_ok_shape [OF same_table_ok [OF st ok]])
  from eff(2) [OF _ _ _ this] have "getBlockData ((counted c x y)\<lparr>c_blocks := bs\<rparr>) k (length ?ct) = Some ?ct"
    by (simp add: sz(3))
  then have dat: "slot_data content ?d k"
    using k b(2) sz(1,3) by (simp add: slot_data_def sameBlk_def word_le_nat_alt)
  have oth': "getBlockData ?d p m = getBlockData c p m"
    if p: "p < length (c_blkIndex c)" "p \<noteq> k" "m \<le> unat (c_blockSize c)" for p m
    using eff(3) [OF p] getBlockData_eq [OF sh p(1)] block_addr(1) [OF sh p(1)]
    by (simp add: getBlockData_def)
  have cnt: "unat (e_activeCnt b) = unat (e_activeCnt (c_blkIndex c ! k)) + of_bool t"
    using b(5) inc_no_wrap [OF minvD(5) [OF inv k] n] by (cases t) simp_all
  have fil: "snd (cl ! j) \<noteq> PFetch p" if "p \<noteq> k" for p using here [of p] that by auto
  have key: "e_fileIndex b = e_fileIndex (c_blkIndex c ! k) \<and>
      e_blockIndex b = e_blockIndex (c_blkIndex c ! k) \<and>
      (e_status (c_blkIndex c ! k) = BLK_AVAIL \<longrightarrow> e_status b = BLK_AVAIL)"
    if "e_activeCnt (c_blkIndex c ! k) \<noteq> 0"
    using free_slot_count [OF inv k] that old b(2,3) by (auto simp: sameBlk_def)
  show ?thesis
  proof (rule minv_update [where b = b, OF inv j tab _ _ k key us dat oth'])
    show "users (cl[j := (r, PDone)]) k \<le> unat (e_activeCnt b)"
      using users_update [OF j, of "(r, PDone)" k] minvD(4) [OF inv k] cnt by simp
    show "unat (e_activeCnt b) \<le> n + 1" using cnt minvD(5) [OF inv k] by simp
  qed (use b(3) fil in \<open>simp_all add: client_ok_def filling_def\<close>)
qed

text \<open>Touching an available block.\<close>

lemma minv_touch:
  assumes inv: "minv content (c, cl, n)" and j: "j < length cl" and n: "n + 1 < 2 ^ 32"
    and k: "k < length (c_blkIndex c)" "sameBlk (c_blkIndex c ! k) i f" "e_status (c_blkIndex c ! k) = BLK_AVAIL"
    and b: "e_id b = e_id (c_blkIndex c ! k)" "sameBlk b i f" "e_status b = BLK_AVAIL" "e_origCache b \<noteq> Empty"
    and cnt: "users (cl[j := (r, PDone)]) k \<le> unat (e_activeCnt b)" "unat (e_activeCnt b) \<le> n + 1"
    and here: "\<And>p. slot_of (snd (cl ! j)) = Some p \<Longrightarrow> p = k"
  shows "minv content (set_entry c k b, cl[j := (r, PDone)], n + 1)"
proof -
  note ok = minvD(1) [OF inv]
  have us: "used (c_blkIndex c ! k)" "used b" using k(3) b(3) by (simp_all add: used_def)
  have key: "e_fileIndex b = e_fileIndex (c_blkIndex c ! k)" "e_blockIndex b = e_blockIndex (c_blkIndex c ! k)"
    using k(2) b(2) by (simp_all add: sameBlk_def)
  have fil: "snd (cl ! j) \<noteq> PFetch p" if "p \<noteq> k" for p using here [of p] that by auto
  show ?thesis
  proof (rule minv_update [where b = b, OF inv j _ _ _ k(1)])
    show "table_ok (set_entry c k b)"
      by (rule set_entry_ok [OF ok slot_for_present [OF ok k(1) us(1) k(2)] b(1,2) us(2)]) (use b in simp_all)
    show "slot_data content (set_entry c k b) k"
      by (rule slot_data_keep [OF minvD(6) [OF inv k(1,3)] k(1) key])
  qed (use key us b(3) cnt fil in \<open>simp_all add: client_ok_def filling_def\<close>)
qed

lemma users_after:
  "j < length cl \<Longrightarrow> users (cl[j := (r, PDone)]) k + of_bool (slot_of (snd (cl ! j)) = Some k) = users cl k"
  using users_update [of j cl "(r, PDone)" k] by simp

lemma client_okD:
  assumes "client_ok content c (r, ph)" "ph \<noteq> PDone"
  shows "good_req content c r" "slot_of ph = Some k \<Longrightarrow> holds_slot c r k"
    "slot_of ph = None \<Longrightarrow> reserved r (c_level c) = 0"
    "(\<forall>k. ph \<noteq> PHit k) \<Longrightarrow> elsewhere content c r"
  using assms by (cases ph; simp add: client_ok_def)+

lemma write_hit:
  assumes inv: "minv content (c, cl, n)" and j: "j < length cl" "cl ! j = (r, PHit k)"
  shows "writeBlock pe now c r src = (set_entry c k (fst (decBlkCnt (c_blkIndex c ! k))), WriteDone True)"
    "e_activeCnt (c_blkIndex c ! k) \<noteq> 0"
proof -
  have x: "good_req content c r" "holds_slot c r k" "e_status (c_blkIndex c ! k) = BLK_AVAIL"
      "r_originating r = c_level c"
    using minvD(3) [OF inv j(1)] j(2) by (simp_all add: client_ok_def)
  then have k: "k < length (c_blkIndex c)" by (simp add: holds_slot_def)
  have "0 < users cl k" using users_pos [OF j(1), of k] j(2) by simp
  then show cnt: "e_activeCnt (c_blkIndex c ! k) \<noteq> 0" using minvD(4) [OF inv k] by auto
  show "writeBlock pe now c r src = (set_entry c k (fst (decBlkCnt (c_blkIndex c ! k))), WriteDone True)"
    by (rule writeBlock_originating [OF minvD(1) [OF inv] _ x(4) _ k _ x(3) cnt])
      (use x(1,2) in \<open>simp_all add: good_req_def holds_slot_def\<close>)
qed

lemma minv_write_hit:
  assumes inv: "minv content (c, cl, n)" and j: "j < length cl" "cl ! j = (r, PHit k)" and n: "n + 1 < 2 ^ 32"
  shows "minv content (set_entry c k (fst (decBlkCnt (c_blkIndex c ! k))), cl[j := (r, PDone)], n + 1)"
proof -
  let ?e = "c_blkIndex c ! k"
  have x: "holds_slot c r k" "e_status ?e = BLK_AVAIL"
    using minvD(3) [OF inv j(1)] j(2) by (simp_all add: client_ok_def)
  then have k: "k < length (c_blkIndex c)" "sameBlk ?e (r_blkIndex r) (r_fileIndex r)"
    by (simp_all add: holds_slot_def)
  have "1 \<le> e_activeCnt ?e" using write_hit(2) [OF inv j] by (simp add: word_le_nat_alt Suc_le_eq unat_gt_0)
  then have cnt: "unat (e_activeCnt ?e - 1) = unat (e_activeCnt ?e) - 1" by (simp add: unat_diff_le)
  have us: "users (cl[j := (r, PDone)]) k + 1 = users cl k" using users_after [OF j(1), of r k] j(2) by simp
  show ?thesis
  proof (rule minv_touch [OF inv j(1) n k x(2)])
    show "users (cl[j := (r, PDone)]) k \<le> unat (e_activeCnt (fst (decBlkCnt ?e)))"
      using us cnt minvD(4) [OF inv k(1)] by (simp add: decBlkCnt_def)
    show "unat (e_activeCnt (fst (decBlkCnt ?e))) \<le> n + 1"
      using cnt minvD(5) [OF inv k(1)] by (simp add: decBlkCnt_def)
  qed (use j(2) k x(2) table_okD(5) [OF minvD(1) [OF inv] k(1) x(2)]
      in \<open>simp_all add: decBlkCnt_def sameBlk_def\<close>)
qed

lemma minv_write_elsewhere:
  assumes inv: "minv content (c, cl, n)" and j: "j < length cl" "cl ! j = (r, ph)" and ph: "ph \<noteq> PDone"
    and away: "\<forall>k. ph \<noteq> PHit k" and ready: "r_ready r" and n: "n + 1 < 2 ^ 32"
    and wr: "writeBlock pe now c r (req_bytes c r) = (c', out)"
  shows "minv content (c', cl[j := (r, PDone)], n + 1) \<and> (\<exists>ret. out = WriteNext ret)"
proof -
  let ?ct = "content (r_fileIndex r) (r_blkIndex r)"
  note ok = minvD(1) [OF inv]
  have x: "client_ok content c (r, ph)" using minvD(3) [OF inv j(1)] j(2) by simp
  note g = client_okD(1) [OF x ph] and ew = client_okD(4) [OF x ph away]
  have src: "req_bytes c r = ?ct" using ew ready by (simp add: elsewhere_def req_bytes_def)
  have orig: "r_originating r \<noteq> c_level c" "r_origType r \<noteq> Empty" and known: "c_fileMap c (r_fileIndex r) \<noteq> None"
    and sz: "r_size r \<le> c_blockSize c" "unat (r_size r) \<le> length (req_bytes c r)"
    using ew g src by (simp_all add: elsewhere_def good_req_def)
  have here: "p = k"
    if "slot_of (snd (cl ! j)) = Some p" "k < length (c_blkIndex c)" "used (c_blkIndex c ! k)"
      "sameBlk (c_blkIndex c ! k) (r_blkIndex r) (r_fileIndex r)" for p k
  proof -
    have "holds_slot c r p" using client_okD(2) [OF x ph, of p] that(1) j(2) by simp
    then show ?thesis
      using table_ok_uniq [OF ok that(2) _ that(3) _ that(4), of p] by (simp add: holds_slot_def)
  qed
  have nohere: "slot_of (snd (cl ! j)) = None"
    if "\<And>p. p < length (c_blkIndex c) \<Longrightarrow> used (c_blkIndex c ! p) \<Longrightarrow>
         \<not> sameBlk (c_blkIndex c ! p) (r_blkIndex r) (r_fileIndex r)"
  proof (rule ccontr)
    assume "slot_of (snd (cl ! j)) \<noteq> None"
    then obtain p where "slot_of ph = Some p" using j(2) by auto
    from client_okD(2) [OF x ph this] that [of p] show False by (simp add: holds_slot_def)
  qed
  have gone: "minv content (c, cl[j := (r, PDone)], n + 1)" if "slot_of (snd (cl ! j)) = None"
    by (rule minv_client [OF inv j(1)]) (use that in \<open>auto simp: client_ok_def\<close>)
  show ?thesis
  proof (cases "0 < reserved r (c_level c) \<or> \<not> c_terminating c")
    case False
    then have r0: "reserved r (c_level c) = 0" by (simp add: word_gt_0)
    then have "slot_of (snd (cl ! j)) = None"
      using client_okD(2) [OF x ph] j(2) by (cases "slot_of ph") (auto simp: holds_slot_def)
    moreover have "c' = c" "out = WriteNext False"
      using wr False orig(1) by (simp_all add: writeBlock_def Let_def)
    ultimately show ?thesis using gone by blast
  next
    case True
    from ok known orig True sz show ?thesis
    proof (cases rule: writeBlock_cases [where pe = pe and now = now])
      case (fill k b bs)
      have us: "used (c_blkIndex c ! k)" "filling (c_blkIndex c ! k)"
        using fill(5) by (auto simp: used_def filling_def)
      have "minv content (set_entry ((counted c (c_collisions c) (c_prefetchCollisions c))\<lparr>c_blocks := bs\<rparr>) k b,
          cl[j := (r, PDone)], n + 1)"
      proof (rule minv_store [OF inv j(1) n g slot_for_present [OF ok fill(3) us(1) fill(4)]
              fill(2) [unfolded src] _ fill(6-10)])
        show "\<not> used (c_blkIndex c ! k) \<or> evictable (c_blkIndex c ! k) \<or>
            filling (c_blkIndex c ! k) \<and> sameBlk (c_blkIndex c ! k) (r_blkIndex r) (r_fileIndex r)"
          using us(2) fill(4) by simp
      qed (rule here [OF _ fill(3) us(1) fill(4)])
      then show ?thesis using wr fill(1) by (auto simp: counted_self)
    next
      case (touch k b)
      have us: "used (c_blkIndex c ! k)" using touch(4) by (simp add: used_def)
      have cnt: "unat (e_activeCnt b)
          = unat (e_activeCnt (c_blkIndex c ! k)) + of_bool (0 < reserved r (c_level c))"
        using touch(9) inc_no_wrap [OF minvD(5) [OF inv touch(2)] n]
        by (cases "0 < reserved r (c_level c)") simp_all
      have "minv content (set_entry c k b, cl[j := (r, PDone)], n + 1)"
      proof (rule minv_touch [OF inv j(1) n touch(2,3,4,5,6,7)])
        show "users (cl[j := (r, PDone)]) k \<le> unat (e_activeCnt b)"
          using cnt users_after [OF j(1), of r k] minvD(4) [OF inv touch(2)] by simp
        show "unat (e_activeCnt b) \<le> n + 1" using cnt minvD(5) [OF inv touch(2)] by simp
        show "e_origCache b \<noteq> Empty" using touch(8) orig(2) by simp
      qed (rule here [OF _ touch(2) us touch(3)])
      then show ?thesis using wr touch(1) by auto
    next
      case (fresh k b bs x y)
      have "minv content (set_entry ((counted c x y)\<lparr>c_blocks := bs\<rparr>) k b, cl[j := (r, PDone)], n + 1)"
      proof (rule minv_store [OF inv j(1) n g fresh(4) fresh(2) [unfolded src] _ fresh(7-11)])
        show "\<not> used (c_blkIndex c ! k) \<or> evictable (c_blkIndex c ! k) \<or>
            filling (c_blkIndex c ! k) \<and> sameBlk (c_blkIndex c ! k) (r_blkIndex r) (r_fileIndex r)"
          using fresh(5) by blast
        show "p = k" if "slot_of (snd (cl ! j)) = Some p" for p
          using that nohere [OF fresh(6)] by simp
      qed
      then show ?thesis using wr fresh(1) by auto
    next
      case full
      then show ?thesis using wr gone [OF nohere [OF full(2)]] by auto
    qed
  qed
qed

lemma minv_same_blocks:
  assumes inv: "minv content (c, cl, n)" and d: "table_ok d" "frame c d" "c_blkIndex d = c_blkIndex c"
    "c_blocks d = c_blocks c"
  shows "minv content (d, cl, n)"
proof -
  have "slot_data content d k" if "slot_data content c k" for k
    using that d(2-4) by (simp add: slot_data_def frame_def getBlockData_def)
  moreover have "client_ok content d (cl ! j)" if "j < length cl" for j
    by (rule client_ok_frame [OF minvD(3) [OF inv that] d(2)]) (simp_all add: d(3))
  ultimately show ?thesis
    using minvD [OF inv] d by (simp add: minv_def frame_def)
qed

lemma minv_step:
  assumes "cstep pe content s t" "minv content s" "snd (snd t) < 2 ^ 32"
  shows "minv content t"
  using assms
proof (cases rule: cstep.cases)
  case (Read j cl c r now prio c' r' out n)
  then show ?thesis using minv_read assms(2,3) by simp
next
  case (Bypass j cl c r n)
  then show ?thesis
    using minv_client [of content c cl n j "(r, PFree)" n] assms(2)
    by (simp add: fresh_req_def client_ok_def elsewhere_def)
next
  case (Arrive j cl r ph k orig c ty n)
  let ?r = "deliver content orig ty r"
  have x: "client_ok content c (r, ph)" using minvD(3) [of content c cl n j] Arrive assms(2) by simp
  have "client_ok content c (?r, ph)"
    using x Arrive(5,7,8)
    by (auto simp: client_ok_def deliver_def good_req_def holds_slot_def elsewhere_def)
  then show ?thesis
    using minv_client [of content c cl n j "(?r, ph)" n] assms(2) Arrive by simp
next
  case (WaitDone j cl r k c r' n)
  have x: "client_ok content c (r, PWait k)" using minvD(3) [of content c cl n j] WaitDone assms(2) by simp
  have r': "e_status (c_blkIndex c ! k) = BLK_AVAIL"
      "r' = (hit_request c k r)\<lparr>r_waitingCache := e_origCache (c_blkIndex c ! k)\<rparr>"
    using WaitDone(6) by (simp_all add: wait_available_def blockAvailable_def Let_def split: if_splits)
  have "client_ok content c (r', PHit k)"
    using x r' minvD(2) [of content c cl n] assms(2) WaitDone(1)
    by (simp add: client_ok_def good_req_def holds_slot_def hit_request_def)
  then show ?thesis
    using minv_client [of content c cl n j "(r', PHit k)" n] assms(2) WaitDone by simp
next
  case (Write j cl r ph now c c' out n)
  show ?thesis
  proof (cases "\<exists>k. ph = PHit k")
    case True
    then obtain k where "ph = PHit k" by blast
    then show ?thesis
      using minv_write_hit [of content c cl n j r k] write_hit(1) [of content c cl n j r k] Write assms(2,3)
      by simp
  next
    case False
    then show ?thesis
      using minv_write_elsewhere [of content c cl n j r ph pe now c' out] Write assms(2,3) by simp
  qed
next
  case (AddFile c cl n XXH32 f nm bs fs)
  then show ?thesis
    using minv_same_blocks [of content c cl n "addFile XXH32 c f nm bs fs"] assms(2)
      addFile_ok [OF minvD(1) [of content c cl n]]
    by (auto simp: addFile_def frame_def)
next
  case (Terminate c cl n)
  have "same_table c (c\<lparr>c_terminating := True\<rparr>)" by (simp add: same_table_def)
  from same_table_ok [OF this] show ?thesis
    using Terminate minv_same_blocks [of content c cl n "c\<lparr>c_terminating := True\<rparr>"] assms(2)
      minvD(1) [of content c cl n] by (simp add: frame_def)
qed

lemma cstep_mono: "cstep pe content s t \<Longrightarrow> snd (snd s) \<le> snd (snd t)"
  by (induction rule: cstep.induct) simp_all

lemma csteps_mono: "(cstep pe content)\<^sup>*\<^sup>* s t \<Longrightarrow> snd (snd s) \<le> snd (snd t)"
  by (induction rule: rtranclp_induct) (use cstep_mono in \<open>auto intro: order.trans\<close>)

lemma minv_steps:
  "(cstep pe content)\<^sup>*\<^sup>* s t \<Longrightarrow> minv content s \<Longrightarrow> snd (snd t) < 2 ^ 32 \<Longrightarrow> minv content t"
proof (induction rule: rtranclp_induct)
  case (step t u)
  then show ?case using minv_step cstep_mono [OF step.hyps(2)] by (meson le_less_trans)
qed

text \<open>A new cache and \<open>N\<close> idle requests.\<close>

definition cache_start :: "bcache \<Rightarrow> nat \<Rightarrow> mstate" where
  "cache_start c N = (c, replicate N (new_request 0 Base 0 0 0, PDone), 0)"

lemma minv_start:
  assumes "NewMemoryCache level nm ty cs bs a = Some c" "ty \<noteq> Empty"
  shows "minv content (cache_start c N)"
proof -
  have new: "table_ok c" "k < length (c_blkIndex c) \<Longrightarrow> e_status (c_blkIndex c ! k) = BLK_EMPTY \<and>
      e_activeCnt (c_blkIndex c ! k) = 0" for k
    using NewMemoryCache_table [OF assms(1)] by auto
  then show ?thesis
    using NewMemoryCache_Some(2) [OF assms(1)] assms(2)
    by (simp add: minv_def cache_start_def client_ok_def users_def filling_def used_def)
qed

definition reaches :: "bool \<Rightarrow> content \<Rightarrow> bcache \<Rightarrow> nat \<Rightarrow> mstate \<Rightarrow> bool" where
  "reaches pe content c0 N s \<longleftrightarrow>
     (\<exists>level nm ty cs bs a. NewMemoryCache level nm ty cs bs a = Some c0 \<and> ty \<noteq> Empty) \<and>
     (cstep pe content)\<^sup>*\<^sup>* (cache_start c0 N) s \<and> snd (snd s) < 2 ^ 32"

lemma reaches_minv: "reaches pe content c0 N s \<Longrightarrow> minv content s"
  unfolding reaches_def by (elim conjE exE) (rule minv_steps [OF _ minv_start])

subsection \<open>Runs that can be computed\<close>

datatype event =
    ERead nat request u64 u64 | EArrive nat | EWaitDone nat | EWrite nat u64
  | EAddFile u32 string u64 u64

text \<open>One step chosen by an event, if its guard holds; data arrive from level 9.\<close>

fun exec1 :: "bool \<Rightarrow> content \<Rightarrow> event \<Rightarrow> mstate \<Rightarrow> mstate option" where
  "exec1 pe content (ERead j r prio now) (c, cl, n) =
     (if j < length cl \<and> snd (cl ! j) = PDone \<and> fresh_req content c r
      then let (c', r', out) = readBlock pe now c r prio
           in Some (c', cl[j := (r', phase_after out r')], n + 1)
      else None)"
| "exec1 pe content (EArrive j) (c, cl, n) =
     (if j < length cl \<and> \<not> r_ready (fst (cl ! j)) \<and> c_level c \<noteq> 9 \<and>
         (case snd (cl ! j) of PFree \<Rightarrow> True | PFetch _ \<Rightarrow> True | PWait _ \<Rightarrow> True | _ \<Rightarrow> False)
      then Some (c, cl[j := (deliver content 9 Network (fst (cl ! j)), snd (cl ! j))], n)
      else None)"
| "exec1 pe content (EWaitDone j) (c, cl, n) =
     (if j < length cl \<and> \<not> r_ready (fst (cl ! j))
      then case snd (cl ! j) of
          PWait k \<Rightarrow>
            (case wait_available c k (fst (cl ! j)) of
               Some r' \<Rightarrow> Some (c, cl[j := (r', PHit k)], n)
             | None \<Rightarrow> None)
        | _ \<Rightarrow> None
      else None)"
| "exec1 pe content (EWrite j now) (c, cl, n) =
     (if j < length cl \<and> snd (cl ! j) \<noteq> PDone \<and> r_ready (fst (cl ! j))
      then Some (fst (writeBlock pe now c (fst (cl ! j)) (req_bytes c (fst (cl ! j)))),
                 cl[j := (fst (cl ! j), PDone)], n + 1)
      else None)"
| "exec1 pe content (EAddFile f nm bs fs) (c, cl, n) =
     Some (addFile (\<lambda>_. 0) c f nm bs fs, cl, n)"

fun exec :: "bool \<Rightarrow> content \<Rightarrow> event list \<Rightarrow> mstate \<Rightarrow> mstate option" where
  "exec pe content [] s = Some s"
| "exec pe content (e # es) s =
     (case exec1 pe content e s of None \<Rightarrow> None | Some t \<Rightarrow> exec pe content es t)"

lemma exec1_cstep: "exec1 pe content e s = Some t \<Longrightarrow> cstep pe content s t"
proof (induction pe content e s rule: exec1.induct)
  case (1 pe content j r prio now c cl n)
  obtain c' r' out where rd: "readBlock pe now c r prio = (c', r', out)" by (metis prod_cases3)
  have g: "j < length cl" "snd (cl ! j) = PDone" "fresh_req content c r"
      and t: "t = (c', cl[j := (r', phase_after out r')], n + 1)"
    using 1 rd by (auto split: if_splits)
  show ?case unfolding t by (rule cstep.Read [OF g rd])
next
  case (2 pe content j c cl n)
  obtain r ph where x: "cl ! j = (r, ph)" by fastforce
  have g: "j < length cl" "\<not> r_ready r" "9 \<noteq> c_level c"
      and t: "t = (c, cl[j := (deliver content 9 Network r, ph)], n)"
      and p: "ph = PFree \<or> (\<exists>k. ph = PFetch k \<or> ph = PWait k)"
    using 2 x by (auto split: if_splits phase.splits)
  then obtain k where "ph = PFree \<or> ph = PFetch k \<or> ph = PWait k" by blast
  then show ?case unfolding t using cstep.Arrive [OF g(1) x _ g(2,3)] by blast
next
  case (3 pe content j c cl n)
  obtain r ph where x: "cl ! j = (r, ph)" by fastforce
  then show ?case
    using 3 by (auto intro!: cstep.WaitDone split: if_splits phase.splits option.splits)
next
  case (4 pe content j now c cl n)
  obtain r ph where x: "cl ! j = (r, ph)" by fastforce
  obtain c' out where w: "writeBlock pe now c r (req_bytes c r) = (c', out)" by fastforce
  have g: "j < length cl" "ph \<noteq> PDone" "r_ready r" and t: "t = (c', cl[j := (r, PDone)], n + 1)"
    using 4 x w by (auto split: if_splits)
  show ?case unfolding t by (rule cstep.Write [OF g(1) x g(2,3) w])
next
  case (5 pe content f nm bs fs c cl n)
  then show ?case by (auto intro: cstep.AddFile)
qed

lemma exec_csteps: "exec pe content es s = Some t \<Longrightarrow> (cstep pe content)\<^sup>*\<^sup>* s t"
proof (induction es arbitrary: s)
  case (Cons e es)
  then obtain u where u: "exec1 pe content e s = Some u" "exec pe content es u = Some t"
    by (auto split: option.splits)
  show ?case by (rule converse_rtranclp_into_rtranclp [OF exec1_cstep [OF u(1)] Cons.IH [OF u(2)]])
qed simp

text \<open>
  An example: a cache of two blocks; request 0 misses and fetches a block, request 1 waits
  for it, request 0 brings it back and request 1 gets it; request 2 misses another block.
\<close>

definition demo_content :: content where
  "demo_content f i = [ucast f, ucast i]"

definition demo_cache :: bcache where
  "demo_cache = the (NewMemoryCache 1 ''m'' PrivateMemory 4 2 0)"

definition demo_events :: "event list" where
  "demo_events = [EAddFile 1 ''f'' 2 100, ERead 0 (new_request 0 Base 5 1 2) 0 10,
     ERead 1 (new_request 0 Base 5 1 2) 0 11, EArrive 0, EWrite 0 12, EWaitDone 1,
     ERead 2 (new_request 0 Base 6 1 2) 0 13]"

definition demo_state :: mstate where
  "demo_state = the (exec False demo_content demo_events (cache_start demo_cache 3))"

abbreviation (input) demo_c :: bcache where "demo_c \<equiv> fst demo_state"
abbreviation (input) demo_cl :: "client list" where "demo_cl \<equiv> fst (snd demo_state)"
abbreviation (input) demo_r :: request where "demo_r \<equiv> fst (demo_cl ! 1)"

lemma demo_reaches: "reaches False demo_content demo_cache 3 (demo_c, demo_cl, 4)"
proof -
  have c: "NewMemoryCache 1 ''m'' PrivateMemory 4 2 0 = Some demo_cache"
    by (simp add: demo_cache_def NewMemoryCache_def Let_def)
  have "\<not> Option.is_none (exec False demo_content demo_events (cache_start demo_cache 3))"
    by code_simp
  then have "exec False demo_content demo_events (cache_start demo_cache 3) = Some demo_state"
    by (simp add: demo_state_def Option.is_none_def)
  then have "(cstep False demo_content)\<^sup>*\<^sup>* (cache_start demo_cache 3) demo_state"
    by (rule exec_csteps)
  moreover have n: "snd (snd demo_state) = 4" by code_simp
  then have e: "(demo_c, demo_cl, 4) = demo_state" by (simp add: prod_eq_iff)
  ultimately show ?thesis unfolding reaches_def e using c n by fastforce
qed

lemma demo_clients:
  "1 < length demo_cl" "demo_cl ! 1 = (demo_r, PHit 0)" "r_ready demo_r" "r_size demo_r = 2"
  "r_fileIndex demo_r = 1" "r_blkIndex demo_r = 5" "snd (demo_cl ! 2) = PFetch 1"
  "slot_of (snd (demo_cl ! 1)) = Some 0"
proof -
  have "snd (demo_cl ! 1) = PHit 0" by code_simp
  then show "demo_cl ! 1 = (demo_r, PHit 0)" by (simp add: prod_eq_iff)
qed code_simp+

lemma demo_slots:
  "length (c_blkIndex demo_c) = 2" "used (c_blkIndex demo_c ! 0)" "used (c_blkIndex demo_c ! 1)"
  "e_status (c_blkIndex demo_c ! 1) = BLK_RES" "e_fileIndex (c_blkIndex demo_c ! 0) = 1"
  "e_blockIndex (c_blkIndex demo_c ! 0) = 5"
  by code_simp+

subsection \<open>What the cache guarantees\<close>

text \<open>
  C3: whatever the interleaving, a request that was answered by this cache points to the
  content of its block, and keeps doing so until it is written back: the block is neither
  evicted nor overwritten in between.
\<close>

theorem hit_reads_file_content:
  assumes "reaches pe content c0 N (c, cl, n)" and "j < length cl" and "cl ! j = (r, PHit k)"
  shows "r_data r = DBlock (c_level c) k \<and>
    getBlockData c k (unat (r_size r)) = Some (content (r_fileIndex r) (r_blkIndex r))"
proof -
  note inv = reaches_minv [OF assms(1)]
  have x: "good_req content c r" "holds_slot c r k" "e_status (c_blkIndex c ! k) = BLK_AVAIL"
      "r_data r = DBlock (c_level c) k"
    using minvD(3) [OF inv assms(2)] assms(3) by (simp_all add: client_ok_def)
  then show ?thesis
    using minvD(6) [OF inv _ x(3)]
    by (simp add: holds_slot_def sameBlk_def slot_data_def good_req_def Let_def)
qed

theorem hit_reads_file_content_witness: "getBlockData demo_c 0 2 = Some [1, 5]"
  using hit_reads_file_content [OF demo_reaches demo_clients(1,2)] demo_clients(4-6)
  by (simp add: demo_content_def)

text \<open>
  C4: bringing a request back never ends the process (\<open>exit(0)\<close>), never copies outside of a
  buffer and never hands a deleted request on: either the request is done here or it goes
  to the next level.
\<close>

theorem write_back_never_exits:
  assumes r: "reaches pe content c0 N (c, cl, n)" and n: "n + 1 < 2 ^ 32"
    and j: "j < length cl" "cl ! j = (r, ph)" "ph \<noteq> PDone" "r_ready r"
  shows "snd (writeBlock pe now c r (req_bytes c r)) = WriteDone True
    \<or> (\<exists>ret. snd (writeBlock pe now c r (req_bytes c r)) = WriteNext ret)"
proof (cases "\<exists>k. ph = PHit k")
  case True
  then show ?thesis using write_hit(1) [OF reaches_minv [OF r] j(1)] j(2) by auto
next
  case False
  then show ?thesis
    using minv_write_elsewhere [OF reaches_minv [OF r] j(1,2,3) _ j(4) n] by (metis prod.collapse)
qed

theorem write_back_never_exits_witness:
  "snd (writeBlock False 14 demo_c demo_r (req_bytes demo_c demo_r)) \<noteq> WriteExit"
  using write_back_never_exits [OF demo_reaches _ demo_clients(1,2) _ demo_clients(3),
      where now = 14] by auto

text \<open>
  C6: no block is cached twice: two used entries of a cache never name the same block.
\<close>

theorem one_slot_per_block:
  assumes "reaches pe content c0 N (c, cl, n)"
    and "k < length (c_blkIndex c)" "used (c_blkIndex c ! k)"
    and "p < length (c_blkIndex c)" "used (c_blkIndex c ! p)" "p \<noteq> k"
  shows "\<not> sameBlk (c_blkIndex c ! p) (e_blockIndex (c_blkIndex c ! k)) (e_fileIndex (c_blkIndex c ! k))"
  using table_ok_uniq [OF minvD(1) [OF reaches_minv [OF assms(1)]] assms(2,4,3,5)] assms(6)
  by (auto simp: sameBlk_def)

theorem one_slot_per_block_witness: "\<not> sameBlk (c_blkIndex demo_c ! 1) 5 1"
  using one_slot_per_block [OF demo_reaches _ demo_slots(2) _ demo_slots(3)] demo_slots by simp

text \<open>
  C5: reference counting protects a block: the counter of a slot is at least the number of
  requests that refer to it, so the slot of an outstanding request holds its block and
  cannot be chosen for eviction.
\<close>

theorem references_protect_slot:
  assumes "reaches pe content c0 N (c, cl, n)" "j < length cl" "slot_of (snd (cl ! j)) = Some k"
  shows "users cl k \<le> unat (e_activeCnt (c_blkIndex c ! k)) \<and> k < length (c_blkIndex c)
    \<and> sameBlk (c_blkIndex c ! k) (r_blkIndex (fst (cl ! j))) (r_fileIndex (fst (cl ! j)))
    \<and> used (c_blkIndex c ! k) \<and> \<not> evictable (c_blkIndex c ! k)"
proof -
  note inv = reaches_minv [OF assms(1)]
  obtain r ph where x: "cl ! j = (r, ph)" by fastforce
  then have ph: "ph \<noteq> PDone" using assms(3) by auto
  have h: "holds_slot c r k"
    using client_okD(2) [OF _ ph, of content c r k] minvD(3) [OF inv assms(2)] assms(3) x by simp
  then have k: "k < length (c_blkIndex c)" by (simp add: holds_slot_def)
  have "0 < users cl k" using users_pos [OF assms(2,3)] .
  then have "e_activeCnt (c_blkIndex c ! k) \<noteq> 0" using minvD(4) [OF inv k] by auto
  then show ?thesis
    using h minvD(4) [OF inv k] x by (simp add: holds_slot_def evictable_def anyUsers_def)
qed

theorem references_protect_slot_witness: "\<not> evictable (c_blkIndex demo_c ! 0)"
  using references_protect_slot [OF demo_reaches demo_clients(1,8)] by simp



text \<open>
  the loop of \<open>blockAvailable\<close> that waits for the origin of an available block to be set
  ends at once: an available entry always names one.
\<close>

theorem available_block_names_origin:
  assumes "reaches pe content c0 N (c, cl, n)" "k < length (c_blkIndex c)" "fst (blockAvailable c k)"
  shows "snd (blockAvailable c k) \<noteq> Empty"
  using table_okD(5) [OF minvD(1) [OF reaches_minv [OF assms(1)]] assms(2)] assms(3)
  by (simp add: blockAvailable_def Let_def)

theorem available_block_names_origin_witness: "snd (blockAvailable demo_c 0) \<noteq> Empty"
proof -
  have "fst (blockAvailable demo_c 0)" by code_simp
  from available_block_names_origin [OF demo_reaches _ this] show ?thesis using demo_slots(1) by simp
qed

subsection \<open>A missed block is never released\<close>

text \<open>
  A step keeps the block of a slot whose counter is not zero, and never lowers the counter
  by more than the number of requests that let go of the slot.
\<close>

definition slot_kept :: "mstate \<Rightarrow> mstate \<Rightarrow> nat \<Rightarrow> bool" where
  "slot_kept s t k \<longleftrightarrow> (case s of (c, cl, n) \<Rightarrow> case t of (c', cl', m) \<Rightarrow>
     length (c_blkIndex c') = length (c_blkIndex c) \<and>
     users cl' k + unat (e_activeCnt (c_blkIndex c ! k))
       \<le> users cl k + unat (e_activeCnt (c_blkIndex c' ! k)) \<and>
     (e_activeCnt (c_blkIndex c ! k) \<noteq> 0 \<longrightarrow>
        e_fileIndex (c_blkIndex c' ! k) = e_fileIndex (c_blkIndex c ! k) \<and>
        e_blockIndex (c_blkIndex c' ! k) = e_blockIndex (c_blkIndex c ! k) \<and>
        (e_status (c_blkIndex c ! k) = BLK_AVAIL \<longrightarrow> e_status (c_blkIndex c' ! k) = BLK_AVAIL)))"

lemma slot_kept_same:
  "c_blkIndex c' = c_blkIndex c \<Longrightarrow> users cl' k \<le> users cl k \<Longrightarrow> slot_kept (c, cl, n) (c', cl', m) k"
  by (simp add: slot_kept_def)

lemma slot_kept_update:
  assumes "c_blkIndex c' = (c_blkIndex c)[p := b]" "p < length (c_blkIndex c)"
    and "users cl' p + unat (e_activeCnt (c_blkIndex c ! p)) \<le> users cl p + unat (e_activeCnt b)"
    and "\<And>q. q \<noteq> p \<Longrightarrow> users cl' q \<le> users cl q"
    and "e_activeCnt (c_blkIndex c ! p) \<noteq> 0 \<Longrightarrow>
      e_fileIndex b = e_fileIndex (c_blkIndex c ! p) \<and> e_blockIndex b = e_blockIndex (c_blkIndex c ! p) \<and>
      (e_status (c_blkIndex c ! p) = BLK_AVAIL \<longrightarrow> e_status b = BLK_AVAIL)"
  shows "slot_kept (c, cl, n) (c', cl', m) k"
  using assms by (cases "k = p") (auto simp: slot_kept_def)

lemma slot_kept_read:
  assumes inv: "minv content (c, cl, n)" and j: "j < length cl" "snd (cl ! j) = PDone"
    and r: "fresh_req content c r" and n: "n + 1 < 2 ^ 32"
    and rd: "readBlock pe now c r prio = (c', r', out)"
  shows "slot_kept (c, cl, n) (c', cl[j := (r', phase_after out r')], n + 1) k"
proof -
  have g: "good_req content c r" using r by (simp add: fresh_req_def)
  then obtain fe where known: "c_fileMap c (r_fileIndex r) = Some fe"
    and sz: "r_size r \<noteq> 0" "r_size r \<le> c_blockSize c" by (auto simp: good_req_def)
  have us: "users (cl[j := x]) q = users cl q + of_bool (slot_of (snd x) = Some q)" for x q
    using users_update [OF j(1), of x q] j(2) by simp
  have inc: "unat (e_activeCnt (c_blkIndex c ! p) + 1) = unat (e_activeCnt (c_blkIndex c ! p)) + 1"
    if "p < length (c_blkIndex c)" for p
    by (rule inc_no_wrap [OF minvD(5) [OF inv that] n])
  from minvD(1) [OF inv] known sz show ?thesis
  proof (cases rule: readBlock_cases [where pe = pe and now = now and prio = prio])
    case (hit p b)
    then have e: "c' = set_entry c p b" "phase_after out r' = PHit p"
      using rd by (simp_all add: phase_after_def hit_request_def)
    show ?thesis
      by (rule slot_kept_update [where p = p and b = b])
        (use e hit inc [OF hit(2)] us in \<open>auto simp: sameBlk_def\<close>)
  next
    case (reserve p b x y)
    then have e: "c' = set_entry (counted c x y) p b" "phase_after out r' = PFetch p"
      using rd by (simp_all add: phase_after_def)
    show ?thesis
      by (rule slot_kept_update [where p = p and b = b])
        (use e reserve inc [OF reserve(2)] us free_slot_count [OF inv reserve(2,4)] in auto)
  next
    case (wait p)
    then have e: "c' = set_entry c p (incBlkCnt (c_blkIndex c ! p))" "phase_after out r' = PWait p"
      using rd by (simp_all add: phase_after_def)
    show ?thesis
      by (rule slot_kept_update [where p = p and b = "incBlkCnt (c_blkIndex c ! p)"])
        (use e wait inc [OF wait(2)] us in \<open>auto simp: incBlkCnt_def\<close>)
  next
    case full
    then have e: "c' = c" "phase_after out r' = PFree" using rd by (simp_all add: phase_after_def)
    show ?thesis by (rule slot_kept_same) (use e us in simp_all)
  qed
qed

lemma write_effect:
  assumes inv: "minv content (c, cl, n)" and j: "j < length cl" "cl ! j = (r, ph)" and ph: "ph \<noteq> PDone"
    and away: "\<forall>k. ph \<noteq> PHit k" and ready: "r_ready r" and n: "n + 1 < 2 ^ 32"
    and wr: "writeBlock pe now c r (req_bytes c r) = (c', out)"
  obtains "c_blkIndex c' = c_blkIndex c" "slot_of ph = None"
  | p b where "c_blkIndex c' = (c_blkIndex c)[p := b]" "p < length (c_blkIndex c)"
      "sameBlk b (r_blkIndex r) (r_fileIndex r)" "e_status b = BLK_AVAIL"
      "unat (e_activeCnt (c_blkIndex c ! p)) \<le> unat (e_activeCnt b)"
      "e_activeCnt (c_blkIndex c ! p) \<noteq> 0 \<Longrightarrow> sameBlk (c_blkIndex c ! p) (r_blkIndex r) (r_fileIndex r)"
      "\<And>q. slot_of ph = Some q \<Longrightarrow> q = p"
proof -
  note ok = minvD(1) [OF inv]
  have x: "client_ok content c (r, ph)" using minvD(3) [OF inv j(1)] j(2) by simp
  note g = client_okD(1) [OF x ph] and ew = client_okD(4) [OF x ph away]
  have orig: "r_originating r \<noteq> c_level c" "r_origType r \<noteq> Empty" and known: "c_fileMap c (r_fileIndex r) \<noteq> None"
    and sz: "r_size r \<le> c_blockSize c" "unat (r_size r) \<le> length (req_bytes c r)"
    using ew g ready by (simp_all add: elsewhere_def good_req_def req_bytes_def)
  have hold: "holds_slot c r q" if "slot_of ph = Some q" for q by (rule client_okD(2) [OF x ph that])
  have here: "q = p"
    if q: "slot_of ph = Some q" and p: "p < length (c_blkIndex c)" "used (c_blkIndex c ! p)"
      "sameBlk (c_blkIndex c ! p) (r_blkIndex r) (r_fileIndex r)" for p q
    using table_ok_uniq [OF ok p(1) _ p(2) _ p(3), of q] hold [OF q] by (simp add: holds_slot_def)
  have inc: "unat (e_activeCnt (c_blkIndex c ! p)) \<le> unat (e_activeCnt (c_blkIndex c ! p) + of_bool t)"
    if "p < length (c_blkIndex c)" for p t
    using inc_no_wrap [OF minvD(5) [OF inv that] n] by (cases t) simp_all
  show thesis
  proof (cases "0 < reserved r (c_level c) \<or> \<not> c_terminating c")
    case False
    then have "reserved r (c_level c) = 0" by (simp add: word_gt_0)
    then have "slot_of ph = None" using hold by (cases "slot_of ph") (auto simp: holds_slot_def)
    moreover have "c' = c" using wr False orig(1) by (simp add: writeBlock_def Let_def)
    ultimately show thesis using that(1) by simp
  next
    case True
    from ok known orig True sz show thesis
    proof (cases rule: writeBlock_cases [where pe = pe and now = now])
      case (fill p b bs)
      have us: "used (c_blkIndex c ! p)" using fill(5) by (auto simp: used_def)
      have e: "c_blkIndex c' = (c_blkIndex c)[p := b]" using wr fill(1) by auto
      show thesis
        by (rule that(2) [OF e fill(3,7,8) _ fill(4) here [OF _ fill(3) us fill(4)]])
          (simp add: fill(10) inc [OF fill(3)])
    next
      case (touch p b)
      have us: "used (c_blkIndex c ! p)" using touch(4) by (simp add: used_def)
      have e: "c_blkIndex c' = (c_blkIndex c)[p := b]" using wr touch(1) by auto
      show thesis
        by (rule that(2) [OF e touch(2,6,7) _ touch(3) here [OF _ touch(2) us touch(3)]])
          (simp add: touch(9) inc [OF touch(2)])
    next
      case (fresh p b bs x y)
      have e: "c_blkIndex c' = (c_blkIndex c)[p := b]" using wr fresh(1) by auto
      have no: "slot_of ph \<noteq> Some q" for q
        using hold [of q] fresh(6) [of q] by (auto simp: holds_slot_def)
      show thesis
        by (rule that(2) [OF e fresh(3,8,9)])
          (use free_slot_count [OF inv fresh(3,5)] no in \<open>simp_all add: fresh(11)\<close>)
    next
      case full
      have "slot_of ph \<noteq> Some q" for q
        using hold [of q] full(2) [of q] by (auto simp: holds_slot_def)
      then have "slot_of ph = None" by (cases "slot_of ph") auto
      then show thesis using that(1) wr full(1) by auto
    qed
  qed
qed

lemma slot_kept_step:
  assumes "cstep pe content s t" "minv content s" "snd (snd t) < 2 ^ 32"
  shows "slot_kept s t k"
  using assms
proof (cases rule: cstep.cases)
  case (Read j cl c r now prio c' r' out n)
  then show ?thesis using slot_kept_read assms(2,3) by simp
next
  case (Bypass j cl c r n)
  then show ?thesis using users_update [of j cl "(r, PFree)" k] by (simp add: slot_kept_same)
next
  case (Arrive j cl r ph l orig c ty n)
  then show ?thesis
    using users_update [of j cl "(deliver content orig ty r, ph)" k] by (simp add: slot_kept_same)
next
  case (WaitDone j cl r l c r' n)
  then show ?thesis using users_update [of j cl "(r', PHit l)" k] by (simp add: slot_kept_same)
next
  case (Write j cl r ph now c c' out n)
  have inv: "minv content (c, cl, n)" and n: "n + 1 < 2 ^ 32" using assms(2,3) Write(1,2) by simp_all
  have us: "users (cl[j := (r, PDone)]) q + of_bool (slot_of ph = Some q) = users cl q" for q
    using users_after [OF Write(3), of r q] Write(4) by simp
  then have le: "users (cl[j := (r, PDone)]) q \<le> users cl q" for q by (metis le_add1)
  show ?thesis
  proof (cases "\<exists>p. ph = PHit p")
    case True
    then obtain p where p: "ph = PHit p" by blast
    note w = write_hit [OF inv Write(3) Write(4) [unfolded p]]
    have "holds_slot c r p" using minvD(3) [OF inv Write(3)] Write(4) p by (simp add: client_ok_def)
    then have plen: "p < length (c_blkIndex c)" by (simp add: holds_slot_def)
    have "1 \<le> e_activeCnt (c_blkIndex c ! p)"
      using w(2) by (simp add: word_le_nat_alt Suc_le_eq unat_gt_0)
    then have "unat (e_activeCnt (c_blkIndex c ! p) - 1) = unat (e_activeCnt (c_blkIndex c ! p)) - 1"
      by (simp add: unat_diff_le)
    then show ?thesis unfolding Write(1,2)
      by (intro slot_kept_update [where p = p and b = "fst (decBlkCnt (c_blkIndex c ! p))"])
        (use Write(7) w(1) plen us [of p] p le in \<open>auto simp: decBlkCnt_def\<close>)
  next
    case False
    then have away: "\<forall>k. ph \<noteq> PHit k" by blast
    show ?thesis unfolding Write(1,2)
    proof (rule write_effect [OF inv Write(3,4,5) away Write(6) n Write(7)])
      assume "c_blkIndex c' = c_blkIndex c"
      then show "slot_kept (c, cl, n) (c', cl[j := (r, PDone)], n + 1) k" by (rule slot_kept_same [OF _ le])
    next
      fix p b
      assume "c_blkIndex c' = (c_blkIndex c)[p := b]" "p < length (c_blkIndex c)"
        "sameBlk b (r_blkIndex r) (r_fileIndex r)" "e_status b = BLK_AVAIL"
        "unat (e_activeCnt (c_blkIndex c ! p)) \<le> unat (e_activeCnt b)"
        "e_activeCnt (c_blkIndex c ! p) \<noteq> 0 \<Longrightarrow> sameBlk (c_blkIndex c ! p) (r_blkIndex r) (r_fileIndex r)"
      then show "slot_kept (c, cl, n) (c', cl[j := (r, PDone)], n + 1) k"
        using le by (intro slot_kept_update [where p = p and b = b]) (auto simp: sameBlk_def intro: add_mono)
    qed
  qed
next
  case (AddFile c cl n XXH32 f nm bs fs)
  then show ?thesis by (simp add: slot_kept_same addFile_def)
next
  case (Terminate c cl n)
  then show ?thesis by (simp add: slot_kept_same)
qed

text \<open>More references are counted in the slot than there are requests to give them back.\<close>

definition pinned :: "mstate \<Rightarrow> nat \<Rightarrow> u32 \<Rightarrow> u32 \<Rightarrow> bool" where
  "pinned s k f i \<longleftrightarrow> (case s of (c, cl, n) \<Rightarrow>
     k < length (c_blkIndex c) \<and> sameBlk (c_blkIndex c ! k) i f \<and>
     e_status (c_blkIndex c ! k) = BLK_AVAIL \<and> users cl k < unat (e_activeCnt (c_blkIndex c ! k)))"

lemma pinned_step:
  assumes "cstep pe content s t" "minv content s" "snd (snd t) < 2 ^ 32" "pinned s k f i"
  shows "pinned t k f i"
proof -
  obtain c cl n c' cl' m where s: "s = (c, cl, n)" "t = (c', cl', m)" by (metis prod_cases3)
  have "e_activeCnt (c_blkIndex c ! k) \<noteq> 0" using assms(4) by (auto simp: pinned_def s)
  then show ?thesis
    using slot_kept_step [OF assms(1-3), of k] assms(4)
    by (auto simp: slot_kept_def pinned_def sameBlk_def s)
qed

lemma pinned_steps:
  assumes "(cstep pe content)\<^sup>*\<^sup>* s t" "minv content s" "snd (snd t) < 2 ^ 32" "pinned s k f i"
  shows "pinned t k f i"
  using assms(1,3)
proof (induction rule: rtranclp_induct)
  case (step u v)
  have "snd (snd u) < 2 ^ 32" using cstep_mono [OF step.hyps(2)] step.prems by linarith
  then show ?case
    using pinned_step [OF step.hyps(2) minv_steps [OF step.hyps(1) assms(2)] step.prems step.IH] by blast
qed (rule assms(4))

lemma fetch_pins:
  assumes inv: "minv content (c, cl, n)" and j: "j < length cl" "cl ! j = (r, PFetch k)"
    and ready: "r_ready r" and n: "n + 1 < 2 ^ 32"
    and wr: "writeBlock pe now c r (req_bytes c r) = (c', out)"
  shows "pinned (c', cl[j := (r, PDone)], n + 1) k (r_fileIndex r) (r_blkIndex r)"
proof -
  have us: "users (cl[j := (r, PDone)]) k + 1 = users cl k" using users_after [OF j(1), of r k] j(2) by simp
  show ?thesis
  proof (rule write_effect [OF inv j _ _ ready n wr])
    fix p b
    assume e: "c_blkIndex c' = (c_blkIndex c)[p := b]" "p < length (c_blkIndex c)"
        "sameBlk b (r_blkIndex r) (r_fileIndex r)" "e_status b = BLK_AVAIL"
        "unat (e_activeCnt (c_blkIndex c ! p)) \<le> unat (e_activeCnt b)"
      and "\<And>q. slot_of (PFetch k) = Some q \<Longrightarrow> q = p"
    then have "k = p" by simp
    then show ?thesis using e us minvD(4) [OF inv e(2)] by (simp add: pinned_def)
  qed simp_all
qed

text \<open>
  C8: a block that a request missed and then stored is never released: \<open>writeBlock\<close> adds
  \<open>reservedMap[this]\<close> to the counter of the slot, where the reservation should be given
  back. After that the slot keeps this block in every continuation, and no later
  \<open>oldestBlock\<close> can evict it.
\<close>

theorem missed_block_never_released:
  assumes r: "reaches pe content c0 N (c, cl, n)" and j: "j < length cl" "cl ! j = (r, PFetch k)"
    and ready: "r_ready r" and wr: "writeBlock pe now c r (req_bytes c r) = (c', out)"
    and later: "(cstep pe content)\<^sup>*\<^sup>* (c', cl[j := (r, PDone)], n + 1) (d, cl', m)" "m < 2 ^ 32"
  shows "sameBlk (c_blkIndex d ! k) (r_blkIndex r) (r_fileIndex r)
    \<and> e_status (c_blkIndex d ! k) = BLK_AVAIL \<and> \<not> evictable (c_blkIndex d ! k)"
proof -
  note inv = reaches_minv [OF r]
  have n: "n + 1 < 2 ^ 32" using csteps_mono [OF later(1)] later(2) by simp
  have inv': "minv content (c', cl[j := (r, PDone)], n + 1)"
    using minv_write_elsewhere [OF inv j _ _ ready n wr] by simp
  have "pinned (d, cl', m) k (r_fileIndex r) (r_blkIndex r)"
    by (rule pinned_steps [OF later(1) inv' _ fetch_pins [OF inv j ready n wr]]) (use later(2) in simp)
  then show ?thesis by (auto simp: pinned_def evictable_def anyUsers_def)
qed

text \<open>The state of the example after the data of request 2 have arrived.\<close>

definition demo_late :: mstate where
  "demo_late = (demo_c, demo_cl[2 := (deliver demo_content 9 Network (fst (demo_cl ! 2)), PFetch 1)], 4)"

lemma demo_late_reaches: "reaches False demo_content demo_cache 3 demo_late"
proof -
  have g: "2 < length demo_cl" "\<not> r_ready (fst (demo_cl ! 2))" "9 \<noteq> c_level demo_c" by code_simp+
  have x: "demo_cl ! 2 = (fst (demo_cl ! 2), PFetch 1)" using demo_clients(7) by (simp add: prod_eq_iff)
  have "cstep False demo_content (demo_c, demo_cl, 4) demo_late"
    unfolding demo_late_def by (rule cstep.Arrive [OF g(1) x _ g(2,3), of 1]) simp_all
  then show ?thesis
    using demo_reaches by (auto simp: reaches_def demo_late_def intro: rtranclp.rtrancl_into_rtrancl)
qed

theorem missed_block_never_released_witness:
  "\<not> evictable (c_blkIndex (fst (writeBlock False 20 demo_c (fst (fst (snd demo_late) ! 2))
      (req_bytes demo_c (fst (fst (snd demo_late) ! 2))))) ! 1)"
proof -
  define cl where "cl = fst (snd demo_late)"
  define r where "r = fst (cl ! 2)"
  have cl: "cl = demo_cl[2 := (deliver demo_content 9 Network (fst (demo_cl ! 2)), PFetch 1)]"
    by (simp add: cl_def demo_late_def)
  have len: "2 < length demo_cl" by code_simp
  then have j: "2 < length cl" "cl ! 2 = (r, PFetch 1)" "r_ready r"
    by (simp_all add: r_def cl deliver_def)
  have reach: "reaches False demo_content demo_cache 3 (demo_c, cl, 4)"
    using demo_late_reaches by (simp add: demo_late_def cl)
  obtain c' out where wr: "writeBlock False 20 demo_c r (req_bytes demo_c r) = (c', out)" by fastforce
  have "\<not> evictable (c_blkIndex c' ! 1)"
    using missed_block_never_released [OF reach j wr rtranclp.rtrancl_refl] by simp
  then show ?thesis using wr by (simp add: r_def cl_def)
qed

end
