(* ===== verification/ReadPath.thy ===== *)
theory ReadPath
  imports ClientFile CacheMachine
begin

text \<open>
  The read path: \<open>InputFile::read\<close> over a bounded cache. A block is requested from the
  memory cache and, when it is not there, delivered by a cache further down; the requests of
  other readers may be outstanding in the same cache.
\<close>

subsection \<open>The cache as a source of blocks\<close>

text \<open>
  What a read depends on: the eviction setting, the time, the index of the file and the size
  of its blocks, and the level and type of the cache that delivers the blocks missed here.
\<close>

record source =
  s_evict :: bool
  s_now :: u64
  s_fileIndex :: u32
  s_blkSize :: u64
  s_orig :: nat
  s_type :: CacheType
  s_content :: content

text \<open>
  \<open>Cache::requestBlock\<close> for block \<open>blk\<close> with a priority (0 for a read, above for a prefetch); its
  request is kept in slot \<open>blk\<close>. A request that is ready is copied and given back with
  \<open>bufferWrite\<close>.
\<close>

definition mem_request :: "source \<Rightarrow> u64 \<Rightarrow> mstate \<Rightarrow> u32 \<Rightarrow> mstate \<times> bytes option" where
  "mem_request p prio s blk =
     (case s of (c, cl, n) \<Rightarrow>
        let (c, r, out) = readBlock (s_evict p) (s_now p) c
              (new_request 0 Base blk (s_fileIndex p) (s_blkSize p)) prio
        in if r_ready r
           then let d = req_bytes c r; (c, _) = writeBlock (s_evict p) (s_now p) c r d
                in ((c, cl[unat blk := (r, PDone)], n + 2), Some d)
           else ((c, cl[unat blk := (r, phase_after out r)], n + 1), None))"

text \<open>
  Waiting for the future of block \<open>blk\<close>: a request that waits for another one gets the block
  from the cache once it is available; otherwise the data arrive from the cache that has them.
  The request is given back.
\<close>

definition mem_finish :: "source \<Rightarrow> mstate \<Rightarrow> u32 \<Rightarrow> mstate \<times> bytes option" where
  "mem_finish p s blk =
     (case s of (c, cl, n) \<Rightarrow>
        let (r, ph) = cl ! unat blk;
            other = deliver (s_content p) (s_orig p) (s_type p) r;
            r = (case ph of
                   PWait k \<Rightarrow> (case wait_available c k r of Some r' \<Rightarrow> r' | None \<Rightarrow> other)
                 | _ \<Rightarrow> other);
            d = req_bytes c r; (c, _) = writeBlock (s_evict p) (s_now p) c r d
        in ((c, cl[unat blk := (r, PDone)], n + 1), Some d))"

text \<open>\<open>content\<close> holds the blocks of the file, all of the full size.\<close>

definition source_ok :: "source \<Rightarrow> bytes \<Rightarrow> bool" where
  "source_ok p content \<longleftrightarrow> s_blkSize p \<noteq> 0 \<and> s_type p \<noteq> Empty \<and>
     (\<forall>b. unat b * unat (s_blkSize p) < length content \<longrightarrow>
        length (s_content p (s_fileIndex p) b) = unat (s_blkSize p) \<and>
        good_block content (unat (s_blkSize p)) (unat b) (s_content p (s_fileIndex p) b))"

text \<open>The request of block \<open>b\<close> is outstanding.\<close>

definition pending :: "source \<Rightarrow> u32 \<Rightarrow> client \<Rightarrow> bool" where
  "pending p b x \<longleftrightarrow> r_fileIndex (fst x) = s_fileIndex p \<and> r_blkIndex (fst x) = b
     \<and> \<not> r_ready (fst x) \<and> (case snd x of PDone \<Rightarrow> False | PHit _ \<Rightarrow> False | _ \<Rightarrow> True)"

text \<open>
  The cache is sound, \<open>n\<close> more calls keep its counters below \<open>2^32\<close>, the requests of the
  blocks \<open>W\<close> are outstanding and those of the other blocks of the file are not in use.
\<close>

definition read_inv :: "source \<Rightarrow> bytes \<Rightarrow> nat \<Rightarrow> u32 set \<Rightarrow> mstate \<Rightarrow> bool" where
  "read_inv p content n W s \<longleftrightarrow>
     (case s of (c, cl, m) \<Rightarrow>
        minv (s_content p) s \<and> m + 2 * n < 2 ^ 32 \<and> c_level c \<noteq> 0 \<and> c_level c \<noteq> s_orig p
        \<and> c_fileMap c (s_fileIndex p) \<noteq> None \<and> s_blkSize p \<le> c_blockSize c
        \<and> (\<forall>b. unat b * unat (s_blkSize p) < length content \<longrightarrow> unat b < length cl \<and>
              (if b \<in> W then pending p b (cl ! unat b) else snd (cl ! unat b) = PDone))
        \<and> (\<forall>b \<in> W. unat b * unat (s_blkSize p) < length content))"

lemma read_invD:
  assumes "read_inv p content n W (c, cl, m)"
  shows "minv (s_content p) (c, cl, m)" "m + 2 * n < 2 ^ 32" "c_level c \<noteq> 0" "c_level c \<noteq> s_orig p"
    "c_fileMap c (s_fileIndex p) \<noteq> None" "s_blkSize p \<le> c_blockSize c"
    "unat b * unat (s_blkSize p) < length content \<Longrightarrow> unat b < length cl"
    "unat b * unat (s_blkSize p) < length content \<Longrightarrow> b \<in> W \<Longrightarrow> pending p b (cl ! unat b)"
    "unat b * unat (s_blkSize p) < length content \<Longrightarrow> b \<notin> W \<Longrightarrow> snd (cl ! unat b) = PDone"
    "b \<in> W \<Longrightarrow> unat b * unat (s_blkSize p) < length content"
  using assms by (auto simp: read_inv_def)

text \<open>One call that changes the slot of block \<open>b\<close> only.\<close>

lemma read_inv_update:
  assumes iv: "read_inv p content (Suc n) W (c, cl, m)" and b: "unat b * unat (s_blkSize p) < length content"
    and inv: "minv (s_content p) (d, cl[unat b := x], m')" and m: "m' \<le> m + 2" and fr: "frame c d"
    and V: "V - {b} = W - {b}" "if b \<in> V then pending p b x else snd x = PDone"
  shows "read_inv p content n V (d, cl[unat b := x], m')"
proof -
  note D = read_invD [OF iv]
  have "unat q < length (cl[unat b := x]) \<and>
      (if q \<in> V then pending p q (cl[unat b := x] ! unat q) else snd (cl[unat b := x] ! unat q) = PDone)"
    if q: "unat q * unat (s_blkSize p) < length content" for q
  proof (cases "q = b")
    case True
    then show ?thesis using V(2) D(7) [OF b] by simp
  next
    case False
    then have "unat q \<noteq> unat b" by (simp add: word_unat_eq_iff)
    moreover have "q \<in> V \<longleftrightarrow> q \<in> W" using V(1) False by blast
    ultimately show ?thesis using D(7-9) [OF q] by simp
  qed
  moreover have "unat q * unat (s_blkSize p) < length content" if "q \<in> V" for q
    using that V(1) b D(10) [of q] by (cases "q = b") auto
  ultimately show ?thesis
    using inv m fr D(2-6) by (auto simp: read_inv_def frame_def)
qed

lemma write_frame:
  assumes inv: "minv content (c, cl, n)" and j: "j < length cl" "cl ! j = (r, ph)" and ph: "ph \<noteq> PDone"
    and ready: "r_ready r" and wr: "writeBlock pe now c r (req_bytes c r) = (c', out)"
  shows "frame c c'"
proof (cases "\<exists>k. ph = PHit k")
  case True
  then obtain k where "ph = PHit k" by blast
  then show ?thesis using write_hit(1) [OF inv j(1), of r k pe now "req_bytes c r"] j(2) wr by auto
next
  case False
  then have away: "\<forall>k. ph \<noteq> PHit k" by blast
  have x: "client_ok content c (r, ph)" using minvD(3) [OF inv j(1)] j(2) by simp
  note g = client_okD(1) [OF x ph] and ew = client_okD(4) [OF x ph away]
  have orig: "r_originating r \<noteq> c_level c" "r_origType r \<noteq> Empty" and known: "c_fileMap c (r_fileIndex r) \<noteq> None"
    and sz: "r_size r \<le> c_blockSize c" "unat (r_size r) \<le> length (req_bytes c r)"
    using ew g ready by (simp_all add: elsewhere_def good_req_def req_bytes_def)
  show ?thesis
  proof (cases "0 < reserved r (c_level c) \<or> \<not> c_terminating c")
    case False
    then have "c' = c" using wr orig(1) by (simp add: writeBlock_def Let_def word_gt_0)
    then show ?thesis by simp
  next
    case True
    show ?thesis
      using minvD(1) [OF inv] known orig True sz
      by (cases rule: writeBlock_cases [where pe = pe and now = now]) (use wr in auto)
  qed
qed

lemma read_frame:
  assumes "table_ok c" "good_req content c r" "readBlock pe now c r prio = (c', r', out)"
  shows "frame c c'" "r_ready r' \<Longrightarrow> \<not> r_ready r \<Longrightarrow> \<exists>k. phase_after out r' = PHit k"
    "\<not> r_ready r' \<Longrightarrow> \<not> r_ready r \<Longrightarrow> r_fileIndex r' = r_fileIndex r \<and> r_blkIndex r' = r_blkIndex r
       \<and> (case phase_after out r' of PDone \<Rightarrow> False | PHit _ \<Rightarrow> False | _ \<Rightarrow> True)"
proof -
  obtain fe where k: "c_fileMap c (r_fileIndex r) = Some fe" and s: "r_size r \<noteq> 0" "r_size r \<le> c_blockSize c"
    using assms(2) by (auto simp: good_req_def)
  note cs = readBlock_cases [OF assms(1) k s, where pe = pe and now = now and prio = prio]
  show "frame c c'" using assms(3) by (cases rule: cs) auto
  show "r_ready r' \<Longrightarrow> \<not> r_ready r \<Longrightarrow> \<exists>k. phase_after out r' = PHit k"
    using assms(3) by (cases rule: cs) (auto simp: phase_after_def hit_request_def)
  show "\<not> r_ready r' \<Longrightarrow> \<not> r_ready r \<Longrightarrow> r_fileIndex r' = r_fileIndex r \<and> r_blkIndex r' = r_blkIndex r
       \<and> (case phase_after out r' of PDone \<Rightarrow> False | PHit _ \<Rightarrow> False | _ \<Rightarrow> True)"
    using assms(3) by (cases rule: cs) (auto simp: phase_after_def hit_request_def)
qed

lemma readBlock_key:
  assumes "table_ok c" "good_req content c r" "readBlock pe now c r prio = (c', r', out)"
  shows "r_fileIndex r' = r_fileIndex r \<and> r_blkIndex r' = r_blkIndex r"
proof -
  obtain fe where k: "c_fileMap c (r_fileIndex r) = Some fe" and s: "r_size r \<noteq> 0" "r_size r \<le> c_blockSize c"
    using assms(2) by (auto simp: good_req_def)
  show ?thesis
    using assms(1) k s
    by (cases rule: readBlock_cases [where pe = pe and now = now and prio = prio])
      (use assms(3) in \<open>auto simp: hit_request_def\<close>)
qed

text \<open>The bytes of a ready request.\<close>

lemma ready_bytes:
  assumes inv: "minv content (c, cl, n)" and j: "j < length cl" "cl ! j = (r, ph)" "ph \<noteq> PDone" and r: "r_ready r"
  shows "req_bytes c r = content (r_fileIndex r) (r_blkIndex r)"
proof (cases "\<exists>k. ph = PHit k")
  case True
  then obtain k where k: "ph = PHit k" by blast
  have x: "good_req content c r" "holds_slot c r k" "e_status (c_blkIndex c ! k) = BLK_AVAIL"
      "r_data r = DBlock (c_level c) k"
    using minvD(3) [OF inv j(1)] j(2) k by (simp_all add: client_ok_def)
  then show ?thesis
    using minvD(6) [OF inv _ x(3)]
    by (simp add: req_bytes_def holds_slot_def sameBlk_def slot_data_def good_req_def Let_def)
next
  case False
  have x: "client_ok content c (r, ph)" using minvD(3) [OF inv j(1)] j(2) by simp
  show ?thesis
    using client_okD(4) [OF x j(3)] False r by (simp add: elsewhere_def req_bytes_def)
qed

lemma fresh_base:
  assumes "read_inv p content n W (c, cl, m)" "source_ok p content" "unat b * unat (s_blkSize p) < length content"
  shows "fresh_req (s_content p) c (new_request 0 Base b (s_fileIndex p) (s_blkSize p))"
  using assms read_invD(3,5,6) [OF assms(1)]
  by (auto simp: fresh_req_def good_req_def new_request_def source_ok_def)

lemma mem_request_ok:
  assumes iv: "read_inv p content (Suc n) W s" and b: "b \<notin> W" "unat b * unat (s_blkSize p) < length content"
    and src: "source_ok p content" and rq: "mem_request p prio s b = (s', res)"
  shows "case res of
      Some d \<Rightarrow> read_inv p content n W s' \<and> good_block content (unat (s_blkSize p)) (unat b) d
    | None \<Rightarrow> read_inv p content n (insert b W) s'"
proof -
  obtain c cl m where s: "s = (c, cl, m)" by (metis prod_cases3)
  let ?r = "new_request 0 Base b (s_fileIndex p) (s_blkSize p)" and ?j = "unat b"
  note D = read_invD [OF iv [unfolded s]]
  have j: "?j < length cl" "snd (cl ! ?j) = PDone" by (rule D(7) [OF b(2)], rule D(9) [OF b(2,1)])
  have n: "m + 1 < 2 ^ 32" "m + 1 + 1 < 2 ^ 32" using D(2) by simp_all
  have fr: "fresh_req (s_content p) c ?r" by (rule fresh_base [OF iv [unfolded s] src b(2)])
  then have g: "good_req (s_content p) c ?r" by (simp add: fresh_req_def)
  obtain c1 r out where rd: "readBlock (s_evict p) (s_now p) c ?r prio = (c1, r, out)" by (metis prod_cases3)
  have inv1: "minv (s_content p) (c1, cl[?j := (r, phase_after out r)], m + 1)"
    by (rule minv_read [OF D(1) j fr n(1) rd])
  note rf = read_frame [OF minvD(1) [OF D(1)] g rd]
  have nr: "\<not> r_ready ?r" by (simp add: new_request_def)
  show ?thesis
  proof (cases "r_ready r")
    case False
    then have e: "s' = (c1, cl[?j := (r, phase_after out r)], m + 1)" "res = None"
      using rq rd by (simp_all add: s mem_request_def)
    have "pending p b (r, phase_after out r)"
      using rf(3) [OF False nr] False by (simp add: pending_def new_request_def)
    then show ?thesis
      unfolding e option.case
      by (intro read_inv_update [OF iv [unfolded s] b(2) inv1 _ rf(1)]) simp_all
  next
    case True
    then obtain k where k: "phase_after out r = PHit k" using rf(2) nr by blast
    define cl1 where "cl1 = cl[?j := (r, PHit k)]"
    have j1: "?j < length cl1" "cl1 ! ?j = (r, PHit k)" using j(1) by (simp_all add: cl1_def)
    have inv1': "minv (s_content p) (c1, cl1, m + 1)" using inv1 by (simp add: k cl1_def)
    obtain c2 o2 where wr: "writeBlock (s_evict p) (s_now p) c1 r (req_bytes c1 r) = (c2, o2)" by fastforce
    have e: "s' = (c2, cl[?j := (r, PDone)], m + 2)" "res = Some (req_bytes c1 r)"
      using rq rd True wr by (simp_all add: s mem_request_def Let_def)
    have c2: "c2 = set_entry c1 k (fst (decBlkCnt (c_blkIndex c1 ! k)))"
      using write_hit(1) [OF inv1' j1] wr by simp
    have inv2: "minv (s_content p) (c2, cl[?j := (r, PDone)], m + 2)"
      using minv_write_hit [OF inv1' j1 n(2)] by (simp add: c2 cl1_def)
    have "frame c1 c2" by (simp add: c2)
    then have "frame c c2" using rf(1) by (auto simp: frame_def)
    then have "read_inv p content n W s'"
      unfolding e using b(1) by (intro read_inv_update [OF iv [unfolded s] b(2) inv2]) simp_all
    moreover have "r_fileIndex r = s_fileIndex p \<and> r_blkIndex r = b"
      by (rule readBlock_key [OF minvD(1) [OF D(1)] g rd, simplified new_request_def request.simps])
    then have "req_bytes c1 r = s_content p (s_fileIndex p) b"
      using ready_bytes [OF inv1' j1 _ True] by simp
    ultimately show ?thesis using src b(2) by (simp add: e source_ok_def)
  qed
qed

lemma mem_finish_ok:
  assumes iv: "read_inv p content (Suc n) W s" and b: "b \<in> W" and src: "source_ok p content"
  shows "\<exists>s' d. mem_finish p s b = (s', Some d) \<and> read_inv p content n (W - {b}) s' \<and>
    good_block content (unat (s_blkSize p)) (unat b) d"
proof -
  obtain c cl m where s: "s = (c, cl, m)" by (metis prod_cases3)
  let ?j = "unat b"
  note D = read_invD [OF iv [unfolded s]]
  have b': "unat b * unat (s_blkSize p) < length content" by (rule D(10) [OF b])
  have j: "?j < length cl" by (rule D(7) [OF b'])
  obtain r ph where x: "cl ! ?j = (r, ph)" by fastforce
  have pd: "r_fileIndex r = s_fileIndex p" "r_blkIndex r = b" "\<not> r_ready r"
      "ph = PFree \<or> (\<exists>k. ph = PFetch k) \<or> (\<exists>k. ph = PWait k)"
    using D(8) [OF b' b] by (cases ph; simp add: pending_def x)+
  let ?other = "deliver (s_content p) (s_orig p) (s_type p) r"
  define r1 where "r1 = (case ph of
      PWait k \<Rightarrow> (case wait_available c k r of Some r' \<Rightarrow> r' | None \<Rightarrow> ?other) | _ \<Rightarrow> ?other)"
  have step: "\<exists>ph1. cstep (s_evict p) (s_content p) (c, cl, m) (c, cl[?j := (r1, ph1)], m) \<and> ph1 \<noteq> PDone
      \<and> r_ready r1 \<and> r_fileIndex r1 = s_fileIndex p \<and> r_blkIndex r1 = b"
  proof (cases "\<exists>k r'. ph = PWait k \<and> wait_available c k r = Some r'")
    case True
    then obtain k r' where k: "ph = PWait k" "wait_available c k r = Some r'" by blast
    have "r_ready r' \<and> r_fileIndex r' = r_fileIndex r \<and> r_blkIndex r' = r_blkIndex r"
      using k(2) by (auto simp: wait_available_def hit_request_def split: prod.splits if_splits)
    moreover have "cstep (s_evict p) (s_content p) (c, cl, m) (c, cl[?j := (r', PHit k)], m)"
      by (rule cstep.WaitDone [OF j x [unfolded k(1)] pd(3) k(2)])
    ultimately show ?thesis using k pd(1,2) by (intro exI [of _ "PHit k"]) (simp add: r1_def)
  next
    case False
    then have r1: "r1 = ?other" by (cases ph) (auto simp: r1_def split: option.split)
    have st: "ph = PFree \<or> ph = PFetch k \<or> ph = PWait k" if "ph = PFetch k \<or> ph = PWait k \<or> ph = PFree" for k
      using that by blast
    obtain k where k: "ph = PFree \<or> ph = PFetch k \<or> ph = PWait k" using pd(4) by blast
    have "cstep (s_evict p) (s_content p) (c, cl, m) (c, cl[?j := (?other, ph)], m)"
      by (rule cstep.Arrive [OF j x k pd(3)]) (use D(4) src in \<open>simp_all add: source_ok_def\<close>)
    then show ?thesis using k pd(1,2) by (intro exI [of _ ph]) (auto simp: r1 deliver_def)
  qed
  then obtain ph1 where st: "cstep (s_evict p) (s_content p) (c, cl, m) (c, cl[?j := (r1, ph1)], m)" "ph1 \<noteq> PDone"
      "r_ready r1" "r_fileIndex r1 = s_fileIndex p" "r_blkIndex r1 = b" by blast
  define cl1 where "cl1 = cl[?j := (r1, ph1)]"
  have j1: "?j < length cl1" "cl1 ! ?j = (r1, ph1)" using j by (simp_all add: cl1_def)
  have inv1: "minv (s_content p) (c, cl1, m)"
    using minv_step [OF st(1) D(1)] D(2) by (simp add: cl1_def)
  obtain c' o' where wr: "writeBlock (s_evict p) (s_now p) c r1 (req_bytes c r1) = (c', o')" by fastforce
  have "cstep (s_evict p) (s_content p) (c, cl1, m) (c', cl1[?j := (r1, PDone)], m + 1)"
    by (rule cstep.Write [OF j1 st(2,3) wr])
  then have inv2: "minv (s_content p) (c', cl[?j := (r1, PDone)], m + 1)"
    using minv_step [OF _ inv1] D(2) by (fastforce simp: cl1_def)
  have "read_inv p content n (W - {b}) (c', cl[?j := (r1, PDone)], m + 1)"
    by (rule read_inv_update [OF iv [unfolded s] b' inv2 _ write_frame [OF inv1 j1 st(2,3) wr]]) simp_all
  moreover have "good_block content (unat (s_blkSize p)) ?j (req_bytes c r1)"
    using ready_bytes [OF inv1 j1 st(2,3)] st(4,5) src b' by (simp add: source_ok_def)
  moreover have "mem_finish p s b = ((c', cl[?j := (r1, PDone)], m + 1), Some (req_bytes c r1))"
    using x wr by (simp add: s mem_finish_def Let_def r1_def [symmetric])
  ultimately show ?thesis by blast
qed

lemma read_inv_mono: "read_inv p content n W s \<Longrightarrow> m \<le> n \<Longrightarrow> read_inv p content m W s"
  by (auto simp: read_inv_def)

interpretation mem: block_source "mem_request p prio" "mem_finish p"
  "\<lambda>n W s. source_ok p content \<and> read_inv p content n W s" content "unat (s_blkSize p)"
  for p prio content
proof
  fix n m W s
  assume "source_ok p content \<and> read_inv p content n W s" "m \<le> n"
  then show "source_ok p content \<and> read_inv p content m W s" using read_inv_mono by blast
next
  fix n W s b s' d
  assume "source_ok p content \<and> read_inv p content (Suc n) W s" "b \<notin> W"
    "unat b * unat (s_blkSize p) < length content" "mem_request p prio s b = (s', Some d)"
  then show "(source_ok p content \<and> read_inv p content n W s') \<and> good_block content (unat (s_blkSize p)) (unat b) d"
    using mem_request_ok [of p content n W s b prio s' "Some d"] by simp
next
  fix n W s b s'
  assume "source_ok p content \<and> read_inv p content (Suc n) W s" "b \<notin> W"
    "unat b * unat (s_blkSize p) < length content" "mem_request p prio s b = (s', None)"
  then show "source_ok p content \<and> read_inv p content n (insert b W) s'"
    using mem_request_ok [of p content n W s b prio s' None] by simp
next
  fix n W s b
  assume "source_ok p content \<and> read_inv p content (Suc n) W s" "b \<in> W"
  then show "\<exists>s' d. mem_finish p s b = (s', Some d) \<and>
      (source_ok p content \<and> read_inv p content n (W - {b}) s') \<and>
      good_block content (unat (s_blkSize p)) (unat b) d"
    using mem_finish_ok [of p content n W s b] by auto
qed

subsection \<open>Reading a file through the cache\<close>

text \<open>A cache that other readers have used before, with the slots of this file's blocks idle.\<close>

definition ready_cache :: "source \<Rightarrow> bytes \<Rightarrow> nat \<Rightarrow> mstate \<Rightarrow> bool" where
  "ready_cache p content calls s \<longleftrightarrow>
     (case s of (c, cl, m) \<Rightarrow>
        (\<exists>pe c0 N. reaches pe (s_content p) c0 N s) \<and> m + 2 * calls < 2 ^ 32
        \<and> c_level c \<noteq> 0 \<and> c_level c \<noteq> s_orig p
        \<and> c_fileMap c (s_fileIndex p) \<noteq> None \<and> s_blkSize p \<le> c_blockSize c
        \<and> (\<forall>b < ceil_div (length content) (unat (s_blkSize p)).
              b < length cl \<and> snd (cl ! b) = PDone))"

lemma ready_cache_inv:
  assumes "ready_cache p content n s" "source_ok p content"
  shows "read_inv p content n {} s"
proof -
  obtain c cl m where s: "s = (c, cl, m)" by (metis prod_cases3)
  have "0 < unat (s_blkSize p)" using assms(2) by (simp add: source_ok_def unat_gt_0)
  from less_ceil_div [OF this] show ?thesis
    using assms(1) reaches_minv unfolding s by (auto simp: ready_cache_def read_inv_def)
qed

text \<open>
  C1: \<open>InputFile::read\<close> over the memory cache. Whatever other readers have done to the cache
  before, and may have outstanding in it, a read inside of the file fills the buffer with the
  bytes of the file from the file position on, touches nothing behind them, returns their
  number (the count, cut at the end of the file) and advances the position by it, in
  whatever order the hash maps list the blocks that were not in the cache.
\<close>

theorem InputFile_read_returns_file:
  assumes opened: "file_ok f content" "f_blkSize f = s_blkSize p" "source_ok p content"
    and pos: "filePos f index = Some pos" "unat pos < length content"
    and cnt: "c = min (unat count) (length content - unat pos)" "c + unat (f_blkSize f) < 2 ^ 32" "c \<le> length buf"
    and order: "\<And>ws. distinct ws \<Longrightarrow> distinct (order ws) \<and> set (order ws) = set ws"
    and prefetch: "\<And>n W a b s. read_inv p content n W s \<Longrightarrow> read_inv p content n W (prefetch a b s)"
    and cache: "ready_cache p content (2 * ceil_div (unat pos + c) (unat (f_blkSize f))) s"
  shows "\<exists>s' f' buf'. InputFile_read (mem_request p 0) (mem_finish p) order prefetch s f buf count index
      = Some (s', f', buf', of_nat c) \<and>
     take c buf' = take c (drop (unat pos) content) \<and> drop c buf' = drop c buf \<and>
     filePos f' index = Some (pos + of_nat c)"
proof -
  have inv: "source_ok p content \<and>
      read_inv p content (2 * ceil_div (unat pos + c) (unat (s_blkSize p))) {} s"
    using ready_cache_inv [OF cache opened(3)] opened(2,3) by simp
  have bs: "unat (s_blkSize p) = unat (f_blkSize f)" using opened(2) by simp
  have "\<exists>s' f' buf'. InputFile_read (mem_request p 0) (mem_finish p) order prefetch s f buf count index
      = Some (s', f', buf', of_nat c) \<and> (source_ok p content \<and> read_inv p content 0 {} s') \<and>
     take c buf' = take c (drop (unat pos) content) \<and> drop c buf' = drop c buf \<and>
     filePos f' index = Some (pos + of_nat c)"
    by (rule mem.read_ok [OF opened(1) bs pos cnt(1) _ cnt(3) order _ inv])
      (use cnt(2) bs prefetch in simp_all)
  then show ?thesis by blast
qed

text \<open>A file of three bytes in blocks of two.\<close>

definition small_source :: source where
  "small_source = \<lparr>s_evict = False, s_now = 7, s_fileIndex = 1, s_blkSize = 2, s_orig = 9, s_type = Network,
     s_content = (\<lambda>f b. if b = 0 then [10, 20] else [30, 0])\<rparr>"

definition small_file :: tazer_file where
  "small_file = \<lparr>f_active = True, f_fileSize = 3, f_blkSize = 2, f_numBlks = 2, f_filePos = [1], f_eof = [False]\<rparr>"

definition small_state :: mstate where
  "small_state = (addFile (\<lambda>_. 0) demo_cache 1 ''f'' 2 3, replicate 2 (new_request 0 Base 0 0 0, PDone), 0)"

lemma small_ready: "ready_cache small_source [10, 20, 30] 4 small_state"
proof -
  have c: "NewMemoryCache 1 ''m'' PrivateMemory 4 2 0 = Some demo_cache"
    by (simp add: demo_cache_def NewMemoryCache_def Let_def)
  have "reaches False (s_content small_source) demo_cache 2 small_state"
    unfolding reaches_def small_state_def
    using c by (fastforce simp: cache_start_def intro: cstep.AddFile)
  moreover have "c_level (fst small_state) = 1" "\<not> Option.is_none (c_fileMap (fst small_state) 1)"
      "c_blockSize (fst small_state) = 2"
    by code_simp+
  ultimately show ?thesis
    by (auto simp: ready_cache_def small_source_def small_state_def ceil_div_def Option.is_none_def nth_Cons')
qed

lemma small_opened:
  "file_ok small_file [10, 20, 30]" "f_blkSize small_file = s_blkSize small_source"
  "source_ok small_source [10, 20, 30]" "filePos small_file 0 = Some 1"
proof -
  have b: "b = 1" if "b \<noteq> 0" "unat b * 2 < Suc (Suc (Suc 0))" for b :: u32
    using that by (simp add: word_unat_eq_iff)
  show "source_ok small_source [10, 20, 30]"
    unfolding source_ok_def by (auto dest!: b simp: small_source_def good_block_def Let_def)
qed (simp_all add: file_ok_def small_file_def small_source_def filePos_def ceil_div_def)

theorem InputFile_read_returns_file_witness:
  "\<exists>s' f' buf'. InputFile_read (mem_request small_source 0) (mem_finish small_source) (\<lambda>ws. ws) (\<lambda>_ _ s. s)
      small_state small_file [0, 0, 0, 0] 5 0 = Some (s', f', buf', 2) \<and> take 2 buf' = [20, 30]"
proof -
  have "\<exists>s' f' buf'. InputFile_read (mem_request small_source 0) (mem_finish small_source) (\<lambda>ws. ws) (\<lambda>_ _ s. s)
      small_state small_file [0, 0, 0, 0] 5 0 = Some (s', f', buf', of_nat 2) \<and>
      take 2 buf' = take 2 (drop (unat (1 :: u64)) [10, 20, 30]) \<and>
      drop 2 buf' = drop 2 [0, 0, 0, 0] \<and> filePos f' 0 = Some (1 + of_nat 2)"
    by (rule InputFile_read_returns_file [OF small_opened])
      (use small_ready in \<open>simp_all add: small_file_def ceil_div_def\<close>)
  then show ?thesis by auto
qed



end
