(* ===== verification/OutputPath.thy ===== *)
theory OutputPath
  imports Sockets ClientFile
begin

text \<open>
  Files opened for writing: \<^verbatim>\<open>src/client/OutputFile.cpp\<close>. The application's writes are gathered in
  a buffer; full buffers go to the transfer pool as chunks with a sequence number, and the
  pool sends each chunk as one write message, in the order of these numbers.
\<close>

subsection \<open>Buffering\<close>

definition outputFileBufferSize :: u64 where "outputFileBufferSize = 16 * 1024 * 1024"

text \<open>What a task of the transfer pool holds: the buffer with the data behind the room for the header.\<close>

record chunk =
  ck_buf :: bytes
  ck_size :: u64
  ck_compSize :: u64
  ck_fp :: u64
  ck_seq :: u32

text \<open>
  The members of \<open>OutputFile\<close>. \<open>of_tasks\<close> are the chunks that have been handed to the pools, in
  this order, before compression.
\<close>

record output_file =
  of_name :: bytes
  of_compress :: bool
  of_active :: bool
  of_fileSize :: u64
  of_messageOffset :: u32
  of_seqNum :: u32
  of_sendNum :: u32
  of_buffer :: bytes
  of_bufferIndex :: u64
  of_bufferFp :: u64
  of_bufferCnt :: u64
  of_filePos :: "u64 list"
  of_tasks :: "chunk list"

definition new_output_file :: "bytes \<Rightarrow> bool \<Rightarrow> bytes \<Rightarrow> output_file" where
  "new_output_file name compress buffer =
     (let messageOffset = of_nat sizeof_writeMsg + of_nat (length name) + 1
      in \<lparr>of_name = name, of_compress = compress, of_active = False, of_fileSize = 0,
          of_messageOffset = messageOffset, of_seqNum = 0, of_sendNum = 0, of_buffer = buffer,
          of_bufferIndex = ucast messageOffset, of_bufferFp = 0, of_bufferCnt = 0, of_filePos = [0],
          of_tasks = []\<rparr>)"

text \<open>
  Handing the buffer to \<open>addTransferTask\<close> (or \<open>addCompressTask\<close>) under the next sequence number
  and taking a new one, whose contents \<open>new_buf\<close> are not specified.
\<close>

definition flush :: "(u32 \<Rightarrow> bytes) \<Rightarrow> output_file \<Rightarrow> output_file" where
  "flush new_buf f =
     (let seqNum = of_seqNum f
      in f\<lparr>of_seqNum := seqNum + 1, of_buffer := new_buf seqNum,
           of_tasks := of_tasks f @ [\<lparr>ck_buf = of_buffer f, ck_size = of_bufferCnt f, ck_compSize = of_bufferCnt f,
             ck_fp = of_bufferFp f, ck_seq = seqNum\<rparr>]\<rparr>)"

text \<open>\<open>memcpy(_buffer + _bufferIndex, buf + bytesSent, n)\<close>, with the new \<open>_bufferCnt\<close>.\<close>

definition fill :: "bytes \<Rightarrow> u64 \<Rightarrow> u64 \<Rightarrow> output_file \<Rightarrow> output_file option" where
  "fill buf bytesSent n f =
     (case memcpy (of_buffer f) (unat (of_bufferIndex f)) buf (unat bytesSent) (unat n) of
        None \<Rightarrow> None
      | Some b \<Rightarrow> Some (f\<lparr>of_buffer := b, of_bufferCnt := of_bufferCnt f + n\<rparr>))"

partial_function (option) write_loop ::
  "(u32 \<Rightarrow> bytes) \<Rightarrow> bytes \<Rightarrow> u64 \<Rightarrow> output_file \<Rightarrow> u64 \<Rightarrow> u64 \<Rightarrow> u64 \<Rightarrow> (output_file \<times> u64 \<times> u64) option" where
  "write_loop new_buf buf fp f bytesSent bytesToSend spaceAvail =
     (if spaceAvail < bytesToSend \<or> of_bufferCnt f + of_bufferFp f \<noteq> fp + bytesSent
      then let spaceAvail = (if bytesToSend < spaceAvail then bytesToSend else spaceAvail)
           in case fill buf bytesSent spaceAvail f of
               None \<Rightarrow> None
             | Some f \<Rightarrow>
                 let f = flush new_buf f;
                     f = f\<lparr>of_bufferIndex := ucast (of_messageOffset f),
                           of_bufferFp := of_bufferFp f + of_bufferCnt f, of_bufferCnt := 0\<rparr>
                 in write_loop new_buf buf fp f (bytesSent + spaceAvail) (bytesToSend - spaceAvail)
                      (outputFileBufferSize - of_bufferIndex f)
      else Some (f, bytesSent, bytesToSend))"

text \<open>
  \<open>write\<close>. \<open>idle\<close>: the transfer pool has no queued task. \<open>None\<close>: an access out of bounds, or no end.
\<close>

definition write_file ::
  "(u32 \<Rightarrow> bytes) \<Rightarrow> bool \<Rightarrow> bytes \<Rightarrow> nat \<Rightarrow> output_file \<Rightarrow> (output_file \<times> u64) option" where
  "write_file new_buf idle buf index f =
     (if of_active f
      then if length (of_filePos f) \<le> index then None
      else let count = of_nat (length buf); fp = of_filePos f ! index; pos = fp + count;
               f = f\<lparr>of_filePos := (of_filePos f)[index := pos]\<rparr>;
               f = (if of_fileSize f < pos then f\<lparr>of_fileSize := pos + 1\<rparr> else f)
           in do {
             (f, bytesSent, bytesToSend) \<leftarrow>
               write_loop new_buf buf fp f 0 count (outputFileBufferSize - of_bufferIndex f);
             f \<leftarrow> fill buf bytesSent bytesToSend f;
             let f = f\<lparr>of_bufferIndex := of_bufferIndex f + bytesToSend\<rparr>;
             Some (if idle
                   then (flush new_buf f)\<lparr>of_bufferIndex := ucast (of_messageOffset f), of_bufferCnt := 0,
                          of_bufferFp := fp + count\<rparr>
                   else f, count)
           }
      else Some (f, 0))"

definition out_seek ::
  "(u32 \<Rightarrow> bytes) \<Rightarrow> u64 \<Rightarrow> whence \<Rightarrow> nat \<Rightarrow> output_file \<Rightarrow> (output_file \<times> u64) option" where
  "out_seek new_buf offset whence index f =
     (if length (of_filePos f) \<le> index then None
      else let f = (flush new_buf f)\<lparr>of_bufferIndex := ucast (of_messageOffset f), of_bufferCnt := 0\<rparr>;
               pos = (case whence of
                  SEEK_SET \<Rightarrow> offset
                | SEEK_CUR \<Rightarrow> of_filePos f ! index + offset
                | SEEK_END \<Rightarrow> of_fileSize f + offset)
           in Some (f\<lparr>of_filePos := (of_filePos f)[index := pos], of_bufferFp := pos\<rparr>, pos))"

text \<open>The first part of \<open>close\<close>; it resets neither \<open>_bufferIndex\<close> nor \<open>_bufferCnt\<close>.\<close>

definition close_flush :: "(u32 \<Rightarrow> bytes) \<Rightarrow> output_file \<Rightarrow> output_file" where
  "close_flush new_buf f = (if 0 < of_bufferCnt f then flush new_buf f else f)"

text \<open>The second part: once all chunks are done with, the file is closed and its numbers start again.\<close>

definition close_done :: "output_file \<Rightarrow> output_file option" where
  "close_done f =
     (if of_active f
      then if of_seqNum f = of_sendNum f
           then Some (f\<lparr>of_active := False, of_seqNum := 0, of_sendNum := 0\<rparr>) else None
      else Some f)"

subsection \<open>Talking to the server\<close>

text \<open>Asking for the size of a file, by opening it or without; a failed answer leaves size 0.\<close>

fun size_loop ::
  "'w sys \<Rightarrow> (nat \<Rightarrow> bytes) \<Rightarrow> bytes \<Rightarrow> nat \<Rightarrow> 'w \<Rightarrow> tls \<Rightarrow> u64 \<Rightarrow> ('w \<times> tls \<times> u64) option" where
  "size_loop sys fresh packet 0 w t sz = Some (w, t, sz)"
| "size_loop sys fresh packet (Suc n) w t sz =
     do {
       (w, t, sent) \<leftarrow> clientSendRetry sys w t packet;
       if sent then do {
         (w, t, sz, ok) \<leftarrow> recFileSizeMsg sys fresh w t;
         if ok then Some (w, t, sz) else size_loop sys fresh packet n w t sz
       } else size_loop sys fresh packet n w t sz
     }"

definition with_socket ::
  "connection \<Rightarrow> tls \<Rightarrow> (tls \<Rightarrow> ('w \<times> tls \<times> 'r) option) \<Rightarrow> ('w \<times> connection \<times> tls \<times> 'r) option" where
  "with_socket k t talk =
     do {
       (k, t) \<leftarrow> lock_connection k t;
       (w, t, r) \<leftarrow> talk t;
       let (k, t, _) = unlock_connection k t;
       Some (w, k, t, r)
     }"

definition open_on_server ::
  "'w sys \<Rightarrow> (nat \<Rightarrow> bytes) \<Rightarrow> 'w \<Rightarrow> connection \<Rightarrow> tls \<Rightarrow> output_file \<Rightarrow> ('w \<times> connection \<times> tls \<times> u64) option" where
  "open_on_server sys fresh w k t f =
     with_socket k t (\<lambda>t. size_loop sys fresh (openFile_packet (of_name f) 0 (of_compress f) True) socketRetry w t (of_fileSize f))"

text \<open>\<open>openFileOnServer\<close> always answers true, so the file is open whatever the server said.\<close>

definition OutputFile_open ::
  "'w sys \<Rightarrow> (nat \<Rightarrow> bytes) \<Rightarrow> 'w \<Rightarrow> connection option \<Rightarrow> tls \<Rightarrow> output_file \<Rightarrow>
   ('w \<times> connection option \<times> tls \<times> output_file) option" where
  "OutputFile_open sys fresh w con t f =
     (case con of
        None \<Rightarrow> Some (w, con, t, f)
      | Some k \<Rightarrow>
          if of_active f then Some (w, con, t, f)
          else do {
            (w, k, t, sz) \<leftarrow> open_on_server sys fresh w k t f;
            Some (w, Some k, t, f\<lparr>of_active := True, of_fileSize := sz\<rparr>)
          })"

definition close_on_server ::
  "'w sys \<Rightarrow> (nat \<Rightarrow> bytes) \<Rightarrow> 'w \<Rightarrow> connection \<Rightarrow> tls \<Rightarrow> bytes \<Rightarrow> ('w \<times> connection \<times> tls \<times> bool) option" where
  "close_on_server sys fresh w k t name =
     with_socket k t (\<lambda>t. do {
       (w, t, ret) \<leftarrow> clientSendRetry sys w t (closeFile_packet name);
       (w, _) \<leftarrow> recAckMsg sys fresh w t CLOSE_FILE_MSG;
       Some (w, t, ret)
     })"

definition OutputFile_fileSize ::
  "'w sys \<Rightarrow> (nat \<Rightarrow> bytes) \<Rightarrow> 'w \<Rightarrow> connection option \<Rightarrow> tls \<Rightarrow> output_file \<Rightarrow>
   ('w \<times> connection option \<times> tls \<times> u64) option" where
  "OutputFile_fileSize sys fresh w con t f =
     (if of_active f then Some (w, con, t, of_fileSize f)
      else case con of
          None \<Rightarrow> Some (w, con, t, 0)
        | Some k \<Rightarrow>
            map_option (\<lambda>(w, k, t, sz). (w, Some k, t, sz))
              (with_socket k t (\<lambda>t. size_loop sys fresh (requestFileSize_packet (of_name f)) socketRetry w t 0)))"

subsection \<open>What has been written\<close>

abbreviation offset_of :: "output_file \<Rightarrow> nat" where
  "offset_of f \<equiv> unat (of_messageOffset f)"

definition chunk_data :: "nat \<Rightarrow> chunk \<Rightarrow> bytes" where
  "chunk_data off c = take (unat (ck_size c)) (drop off (ck_buf c))"

text \<open>The bytes of all writes so far: those of the chunks and those in the buffer.\<close>

definition out_stream :: "output_file \<Rightarrow> bytes" where
  "out_stream f = concat (map (chunk_data (offset_of f)) (of_tasks f)) @
     take (unat (of_bufferCnt f)) (drop (offset_of f) (of_buffer f))"

fun placed :: "u64 \<Rightarrow> chunk list \<Rightarrow> bool" where
  "placed fp [] \<longleftrightarrow> True"
| "placed fp (c # cs) \<longleftrightarrow> ck_fp c = fp \<and> placed (fp + ck_size c) cs"

definition chunk_ok :: "nat \<Rightarrow> chunk \<Rightarrow> bool" where
  "chunk_ok off c \<longleftrightarrow> length (ck_buf c) = unat outputFileBufferSize \<and>
     off + unat (ck_size c) \<le> unat outputFileBufferSize \<and> ck_compSize c = ck_size c"

definition out_ok :: "output_file \<Rightarrow> bool" where
  "out_ok f \<longleftrightarrow>
     length (of_buffer f) = unat outputFileBufferSize \<and> offset_of f < unat outputFileBufferSize \<and>
     unat (of_bufferIndex f) = offset_of f + unat (of_bufferCnt f) \<and>
     offset_of f + unat (of_bufferCnt f) \<le> unat outputFileBufferSize \<and>
     (\<forall>c \<in> set (of_tasks f). chunk_ok (offset_of f) c) \<and>
     map ck_seq (of_tasks f) = map of_nat [0..<length (of_tasks f)] \<and>
     of_seqNum f = of_nat (length (of_tasks f))"

text \<open>The chunks follow each other without gaps from the start of the file.\<close>

definition gapless :: "output_file \<Rightarrow> bool" where
  "gapless f \<longleftrightarrow> placed 0 (of_tasks f) \<and> of_bufferFp f = (\<Sum>c\<leftarrow>of_tasks f. ck_size c)"

definition bufs :: "(u32 \<Rightarrow> bytes) \<Rightarrow> bool" where
  "bufs new_buf \<longleftrightarrow> (\<forall>n. length (new_buf n) = unat outputFileBufferSize)"

lemma unat_outputFileBufferSize: "unat outputFileBufferSize = 16777216"
  by (simp add: outputFileBufferSize_def)

lemma unat_ucast_u64: "unat (ucast (w :: u32) :: u64) = unat w"
  using unat_bound [of w] by (intro unat_ucast_small) simp

lemma placed_append: "placed fp (cs @ [c]) \<longleftrightarrow> placed fp cs \<and> ck_fp c = fp + (\<Sum>c\<leftarrow>cs. ck_size c)"
  by (induction cs arbitrary: fp) (auto simp: add.assoc)

text \<open>Flushing a buffer that is complete, and starting the next one behind it.\<close>

definition drain :: "(u32 \<Rightarrow> bytes) \<Rightarrow> output_file \<Rightarrow> output_file" where
  "drain new_buf f = (flush new_buf f)\<lparr>of_bufferIndex := ucast (of_messageOffset f),
     of_bufferFp := of_bufferFp f + of_bufferCnt f, of_bufferCnt := 0\<rparr>"

lemma drain_sel [simp]:
  "of_messageOffset (drain nb f) = of_messageOffset f" "of_active (drain nb f) = of_active f"
  "of_filePos (drain nb f) = of_filePos f" "of_fileSize (drain nb f) = of_fileSize f"
  "of_name (drain nb f) = of_name f" "of_compress (drain nb f) = of_compress f" "of_bufferCnt (drain nb f) = 0"
  "of_bufferFp (drain nb f) = of_bufferFp f + of_bufferCnt f" "of_sendNum (drain nb f) = of_sendNum f"
  by (simp_all add: drain_def flush_def Let_def)

lemma drain_index: "drain nb (f\<lparr>of_bufferIndex := i\<rparr>) = drain nb f"
  by (simp add: drain_def flush_def Let_def)

lemma drain_ok:
  assumes "bufs nb" "out_ok f"
  shows "out_ok (drain nb f)" "out_stream (drain nb f) = out_stream f" "gapless f \<Longrightarrow> gapless (drain nb f)"
proof -
  show "out_ok (drain nb f)"
    using assms
    by (auto simp: out_ok_def drain_def flush_def Let_def chunk_ok_def bufs_def unat_ucast_u64)
  show "out_stream (drain nb f) = out_stream f"
    by (simp add: out_stream_def drain_def flush_def Let_def chunk_data_def)
  show "gapless f \<Longrightarrow> gapless (drain nb f)"
    by (simp add: gapless_def drain_def flush_def Let_def placed_append)
qed

text \<open>The members that the loop leaves alone.\<close>

definition unchanged :: "output_file \<Rightarrow> u32 \<times> u64 list \<times> bool \<times> bytes \<times> bool \<times> u64 \<times> u32" where
  "unchanged f = (of_messageOffset f, of_filePos f, of_active f, of_name f, of_compress f, of_fileSize f, of_sendNum f)"

lemma unchanged_drain [simp]: "unchanged (drain nb f) = unchanged f"
  by (simp add: unchanged_def)

text \<open>Copying the next \<open>n\<close> bytes of the caller into the buffer.\<close>

lemma fill_ok:
  assumes "out_ok f" "offset_of f + unat (of_bufferCnt f) + unat n \<le> unat outputFileBufferSize"
    "unat sent + unat n \<le> length buf"
  shows "\<exists>f'. fill buf sent n f = Some f' \<and> out_ok (f'\<lparr>of_bufferIndex := of_bufferIndex f' + n\<rparr>) \<and>
    out_stream (f'\<lparr>of_bufferIndex := of_bufferIndex f' + n\<rparr>) = out_stream f @ take (unat n) (drop (unat sent) buf) \<and>
    of_bufferCnt f' = of_bufferCnt f + n \<and> of_bufferFp f' = of_bufferFp f \<and> of_tasks f' = of_tasks f \<and>
    unchanged f' = unchanged f"
proof -
  let ?i = "unat (of_bufferIndex f)"
  define b where "b = take ?i (of_buffer f) @ take (unat n) (drop (unat sent) buf) @ drop (?i + unat n) (of_buffer f)"
  have i: "?i = offset_of f + unat (of_bufferCnt f)" "length (of_buffer f) = unat outputFileBufferSize"
    using assms(1) by (simp_all add: out_ok_def)
  have m: "memcpy (of_buffer f) ?i buf (unat sent) (unat n) = Some b"
    using assms(2,3) i by (simp add: memcpy_Some_iff b_def)
  have small: "unat (of_bufferCnt f + n) = unat (of_bufferCnt f) + unat n" "unat (of_bufferIndex f + n) = ?i + unat n"
    using assms(2) i unat_outputFileBufferSize by (simp_all add: unat_add_small)
  have lb: "length b = length (of_buffer f)" by (rule length_memcpy [OF m])
  have "take (unat (of_bufferCnt f) + unat n) (drop (offset_of f) b)
      = take (unat (of_bufferCnt f)) (drop (offset_of f) (of_buffer f)) @ take (unat n) (drop (unat sent) buf)"
    using assms(2,3) i by (simp add: b_def take_drop add.commute)
  then show ?thesis
    using m assms(1,2) small lb i by (auto simp: fill_def out_ok_def out_stream_def unchanged_def)
qed

text \<open>The loop of \<open>write\<close> when the buffer ends where the write begins.\<close>

lemma write_loop_ok:
  assumes "bufs nb" "out_ok f" "of_bufferCnt f + of_bufferFp f = fp + sent"
    "unat sent + unat n = length buf" "length buf < 2 ^ 64"
  shows "\<exists>f' sent' n'. write_loop nb buf fp f sent n (outputFileBufferSize - of_bufferIndex f) = Some (f', sent', n') \<and>
    out_ok f' \<and> of_bufferCnt f' + of_bufferFp f' = fp + sent' \<and> unat sent' + unat n' = length buf \<and>
    sent + n = sent' + n' \<and>
    offset_of f' + unat (of_bufferCnt f') + unat n' \<le> unat outputFileBufferSize \<and>
    out_stream f' @ drop (unat sent') buf = out_stream f @ drop (unat sent) buf \<and> (gapless f \<longrightarrow> gapless f') \<and>
    unchanged f' = unchanged f"
  using assms
proof (induction "2 * unat n + of_bool (of_bufferIndex f = outputFileBufferSize)" arbitrary: f sent n rule: less_induct)
  case less
  note unf = write_loop.simps [of nb buf fp f sent n]
  let ?space = "outputFileBufferSize - of_bufferIndex f"
  have idx: "unat (of_bufferIndex f) = offset_of f + unat (of_bufferCnt f)" "of_bufferIndex f \<le> outputFileBufferSize"
      "offset_of f < unat outputFileBufferSize"
    using less.prems(2) by (auto simp: out_ok_def word_le_nat_alt)
  have sp: "unat ?space = unat outputFileBufferSize - unat (of_bufferIndex f)" by (rule unat_diff_le [OF idx(2)])
  show ?case
  proof (cases "?space < n")
    case False
    then have "unat n \<le> unat ?space" by (simp add: word_le_nat_alt [symmetric] not_less)
    then have "offset_of f + unat (of_bufferCnt f) + unat n \<le> unat outputFileBufferSize"
      using idx sp by (simp add: word_le_nat_alt)
    moreover have "write_loop nb buf fp f sent n ?space = Some (f, sent, n)"
      using False less.prems(3) by (subst unf) simp
    ultimately show ?thesis using less.prems(2-4) by simp
  next
    case True
    then have lt: "unat ?space < unat n" by (simp add: word_less_nat_alt)
    have fits: "offset_of f + unat (of_bufferCnt f) + unat ?space \<le> unat outputFileBufferSize" "unat sent + unat ?space \<le> length buf"
      using idx sp lt less.prems(4) by (simp_all add: word_le_nat_alt)
    obtain g where g: "fill buf sent ?space f = Some g" "out_ok (g\<lparr>of_bufferIndex := of_bufferIndex g + ?space\<rparr>)"
        "out_stream (g\<lparr>of_bufferIndex := of_bufferIndex g + ?space\<rparr>) = out_stream f @ take (unat ?space) (drop (unat sent) buf)"
        "of_bufferCnt g = of_bufferCnt f + ?space" "of_bufferFp g = of_bufferFp f" "of_tasks g = of_tasks f"
        "unchanged g = unchanged f"
      using fill_ok [OF less.prems(2) fits] by blast
    let ?h = "drain nb g"
    have h: "out_ok ?h" "out_stream ?h = out_stream f @ take (unat ?space) (drop (unat sent) buf)"
        "gapless f \<longrightarrow> gapless ?h"
      using drain_ok [OF less.prems(1) g(2)] g(3,5,6) unfolding drain_index by (simp_all add: gapless_def)
    have nlt: "\<not> n < ?space" using True by simp
    have step: "write_loop nb buf fp f sent n ?space
        = write_loop nb buf fp ?h (sent + ?space) (n - ?space) (outputFileBufferSize - of_bufferIndex ?h)"
      using True g(1) nlt by (subst unf) (simp add: drain_def flush_def Let_def)
    have sn: "unat (sent + ?space) = unat sent + unat ?space" "unat (n - ?space) = unat n - unat ?space"
      using lt fits(2) less.prems(5) by (simp_all add: unat_add_small unat_diff_le word_le_nat_alt)
    have "of_bufferFp g + of_bufferCnt g = (of_bufferCnt f + of_bufferFp f) + ?space"
      unfolding g(4,5) by (simp only: ac_simps)
    then have ih_prems: "of_bufferCnt ?h + of_bufferFp ?h = fp + (sent + ?space)"
        "unat (sent + ?space) + unat (n - ?space) = length buf"
      using less.prems(4) sn lt unfolding less.prems(3) by (simp_all add: ac_simps)
    have hi: "unat (of_bufferIndex ?h) = offset_of ?h" "offset_of ?h < unat outputFileBufferSize"
      using h(1) by (simp_all add: out_ok_def)
    then have ne: "of_bufferIndex ?h \<noteq> outputFileBufferSize" by auto
    have dec: "2 * unat (n - ?space) + of_bool (of_bufferIndex ?h = outputFileBufferSize)
        < 2 * unat n + of_bool (of_bufferIndex f = outputFileBufferSize)"
    proof -
      have "of_bufferIndex f = outputFileBufferSize \<or> 0 < unat ?space" by (metis eq_iff_diff_eq_0 unat_gt_0)
      then show ?thesis unfolding sn(2) using ne lt by auto
    qed
    from less.hyps [OF dec less.prems(1) h(1) ih_prems less.prems(5)]
    obtain f' sent' n' where ih: "write_loop nb buf fp ?h (sent + ?space) (n - ?space) (outputFileBufferSize - of_bufferIndex ?h)
          = Some (f', sent', n')" "out_ok f'" "of_bufferCnt f' + of_bufferFp f' = fp + sent'"
        "unat sent' + unat n' = length buf" "sent + ?space + (n - ?space) = sent' + n'"
        "offset_of f' + unat (of_bufferCnt f') + unat n' \<le> unat outputFileBufferSize"
        "out_stream f' @ drop (unat sent') buf = out_stream ?h @ drop (unat (sent + ?space)) buf"
        "gapless ?h \<longrightarrow> gapless f'" "unchanged f' = unchanged ?h"
      by blast
    have "drop (unat sent + unat ?space) buf = drop (unat ?space) (drop (unat sent) buf)" by (simp add: add.commute)
    then have "out_stream ?h @ drop (unat (sent + ?space)) buf = out_stream f @ drop (unat sent) buf"
      unfolding h(2) sn by (simp del: drop_drop)
    then show ?thesis
      unfolding step using ih h(3) g(7) by (intro exI conjI) (assumption | simp)+
  qed
qed

text \<open>Where the next byte of the buffer belongs.\<close>

definition next_pos :: "output_file \<Rightarrow> u64" where
  "next_pos f = of_bufferFp f + of_bufferCnt f"

lemma write_file_ok:
  assumes "bufs nb" "out_ok f" "of_active f" "index < length (of_filePos f)"
    "next_pos f = of_filePos f ! index" "length buf < 2 ^ 64"
  shows "\<exists>f'. write_file nb idle buf index f = Some (f', of_nat (length buf)) \<and> out_ok f' \<and>
    out_stream f' = out_stream f @ buf \<and> next_pos f' = next_pos f + of_nat (length buf) \<and>
    of_filePos f' = (of_filePos f)[index := next_pos f'] \<and> (gapless f \<longrightarrow> gapless f') \<and> of_active f' \<and>
    of_name f' = of_name f \<and> of_messageOffset f' = of_messageOffset f \<and> of_sendNum f' = of_sendNum f \<and>
    (idle \<longrightarrow> of_bufferCnt f' = 0)"
proof -
  let ?n = "of_nat (length buf) :: u64" and ?fp = "of_filePos f ! index"
  let ?g0 = "f\<lparr>of_filePos := (of_filePos f)[index := ?fp + ?n]\<rparr>"
  let ?g = "if of_fileSize ?g0 < ?fp + ?n then ?g0\<lparr>of_fileSize := ?fp + ?n + 1\<rparr> else ?g0"
  have n: "unat ?n = length buf" using assms(6) by (intro unat_of_nat_small) simp
  have g: "out_ok ?g" "out_stream ?g = out_stream f" "gapless ?g = gapless f"
      "of_bufferCnt ?g + of_bufferFp ?g = ?fp + 0"
    using assms(2,5) by (simp_all add: out_ok_def out_stream_def gapless_def next_pos_def add.commute)
  from write_loop_ok [OF assms(1) g(1) g(4), of ?n buf] assms(6) n
  obtain h sent k where h: "write_loop nb buf ?fp ?g 0 ?n (outputFileBufferSize - of_bufferIndex ?g) = Some (h, sent, k)"
      "out_ok h" "of_bufferCnt h + of_bufferFp h = ?fp + sent" "unat sent + unat k = length buf" "?n = sent + k"
      "offset_of h + unat (of_bufferCnt h) + unat k \<le> unat outputFileBufferSize"
      "out_stream h @ drop (unat sent) buf = out_stream ?g @ buf" "gapless ?g \<longrightarrow> gapless h" "unchanged h = unchanged ?g"
    by auto
  have le: "unat sent + unat k \<le> length buf" using h(4) by simp
  obtain g' where g': "fill buf sent k h = Some g'" "out_ok (g'\<lparr>of_bufferIndex := of_bufferIndex g' + k\<rparr>)"
      "out_stream (g'\<lparr>of_bufferIndex := of_bufferIndex g' + k\<rparr>) = out_stream h @ take (unat k) (drop (unat sent) buf)"
      "of_bufferCnt g' = of_bufferCnt h + k" "of_bufferFp g' = of_bufferFp h" "of_tasks g' = of_tasks h"
      "unchanged g' = unchanged h"
    using fill_ok [OF h(2,6) le] by blast
  let ?u = "g'\<lparr>of_bufferIndex := of_bufferIndex g' + k\<rparr>"
  have nxt: "next_pos ?u = ?fp + ?n" using h(3,5) g'(4,5) by (simp add: next_pos_def algebra_simps)
  have str: "out_stream ?u = out_stream f @ buf"
    using g'(3) h(4,7) g(2) by simp
  have gap: "gapless f \<longrightarrow> gapless ?u" using h(8) g(3) g'(5,6) by (simp add: gapless_def)
  have sel: "of_messageOffset g' = of_messageOffset f" "of_filePos g' = (of_filePos f)[index := ?fp + ?n]"
      "of_active g' = of_active f" "of_name g' = of_name f" "of_sendNum g' = of_sendNum f"
    using g'(7) h(9) by (simp_all add: unchanged_def split: if_splits)
  have dr: "(flush nb ?u)\<lparr>of_bufferIndex := ucast (of_messageOffset ?u), of_bufferCnt := 0, of_bufferFp := ?fp + ?n\<rparr> = drain nb ?u"
    using nxt by (simp add: drain_def flush_def Let_def next_pos_def)
  have w: "write_file nb idle buf index f = Some (if idle then drain nb ?u else ?u, ?n)"
    using assms(3,4) h(1) g'(1) dr by (simp add: write_file_def Let_def)
  show ?thesis
  proof (cases idle)
    case True
    then show ?thesis
      using w drain_ok [OF assms(1) g'(2)] str gap nxt sel assms(3,5) by (auto simp: next_pos_def)
  next
    case False
    then show ?thesis using w g'(2) str gap nxt sel assms(3,5) by (auto simp: next_pos_def)
  qed
qed

text \<open>Without that position the difference never changes, so the loop does not end.\<close>

lemma write_loop_ends:
  "write_loop nb buf fp f sent n space = Some r \<Longrightarrow> next_pos f = fp + sent"
proof (erule write_loop.raw_induct [where P = "\<lambda>nb buf fp f sent n space r. next_pos f = fp + sent", rotated])
  fix rec nb buf fp f sent n space r
  assume 1: "\<And>nb buf fp f sent n space y. rec nb buf fp f sent n space = Some y \<Longrightarrow> next_pos f = fp + sent"
    "(if space < n \<or> of_bufferCnt f + of_bufferFp f \<noteq> fp + sent
      then let spaceAvail = (if n < space then n else space)
           in case fill buf sent spaceAvail f of
               None \<Rightarrow> None
             | Some f \<Rightarrow>
                 let f = flush nb f;
                     f = f\<lparr>of_bufferIndex := ucast (of_messageOffset f),
                           of_bufferFp := of_bufferFp f + of_bufferCnt f, of_bufferCnt := 0\<rparr>
                 in rec nb buf fp f (sent + spaceAvail) (n - spaceAvail) (outputFileBufferSize - of_bufferIndex f)
      else Some (f, sent, n)) = Some r"
  show "next_pos f = fp + sent"
  proof (cases "space < n \<or> of_bufferCnt f + of_bufferFp f \<noteq> fp + sent")
    case False
    then show ?thesis by (simp add: next_pos_def add.commute)
  next
    case True
    let ?k = "if n < space then n else space"
    obtain g where g: "fill buf sent ?k f = Some g"
      using 1(2) True by (cases "fill buf sent ?k f") (simp_all add: Let_def)
    then have eq: "of_bufferCnt g = of_bufferCnt f + ?k" "of_bufferFp g = of_bufferFp f"
      by (auto simp: fill_def split: option.splits)
    have "rec nb buf fp (drain nb g) (sent + ?k) (n - ?k) (outputFileBufferSize - ucast (of_messageOffset g)) = Some r"
      using 1(2) True g by (simp add: drain_def flush_def Let_def)
    from 1(1) [OF this] have "of_bufferFp g + of_bufferCnt g = fp + (sent + ?k)" by (simp add: next_pos_def)
    then show ?thesis unfolding eq by (simp add: next_pos_def add.assoc [symmetric])
  qed
qed

subsection \<open>Messages\<close>

text \<open>The write message of a chunk, as \<open>addTransferTask\<close> asks \<open>sendWriteMsg\<close> for it.\<close>

definition chunk_message :: "bytes \<Rightarrow> chunk \<Rightarrow> bytes option" where
  "chunk_message name c = write_packet (ck_buf c) name (ucast (ck_size c)) (ucast (ck_compSize c)) (ck_fp c) (ck_seq c)"

text \<open>What the task does when its number is next; a failure is logged and the chunk is lost.\<close>

definition send_chunk ::
  "'w sys \<Rightarrow> (nat \<Rightarrow> bytes) \<Rightarrow> 'w \<Rightarrow> connection \<Rightarrow> tls \<Rightarrow> bytes \<Rightarrow> chunk \<Rightarrow> ('w \<times> connection \<times> tls \<times> bool) option" where
  "send_chunk sys fresh w k t name c =
     with_socket k t (\<lambda>t. do {
       p \<leftarrow> chunk_message name c;
       (w, t, sent) \<leftarrow> clientSendRetry sys w t p;
       if sent then do {
         (w, acked) \<leftarrow> recAckMsg sys fresh w t WRITE_MSG;
         Some (w, t, acked)
       } else Some (w, t, False)
     })"

text \<open>
  \<open>compress\<close> puts the compressed data behind the room for the header of a new buffer. \<open>lz4\<close> is
  \<open>LZ4_compress\<close>, \<open>bound\<close> is \<open>LZ4_compressBound\<close>.
\<close>

definition compress_chunk ::
  "(bytes \<Rightarrow> bytes) \<Rightarrow> (nat \<Rightarrow> nat) \<Rightarrow> (nat \<Rightarrow> bytes) \<Rightarrow> nat \<Rightarrow> chunk \<Rightarrow> chunk option" where
  "compress_chunk lz4 bound fresh off c =
     do {
       src \<leftarrow> mem_slice off (unat (ck_size c)) (ck_buf c);
       buf \<leftarrow> blit (fresh (bound (unat (ck_size c)) + off)) off (lz4 src);
       Some (c\<lparr>ck_buf := buf, ck_compSize := ucast (of_nat (length (lz4 src)) :: u32)\<rparr>)
     }"

lemma three_parts: "xs = take a xs @ take n (drop a xs) @ drop (a + n) xs"
proof -
  have "drop (a + n) xs = drop n (drop a xs)" by (simp add: add.commute)
  then show ?thesis by (simp del: drop_drop)
qed

lemma chunk_message_ok:
  assumes "chunk_ok (41 + length name) c" "0 \<notin> set name"
  shows "\<exists>p. chunk_message name c = Some p \<and> length p = 41 + length name + unat (ck_size c) \<and> accepted p \<and>
    parseWriteMsg p = Some (name, 41 + length name, ucast (ck_size c), ucast (ck_size c), ck_fp c) \<and>
    mem_slice (41 + length name) (unat (ck_size c)) p = Some (chunk_data (41 + length name) c)"
proof -
  let ?off = "41 + length name" and ?n = "unat (ck_size c)"
  let ?room = "take ?off (ck_buf c)" and ?data = "chunk_data ?off c" and ?slack = "drop (?off + ?n) (ck_buf c)"
  have len: "length (ck_buf c) = 16777216" "?off + ?n \<le> 16777216" "ck_compSize c = ck_size c"
    using assms(1) by (simp_all add: chunk_ok_def unat_outputFileBufferSize)
  have data: "length ?data = ?n" "length ?room = 40 + length name + 1" using len by (simp_all add: chunk_data_def)
  have eq: "ck_buf c = ?room @ ?data @ ?slack"
    unfolding chunk_data_def by (rule three_parts)
  have sz: "ucast (ck_size c) = (of_nat (length ?data) :: u32)" unfolding data by simp
  have u: "unat (ucast (ck_size c) :: u32) = ?n" using len by (intro unat_ucast_small) simp
  have tot: "length name + length ?data + 41 < 2 ^ 32" using len data by simp
  from write_packet_ok [OF assms(2) data(2) tot sz, of ?slack "ucast (ck_compSize c)" "ck_fp c" "ck_seq c"]
  show ?thesis unfolding chunk_message_def eq [symmetric] u len(3) data(1) accepted_def by simp
qed

subsection \<open>Sequences of writes\<close>

text \<open>Writes through one file position; for each, whether it found the transfer pool idle.\<close>

fun write_all :: "(u32 \<Rightarrow> bytes) \<Rightarrow> nat \<Rightarrow> (bytes \<times> bool) list \<Rightarrow> output_file \<Rightarrow> output_file option" where
  "write_all nb index [] f = Some f"
| "write_all nb index ((buf, idle) # ws) f =
     (case write_file nb idle buf index f of
        None \<Rightarrow> None
      | Some (f, _) \<Rightarrow> write_all nb index ws f)"

definition writing :: "nat \<Rightarrow> output_file \<Rightarrow> bool" where
  "writing index f \<longleftrightarrow> out_ok f \<and> of_active f \<and> index < length (of_filePos f) \<and>
     next_pos f = of_filePos f ! index"

lemma write_all_ok:
  assumes "bufs nb" "writing index f" "\<forall>(buf, idle) \<in> set ws. length buf < 2 ^ 64"
  shows "\<exists>f'. write_all nb index ws f = Some f' \<and> writing index f' \<and>
    out_stream f' = out_stream f @ concat (map fst ws) \<and> (gapless f \<longrightarrow> gapless f') \<and>
    of_name f' = of_name f \<and> of_messageOffset f' = of_messageOffset f \<and> of_sendNum f' = of_sendNum f"
  using assms(2,3)
proof (induction ws arbitrary: f)
  case (Cons w ws)
  obtain buf idle where w: "w = (buf, idle)" by fastforce
  have wr: "out_ok f" "of_active f" "index < length (of_filePos f)" "next_pos f = of_filePos f ! index"
    and len: "length buf < 2 ^ 64" using Cons.prems w by (auto simp: writing_def)
  obtain g where g: "write_file nb idle buf index f = Some (g, of_nat (length buf))" "out_ok g"
      "out_stream g = out_stream f @ buf" "of_filePos g = (of_filePos f)[index := next_pos g]" "of_active g"
      "gapless f \<longrightarrow> gapless g" "of_name g = of_name f" "of_messageOffset g = of_messageOffset f" "of_sendNum g = of_sendNum f"
    using write_file_ok [OF assms(1) wr len, of idle] by blast
  have "writing index g" using g(2,4,5) wr(3) by (simp add: writing_def)
  moreover have "\<forall>(buf, idle) \<in> set ws. length buf < 2 ^ 64" using Cons.prems(2) by simp
  ultimately obtain f' where "write_all nb index ws g = Some f'" "writing index f'"
      "out_stream f' = out_stream g @ concat (map fst ws)" "gapless g \<longrightarrow> gapless f'" "of_name f' = of_name g"
      "of_messageOffset f' = of_messageOffset g" "of_sendNum f' = of_sendNum g"
    using Cons.IH [of g] by blast
  then show ?case using g w by simp
qed simp

lemma new_output_file_ok:
  assumes "length buffer = unat outputFileBufferSize" "length name < 2 ^ 20"
  shows "writing 0 ((new_output_file name c buffer)\<lparr>of_active := True\<rparr>)" "gapless (new_output_file name c buffer)"
    "offset_of (new_output_file name c buffer) = 41 + length name" "out_stream (new_output_file name c buffer) = []"
proof -
  have n: "unat (of_nat sizeof_writeMsg + of_nat (length name) + 1 :: u32) = 41 + length name"
  proof -
    have "of_nat sizeof_writeMsg + of_nat (length name) + 1 = (of_nat (41 + length name) :: u32)" by simp
    moreover have "unat (of_nat (41 + length name) :: u32) = 41 + length name"
      using assms(2) by (intro unat_of_nat_small) simp
    ultimately show ?thesis by metis
  qed
  show "writing 0 ((new_output_file name c buffer)\<lparr>of_active := True\<rparr>)"
    using assms n by (simp add: writing_def out_ok_def new_output_file_def Let_def next_pos_def
        unat_outputFileBufferSize unat_ucast_u64)
  show "offset_of (new_output_file name c buffer) = 41 + length name"
    using n by (simp add: new_output_file_def Let_def)
qed (simp_all add: gapless_def new_output_file_def out_stream_def Let_def)

lemma close_flush_ok:
  assumes "writing index f" "gapless f"
  shows "concat (map (chunk_data (offset_of f)) (of_tasks (close_flush nb f))) = out_stream f"
    "placed 0 (of_tasks (close_flush nb f))"
    "\<forall>c \<in> set (of_tasks (close_flush nb f)). chunk_ok (offset_of f) c"
    "map ck_seq (of_tasks (close_flush nb f)) = map of_nat [0..<length (of_tasks (close_flush nb f))]"
    "of_seqNum (close_flush nb f) = of_nat (length (of_tasks (close_flush nb f)))"
proof -
  have z: "of_bufferCnt f = 0" if "\<not> 0 < of_bufferCnt f" using that by (simp add: word_gt_0)
  have ok: "out_ok f" using assms(1) by (simp add: writing_def)
  show "concat (map (chunk_data (offset_of f)) (of_tasks (close_flush nb f))) = out_stream f"
    using z by (auto simp: close_flush_def flush_def Let_def out_stream_def chunk_data_def)
  show "placed 0 (of_tasks (close_flush nb f))"
    using assms(2) by (simp add: close_flush_def flush_def Let_def gapless_def placed_append)
qed (use assms(1) in \<open>auto simp: close_flush_def flush_def Let_def writing_def out_ok_def chunk_ok_def\<close>)

subsection \<open>The transfer pool\<close>

text \<open>
  The tasks of \<open>addTransferTask\<close>: \<open>_sendNum\<close>, the queued chunks in any order, those whose task
  has found its number to be the next and is talking to the server, and those it is done with.
\<close>

type_synonym transfer = "u32 \<times> chunk list \<times> chunk list \<times> chunk list"

inductive xstep :: "transfer \<Rightarrow> transfer \<Rightarrow> bool" where
  XSend: "ck_seq c = sn \<Longrightarrow> xstep (sn, xs @ c # ys, busy, sent) (sn, xs @ ys, c # busy, sent)"
| XRequeue: "ck_seq c \<noteq> sn \<Longrightarrow> xstep (sn, xs @ c # ys, busy, sent) (sn, xs @ ys @ [c], busy, sent)"
| XDone: "xstep (sn, queue, xs @ c # ys, sent) (sn + 1, queue, xs @ ys, sent @ [c])"

definition xstart :: "output_file \<Rightarrow> transfer" where
  "xstart f = (of_sendNum f, of_tasks f, [], [])"

definition in_order :: "chunk list \<Rightarrow> transfer \<Rightarrow> bool" where
  "in_order E x \<longleftrightarrow>
     (case x of (sn, queue, busy, sent) \<Rightarrow>
        \<exists>k \<le> length E. sent = take k E \<and> sn = of_nat k \<and> distinct queue \<and>
          (busy = [] \<and> set queue = set (drop k E) \<or>
           k < length E \<and> busy = [E ! k] \<and> set queue = set (drop (Suc k) E)))"

lemma of_nat_u32_inj:
  assumes "i < 2 ^ 32" "k < 2 ^ 32"
  shows "(of_nat i :: u32) = of_nat k \<longleftrightarrow> i = k"
proof
  assume e: "(of_nat i :: u32) = of_nat k"
  have "unat (of_nat i :: u32) = i" using assms(1) by (intro unat_of_nat_small) simp
  moreover have "unat (of_nat k :: u32) = k" using assms(2) by (intro unat_of_nat_small) simp
  ultimately show "i = k" unfolding e by simp
qed simp

lemma in_order_step:
  assumes "xstep x x'" "in_order E x" and seqs: "map ck_seq E = map of_nat [0..<length E]" and len: "length E < 2 ^ 32"
  shows "in_order E x'"
proof -
  have seq: "ck_seq (E ! i) = of_nat i" if "i < length E" for i
    using arg_cong [OF seqs, of "\<lambda>xs. xs ! i"] that by simp
  have inj: "i = k" if "i < length E" "k < length E" "E ! i = E ! k" for i k
  proof -
    have "(of_nat i :: u32) = of_nat k" using seq [OF that(1)] unfolding that(3) seq [OF that(2)] by (rule sym)
    moreover have "i < 2 ^ 32" "k < 2 ^ 32" using that(1,2) len by linarith+
    ultimately show ?thesis by (simp only: of_nat_u32_inj)
  qed
  have dis: "distinct E" using inj by (auto simp: distinct_conv_nth)
  have later: "ck_seq c \<noteq> of_nat k" if c: "c \<in> set (drop (Suc k) E)" for c k
  proof -
    obtain j where "j < length (drop (Suc k) E)" "drop (Suc k) E ! j = c" using c unfolding in_set_conv_nth by blast
    then have "Suc k + j < length E" "c = E ! (Suc k + j)" by auto
    then have j: "Suc k + j < length E" "ck_seq c = of_nat (Suc k + j)" using seq by blast+
    have "Suc k + j < 2 ^ 32" "k < 2 ^ 32" using j(1) len by linarith+
    then have "(of_nat (Suc k + j) :: u32) \<noteq> of_nat k" by (subst of_nat_u32_inj) simp_all
    then show ?thesis unfolding j(2) .
  qed
  from assms(2) obtain sn queue busy sent k where x: "x = (sn, queue, busy, sent)" and
    k: "k \<le> length E" "sent = take k E" "sn = of_nat k" "distinct queue" and
    phase: "busy = [] \<and> set queue = set (drop k E) \<or> k < length E \<and> busy = [E ! k] \<and> set queue = set (drop (Suc k) E)"
    by (auto simp: in_order_def)
  have first: "drop k E = E ! k # drop (Suc k) E" if "k < length E" using that by (rule Cons_nth_drop_Suc [symmetric])
  from assms(1) show ?thesis
  proof (cases rule: xstep.cases)
    case (XSend c sn' xs ys busy' sent')
    have e: "ck_seq c = of_nat k" "queue = xs @ c # ys" "x' = (of_nat k, xs @ ys, c # busy, sent)"
      using XSend x k(3) by simp_all
    have idle: "busy = []" "set queue = set (drop k E)"
      using phase later [of c k] e(1,2) by auto
    have kl: "k < length E" using idle(2) e(2) by (cases "k < length E") auto
    have cin: "c = E ! k" using idle(2) e(1,2) later [of c k] first [OF kl] by auto
    have "set (xs @ ys) = set queue - {c}" using k(4) e(2) by auto
    also have "\<dots> = set (drop (Suc k) E)"
      using idle(2) first [OF kl] cin distinct_drop [OF dis, of k] by auto
    finally show ?thesis
      using e(2,3) k kl cin idle(1) by (auto simp: in_order_def intro!: exI [of _ k])
  next
    case (XRequeue c sn' xs ys busy' sent')
    then show ?thesis using x k phase by (auto simp: in_order_def intro!: exI [of _ k])
  next
    case (XDone sn' queue' xs c ys sent')
    have b: "busy = [E ! k]" "k < length E" "set queue = set (drop (Suc k) E)"
      using phase x XDone by auto
    have "xs = []" "ys = []" "c = E ! k" using b(1) x XDone by (auto simp: append_eq_Cons_conv)
    then show ?thesis
      using b x XDone k by (auto simp: in_order_def take_Suc_conv_app_nth intro!: exI [of _ "Suc k"])
  qed
qed

lemma in_order_reachable:
  assumes "xstep\<^sup>*\<^sup>* (0, E, [], []) x" "map ck_seq E = map of_nat [0..<length E]" "length E < 2 ^ 32"
  shows "in_order E x"
  using assms(1)
proof (induction rule: rtranclp_induct)
  case base
  have "inj_on (of_nat :: nat \<Rightarrow> u32) (set [0..<length E])"
  proof (rule inj_onI)
    fix i k assume ik: "i \<in> set [0..<length E]" "k \<in> set [0..<length E]" "(of_nat i :: u32) = of_nat k"
    then have "i < 2 ^ 32" "k < 2 ^ 32" using assms(3) by auto
    then show "i = k" using ik(3) by (simp only: of_nat_u32_inj)
  qed
  then have "distinct (map ck_seq E)" unfolding assms(2) distinct_map by simp
  then show ?case by (auto simp: in_order_def distinct_map intro!: exI [of _ 0])
next
  case (step x x')
  show ?case by (rule in_order_step [OF step.hyps(2) step.IH assms(2,3)])
qed

text \<open>
  C28: \<open>write\<close> ends exactly when the data belong where the buffer stops. Its loop keeps
  flushing until the position of the buffer meets that of the write, but the distance of the
  two never changes: so a write through a second file position, or any other that does not
  follow the last one, runs forever, and every write in place returns.
\<close>

theorem write_ends_iff_in_place:
  assumes "bufs nb" "out_ok f" "of_active f" "index < length (of_filePos f)" "length buf < 2 ^ 64"
  shows "(\<exists>r. write_file nb idle buf index f = Some r) \<longleftrightarrow> next_pos f = of_filePos f ! index"
proof
  assume "next_pos f = of_filePos f ! index"
  from write_file_ok [OF assms(1-4) this assms(5)] show "\<exists>r. write_file nb idle buf index f = Some r" by blast
next
  assume ex: "\<exists>r. write_file nb idle buf index f = Some r"
  let ?fp = "of_filePos f ! index" and ?n = "of_nat (length buf)"
  let ?g0 = "f\<lparr>of_filePos := (of_filePos f)[index := ?fp + ?n]\<rparr>"
  let ?g = "if of_fileSize ?g0 < ?fp + ?n then ?g0\<lparr>of_fileSize := ?fp + ?n + 1\<rparr> else ?g0"
  have "write_loop nb buf ?fp ?g 0 ?n (outputFileBufferSize - of_bufferIndex ?g) \<noteq> None"
  proof
    assume "write_loop nb buf ?fp ?g 0 ?n (outputFileBufferSize - of_bufferIndex ?g) = None"
    with ex show False using assms(3,4) by (simp add: write_file_def Let_def)
  qed
  then obtain r where "write_loop nb buf ?fp ?g 0 ?n (outputFileBufferSize - of_bufferIndex ?g) = Some r" by blast
  then have "next_pos ?g = ?fp + 0" by (rule write_loop_ends)
  then show "next_pos f = ?fp" by (simp add: next_pos_def split: if_splits)
qed

definition demo_bufs :: "u32 \<Rightarrow> bytes" where
  "demo_bufs n = replicate (unat outputFileBufferSize) 0"

definition demo_output :: output_file where
  "demo_output = (new_output_file [47, 97] False (demo_bufs 0))\<lparr>of_active := True, of_filePos := [0, 7]\<rparr>"

lemma demo_bufs_ok: "bufs demo_bufs"
  by (simp add: bufs_def demo_bufs_def)

theorem write_ends_iff_in_place_witness:
  "(\<exists>r. write_file demo_bufs False [1, 2, 3] 0 demo_output = Some r) \<and>
   \<not> (\<exists>r. write_file demo_bufs False [1, 2, 3] 1 demo_output = Some r)"
proof -
  have "writing 0 ((new_output_file [47, 97] False (demo_bufs 0))\<lparr>of_active := True\<rparr>)"
    by (rule new_output_file_ok(1)) (simp_all add: demo_bufs_def)
  then have ok: "out_ok demo_output" by (simp add: writing_def out_ok_def demo_output_def)
  have sel: "of_active demo_output" "of_filePos demo_output = [0, 7]" "next_pos demo_output = 0"
    by (simp_all add: demo_output_def next_pos_def new_output_file_def Let_def)
  have "length [1, 2, 3 :: u8] < 2 ^ 64" by simp
  from write_ends_iff_in_place [OF demo_bufs_ok ok sel(1) _ this, of 0 False]
    write_ends_iff_in_place [OF demo_bufs_ok ok sel(1) _ this, of 1 False]
  show ?thesis by (simp add: sel)
qed

end
