(* ===== verification/FileCaches.thy ===== *)
theory FileCaches
  imports CacheCore "HOL-Library.Monad_Syntax"
begin

text \<open>
  The cache level that reads local files, \<^verbatim>\<open>src/caches/LocalFileCache.cpp\<close>. The files are a map
  from names to contents; the bytes of a new buffer that nobody has written are the parameter
  \<open>fresh\<close>.
\<close>

type_synonym files = "bytes \<rightharpoonup> bytes"

text \<open>
  An \<open>ifstream\<close>: the name of its file, and \<open>failbit\<close>, which a read sets that meets the end of
  the file and which makes all later reads do nothing (nothing clears it).
\<close>

record fstream =
  st_name :: bytes
  st_failed :: bool

text \<open>\<open>_fileMap\<close> (block size and file size of a file) and \<open>_fstreamMap\<close>, with \<open>None\<close> for the NULL stream.\<close>

record local_cache =
  lc_level :: nat
  lc_fileMap :: "u32 \<rightharpoonup> bytes \<times> u64 \<times> u64"
  lc_fstreamMap :: "u32 \<rightharpoonup> fstream option"

definition new_local_cache :: "nat \<Rightarrow> local_cache" where
  "new_local_cache level = \<lparr>lc_level = level, lc_fileMap = Map.empty, lc_fstreamMap = Map.empty\<rparr>"

definition local_addFile :: "files \<Rightarrow> u32 \<Rightarrow> bytes \<Rightarrow> u64 \<Rightarrow> u64 \<Rightarrow> local_cache \<Rightarrow> local_cache" where
  "local_addFile fs index filename blockSize fileSize c =
     (if lc_fileMap c index = None
      then c\<lparr>lc_fileMap := (lc_fileMap c)(index \<mapsto> (filename, blockSize, fileSize)),
             lc_fstreamMap := (if lc_fstreamMap c index = None
               then (lc_fstreamMap c)(index \<mapsto>
                 (if fs filename = None then None else Some \<lparr>st_name = filename, st_failed = False\<rparr>))
               else lc_fstreamMap c)\<rparr>
      else c)"

text \<open>\<open>seekg\<close> and \<open>read\<close> of \<open>n\<close> bytes into the front of \<open>buff\<close>.\<close>

definition stream_read :: "files \<Rightarrow> fstream \<Rightarrow> nat \<Rightarrow> nat \<Rightarrow> bytes \<Rightarrow> (fstream \<times> bytes) option" where
  "stream_read fs st off n buff =
     (if st_failed st then Some (st, buff)
      else let content = (case fs (st_name st) of None \<Rightarrow> [] | Some d \<Rightarrow> d);
               d = take n (drop off content)
           in map_option (\<lambda>b. (st\<lparr>st_failed := length d < n\<rparr>, b)) (blit buff 0 d))"

text \<open>
  \<open>getBlockData\<close>: the sums and products are of 32 bits in \<open>blkIndex + 1\<close> and of 64 bits else.
  \<open>None\<close>: the read overruns the buffer.
\<close>

definition local_getBlockData ::
  "files \<Rightarrow> bytes \<Rightarrow> fstream \<Rightarrow> u32 \<Rightarrow> u64 \<Rightarrow> u64 \<Rightarrow> (fstream \<times> bytes) option" where
  "local_getBlockData fs buff st blkIndex blkSize fileSize =
     (let offset = ucast blkIndex * blkSize;
          sz = (if fileSize < ucast (blkIndex + 1) * blkSize then fileSize - offset else blkSize)
      in stream_read fs st (unat offset) (unat sz) buff)"

datatype local_outcome = LHit bytes | LNext

text \<open>
  \<open>readBlock\<close>: a hit when the file has an open stream, else the request goes to the next level.
  \<open>operator[]\<close> adds missing entries to both maps. A hit fills in the request.
\<close>

definition local_readBlock ::
  "files \<Rightarrow> bytes \<Rightarrow> u64 \<Rightarrow> CacheType \<Rightarrow> request \<Rightarrow> local_cache \<Rightarrow> (local_cache \<times> request \<times> local_outcome) option" where
  "local_readBlock fs buff localFileBlockSize ty req c =
     (let req = req\<lparr>r_originating := lc_level c, r_origType := ty\<rparr>;
          index = r_fileIndex req;
          file = (case lc_fileMap c index of Some e \<Rightarrow> e | None \<Rightarrow> ([], 0, 0));
          st = (case lc_fstreamMap c index of Some s \<Rightarrow> s | None \<Rightarrow> None);
          c = c\<lparr>lc_fileMap := (lc_fileMap c)(index \<mapsto> file), lc_fstreamMap := (lc_fstreamMap c)(index \<mapsto> st)\<rparr>
      in case st of
           None \<Rightarrow> Some (c, req, LNext)
         | Some s \<Rightarrow>
             map_option (\<lambda>(s, d). (c\<lparr>lc_fstreamMap := (lc_fstreamMap c)(index \<mapsto> Some s)\<rparr>,
                 req\<lparr>r_data := DBuf d, r_reservedMap := (r_reservedMap req)(lc_level c := 1), r_ready := True\<rparr>, LHit d))
               (local_getBlockData fs buff s (r_blkIndex req) localFileBlockSize (snd (snd file))))"

text \<open>\<open>writeBlock\<close>: the request is freed when it comes from here, else it is passed on.\<close>

definition source_writeBlock :: "nat \<Rightarrow> (request \<Rightarrow> 'n \<Rightarrow> 'n \<times> bool) option \<Rightarrow> request \<Rightarrow> 'n \<Rightarrow> 'n \<times> bool" where
  "source_writeBlock level nextLevel req n =
     (if r_originating req = level then (n, True)
      else case nextLevel of None \<Rightarrow> (n, True) | Some write \<Rightarrow> write req n)"

text \<open>\<open>removeFile\<close> closes the stream through its pointer; \<open>None\<close>: it is NULL.\<close>

definition local_removeFile :: "u32 \<Rightarrow> local_cache \<Rightarrow> local_cache option" where
  "local_removeFile index c =
     (case lc_fstreamMap c index of
        Some (Some s) \<Rightarrow>
          Some (c\<lparr>lc_fileMap := (lc_fileMap c)(index := None), lc_fstreamMap := (lc_fstreamMap c)(index := None)\<rparr>)
      | _ \<Rightarrow> None)"

text \<open>A file that is registered, present in full and whose stream is good.\<close>

definition serves :: "files \<Rightarrow> u32 \<Rightarrow> bytes \<Rightarrow> local_cache \<Rightarrow> bool" where
  "serves fs index content c \<longleftrightarrow>
     (\<exists>name bs. lc_fileMap c index = Some (name, bs, of_nat (length content)) \<and>
        lc_fstreamMap c index = Some (Some \<lparr>st_name = name, st_failed = False\<rparr>) \<and>
        fs name = Some content)"

lemma local_addFile_serves:
  assumes "fs name = Some content" "lc_fileMap c index = None" "lc_fstreamMap c index = None"
  shows "serves fs index content (local_addFile fs index name bs (of_nat (length content)) c)"
  using assms by (simp add: serves_def local_addFile_def)

text \<open>
  A block inside the file is a hit with the bytes of the file in front of the buffer, and the
  stream stays good.
\<close>

lemma local_readBlock_serves:
  assumes "serves fs (r_fileIndex req) content c" "length content < 2 ^ 63" "length buff = unat blkSize"
    "unat (r_blkIndex req) * unat blkSize < length content" "unat (r_blkIndex req) + 1 < 2 ^ 32"
    "unat blkSize < 2 ^ 32"
  shows "\<exists>c' d req'. local_readBlock fs buff blkSize ty req c = Some (c', req', LHit d) \<and>
    serves fs (r_fileIndex req) content c' \<and> lc_level c' = lc_level c \<and> length d = unat blkSize \<and>
    r_ready req' \<and> r_data req' = DBuf d \<and>
    take (length content - unat (r_blkIndex req) * unat blkSize) d
      = take (unat blkSize) (drop (unat (r_blkIndex req) * unat blkSize) content)"
proof -
  let ?b = "unat (r_blkIndex req)" and ?n = "unat blkSize" and ?fs = "of_nat (length content) :: u64"
  obtain name bs where f: "lc_fileMap c (r_fileIndex req) = Some (name, bs, ?fs)"
      "lc_fstreamMap c (r_fileIndex req) = Some (Some \<lparr>st_name = name, st_failed = False\<rparr>)" "fs name = Some content"
    using assms(1) by (auto simp: serves_def)
  have inc: "unat (r_blkIndex req + 1) = ?b + 1" using assms(5) unat_add_small [of "r_blkIndex req" 1] by simp
  have ub: "unat (ucast (r_blkIndex req) :: u64) = ?b" "unat (ucast (r_blkIndex req + 1) :: u64) = ?b + 1"
    using unat_bound [of "r_blkIndex req"] assms(5) inc by (simp_all add: unat_ucast_small)
  have ul: "unat ?fs = length content" using assms(2) by (intro unat_of_nat_small) simp
  have off: "unat (ucast (r_blkIndex req) * blkSize) = ?b * ?n"
    using ub(1) assms(2,4) by (subst unat_mult_small) simp_all
  have "(?b + 1) * ?n < 2 ^ 64" using assms(2,4,6) by simp
  then have upto: "unat (ucast (r_blkIndex req + 1) * blkSize) = (?b + 1) * ?n"
    using ub(2) by (subst unat_mult_small) simp_all
  define sz where "sz = (if ?fs < ucast (r_blkIndex req + 1) * blkSize then ?fs - ucast (r_blkIndex req) * blkSize else blkSize)"
  have usz: "unat sz = min ?n (length content - ?b * ?n)"
    using upto off ul assms(4) by (auto simp: sz_def word_less_nat_alt unat_diff_le word_le_nat_alt)
  let ?d = "take (unat sz) (drop (?b * ?n) content)"
  have len: "length ?d = unat sz" "unat sz \<le> length buff" using usz assms(3) by simp_all
  define d where "d = ?d @ drop (unat sz) buff"
  have rd: "local_getBlockData fs buff \<lparr>st_name = name, st_failed = False\<rparr> (r_blkIndex req) blkSize ?fs
      = Some (\<lparr>st_name = name, st_failed = False\<rparr>, d)"
    using len f(3) off by (simp add: local_getBlockData_def stream_read_def sz_def [symmetric] blit_def d_def Let_def)
  have "take (length content - ?b * ?n) d = take ?n (drop (?b * ?n) content)"
    using len usz assms(3) by (auto simp: d_def min_def)
  moreover have "length d = ?n" using len assms(3) by (simp add: d_def)
  ultimately show ?thesis
    using f rd by (auto simp: local_readBlock_def Let_def serves_def)
qed

end
