(* ===== verification/Server.thy ===== *)
theory Server
  imports Sockets Registry FileCaches
begin

text \<open>
  The server: \<^verbatim>\<open>src/server/ServeFile.cpp\<close> and \<^verbatim>\<open>src/server/Server.cpp\<close>. A file is served to
  clients block by block out of the caches, or written by appending the data of write messages.
  \<open>None\<close> is the end of the process (a division by zero, a NULL stream, an access out of bounds).
\<close>

subsection \<open>Files of the server\<close>

record serve_file =
  sf_name :: bytes
  sf_output :: bool
  sf_remove :: bool
  sf_compress :: bool
  sf_blkSize :: u64
  sf_size :: u64
  sf_numBlks :: u64
  sf_open :: bool
  sf_closing :: bool
  sf_url :: bool
  sf_regFileIndex :: u32

text \<open>
  What the server uses of other parts: the tests and sizes of URLs, the size that other servers
  report (\<open>ConnectionPool\<close>), LZ4 and the caches: registering a file (\<open>addFile\<close>), dropping it
  (\<open>removeFile\<close>; \<open>None\<close>: the process ends), requesting a block of a size
  (\<open>requestBlock\<close> and the wait for its future; the result is the data and the size of the request
  when it is ready) and giving the request back (\<open>bufferWrite\<close>). \<open>LZ4_decompress_safe\<close> gives the
  contents of a buffer of the given size. \<open>se_uninit\<close> is what an uninitialised \<open>_regFileIndex\<close> holds.
\<close>

record 'c server_env =
  se_isUrl :: "bytes \<Rightarrow> bool"
  se_urlSize :: "bytes \<Rightarrow> u64"
  se_useServerNetworkCache :: bool
  se_otherServers :: "bytes \<Rightarrow> u64"
  se_removeOutput :: bool
  se_uninit :: u32
  se_compress :: "bytes \<Rightarrow> bytes"
  se_decompress :: "bytes \<Rightarrow> nat \<Rightarrow> bytes"
  se_addFile :: "files \<Rightarrow> u32 \<Rightarrow> bytes \<Rightarrow> u64 \<Rightarrow> u64 \<Rightarrow> 'c \<Rightarrow> 'c"
  se_removeFile :: "u32 \<Rightarrow> 'c \<Rightarrow> 'c option"
  se_request :: "files \<Rightarrow> u32 \<Rightarrow> u32 \<Rightarrow> u64 \<Rightarrow> 'c \<Rightarrow> ('c \<times> (bytes \<times> u64) option) option"
  se_release :: "u32 \<Rightarrow> u32 \<Rightarrow> 'c \<Rightarrow> 'c"

text \<open>
  The state: the registered files, the file register, the file system, the tasks queued in the
  pool of \<open>ServeFile\<close> (each the name of a file with the data to write and its position), the
  caches and \<open>alive\<close>.
\<close>

record 'c server =
  sv_files :: "(bytes, serve_file) trackable"
  sv_register :: fc_register
  sv_fs :: files
  sv_tasks :: "(bytes \<times> bytes \<times> u64) list"
  sv_cache :: 'c
  sv_alive :: bool

definition name_string :: "bytes \<Rightarrow> string" where
  "name_string name = map (\<lambda>b. char_of (unat b)) name"

text \<open>The size of a file that is to be read or written: of the URL, of the file, or of other servers.\<close>

definition found_size :: "'c server_env \<Rightarrow> files \<Rightarrow> bytes \<Rightarrow> bool \<Rightarrow> u64" where
  "found_size env fs name output =
     (if se_isUrl env name then se_urlSize env name
      else let sz = (case fs name of None \<Rightarrow> 0 | Some d \<Rightarrow> if output then 0 else of_nat (length d))
           in if sz = 0 \<and> se_useServerNetworkCache env \<and> \<not> output then se_otherServers env name else sz)"

definition new_serve_file :: "'c server_env \<Rightarrow> files \<Rightarrow> bytes \<Rightarrow> bool \<Rightarrow> u64 \<Rightarrow> bool \<Rightarrow> serve_file" where
  "new_serve_file env fs name compress blkSize output =
     \<lparr>sf_name = name, sf_output = output, sf_remove = se_removeOutput env, sf_compress = compress,
      sf_blkSize = blkSize, sf_size = found_size env fs name output, sf_numBlks = 0, sf_open = False,
      sf_closing = False, sf_url = se_isUrl env name, sf_regFileIndex = se_uninit env\<rparr>"

text \<open>
  The constructor. An output file is created empty. For a file to read, the block size is at
  most the size of the file and the blocks are counted; a block size of 0 divides by zero.
\<close>

definition ServeFile_new ::
  "'c server_env \<Rightarrow> bytes \<Rightarrow> bool \<Rightarrow> u64 \<Rightarrow> bool \<Rightarrow> 'c server \<Rightarrow> (serve_file \<times> 'c server) option" where
  "ServeFile_new env name compress blkSize output sv =
     (let f = new_serve_file env (sv_fs sv) name compress blkSize output; sz = sf_size f
      in if sz \<noteq> 0 \<or> output
         then if output then Some (f\<lparr>sf_open := True\<rparr>, sv\<lparr>sv_fs := (sv_fs sv)(name \<mapsto> [])\<rparr>)
           else let bs = (if sz < blkSize then sz else blkSize)
                in if bs = 0 then None
                   else do {
                     (reg, idx) \<leftarrow> registerFile (sv_register sv) (name_string name);
                     let n = sz div bs;
                     Some (f\<lparr>sf_blkSize := bs, sf_numBlks := (if sz mod bs \<noteq> 0 then n + 1 else n),
                             sf_regFileIndex := of_nat idx, sf_open := True\<rparr>,
                           sv\<lparr>sv_register := reg,
                              sv_cache := se_addFile env (sv_fs sv) (of_nat idx) name bs sz (sv_cache sv)\<rparr>)
                   }
         else Some (f, sv))"

text \<open>
  The destructor, after the outstanding writes. Every file that is not an output file is
  removed from the cache of local files, also one that was never added to it.
\<close>

definition ServeFile_delete :: "'c server_env \<Rightarrow> serve_file \<Rightarrow> 'c server \<Rightarrow> 'c server option" where
  "ServeFile_delete env f sv =
     (let sv = (if sf_output f \<and> sf_remove f then sv\<lparr>sv_fs := (sv_fs sv)(sf_name f := None)\<rparr> else sv)
      in if sf_output f then Some sv
         else map_option (\<lambda>c. sv\<lparr>sv_cache := c\<rparr>) (se_removeFile env (sf_regFileIndex f) (sv_cache sv)))"

definition addNewServeFile ::
  "'c server_env \<Rightarrow> bytes \<Rightarrow> bool \<Rightarrow> u64 \<Rightarrow> bool \<Rightarrow> 'c server \<Rightarrow> ('c server \<times> serve_file option) option" where
  "addNewServeFile env name compress blkSize output sv =
     (case LookupTrackable (sv_files sv) name of
        Some _ \<Rightarrow>
          let (files, t, _) = AddTrackable (sv_files sv) name None None False
          in Some (sv\<lparr>sv_files := files\<rparr>, map_option t_val t)
      | None \<Rightarrow> do {
          (f, sv) \<leftarrow> ServeFile_new env name compress blkSize output sv;
          if sf_open f
          then let (files, t, _) = AddTrackable (sv_files sv) name (Some f) None False
               in Some (sv\<lparr>sv_files := files\<rparr>, map_option t_val t)
          else map_option (\<lambda>sv. (sv, None)) (ServeFile_delete env f sv)
        })"

definition getServeFile :: "bytes \<Rightarrow> 'c server \<Rightarrow> serve_file option" where
  "getServeFile name sv = map_option t_val (LookupTrackable (sv_files sv) name)"

definition removeServeFile :: "'c server_env \<Rightarrow> bytes \<Rightarrow> 'c server \<Rightarrow> ('c server \<times> bool) option" where
  "removeServeFile env name sv =
     (let (files, last) = RemoveTrackable (sv_files sv) name 1
      in case getServeFile name sv of
           None \<Rightarrow> Some (sv\<lparr>sv_files := files\<rparr>, last)
         | Some f \<Rightarrow>
             if last then map_option (\<lambda>sv. (sv, True)) (ServeFile_delete env f (sv\<lparr>sv_files := files\<rparr>))
             else Some (sv\<lparr>sv_files := files\<rparr>, False))"

subsection \<open>Sending blocks\<close>

text \<open>\<open>compress\<close>: the last block is only as long as the file.\<close>

definition serve_compress :: "'c server_env \<Rightarrow> serve_file \<Rightarrow> u32 \<Rightarrow> bytes \<Rightarrow> bytes option" where
  "serve_compress env f blk data =
     (let sz = (if sf_size f < (ucast blk + 1) * sf_blkSize f
                then sf_size f - ucast blk * sf_blkSize f else sf_blkSize f)
      in map_option (se_compress env) (mem_slice 0 (unat sz) data))"

text \<open>The fixed part of the block message of \<open>sendData\<close>; its fields are 32 bits wide.\<close>

definition sendData_packet :: "bytes \<Rightarrow> u32 \<Rightarrow> nat \<Rightarrow> bytes" where
  "sendData_packet name blk n =
     fillMsgHeader SEND_BLK_MSG (name_size name) (of_nat n + of_nat sizeof_sendBlkMsg + name_size name) @
       put_u32 0 @ put_u32 blk @ put_u32 (of_nat n)"

definition sendData ::
  "'c server_env \<Rightarrow> 'w sys \<Rightarrow> 'w \<Rightarrow> connection \<Rightarrow> tls \<Rightarrow> serve_file \<Rightarrow> u32 \<Rightarrow> bytes \<Rightarrow> u64 \<Rightarrow>
   ('w \<times> connection \<times> tls \<times> bool) option" where
  "sendData env sys w k t f blk data sz =
     do {
       msg \<leftarrow> (if sf_compress f then serve_compress env f blk data else mem_slice 0 (unat sz) data);
       serverSendCloseNew sys w k t (sendData_packet (sf_name f) blk (length msg)) (sf_name f) msg
     }"

text \<open>\<open>transferBlk\<close>; the request is given back after sending.\<close>

definition transferBlk ::
  "'c server_env \<Rightarrow> 'w sys \<Rightarrow> 'w \<Rightarrow> connection \<Rightarrow> tls \<Rightarrow> serve_file \<Rightarrow> u32 \<Rightarrow> 'c server \<Rightarrow>
   ('w \<times> connection \<times> tls \<times> 'c server \<times> bool) option" where
  "transferBlk env sys w k t f blk sv =
     (if \<not> sf_output f \<and> ucast blk < sf_numBlks f
      then do {
        (c, r) \<leftarrow> se_request env (sv_fs sv) (sf_regFileIndex f) blk (sf_blkSize f) (sv_cache sv);
        let sv = sv\<lparr>sv_cache := c\<rparr>;
        case r of
          None \<Rightarrow> Some (w, k, t, sv, False)
        | Some (data, sz) \<Rightarrow> do {
            (w, k, t, ret) \<leftarrow> sendData env sys w k t f blk data sz;
            Some (w, k, t, sv\<lparr>sv_cache := se_release env (sf_regFileIndex f) blk (sv_cache sv)\<rparr>, ret)
          }
      }
      else Some (w, k, t, sv, False))"

subsection \<open>Writing\<close>

text \<open>
  \<open>writeData\<close> copies the data into a task of the pool. It answers true even when the file is
  being closed and the data are dropped.
\<close>

definition writeData :: "bytes \<Rightarrow> u64 \<Rightarrow> serve_file \<Rightarrow> 'c server \<Rightarrow> 'c server \<times> bool" where
  "writeData data fp f sv =
     (if sf_output f
      then (if sf_closing f then sv else sv\<lparr>sv_tasks := sv_tasks sv @ [(sf_name f, data, fp)]\<rparr>, True)
      else (sv, False))"

text \<open>
  The task. The file is opened for appending, so the position is ignored: the data go to the
  end of the file.
\<close>

definition write_task :: "bytes \<times> bytes \<times> u64 \<Rightarrow> files \<Rightarrow> files" where
  "write_task task fs =
     (case task of (name, data, fp) \<Rightarrow> fs(name \<mapsto> (case fs name of None \<Rightarrow> [] | Some d \<Rightarrow> d) @ data))"

subsection \<open>Messages\<close>

text \<open>\<open>openFile\<close>: when the answer cannot be sent the file is dropped again.\<close>

definition openFile ::
  "'c server_env \<Rightarrow> 'w sys \<Rightarrow> 'w \<Rightarrow> connection \<Rightarrow> tls \<Rightarrow> bytes \<Rightarrow> 'c server \<Rightarrow> ('w \<times> connection \<times> tls \<times> 'c server) option" where
  "openFile env sys w k t buff sv =
     do {
       (name, blkSize, compress, output) \<leftarrow> parseOpenFileMsg buff;
       (sv, file) \<leftarrow> addNewServeFile env name compress (ucast blkSize) output sv;
       let opened = (file \<noteq> None);
       let sz = (case file of Some f \<Rightarrow> sf_size f | None \<Rightarrow> 0);
       (w, k, t, sent) \<leftarrow> serverSendClose sys w k t (fileSize_packet name sz (put_bool opened));
       if \<not> sent \<and> opened
       then map_option (\<lambda>(sv, _). (w, k, t, sv)) (removeServeFile env name sv)
       else Some (w, k, t, sv)
     }"

definition closeFile ::
  "'c server_env \<Rightarrow> 'w sys \<Rightarrow> 'w \<Rightarrow> connection \<Rightarrow> tls \<Rightarrow> bytes \<Rightarrow> 'c server \<Rightarrow> ('w \<times> connection \<times> tls \<times> 'c server) option" where
  "closeFile env sys w k t buff sv =
     do {
       name \<leftarrow> parseCloseFileMsg buff;
       (w, k, t, _) \<leftarrow> serverSendClose sys w k t (ack_packet CLOSE_FILE_MSG);
       (sv, _) \<leftarrow> removeServeFile env name sv;
       Some (w, k, t, sv)
     }"

text \<open>The loop over the blocks \<open>i\<close> to \<open>stop\<close>, which counts in 32 bits and stops at the first failure.\<close>

partial_function (option) transfer_loop ::
  "'c server_env \<Rightarrow> 'w sys \<Rightarrow> serve_file \<Rightarrow> u32 \<Rightarrow> 'w \<Rightarrow> connection \<Rightarrow> tls \<Rightarrow> u32 \<Rightarrow> 'c server \<Rightarrow>
   ('w \<times> connection \<times> tls \<times> 'c server) option" where
  "transfer_loop env sys f stop w k t i sv =
     (if i \<le> stop
      then Option.bind (transferBlk env sys w k t f i sv) (\<lambda>(w, k, t, sv, ok).
        if ok then transfer_loop env sys f stop w k t (i + 1) sv else Some (w, k, t, sv))
      else Some (w, k, t, sv))"

definition requestBlockFromFile ::
  "'c server_env \<Rightarrow> 'w sys \<Rightarrow> 'w \<Rightarrow> connection \<Rightarrow> tls \<Rightarrow> bytes \<Rightarrow> 'c server \<Rightarrow> ('w \<times> connection \<times> tls \<times> 'c server) option" where
  "requestBlockFromFile env sys w k t buff sv =
     do {
       (name, start, stop) \<leftarrow> parseRequestBlkMsg buff;
       case getServeFile name sv of
         None \<Rightarrow> Some (w, k, t, sv)
       | Some f \<Rightarrow> transfer_loop env sys f stop w k t start sv
     }"

text \<open>The data of a write message; they are decompressed exactly when the two sizes differ.\<close>

definition received_data :: "'c server_env \<Rightarrow> bytes \<Rightarrow> nat \<Rightarrow> u32 \<Rightarrow> u32 \<Rightarrow> bytes option" where
  "received_data env buff off dataSize compSize =
     (if compSize \<noteq> dataSize
      then do {
        comp \<leftarrow> mem_slice off (unat compSize) buff;
        mem_slice 0 (unat dataSize) (se_decompress env comp (unat (dataSize + 1)))
      }
      else mem_slice off (unat dataSize) buff)"

definition writeDataToFile ::
  "'c server_env \<Rightarrow> 'w sys \<Rightarrow> 'w \<Rightarrow> connection \<Rightarrow> tls \<Rightarrow> bytes \<Rightarrow> 'c server \<Rightarrow> ('w \<times> connection \<times> tls \<times> 'c server) option" where
  "writeDataToFile env sys w k t buff sv =
     do {
       (name, off, dataSize, compSize, fp) \<leftarrow> parseWriteMsg buff;
       case getServeFile name sv of
         None \<Rightarrow> Some (w, k, t, sv)
       | Some f \<Rightarrow> do {
           data \<leftarrow> received_data env buff off dataSize compSize;
           let (sv, _) = writeData data fp f sv;
           (w, k, t, _) \<leftarrow> serverSendClose sys w k t (ack_packet WRITE_MSG);
           Some (w, k, t, sv)
         }
     }"

definition getFileSize ::
  "'w sys \<Rightarrow> 'w \<Rightarrow> connection \<Rightarrow> tls \<Rightarrow> bytes \<Rightarrow> 'c server \<Rightarrow> ('w \<times> connection \<times> tls \<times> 'c server) option" where
  "getFileSize sys w k t buff sv =
     do {
       name \<leftarrow> parseRequestFileSizeMsg buff;
       let sz = (case sv_fs sv name of Some d \<Rightarrow> of_nat (length d) | None \<Rightarrow> 0);
       (w, k, t, _) \<leftarrow> serverSendClose sys w k t (fileSize_packet name sz (put_bool (sv_fs sv name \<noteq> None)));
       Some (w, k, t, sv)
     }"

definition pingResponse :: "'w sys \<Rightarrow> 'w \<Rightarrow> connection \<Rightarrow> tls \<Rightarrow> ('w \<times> connection \<times> tls) option" where
  "pingResponse sys w k t =
     map_option (\<lambda>(w, k, t, _). (w, k, t)) (serverSendClose sys w k t (ack_packet PING_MSG))"

definition shutDownServer :: "int \<Rightarrow> 'w sys \<Rightarrow> 'w \<Rightarrow> 'c server \<Rightarrow> 'w \<times> 'c server" where
  "shutDownServer sockfd sys w sv =
     (let (w, _) = rshutdown sys w sockfd; (w, _) = rclose sys w sockfd in (w, sv\<lparr>sv_alive := False\<rparr>))"

text \<open>
  The \<open>switch\<close> of \<open>pollConnection\<close>; the case of a ping has no \<open>break\<close>, so the connection of the
  ping is closed after the answer.
\<close>

definition serve_message ::
  "'c server_env \<Rightarrow> int \<Rightarrow> 'w sys \<Rightarrow> 'w \<Rightarrow> connection \<Rightarrow> tls \<Rightarrow> bytes \<Rightarrow> 'c server \<Rightarrow>
   ('w \<times> connection \<times> tls \<times> 'c server) option" where
  "serve_message env sockfd sys w k t buff sv =
     (let close = (\<lambda>(w, k, t). map_option (\<lambda>(w, k, t, _). (w, k, t, sv)) (closeSocket_tl sys w k t))
      in do {
        code \<leftarrow> get_u32 buff 8;
        case msg_of_code code of
          Some OPEN_FILE_MSG \<Rightarrow> openFile env sys w k t buff sv
        | Some REQ_FILE_SIZE_MSG \<Rightarrow> getFileSize sys w k t buff sv
        | Some REQ_BLK_MSG \<Rightarrow> requestBlockFromFile env sys w k t buff sv
        | Some WRITE_MSG \<Rightarrow> writeDataToFile env sys w k t buff sv
        | Some CLOSE_FILE_MSG \<Rightarrow> closeFile env sys w k t buff sv
        | Some CLOSE_SERVER_MSG \<Rightarrow> (let (w, sv) = shutDownServer sockfd sys w sv in Some (w, k, t, sv))
        | Some PING_MSG \<Rightarrow> pingResponse sys w k t \<bind> close
        | _ \<Rightarrow> close (w, k, t)
      })"

text \<open>The loop of \<open>pollConnection\<close>, under the lock of the connection.\<close>

partial_function (option) poll_loop ::
  "'c server_env \<Rightarrow> int \<Rightarrow> 'w sys \<Rightarrow> (nat \<Rightarrow> bytes) \<Rightarrow> 'w \<Rightarrow> connection \<Rightarrow> tls \<Rightarrow> 'c server \<Rightarrow>
   ('w \<times> connection \<times> tls \<times> 'c server) option" where
  "poll_loop env sockfd sys fresh w k t sv =
     Option.bind (pollMsg sys w k t) (\<lambda>(w, k, t, n).
       if 0 < n
       then Option.bind (recvMsg sys fresh w (tl_socket t) (tl_buffer t)) (\<lambda>(w, buf, ret, msg).
         let t = t\<lparr>tl_buffer := buf\<rparr>
         in case (if int sizeof_msgHeader \<le> ret then msg else None) of
              Some buff \<Rightarrow> Option.bind (serve_message env sockfd sys w k t buff sv) (\<lambda>(w, k, t, sv).
                poll_loop env sockfd sys fresh w k t sv)
            | None \<Rightarrow> Option.bind (closeSocket_tl sys w k t) (\<lambda>(w, k, t, _).
                poll_loop env sockfd sys fresh w k t sv))
       else Some (w, k, t, sv))"

text \<open>
  \<open>pollConnection\<close>. When sockets were closed the connection gives up \<^emph>\<open>one\<close> user
  (\<open>removeConnection\<close> drops its argument \<open>dec\<close>); it is queued again unless it was deleted. The
  last component: whether it is queued again.
\<close>

definition pollConnection ::
  "'c server_env \<Rightarrow> int \<Rightarrow> 'w sys \<Rightarrow> (nat \<Rightarrow> bytes) \<Rightarrow> 'w \<Rightarrow> bytes \<Rightarrow> (bytes, connection) trackable \<Rightarrow> tls \<Rightarrow> 'c server \<Rightarrow>
   ('w \<times> (bytes, connection) trackable \<times> tls \<times> 'c server \<times> bool) option" where
  "pollConnection env sockfd sys fresh w addr cons t sv =
     (case LookupTrackable cons addr of
        None \<Rightarrow> Some (w, cons, t, sv, False)
      | Some tr \<Rightarrow>
          if sv_alive sv
          then do {
            (k, t) \<leftarrow> lock_connection (t_val tr) t;
            (w, k, t, sv) \<leftarrow> poll_loop env sockfd sys fresh w k t sv;
            let (k, t, closed) = unlock_connection k t;
            let cons = cons\<lparr>active := (active cons)(addr \<mapsto> tr\<lparr>t_val := k\<rparr>)\<rparr>;
            let (cons, deleted) = (if closed \<noteq> 0 then RemoveTrackable cons addr 1 else (cons, False));
            Some (w, cons, t, sv, \<not> deleted)
          }
          else Some (w, cons, t, sv, False))"

subsection \<open>A block on its way from the cache of the server to the client\<close>

lemma serverSendClose_sent:
  assumes "stream_send sys out (tl_socket t)" "serverSendClose sys w k t buff = Some (w', k', t', True)"
  shows "out w' = out w @ buff \<and> k' = k \<and> t' = t"
proof -
  obtain w1 r where s: "sendMsg sys w (tl_socket t) buff = Some (w1, r)"
    using assms(2) by (auto simp: serverSendClose_def bind_eq_Some_conv)
  have r: "r = int (length buff)" "w' = w1" "k' = k" "t' = t"
    using assms(2) s by (auto simp: serverSendClose_def bind_eq_Some_conv split: if_splits)
  have "send_loop sys w (tl_socket t) buff 0 0 = (w1, r)" using s by (simp add: sendMsg_def split: if_splits)
  from send_loop_stream [OF assms(1) _ this] r show ?thesis by auto
qed

lemma serverSendCloseNew_sent:
  assumes "stream_send sys out (tl_socket t)" "serverSendCloseNew sys w k t packet name buff = Some (w', k', t', True)"
  shows "out w' = out w @ packet @ name @ [0] @ buff"
proof -
  obtain w1 k1 t1 where 1: "serverSendClose sys w k t packet = Some (w1, k1, t1, True)"
    using assms(2) by (auto simp: serverSendCloseNew_def bind_eq_Some_conv split: if_splits)
  note 1 = 1 serverSendClose_sent [OF assms(1) 1]
  obtain w2 k2 t2 where 2: "serverSendClose sys w1 k t (name @ [0]) = Some (w2, k2, t2, True)"
    using assms(2) 1 by (auto simp: serverSendCloseNew_def bind_eq_Some_conv split: if_splits)
  note 2 = 2 serverSendClose_sent [OF assms(1) 2]
  have "serverSendClose sys w2 k t buff = Some (w', k', t', True)"
    using assms(2) 1 2 by (simp add: serverSendCloseNew_def)
  from serverSendClose_sent [OF assms(1) this] 1 2 show ?thesis by simp
qed

lemma clientRecRetryCount_stream:
  assumes "stream_recv sys pending (tl_socket t)" "0 \<le> tl_socket t" "pending w = xs @ rest" "length xs \<le> length buff"
    "n = length xs"
  shows "\<exists>w'. clientRecRetryCount sys w t buff n = Some (w', t, xs @ drop n buff, int n) \<and> pending w' = rest"
  using recvMsg_buf_stream [OF assms(1,3,2), of 0 buff] assms(4,5)
  by (auto simp: clientRecRetryCount_def)

lemma sendData_packet_fields:
  "length (sendData_packet name blk n) = 32" "get_u32 (sendData_packet name blk n) 12 = Some (name_size name)"
  "get_u32 (sendData_packet name blk n) 24 = Some blk" "get_u32 (sendData_packet name blk n) 28 = Some (of_nat n)"
  by (simp_all add: sendData_packet_def fillMsgHeader_def wire_simps)

lemma recSendBlkMsg_stream:
  assumes "stream_recv sys pending (tl_socket t)" "0 \<le> tl_socket t" "\<And>n. length (fresh n) = n"
    "pending w = sendData_packet name blk (length data) @ name @ [0] @ data @ rest"
    "length name < 2 ^ 31" "length data \<le> unat bufSize"
  shows "\<exists>w'. recSendBlkMsg sys fresh w t None bufSize
      = Some (w', t, name @ [0], Some (data @ drop (length data) (fresh (unat bufSize))), blk, of_nat (length data)) \<and>
    pending w' = rest"
proof -
  let ?p = "sendData_packet name blk (length data)"
  have ul: "unat (of_nat (length data) :: u32) = length data"
    using assms(6) unat_bound [of bufSize] by (intro unat_of_nat_small) simp
  have un: "unat (name_size name) = length (name @ [0 :: u8])"
    using assms(5) by (simp add: name_size_def unat_of_nat_small del: of_nat_add of_nat_Suc)
  have lp: "32 = length ?p" by (simp add: sendData_packet_fields)
  obtain w1 where 1: "clientRecRetryCount sys w t (fresh 32) 32 = Some (w1, t, ?p, 32)" "pending w1 = (name @ [0]) @ data @ rest"
    using clientRecRetryCount_stream [OF assms(1,2), of w ?p "name @ [0] @ data @ rest" "fresh 32" 32] assms(3,4) lp by auto
  obtain w2 where 2: "clientRecRetryCount sys w1 t (fresh (unat (name_size name))) (unat (name_size name))
        = Some (w2, t, name @ [0], int (unat (name_size name)))" "pending w2 = data @ rest"
    using clientRecRetryCount_stream [OF assms(1,2) 1(2), of "fresh (unat (name_size name))" "unat (name_size name)"]
      assms(3) un by auto
  have room: "length data \<le> length (fresh (unat bufSize))" using assms(3,6) by simp
  obtain w3 where 3: "clientRecRetryCount sys w2 t (fresh (unat bufSize)) (length data)
        = Some (w3, t, data @ drop (length data) (fresh (unat bufSize)), int (length data))" "pending w3 = rest"
    using clientRecRetryCount_stream [OF assms(1,2) 2(2) room refl] by auto
  have le: "\<not> bufSize < of_nat (length data)" using assms(6) ul by (simp add: word_less_nat_alt)
  have buf: "(if bufSize = 0 then of_nat (length data) else bufSize) = bufSize"
    using assms(6) by auto
  show ?thesis
    using 3(2) by (simp add: recSendBlkMsg_def 1(1) 2(1) 3(1) sendData_packet_fields ul buf le cong: if_cong)
qed

lemma transferBlk_message:
  assumes "stream_send sys out (tl_socket t)" "\<not> sf_compress f"
    "se_request env (sv_fs sv) (sf_regFileIndex f) blk (sf_blkSize f) (sv_cache sv) = Some (c, Some (data, sz))"
    "transferBlk env sys w k t f blk sv = Some (w', k', t', sv', True)" "out w' = out w @ msg"
  shows "\<exists>m. msg = sendData_packet (sf_name f) blk (length m) @ sf_name f @ [0] @ m \<and> m = take (unat sz) data \<and> length m = unat sz"
proof -
  obtain m where m: "mem_slice 0 (unat sz) data = Some m"
      "serverSendCloseNew sys w k t (sendData_packet (sf_name f) blk (length m)) (sf_name f) m = Some (w', k', t', True)"
    using assms(2,3,4) by (auto simp: transferBlk_def sendData_def bind_eq_Some_conv split: if_splits)
  have lm: "length m = unat sz" "m = take (unat sz) data" using m(1) by (auto simp: mem_slice_def split: if_splits)
  have "msg = sendData_packet (sf_name f) blk (length m) @ sf_name f @ [0] @ m"
    using serverSendCloseNew_sent [OF assms(1) m(2)] assms(5) by simp
  then show ?thesis using lm by blast
qed

subsection \<open>Files of the server's own disk\<close>

text \<open>
  The cache of a server without other servers, reduced to its last level: blocks come from
  \<open>LocalFileCache\<close>. Without a stream the request goes on to a level that does not exist.
\<close>

definition local_env :: "u64 \<Rightarrow> bytes \<Rightarrow> local_cache server_env" where
  "local_env localFileBlockSize buff =
     \<lparr>se_isUrl = (\<lambda>_. False), se_urlSize = (\<lambda>_. 0), se_useServerNetworkCache = False, se_otherServers = (\<lambda>_. 0),
      se_removeOutput = False, se_uninit = 0, se_compress = (\<lambda>d. d), se_decompress = (\<lambda>d n. take n d),
      se_addFile = local_addFile, se_removeFile = local_removeFile,
      se_request = (\<lambda>fs idx blk sz c.
        case local_readBlock fs buff localFileBlockSize Local (new_request 0 Base blk idx sz) c of
          Some (c, req, LHit d) \<Rightarrow> Some (c, Some (d, sz))
        | _ \<Rightarrow> None),
      se_release = (\<lambda>_ _ c. c)\<rparr>"

lemma ServeFile_new_local:
  assumes "ServeFile_new (local_env L buff) name c bs False sv = Some (f, sv')"
    "sv_fs sv name = Some content" "content \<noteq> []" "length content < 2 ^ 31"
    "lc_fileMap (sv_cache sv) (sf_regFileIndex f) = None" "lc_fstreamMap (sv_cache sv) (sf_regFileIndex f) = None"
  shows "sf_name f = name \<and> \<not> sf_output f \<and> sf_compress f = c \<and> sf_open f \<and>
    unat (sf_blkSize f) = min (unat bs) (length content) \<and> 0 < unat bs \<and>
    unat (sf_numBlks f) = ceil_div (length content) (unat (sf_blkSize f)) \<and>
    sv_fs sv' = sv_fs sv \<and> serves (sv_fs sv) (sf_regFileIndex f) content (sv_cache sv')"
proof -
  let ?sz = "of_nat (length content) :: u64"
  have ul: "unat ?sz = length content" using assms(4) by (intro unat_of_nat_small) simp
  have nz: "?sz \<noteq> 0" using ul assms(3) by (metis length_0_conv unsigned_0)
  define B where "B = (if ?sz < bs then ?sz else bs)"
  have fs: "found_size (local_env L buff) (sv_fs sv) name False = ?sz"
    using assms(2) nz by (simp add: found_size_def local_env_def)
  obtain reg idx where r: "registerFile (sv_register sv) (name_string name) = Some (reg, idx)" "B \<noteq> 0"
      "f = (new_serve_file (local_env L buff) (sv_fs sv) name c bs False)\<lparr>sf_blkSize := B,
         sf_numBlks := (if ?sz mod B \<noteq> 0 then ?sz div B + 1 else ?sz div B), sf_regFileIndex := of_nat idx, sf_open := True\<rparr>"
      "sv' = sv\<lparr>sv_register := reg, sv_cache := local_addFile (sv_fs sv) (of_nat idx) name B ?sz (sv_cache sv)\<rparr>"
    using assms(1) nz fs
    by (auto simp: ServeFile_new_def new_serve_file_def B_def Let_def bind_eq_Some_conv local_env_def split: if_splits)
  have uB: "unat B = min (unat bs) (length content)" using ul by (auto simp: B_def word_less_nat_alt min_def)
  have B0: "0 < unat B" using r(2) by (simp add: unat_gt_0)
  have m: "?sz mod B = 0 \<longleftrightarrow> length content mod unat B = 0" by (simp add: word_mod_eq_0_iff ul)
  have d: "unat (?sz div B) = length content div unat B" by (simp add: unat_div_distrib ul)
  have "length content div unat B \<le> length content" by simp
  moreover have "(2 :: nat) ^ 31 < 2 ^ 64" by simp
  ultimately have "Suc (unat (?sz div B)) < 2 ^ 64" unfolding d using assms(4) by linarith
  then have inc: "unat (?sz div B + 1) = Suc (length content div unat B)"
    using d unat_inc_small [of "?sz div B"] by simp
  have "unat (if ?sz mod B \<noteq> 0 then ?sz div B + 1 else ?sz div B) = ceil_div (length content) (unat B)"
    using m d inc ceil_div_eq [OF B0, of "length content"] by simp
  moreover have "serves (sv_fs sv) (sf_regFileIndex f) content (sv_cache sv')"
    unfolding r(4) using r(3) assms(2,5,6) by (simp add: local_addFile_serves)
  ultimately show ?thesis using r uB B0 by (simp add: new_serve_file_def)
qed

lemma served_block_message:
  assumes new: "ServeFile_new (local_env L buff) name False bs False sv = Some (f, sv1)"
    and content: "sv_fs sv name = Some content" "content \<noteq> []" "length content < 2 ^ 31"
    and fresh_index: "lc_fileMap (sv_cache sv) (sf_regFileIndex f) = None" "lc_fstreamMap (sv_cache sv) (sf_regFileIndex f) = None"
    and L: "length buff = unat L" "unat L < 2 ^ 32" "L = bs \<or> length content \<le> unat bs \<and> length content \<le> unat L"
    and send: "stream_send sys out (tl_socket t)"
      "transferBlk (local_env L buff) sys w k t f blk sv1 = Some (w', k', t', sv2, True)" "out w' = out w @ msg"
  shows "\<exists>m. msg = sendData_packet name blk (length m) @ name @ [0] @ m \<and> 0 < length m \<and> length m \<le> unat bs \<and>
    take (min (unat bs) (length content - unat blk * unat bs)) m = take (unat bs) (drop (unat blk * unat bs) content) \<and>
    min (unat bs) (length content - unat blk * unat bs) \<le> length m \<and> unat blk * unat bs < length content"
proof -
  let ?B = "unat (sf_blkSize f)" and ?b = "unat blk" and ?len = "length content"
  note f = ServeFile_new_local [OF new content(1-3) fresh_index]
  have nb: "ucast blk < sf_numBlks f" "\<not> sf_output f" using send(2) by (auto simp: transferBlk_def split: if_splits)
  have "unat (ucast blk :: u64) = ?b" using unat_bound [of blk] by (intro unat_ucast_small) simp
  then have "?b < ceil_div ?len ?B" using nb(1) f by (simp add: word_less_nat_alt)
  moreover have B0: "0 < ?B" using f content(2) by simp
  ultimately have bB: "?b * ?B < ?len" by (simp add: less_ceil_div)
  have blk0: "?b = 0" if "?len < unat bs" using bB f that by (cases ?b) simp_all
  have bL: "?b * unat L = ?b * unat bs" "?b * unat bs = ?b * ?B"
    using L(3) f blk0 bB by (cases "?len < unat bs"; auto)+
  have b32: "?b + 1 < 2 ^ 32"
  proof -
    have "?b \<le> ?b * ?B" using B0 by (cases ?B) simp_all
    moreover have "(2 :: nat) ^ 31 < 2 ^ 32" by simp
    ultimately show ?thesis using bB content(3) by linarith
  qed
  let ?req = "new_request 0 Base blk (sf_regFileIndex f) (sf_blkSize f)"
  have rq: "r_blkIndex ?req = blk" "r_fileIndex ?req = sf_regFileIndex f" by (simp_all add: new_request_def)
  obtain c' d0 req' where hit: "local_readBlock (sv_fs sv1) buff L Local ?req (sv_cache sv1) = Some (c', req', LHit d0)"
      "length d0 = unat L" "take (?len - ?b * unat L) d0 = take (unat L) (drop (?b * unat L) content)"
    using local_readBlock_serves [of "sv_fs sv1" ?req content "sv_cache sv1" buff L Local] f content(3) L(1,2) bB bL b32
    unfolding rq by auto
  have sr: "se_request (local_env L buff) (sv_fs sv1) (sf_regFileIndex f) blk (sf_blkSize f) (sv_cache sv1)
      = Some (c', Some (d0, sf_blkSize f))" using hit(1) by (simp add: local_env_def)
  have nc: "\<not> sf_compress f" using f by simp
  obtain m where m: "msg = sendData_packet (sf_name f) blk (length m) @ sf_name f @ [0] @ m" "m = take ?B d0" "length m = ?B"
    using transferBlk_message [OF send(1) nc sr send(2,3)] by blast
  define n where "n = min (unat bs) (?len - ?b * unat bs)"
  have nB: "n \<le> ?B" "n \<le> ?len - ?b * unat L" "min n (unat L) = n" "min n (unat bs) = n"
    using f L(3) bL bB by (auto simp: n_def min_def)
  have "take n m = take n d0" using nB(1) by (simp add: m(2) min_absorb1)
  also have "\<dots> = take n (drop (?b * unat bs) content)"
    using arg_cong [OF hit(3), of "take n"] nB(2,3) bL(1) by (simp add: min_absorb1)
  also have "\<dots> = take (unat bs) (drop (?b * unat bs) content)"
    by (cases "unat bs \<le> ?len - ?b * unat bs") (simp_all add: n_def min_def)
  finally have part: "take n m = take (unat bs) (drop (?b * unat bs) content)" .
  have "?B \<le> unat bs" using f by simp
  moreover have "?b * unat bs < ?len" unfolding bL(2) by (rule bB)
  moreover have "sf_name f = name" using f by simp
  ultimately show ?thesis
    using m(1,3) part B0 nB(1) unfolding n_def [symmetric] by (intro exI [of _ m]) (simp only: simp_thms)
qed


text \<open>
  a client that opens a file that does not exist for reading harms the server. The new
  \<open>ServeFile\<close> is not open and is deleted at once; its destructor removes the file with the
  number \<open>_regFileIndex\<close>, which nobody has set, from the cache of local files: the process ends
  on a NULL stream, or the stream of whatever other file has that number is closed.
\<close>

theorem missing_file_harms_server:
  assumes "sv_fs sv name = None" "LookupTrackable (sv_files sv) name = None"
  shows "addNewServeFile ((local_env L buff)\<lparr>se_uninit := g\<rparr>) name c bs False sv =
    (case lc_fstreamMap (sv_cache sv) g of
       Some (Some s) \<Rightarrow> Some (sv\<lparr>sv_cache := the (local_removeFile g (sv_cache sv))\<rparr>, None)
     | _ \<Rightarrow> None)"
  using assms
  by (auto simp: addNewServeFile_def ServeFile_new_def ServeFile_delete_def new_serve_file_def found_size_def
      local_env_def local_removeFile_def Let_def split: option.splits)

definition disk_server :: "local_cache server" where
  "disk_server = \<lparr>sv_files = trackable_init, sv_register = \<lparr>available = 0, fileName = [[]]\<rparr>,
     sv_fs = [[97] \<mapsto> [10, 20, 30]], sv_tasks = [], sv_cache = new_local_cache 1, sv_alive = True\<rparr>"

definition disk_thread :: tls where
  "disk_thread = \<lparr>tl_socket = 4, tl_closed = 0, tl_buffer = []\<rparr>"

text \<open>A system whose sends always take everything.\<close>

definition sends_all :: "'w sys \<Rightarrow> bool" where
  "sends_all sys \<longleftrightarrow> (\<forall>w s m. \<exists>w'. rsend sys w s m = (w', Sent (length m)))"

lemma serverSendClose_all:
  assumes "sends_all sys" "0 \<le> tl_socket t" "m \<noteq> []"
  shows "\<exists>w'. serverSendClose sys w k t m = Some (w', k, t, True)"
proof -
  obtain w' where w: "rsend sys w (tl_socket t) m = (w', Sent (length m))" using assms(1) unfolding sends_all_def by blast
  have fin: "send_loop sys w' (tl_socket t) m (length m) 0 = (w', int (length m))" by (subst send_loop.simps) simp
  have "send_loop sys w (tl_socket t) m 0 0 = (w', int (length m))"
    using w assms(3) fin by (subst send_loop.simps) simp
  then show ?thesis using assms(2) by (simp add: serverSendClose_def sendMsg_def)
qed

lemma transferBlk_all:
  assumes "sends_all sys" "0 \<le> tl_socket t" "\<not> sf_output f" "ucast blk < sf_numBlks f" "\<not> sf_compress f"
    "se_request env (sv_fs sv) (sf_regFileIndex f) blk (sf_blkSize f) (sv_cache sv) = Some (c, Some (data, sz))"
    "0 < unat sz" "unat sz \<le> length data"
  shows "\<exists>w' sv'. transferBlk env sys w k t f blk sv = Some (w', k, t, sv', True)"
proof -
  define m where "m = take (unat sz) data"
  have m: "mem_slice 0 (unat sz) data = Some m" "m \<noteq> []" using assms(7,8) by (auto simp: mem_slice_def m_def)
  have "length (sendData_packet (sf_name f) blk (length m)) = 32" by (rule sendData_packet_fields)
  then have "sendData_packet (sf_name f) blk (length m) \<noteq> []" by auto
  then obtain w1 where 1: "serverSendClose sys w k t (sendData_packet (sf_name f) blk (length m)) = Some (w1, k, t, True)"
    using serverSendClose_all [OF assms(1,2)] by blast
  obtain w2 where 2: "serverSendClose sys w1 k t (sf_name f @ [0]) = Some (w2, k, t, True)"
    using serverSendClose_all [OF assms(1,2), of "sf_name f @ [0]"] by blast
  obtain w3 where 3: "serverSendClose sys w2 k t m = Some (w3, k, t, True)"
    using serverSendClose_all [OF assms(1,2) m(2)] by blast
  show ?thesis
    using assms(3-6) m(1) 1 2 3 by (simp add: transferBlk_def sendData_def serverSendCloseNew_def)
qed

text \<open>A wire that keeps what is sent, to be read from the front.\<close>

definition wire_sys :: "bytes sys" where
  "wire_sys = \<lparr>rsend = (\<lambda>w s m. (w @ m, Sent (length m))), rrecv = (\<lambda>w s n. (drop n w, Got (take n w))),
     rclose = (\<lambda>w s. (w, 0)), rshutdown = (\<lambda>w s. (w, 0)), getOutSocket = (\<lambda>w. (w, 5)), rpoll = (\<lambda>w ps. (w, ps, 0))\<rparr>"

lemma wire_sys_streams: "stream_send wire_sys (\<lambda>w. w) s" "stream_recv wire_sys (\<lambda>w. w) s" "sends_all wire_sys"
  by (auto simp: stream_send_def stream_recv_def sends_all_def wire_sys_def)

lemma disk_opens: "\<exists>f sv. ServeFile_new (local_env 2 [0, 0]) [97] False 2 False disk_server = Some (f, sv)"
proof -
  have "registerFile \<lparr>available = 0, fileName = [[]]\<rparr> (name_string [97]) \<noteq> None"
    by (simp add: registerFile_def find_row.simps NUMENTRIES_def MAXFILENAME_def name_string_def Let_def)
  then show ?thesis
    by (auto simp: ServeFile_new_def new_serve_file_def found_size_def local_env_def disk_server_def Let_def)
qed

lemma disk_content:
  "sv_fs disk_server [97] = Some [10, 20, 30]" "[10, 20, 30 :: u8] \<noteq> []" "length [10, 20, 30 :: u8] < 2 ^ 31"
  "lc_fileMap (sv_cache disk_server) i = None" "lc_fstreamMap (sv_cache disk_server) i = None"
  by (simp_all add: disk_server_def new_local_cache_def)

lemma disk_sends:
  assumes new: "ServeFile_new (local_env 2 [0, 0]) [97] False 2 False disk_server = Some (f, sv)"
  shows "\<exists>w' sv'. transferBlk (local_env 2 [0, 0]) wire_sys [] (new_server 4) disk_thread f 1 sv
      = Some (w', new_server 4, disk_thread, sv', True)"
proof -
  note f = ServeFile_new_local [OF new disk_content]
  let ?req = "new_request 0 Base 1 (sf_regFileIndex f) (sf_blkSize f)"
  have rq: "r_blkIndex ?req = 1" "r_fileIndex ?req = sf_regFileIndex f" by (simp_all add: new_request_def)
  obtain c' d req' where "local_readBlock (sv_fs sv) [0, 0] 2 Local ?req (sv_cache sv) = Some (c', req', LHit d)" "length d = 2"
    using local_readBlock_serves [of "sv_fs sv" ?req "[10, 20, 30]" "sv_cache sv" "[0, 0]" 2 Local] f unfolding rq by auto
  then have hit: "se_request (local_env 2 [0, 0]) (sv_fs sv) (sf_regFileIndex f) 1 (sf_blkSize f) (sv_cache sv)
      = Some (c', Some (d, sf_blkSize f))" "length d = 2" by (simp_all add: local_env_def)
  have bs: "unat (sf_blkSize f) = 2" using f by simp
  moreover have "unat (sf_numBlks f) = ceil_div (length [10, 20, 30 :: u8]) (unat (sf_blkSize f))" using f by blast
  ultimately have nb: "1 < unat (sf_numBlks f)" by (simp add: less_ceil_div)
  have sock: "0 \<le> tl_socket disk_thread" by (simp add: disk_thread_def)
  have pre: "\<not> sf_output f" "ucast (1 :: u32) < sf_numBlks f" "\<not> sf_compress f"
      "0 < unat (sf_blkSize f)" "unat (sf_blkSize f) \<le> length d"
    using f bs nb hit(2) by (simp_all add: word_less_nat_alt)
  show ?thesis by (rule transferBlk_all [OF wire_sys_streams(3) sock pre(1-3) hit(1) pre(4,5)])
qed


theorem missing_file_harms_server_witness:
  "addNewServeFile ((local_env 2 [0, 0])\<lparr>se_uninit := 77\<rparr>) [98] False 2 False disk_server = None"
  using missing_file_harms_server [where sv = disk_server and name = "[98]" and L = 2 and buff = "[0, 0]" and g = 77 and c = False and bs = 2]
  by (simp add: disk_server_def new_local_cache_def LookupTrackable_def trackable_init_def)

end
