(* ===== verification/TaskPool.thy ===== *)
theory TaskPool
  imports TazerPrelude "HOL-Library.Multiset" "HOL-Library.Product_Lexorder"
begin

text \<open>
  The thread pools \<^verbatim>\<open>src/common/ThreadPool.cpp\<close> and \<^verbatim>\<open>src/common/PriorityThreadPool.cpp\<close>. They
  differ in the queue only, so the pool is a machine over the two operations of a queue; the
  locale \<open>task_queue\<close> says what the pool needs of them.
\<close>

subsection \<open>The queues\<close>

text \<open>The \<open>std::deque\<close> of \<open>ThreadPool\<close>.\<close>

definition fifo_push :: "'t list \<Rightarrow> 't \<Rightarrow> 't list" where
  "fifo_push q t = q @ [t]"

fun fifo_pop :: "'t list \<Rightarrow> ('t \<times> 't list) option" where
  "fifo_pop [] = None"
| "fifo_pop (t # q) = Some (t, q)"

text \<open>
  The entries of \<open>PriorityThreadPool\<close>. Its \<open>std::priority_queue\<close> gives the entry with the
  smallest pair of priority and time stamp; here the entries are kept in this order.
\<close>

record 't TaskEntry =
  te_priority :: u32
  te_timeStamp :: u32
  te_func :: 't

definition entry_key :: "'t TaskEntry \<Rightarrow> u32 \<times> u32" where
  "entry_key e = (te_priority e, te_timeStamp e)"

text \<open>The queue and \<open>_index\<close>, the time stamp of the next task.\<close>

type_synonym 't prio_queue = "'t TaskEntry list \<times> u32"

definition prio_push :: "'t prio_queue \<Rightarrow> u32 \<times> 't \<Rightarrow> 't prio_queue" where
  "prio_push q t =
     (case q of (es, index) \<Rightarrow>
        (insort_key entry_key \<lparr>te_priority = fst t, te_timeStamp = index, te_func = snd t\<rparr> es, index + 1))"

definition prio_pop :: "'t prio_queue \<Rightarrow> ((u32 \<times> 't) \<times> 't prio_queue) option" where
  "prio_pop q =
     (case q of
        ([], index) \<Rightarrow> None
      | (e # es, index) \<Rightarrow> Some ((te_priority e, te_func e), (es, index)))"

subsection \<open>The pool\<close>

text \<open>
  Where a thread of the pool is: at the head of its loop, before it takes the lock of the
  queue, waiting on the condition variable, running a task, or at its end.
\<close>

datatype 't worker = WHead | WTest | WWait | WRun 't | WGone

record ('q, 't) tpool =
  tp_maxThreads :: u32
  tp_users :: u32
  tp_alive :: bool
  tp_currentThreads :: u32
  tp_threads :: "'t worker list"
  tp_queue :: 'q

definition new_pool :: "u32 \<Rightarrow> 'q \<Rightarrow> ('q, 't) tpool" where
  "new_pool maxThreads q =
     \<lparr>tp_maxThreads = maxThreads, tp_users = 0, tp_alive = True, tp_currentThreads = 0, tp_threads = [],
      tp_queue = q\<rparr>"

definition addThreads :: "u32 \<Rightarrow> ('q, 't) tpool \<Rightarrow> ('q, 't) tpool \<times> u32" where
  "addThreads numThreads p =
     (if tp_alive p
      then let currentThreads = of_nat (length (tp_threads p));
               n = (if tp_maxThreads p < numThreads + currentThreads
                    then tp_maxThreads p - currentThreads else numThreads)
           in (p\<lparr>tp_users := tp_users p + 1, tp_currentThreads := tp_currentThreads p + n,
                 tp_threads := tp_threads p @ replicate (unat n) WHead\<rparr>, n)
      else (p, numThreads))"

definition initiate_pool :: "('q, 't) tpool \<Rightarrow> ('q, 't) tpool \<times> u32" where
  "initiate_pool p = addThreads (tp_maxThreads p) p"

definition addTask :: "('q \<Rightarrow> 't \<Rightarrow> 'q) \<Rightarrow> 't \<Rightarrow> ('q, 't) tpool \<Rightarrow> ('q, 't) tpool" where
  "addTask push t p = p\<lparr>tp_queue := push (tp_queue p) t\<rparr>"

definition addThreadWithTask ::
  "('q \<Rightarrow> 't \<Rightarrow> 'q) \<Rightarrow> 't \<Rightarrow> ('q, 't) tpool \<Rightarrow> ('q, 't) tpool \<times> bool" where
  "addThreadWithTask push t p = (let (p, ret) = addThreads 1 p in (addTask push t p, ret = 1))"

text \<open>Under the lock of the queue: \<open>idle\<close> is where the thread goes when there is no task.\<close>

definition take_task ::
  "('q \<Rightarrow> ('t \<times> 'q) option) \<Rightarrow> 't worker \<Rightarrow> nat \<Rightarrow> ('q, 't) tpool \<Rightarrow> ('q, 't) tpool" where
  "take_task pop idle i p =
     (case pop (tp_queue p) of
        None \<Rightarrow> p\<lparr>tp_threads := (tp_threads p)[i := idle]\<rparr>
      | Some (t, q) \<Rightarrow> p\<lparr>tp_threads := (tp_threads p)[i := WRun t], tp_queue := q\<rparr>)"

text \<open>
  One step of \<open>workLoop\<close> of thread \<open>i\<close>, with the task it has finished in this step. A waiting
  thread may wake up at any time, by \<open>notify_one\<close>, \<open>notify_all\<close> or spuriously.
\<close>

definition worker_step ::
  "('q \<Rightarrow> ('t \<times> 'q) option) \<Rightarrow> nat \<Rightarrow> ('q, 't) tpool \<Rightarrow> ('q, 't) tpool \<times> 't list" where
  "worker_step pop i p =
     (case tp_threads p ! i of
        WHead \<Rightarrow>
          if tp_alive p then (p\<lparr>tp_threads := (tp_threads p)[i := WTest]\<rparr>, [])
          else (p\<lparr>tp_threads := (tp_threads p)[i := WGone],
                  tp_currentThreads := tp_currentThreads p - 1\<rparr>, [])
      | WTest \<Rightarrow> (take_task pop WWait i p, [])
      | WWait \<Rightarrow> (take_task pop WHead i p, [])
      | WRun t \<Rightarrow> (p\<lparr>tp_threads := (tp_threads p)[i := WHead]\<rparr>, [t])
      | WGone \<Rightarrow> (p, []))"

text \<open>
  \<open>terminate\<close> in the three parts that other threads can see: giving up a user, stopping the
  loops (after the queue has drained or the ten seconds without progress are over), and, once
  \<open>_currentThreads\<close> is 0, joining the threads.
\<close>

definition terminate_enter :: "('q, 't) tpool \<Rightarrow> ('q, 't) tpool" where
  "terminate_enter p = (if tp_users p \<noteq> 0 then p\<lparr>tp_users := tp_users p - 1\<rparr> else p)"

definition terminate_goes_on :: "bool \<Rightarrow> ('q, 't) tpool \<Rightarrow> bool" where
  "terminate_goes_on force p \<longleftrightarrow> tp_users p = 0 \<or> force"

definition terminate_stop :: "('q, 't) tpool \<Rightarrow> ('q, 't) tpool" where
  "terminate_stop p = p\<lparr>tp_alive := False\<rparr>"

definition terminate_join :: "bool \<Rightarrow> ('q, 't) tpool \<Rightarrow> ('q, 't) tpool" where
  "terminate_join force p = p\<lparr>tp_threads := [], tp_alive := \<not> force\<rparr>"

text \<open>
  The machine: the callers ask for at most \<open>_maxThreads\<close> threads. The state is the pool, who holds \<open>_tMutex\<close> (a \<open>terminate\<close> that is draining or stopping), the
  tasks that have been added and those that have been run.
\<close>

datatype terminating = NotTerminating | Draining bool | Stopping bool

type_synonym ('q, 't) tstate = "('q, 't) tpool \<times> terminating \<times> 't list \<times> 't list"

inductive tstep ::
  "('q \<Rightarrow> 't \<Rightarrow> 'q) \<Rightarrow> ('q \<Rightarrow> ('t \<times> 'q) option) \<Rightarrow> ('q, 't) tstate \<Rightarrow> ('q, 't) tstate \<Rightarrow> bool"
  for push pop where
  TThreads: "\<lbrakk>addThreads n p = (p', r); n \<le> tp_maxThreads p\<rbrakk> \<Longrightarrow>
     tstep push pop (p, NotTerminating, added, run) (p', NotTerminating, added, run)"
| TAdd: "tstep push pop (p, tm, added, run) (addTask push t p, tm, added @ [t], run)"
| TWork: "\<lbrakk>i < length (tp_threads p); worker_step pop i p = (p', ts)\<rbrakk> \<Longrightarrow>
     tstep push pop (p, tm, added, run) (p', tm, added, run @ ts)"
| TEnter: "terminate_goes_on force (terminate_enter p) \<Longrightarrow>
     tstep push pop (p, NotTerminating, added, run) (terminate_enter p, Draining force, added, run)"
| TLeave: "\<not> terminate_goes_on force (terminate_enter p) \<Longrightarrow>
     tstep push pop (p, NotTerminating, added, run) (terminate_enter p, NotTerminating, added, run)"
| TStop: "tstep push pop (p, Draining force, added, run) (terminate_stop p, Stopping force, added, run)"
| TJoin: "tp_currentThreads p = 0 \<Longrightarrow>
     tstep push pop (p, Stopping force, added, run) (terminate_join force p, NotTerminating, added, run)"

definition pool_start :: "u32 \<Rightarrow> 'q \<Rightarrow> ('q, 't) tstate" where
  "pool_start maxThreads q = (new_pool maxThreads q, NotTerminating, [], [])"

subsection \<open>No task is lost or run twice\<close>

fun running :: "'t worker \<Rightarrow> 't multiset" where
  "running (WRun t) = {#t#}"
| "running _ = {#}"

definition all_running :: "('q, 't) tpool \<Rightarrow> 't multiset" where
  "all_running p = (\<Sum>w\<leftarrow>tp_threads p. running w)"

lemma sum_list_update_add:
  "i < length xs \<Longrightarrow> (\<Sum>x\<leftarrow>xs[i := y]. f x) + f (xs ! i) = (\<Sum>x\<leftarrow>xs. f x) + (f y :: 'a multiset)"
proof (induction xs arbitrary: i)
  case (Cons x xs)
  then show ?case by (cases i) (auto simp: ac_simps)
qed simp

lemma sum_list_empty [simp]: "sum_list (replicate n {#}) = {#}"
  by (induction n) simp_all

definition alive_workers :: "'t worker list \<Rightarrow> nat" where
  "alive_workers ws = count_if (\<lambda>w. w \<noteq> WGone) ws"

text \<open>The counter of threads, and what the phases of \<open>terminate\<close> exclude.\<close>

definition workers_ok :: "('q, 't) tstate \<Rightarrow> bool" where
  "workers_ok s \<longleftrightarrow>
     (case s of (p, tm, added, run) \<Rightarrow>
        length (tp_threads p) \<le> unat (tp_maxThreads p) \<and>
        unat (tp_currentThreads p) = alive_workers (tp_threads p) \<and>
        (tp_alive p \<longrightarrow> WGone \<notin> set (tp_threads p)) \<and>
        (tm = NotTerminating \<longrightarrow> \<not> tp_alive p \<longrightarrow> tp_threads p = []))"

locale task_queue =
  fixes push :: "'q \<Rightarrow> 't \<Rightarrow> 'q" and pop :: "'q \<Rightarrow> ('t \<times> 'q) option" and content :: "'q \<Rightarrow> 't multiset"
  assumes content_push: "content (push q t) = add_mset t (content q)"
    and pop_None: "pop q = None \<Longrightarrow> content q = {#}"
    and pop_Some: "pop q = Some (t, q') \<Longrightarrow> content q = add_mset t (content q')"
begin

definition conserved :: "('q, 't) tstate \<Rightarrow> bool" where
  "conserved s \<longleftrightarrow>
     (case s of (p, tm, added, run) \<Rightarrow>
        mset added = content (tp_queue p) + all_running p + mset run)"

lemma all_running_update:
  "i < length (tp_threads p) \<Longrightarrow>
     (\<Sum>w\<leftarrow>(tp_threads p)[i := w']. running w) + running (tp_threads p ! i) = all_running p + running w'"
  by (simp add: all_running_def sum_list_update_add)

lemma take_task_conserved:
  assumes "i < length (tp_threads p)" "running (tp_threads p ! i) = {#}" "running idle = {#}"
  shows "content (tp_queue (take_task pop idle i p)) + all_running (take_task pop idle i p)
    = content (tp_queue p) + all_running p"
proof (cases "pop (tp_queue p)")
  case None
  then show ?thesis
    using all_running_update [OF assms(1), of idle] assms(2,3)
    by (simp add: take_task_def all_running_def)
next
  case (Some r)
  obtain t q where r: "r = (t, q)" by fastforce
  then show ?thesis
    using Some pop_Some [of "tp_queue p" t q] all_running_update [OF assms(1), of "WRun t"] assms(2)
    by (simp add: take_task_def all_running_def)
qed

lemma conserved_step:
  assumes "tstep push pop s s'" "conserved s" "workers_ok s"
  shows "conserved s'"
  using assms
proof (cases rule: tstep.cases)
  case (TThreads n p p' r added run)
  then show ?thesis
    using assms(2)
    by (auto simp: conserved_def addThreads_def all_running_def sum_list_replicate Let_def split: if_splits)
next
  case (TAdd p tm added run t)
  then show ?thesis using assms(2) by (simp add: conserved_def addTask_def content_push all_running_def)
next
  case (TWork i p p' ts tm added run)
  show ?thesis
  proof (cases "tp_threads p ! i")
    case (WRun t)
    then show ?thesis
      using TWork assms(2) all_running_update [OF TWork(3), of WHead]
      by (auto simp: conserved_def worker_step_def all_running_def ac_simps)
  next
    case WHead
    then show ?thesis
      using TWork assms(2) all_running_update [OF TWork(3), of WTest] all_running_update [OF TWork(3), of WGone]
      by (auto simp: conserved_def worker_step_def all_running_def split: if_splits)
  next
    case WTest
    then show ?thesis
      using TWork assms(2) take_task_conserved [OF TWork(3), of WWait]
      by (auto simp: conserved_def worker_step_def)
  next
    case WWait
    then show ?thesis
      using TWork assms(2) take_task_conserved [OF TWork(3), of WHead]
      by (auto simp: conserved_def worker_step_def)
  next
    case WGone
    then show ?thesis using TWork assms(2) by (auto simp: conserved_def worker_step_def)
  qed
next
  case (TJoin p force added run)
  have gone: "w = WGone" if "w \<in> set (tp_threads p)" for w
    using assms(3) TJoin that by (auto simp: workers_ok_def alive_workers_def filter_empty_conv)
  have "map running (tp_threads p) = map (\<lambda>_. {#}) (tp_threads p)"
    by (intro map_cong) (auto dest!: gone)
  then have "all_running p = {#}" by (simp add: all_running_def map_replicate_const)
  then show ?thesis using TJoin assms(2) by (simp add: conserved_def terminate_join_def all_running_def)
qed (use assms(2) in \<open>auto simp: conserved_def terminate_enter_def terminate_stop_def all_running_def\<close>)

end

lemma alive_workers_update:
  "i < length ws \<Longrightarrow>
     alive_workers (ws[i := w]) + of_bool (ws ! i \<noteq> WGone) = alive_workers ws + of_bool (w \<noteq> WGone)"
  using count_if_update [of i ws "\<lambda>w. w \<noteq> WGone" w] by (simp add: alive_workers_def)

lemma take_task_sel [simp]:
  "tp_maxThreads (take_task pop idle i p) = tp_maxThreads p"
  "tp_currentThreads (take_task pop idle i p) = tp_currentThreads p"
  "tp_alive (take_task pop idle i p) = tp_alive p"
  by (simp_all add: take_task_def split: option.split)

lemma take_task_threads:
  "\<exists>w. tp_threads (take_task pop idle i p) = (tp_threads p)[i := w] \<and> (w = idle \<or> (\<exists>t. w = WRun t))"
  by (auto simp: take_task_def split: option.split)

lemma addThreads_ok:
  assumes "addThreads n p = (p', r)" "n \<le> tp_maxThreads p" "unat (tp_maxThreads p) < 2 ^ 31"
    "length (tp_threads p) \<le> unat (tp_maxThreads p)" "tp_alive p"
  shows "tp_threads p' = tp_threads p @ replicate (unat r) WHead \<and> tp_currentThreads p' = tp_currentThreads p + r \<and>
    unat r + length (tp_threads p) \<le> unat (tp_maxThreads p) \<and> tp_maxThreads p' = tp_maxThreads p \<and> tp_alive p'"
proof -
  let ?c = "of_nat (length (tp_threads p)) :: u32"
  have c: "unat ?c = length (tp_threads p)" using assms(3,4) by (intro unat_of_nat_small) simp
  have n: "unat n \<le> unat (tp_maxThreads p)" using assms(2) by (simp add: word_le_nat_alt)
  have sum: "unat (n + ?c) = unat n + length (tp_threads p)"
    using c n assms(3,4) by (subst unat_add_small) simp_all
  have diff: "unat (tp_maxThreads p - ?c) = unat (tp_maxThreads p) - length (tp_threads p)"
    using c assms(4) by (subst unat_diff_le) (simp_all add: word_le_nat_alt)
  show ?thesis
    using assms(1,4,5) sum diff
    by (auto simp: addThreads_def Let_def word_less_nat_alt split: if_splits)
qed

lemma workers_ok_step:
  assumes "tstep push pop s s'" "workers_ok s" "unat (tp_maxThreads (fst s)) < 2 ^ 31"
  shows "workers_ok s' \<and> tp_maxThreads (fst s') = tp_maxThreads (fst s)"
  using assms
proof (cases rule: tstep.cases)
  case (TThreads n p p' r added run)
  show ?thesis
  proof (cases "tp_alive p")
    case True
    have len: "length (tp_threads p) \<le> unat (tp_maxThreads p)" using assms(2) TThreads by (simp add: workers_ok_def)
    note a = addThreads_ok [OF TThreads(3,4) _ len True]
    have cur: "unat (tp_currentThreads p) = alive_workers (tp_threads p)" "WGone \<notin> set (tp_threads p)"
      using assms(2) TThreads True by (simp_all add: workers_ok_def)
    have le: "alive_workers (tp_threads p) \<le> length (tp_threads p)" by (simp add: alive_workers_def)
    have "unat (tp_currentThreads p + r) = unat (tp_currentThreads p) + unat r"
      using a assms(3) TThreads cur(1) le by (intro unat_add_small) simp
    then show ?thesis
      using a assms(3) TThreads cur by (auto simp: workers_ok_def alive_workers_def)
  next
    case False
    then show ?thesis using TThreads assms(2) by (simp add: addThreads_def)
  qed
next
  case (TWork i p p' ts tm added run)
  have inv: "length (tp_threads p) \<le> unat (tp_maxThreads p)"
      "unat (tp_currentThreads p) = alive_workers (tp_threads p)"
      "tp_alive p \<longrightarrow> WGone \<notin> set (tp_threads p)"
      "tm = NotTerminating \<longrightarrow> \<not> tp_alive p \<longrightarrow> tp_threads p = []"
    using assms(2) TWork(1) by (simp_all add: workers_ok_def)
  have keep: "workers_ok (p', tm, added, run @ ts)"
    if "tp_threads p' = (tp_threads p)[i := w]" "w \<noteq> WGone" "tp_threads p ! i \<noteq> WGone"
      "tp_currentThreads p' = tp_currentThreads p" "tp_maxThreads p' = tp_maxThreads p" "tp_alive p' = tp_alive p" for w
    using inv that alive_workers_update [OF TWork(3), of w] set_update_subset_insert [of "tp_threads p" i w]
    by (auto simp: workers_ok_def)
  show ?thesis
  proof (cases "tp_threads p ! i")
    case WHead
    show ?thesis
    proof (cases "tp_alive p")
      case True
      then show ?thesis using TWork WHead keep [of WTest] by (auto simp: worker_step_def)
    next
      case False
      have al: "Suc (alive_workers ((tp_threads p)[i := WGone])) = alive_workers (tp_threads p)"
        using alive_workers_update [OF TWork(3), of WGone] WHead by simp
      then have "1 \<le> tp_currentThreads p" using inv(2) by (simp add: word_le_nat_alt)
      then have "unat (tp_currentThreads p - 1) = alive_workers ((tp_threads p)[i := WGone])"
        using al inv(2) by (simp add: unat_diff_le)
      then show ?thesis
        using TWork WHead False inv by (auto simp: worker_step_def workers_ok_def)
    qed
  next
    case WTest
    then show ?thesis
      using TWork keep take_task_threads [of pop WWait i p] by (auto simp: worker_step_def)
  next
    case WWait
    then show ?thesis
      using TWork keep take_task_threads [of pop WHead i p] by (auto simp: worker_step_def)
  next
    case (WRun t)
    then show ?thesis using TWork keep [of WHead] by (auto simp: worker_step_def)
  next
    case WGone
    then show ?thesis using TWork assms(2) by (auto simp: worker_step_def)
  qed
next
  case (TJoin p force added run)
  then show ?thesis using assms(2) by (simp add: workers_ok_def terminate_join_def alive_workers_def)
qed (use assms(2) in \<open>auto simp: workers_ok_def addTask_def terminate_enter_def terminate_stop_def\<close>)

context task_queue
begin

lemma tasks_conserved:
  assumes "(tstep push pop)\<^sup>*\<^sup>* (pool_start maxThreads q0) s" "content q0 = {#}" "unat maxThreads < 2 ^ 31"
  shows "conserved s \<and> workers_ok s"
proof -
  have "conserved s \<and> workers_ok s \<and> tp_maxThreads (fst s) = maxThreads"
    using assms(1)
  proof (induction rule: rtranclp_induct)
    case base
    then show ?case
      using assms(2)
      by (simp add: conserved_def workers_ok_def pool_start_def new_pool_def all_running_def alive_workers_def)
  next
    case (step s s')
    then show ?case using conserved_step workers_ok_step [OF step.hyps(2)] assms(3) by auto
  qed
  then show ?thesis by simp
qed

end

interpretation fifo: task_queue fifo_push fifo_pop mset
proof
  show "fifo_pop q = None \<Longrightarrow> mset q = {#}" for q :: "'t list" by (cases q) simp_all
  show "fifo_pop q = Some (t, q') \<Longrightarrow> mset q = add_mset t (mset q')" for q q' :: "'t list" and t
    by (cases q) simp_all
qed (simp add: fifo_push_def)

abbreviation task_of :: "'t TaskEntry \<Rightarrow> u32 \<times> 't" where
  "task_of e \<equiv> (te_priority e, te_func e)"

interpretation prio: task_queue prio_push prio_pop "\<lambda>q. mset (map task_of (fst q))"
proof
  have "mset (map f (insort_key k e es)) = add_mset (f e) (mset (map f es))"
    for f :: "'t TaskEntry \<Rightarrow> u32 \<times> 't" and k :: "'t TaskEntry \<Rightarrow> u32 \<times> u32" and e es
    by (induction es) auto
  then show "mset (map task_of (fst (prio_push q t))) = add_mset t (mset (map task_of (fst q)))"
    for q :: "'t prio_queue" and t
    by (simp add: prio_push_def split: prod.split)
qed (auto simp: prio_pop_def split: prod.splits list.splits)

text \<open>
  C30: no task is lost and none runs twice. In every interleaving of adding tasks, working
  threads, adding threads and terminating, the tasks that were added are those still queued,
  those being run and those that have been run, for both pools.
\<close>

theorem tasks_run_once:
  assumes "unat maxThreads < 2 ^ 31"
  shows "((tstep fifo_push fifo_pop)\<^sup>*\<^sup>* (pool_start maxThreads []) (p, tm, added, run) \<longrightarrow>
      mset added = mset (tp_queue p) + all_running p + mset run) \<and>
    ((tstep prio_push prio_pop)\<^sup>*\<^sup>* (pool_start maxThreads ([], i0)) (p', tm', added', run') \<longrightarrow>
      mset added' = mset (map task_of (fst (tp_queue p'))) + all_running p' + mset run')"
proof (intro conjI impI)
  assume "(tstep fifo_push fifo_pop)\<^sup>*\<^sup>* (pool_start maxThreads []) (p, tm, added, run)"
  from fifo.tasks_conserved [OF this _ assms] show "mset added = mset (tp_queue p) + all_running p + mset run"
    by (simp add: fifo.conserved_def)
next
  assume "(tstep prio_push prio_pop)\<^sup>*\<^sup>* (pool_start maxThreads ([], i0)) (p', tm', added', run')"
  from prio.tasks_conserved [OF this _ assms, unfolded prio.conserved_def split_conv]
  show "mset added' = mset (map task_of (fst (tp_queue p'))) + all_running p' + mset run'" by simp
qed

text \<open>Runs that can be computed.\<close>

datatype 't task_event = EThreads u32 | EAddTask 't | EWork nat | EEnter bool | EStop | EJoin

fun task_exec1 ::
  "('q \<Rightarrow> 't \<Rightarrow> 'q) \<Rightarrow> ('q \<Rightarrow> ('t \<times> 'q) option) \<Rightarrow> 't task_event \<Rightarrow> ('q, 't) tstate \<Rightarrow> ('q, 't) tstate option" where
  "task_exec1 push pop (EThreads n) (p, tm, added, run) =
     (if tm = NotTerminating \<and> n \<le> tp_maxThreads p
      then Some (fst (addThreads n p), tm, added, run) else None)"
| "task_exec1 push pop (EAddTask t) (p, tm, added, run) = Some (addTask push t p, tm, added @ [t], run)"
| "task_exec1 push pop (EWork i) (p, tm, added, run) =
     (if i < length (tp_threads p)
      then let (p, ts) = worker_step pop i p in Some (p, tm, added, run @ ts) else None)"
| "task_exec1 push pop (EEnter force) (p, tm, added, run) =
     (if tm = NotTerminating
      then Some (terminate_enter p,
        if terminate_goes_on force (terminate_enter p) then Draining force else NotTerminating, added, run)
      else None)"
| "task_exec1 push pop EStop (p, tm, added, run) =
     (case tm of Draining force \<Rightarrow> Some (terminate_stop p, Stopping force, added, run) | _ \<Rightarrow> None)"
| "task_exec1 push pop EJoin (p, tm, added, run) =
     (case tm of
        Stopping force \<Rightarrow>
          if tp_currentThreads p = 0 then Some (terminate_join force p, NotTerminating, added, run) else None
      | _ \<Rightarrow> None)"

fun task_exec ::
  "('q \<Rightarrow> 't \<Rightarrow> 'q) \<Rightarrow> ('q \<Rightarrow> ('t \<times> 'q) option) \<Rightarrow> 't task_event list \<Rightarrow> ('q, 't) tstate \<Rightarrow> ('q, 't) tstate option" where
  "task_exec push pop [] s = Some s"
| "task_exec push pop (e # es) s = Option.bind (task_exec1 push pop e s) (task_exec push pop es)"

lemma task_exec1_step: "task_exec1 push pop e s = Some s' \<Longrightarrow> tstep push pop s s'"
  by (cases e; cases s)
    (auto intro: tstep.intros tstep.TThreads [OF surjective_pairing]
      split: if_splits prod.splits terminating.splits)

lemma task_exec_steps: "task_exec push pop es s = Some s' \<Longrightarrow> (tstep push pop)\<^sup>*\<^sup>* s s'"
proof (induction es arbitrary: s)
  case (Cons e es)
  then obtain u where u: "task_exec1 push pop e s = Some u" "task_exec push pop es u = Some s'"
    by (cases "task_exec1 push pop e s") auto
  show ?case by (rule converse_rtranclp_into_rtranclp [OF task_exec1_step [OF u(1)] Cons.IH [OF u(2)]])
qed simp

definition demo_pool :: "(nat list, nat) tstate" where
  "demo_pool = the (task_exec fifo_push fifo_pop
     [EThreads 2, EAddTask 7, EAddTask 8, EAddTask 9, EWork 0, EWork 0, EWork 0, EWork 1, EWork 1] (pool_start 2 []))"

lemma demo_pool_parts:
  "\<not> Option.is_none (task_exec fifo_push fifo_pop
     [EThreads 2, EAddTask 7, EAddTask 8, EAddTask 9, EWork 0, EWork 0, EWork 0, EWork 1, EWork 1]
     (pool_start 2 ([] :: nat list)))"
  "fst (snd (snd demo_pool)) = [7, 8, 9]" "snd (snd (snd demo_pool)) = [7]"
  "tp_queue (fst demo_pool) = [9]" "tp_threads (fst demo_pool) = [WHead, WRun 8]"
  by code_simp+

lemma is_none_the: "\<not> Option.is_none x \<Longrightarrow> x = Some (the x)"
  by (cases x) simp_all

lemma demo_pool_run: "(tstep fifo_push fifo_pop)\<^sup>*\<^sup>* (pool_start 2 []) demo_pool"
  unfolding demo_pool_def by (rule task_exec_steps [OF is_none_the [OF demo_pool_parts(1)]])

theorem tasks_run_once_witness:
  "mset [7, 8, 9 :: nat] = mset [9] + all_running (fst demo_pool) + mset [7]"
proof -
  obtain p tm added run where e: "demo_pool = (p, tm, added, run)" by (rule prod_cases4)
  from tasks_run_once [THEN conjunct1, THEN mp, OF _ demo_pool_run [unfolded e]]
  have "mset added = mset (tp_queue p) + all_running p + mset run" by simp
  then show ?thesis using demo_pool_parts(2-4) unfolding e by (simp only: fst_conv snd_conv)
qed

text \<open>
  a pool never has more threads than its maximum, and when \<open>_currentThreads\<close> is down to 0,
  which \<open>terminate\<close> waits for before it joins, all threads have left their loops: none is in
  the middle of a task.
\<close>

theorem shutdown_waits_for_workers:
  assumes "(tstep fifo_push fifo_pop)\<^sup>*\<^sup>* (pool_start maxThreads []) (p, tm, added, run)" "unat maxThreads < 2 ^ 31"
  shows "length (tp_threads p) \<le> unat (tp_maxThreads p) \<and>
    (tp_currentThreads p = 0 \<longrightarrow> set (tp_threads p) \<subseteq> {WGone})"
proof -
  have "workers_ok (p, tm, added, run)" using fifo.tasks_conserved [OF assms(1) _ assms(2)] by simp
  then show ?thesis by (auto simp: workers_ok_def alive_workers_def filter_empty_conv)
qed

theorem shutdown_waits_for_workers_witness:
  "length (tp_threads (fst demo_pool)) \<le> unat (tp_maxThreads (fst demo_pool))"
proof -
  obtain p tm added run where e: "demo_pool = (p, tm, added, run)" by (rule prod_cases4)
  from shutdown_waits_for_workers [OF demo_pool_run [unfolded e]] show ?thesis by (simp add: e)
qed

subsection \<open>The order of the priority pool\<close>

definition prio_ok :: "('t prio_queue, u32 \<times> 't) tstate \<Rightarrow> bool" where
  "prio_ok s \<longleftrightarrow>
     (case s of (p, tm, added, run) \<Rightarrow>
        sorted (map entry_key (fst (tp_queue p))) \<and> distinct (map te_timeStamp (fst (tp_queue p))) \<and>
        snd (tp_queue p) = of_nat (length added) \<and>
        (\<forall>e \<in> set (fst (tp_queue p)). unat (te_timeStamp e) < length added \<and>
           added ! unat (te_timeStamp e) = task_of e))"

lemma insort_key_last: "\<forall>x \<in> set xs. k x < k e \<Longrightarrow> insort_key k e xs = xs @ [e]"
  by (induction xs) (auto simp: not_le)

lemma worker_step_queue:
  assumes "worker_step prio_pop i p = (p', ts)"
  obtains "tp_queue p' = tp_queue p" | e es where "tp_queue p = (e # es, snd (tp_queue p))" "tp_queue p' = (es, snd (tp_queue p))"
proof -
  have "tp_queue p' = tp_queue p \<or> (\<exists>e es. tp_queue p = (e # es, snd (tp_queue p)) \<and> tp_queue p' = (es, snd (tp_queue p)))"
    using assms
    by (cases "tp_threads p ! i"; cases "tp_queue p"; cases "fst (tp_queue p)")
      (auto simp: worker_step_def take_task_def prio_pop_def split: if_splits)
  then show thesis using that by blast
qed

lemma prio_ok_step:
  assumes "tstep prio_push prio_pop s s'" "prio_ok s" "length (fst (snd (snd s'))) < 2 ^ 32"
  shows "prio_ok s'"
  using assms
proof (cases rule: tstep.cases)
  case (TThreads n p p' r added run)
  then have "tp_queue p' = tp_queue p" by (auto simp: addThreads_def Let_def split: if_splits)
  then show ?thesis using TThreads assms(2) by (simp add: prio_ok_def)
next
  case (TAdd p tm added run t)
  obtain es index where q: "tp_queue p = (es, index)" by fastforce
  have ok: "sorted (map entry_key es)" "distinct (map te_timeStamp es)" "index = of_nat (length added)"
      "\<forall>e \<in> set es. unat (te_timeStamp e) < length added \<and> added ! unat (te_timeStamp e) = task_of e"
    using assms(2) TAdd(1) q by (simp_all add: prio_ok_def)
  have us: "unat index = length added" using assms(3) TAdd(2) ok(3) by (simp add: unat_of_nat_small)
  let ?e = "\<lparr>te_priority = fst t, te_timeStamp = index, te_func = snd t\<rparr>"
  have set: "set (insort_key entry_key ?e es) = insert ?e (set es)" by (rule set_insort_key)
  have "mset (map te_timeStamp (insort_key entry_key ?e es)) = add_mset index (mset (map te_timeStamp es))"
    by (induction es) auto
  moreover have "index \<notin> te_timeStamp ` set es" using ok(4) us by auto
  ultimately have "distinct (map te_timeStamp (insort_key entry_key ?e es))"
    using ok(2) by (metis distinct.simps(2) mset.simps(2) mset_eq_imp_distinct_iff set_map)
  then show ?thesis
    using TAdd q ok us set sorted_insort_key [of entry_key ?e es]
    by (auto simp: prio_ok_def addTask_def prio_push_def nth_append)
next
  case (TWork i p p' ts tm added run)
  from TWork(4) show ?thesis
  proof (cases rule: worker_step_queue)
    case 1
    then show ?thesis using TWork(1,2) assms(2) by (simp add: prio_ok_def)
  next
    case (2 e es)
    then show ?thesis using TWork(1,2) assms(2) by (auto simp: prio_ok_def)
  qed
qed (use assms(2) in \<open>auto simp: prio_ok_def terminate_enter_def terminate_stop_def terminate_join_def\<close>)

lemma added_mono:
  "tstep push pop s s' \<Longrightarrow> length (fst (snd (snd s))) \<le> length (fst (snd (snd s')))"
  by (induction rule: tstep.induct) simp_all

lemma prio_reachable:
  assumes "(tstep prio_push prio_pop)\<^sup>*\<^sup>* (pool_start maxThreads ([], 0)) s" "length (fst (snd (snd s))) < 2 ^ 32"
  shows "prio_ok s"
  using assms
proof (induction rule: rtranclp_induct)
  case base
  then show ?case by (simp add: prio_ok_def pool_start_def new_pool_def)
next
  case (step s s')
  then show ?case using prio_ok_step [OF step.hyps(2)] added_mono [OF step.hyps(2)] by simp
qed

text \<open>
  C31: the priority pool runs the most urgent task first and equally urgent ones in the order
  in which they were added. Whatever was added and taken before, the task that the next
  thread takes has the smallest priority number of all queued tasks, and was added before all
  queued tasks of the same number (as long as fewer than \<open>2^32\<close> tasks were added).
\<close>

theorem most_urgent_oldest_first:
  assumes "(tstep prio_push prio_pop)\<^sup>*\<^sup>* (pool_start maxThreads ([], 0)) (p, tm, added, run)"
    and "length added < 2 ^ 32" "prio_pop (tp_queue p) = Some (t, (es, index))"
  shows "\<exists>i < length added. added ! i = t \<and>
    (\<forall>e \<in> set es. \<exists>j < length added. added ! j = task_of e \<and>
       (fst t < te_priority e \<or> fst t = te_priority e \<and> i < j))"
proof -
  have ok: "prio_ok (p, tm, added, run)" by (rule prio_reachable [OF assms(1)]) (use assms(2) in simp)
  obtain e where q: "tp_queue p = (e # es, index)" and t: "t = task_of e"
    using assms(3) by (auto simp: prio_pop_def split: prod.splits list.splits)
  have e: "unat (te_timeStamp e) < length added" "added ! unat (te_timeStamp e) = t"
    using ok q t by (simp_all add: prio_ok_def)
  have "\<exists>j < length added. added ! j = task_of x \<and>
      (fst t < te_priority x \<or> fst t = te_priority x \<and> unat (te_timeStamp e) < j)" if x: "x \<in> set es" for x
  proof (intro exI [of _ "unat (te_timeStamp x)"] conjI)
    show "unat (te_timeStamp x) < length added" "added ! unat (te_timeStamp x) = task_of x"
      using ok q x by (simp_all add: prio_ok_def)
    have "entry_key e \<le> entry_key x" "te_timeStamp e \<noteq> te_timeStamp x"
      using ok q x by (auto simp: prio_ok_def)
    then show "fst t < te_priority x \<or> fst t = te_priority x \<and> unat (te_timeStamp e) < unat (te_timeStamp x)"
      using t by (auto simp: entry_key_def word_less_nat_alt [symmetric])
  qed
  then show ?thesis using e by blast
qed

definition demo_prio :: "(nat prio_queue, u32 \<times> nat) tstate" where
  "demo_prio = the (task_exec prio_push prio_pop
     [EAddTask (5, 70), EAddTask (1, 71), EAddTask (5, 72), EAddTask (1, 73)] (pool_start 1 ([], 0)))"

lemma demo_prio_parts:
  "\<not> Option.is_none (task_exec prio_push prio_pop
     [EAddTask (5, 70), EAddTask (1, 71), EAddTask (5, 72), EAddTask (1, 73)]
     (pool_start 1 ([] :: nat TaskEntry list, 0)))"
  "fst (snd (snd demo_prio)) = [(5, 70), (1, 71), (5, 72), (1, 73)]"
  "map task_of (fst (tp_queue (fst demo_prio))) = [(1, 71), (1, 73), (5, 70), (5, 72)]"
  by code_simp+

theorem most_urgent_oldest_first_witness:
  "\<exists>i < length (fst (snd (snd demo_prio))). fst (snd (snd demo_prio)) ! i = (1, 71) \<and>
    (\<forall>e \<in> set (tl (fst (tp_queue (fst demo_prio)))). \<exists>j < length (fst (snd (snd demo_prio))).
       fst (snd (snd demo_prio)) ! j = task_of e \<and> (fst (1, 71 :: nat) < te_priority e \<or> fst (1, 71 :: nat) = te_priority e \<and> i < j))"
proof -
  obtain p tm added run where e: "demo_prio = (p, tm, added, run)" by (rule prod_cases4)
  have run: "(tstep prio_push prio_pop)\<^sup>*\<^sup>* (pool_start 1 ([], 0)) (p, tm, added, run)"
    unfolding e [symmetric] demo_prio_def by (rule task_exec_steps [OF is_none_the [OF demo_prio_parts(1)]])
  have "length added = 4" using demo_prio_parts(2) by (simp add: e)
  then have len: "length added < 2 ^ 32" by simp
  obtain x xs index where q: "tp_queue p = (x # xs, index)" "task_of x = (1, 71)"
    using demo_prio_parts(3) by (cases "tp_queue p"; cases "fst (tp_queue p)") (auto simp: e)
  have pop: "prio_pop (tp_queue p) = Some ((1, 71), (xs, index))" using q by (simp add: prio_pop_def)
  show ?thesis
    unfolding e fst_conv snd_conv q(1) list.sel by (rule most_urgent_oldest_first [OF run len pop, unfolded fst_conv])
qed

subsection \<open>One thread keeps the order\<close>

fun running_list :: "'t worker \<Rightarrow> 't list" where
  "running_list (WRun t) = [t]"
| "running_list _ = []"

definition ordered :: "('t list, 't) tstate \<Rightarrow> bool" where
  "ordered s \<longleftrightarrow>
     (case s of (p, tm, added, run) \<Rightarrow> added = run @ concat (map running_list (tp_threads p)) @ tp_queue p)"

lemma one_worker: "i < length ws \<Longrightarrow> length ws \<le> 1 \<Longrightarrow> i = 0 \<and> ws = [ws ! 0]"
  by (cases ws) auto

lemma ordered_step:
  assumes "tstep fifo_push fifo_pop s s'" "ordered s" "workers_ok s" "unat (tp_maxThreads (fst s)) \<le> 1"
  shows "ordered s'"
  using assms
proof (cases rule: tstep.cases)
  case (TThreads n p p' r added run)
  have "concat (map running_list (replicate m WHead)) = []" for m by (induction m) simp_all
  then show ?thesis
    using TThreads assms(2) by (auto simp: ordered_def addThreads_def Let_def split: if_splits)
next
  case (TAdd p tm added run t)
  then show ?thesis using assms(2) by (simp add: ordered_def addTask_def fifo_push_def)
next
  case (TWork i p p' ts tm added run)
  have "length (tp_threads p) \<le> 1" using assms(3,4) TWork(1) by (auto simp: workers_ok_def)
  then obtain w where w: "i = 0" "tp_threads p = [w]" using one_worker [OF TWork(3)] by auto
  show ?thesis
    using TWork w assms(2)
    by (cases w; cases "tp_queue p")
      (auto simp: ordered_def worker_step_def take_task_def split: if_splits)
next
  case (TJoin p force added run)
  have gone: "w = WGone" if "w \<in> set (tp_threads p)" for w
    using assms(3) TJoin that by (auto simp: workers_ok_def alive_workers_def filter_empty_conv)
  have "map running_list (tp_threads p) = map (\<lambda>_. []) (tp_threads p)"
    by (intro map_cong) (auto dest!: gone)
  then show ?thesis using TJoin assms(2) by (simp add: ordered_def terminate_join_def)
qed (use assms(2) in \<open>auto simp: ordered_def terminate_enter_def terminate_stop_def\<close>)

lemma one_thread_ordered:
  assumes "(tstep fifo_push fifo_pop)\<^sup>*\<^sup>* (pool_start maxThreads []) s" "unat maxThreads \<le> 1"
  shows "ordered s"
proof -
  have "ordered s \<and> workers_ok s \<and> tp_maxThreads (fst s) = maxThreads"
    using assms(1)
  proof (induction rule: rtranclp_induct)
    case base
    then show ?case by (simp add: ordered_def workers_ok_def pool_start_def new_pool_def alive_workers_def)
  next
    case (step s s')
    have "unat (tp_maxThreads (fst s)) < 2 ^ 31" using step.IH assms(2) by simp
    with step show ?case
      using ordered_step [OF step.hyps(2)] workers_ok_step [OF step.hyps(2)] assms(2) by simp
  qed
  then show ?thesis by simp
qed

lemma one_thread_all_run:
  assumes "(tstep fifo_push fifo_pop)\<^sup>*\<^sup>* (pool_start maxThreads []) (p, tm, added, run)" "unat maxThreads \<le> 1"
    "length run = length added"
  shows "run = added"
  using one_thread_ordered [OF assms(1,2)] assms(3) by (auto simp: ordered_def)

end
