(* ===== verification/WritePath.thy ===== *)
theory WritePath
  imports OutputPath Server TaskPool
begin

text \<open>
  The write path from end to end: the buffer of \<open>OutputFile\<close>, the transfer pool, the write
  messages, \<open>writeDataToFile\<close> and the pool of the server that appends to the file.
\<close>

definition numServerCompThreads :: u32 where "numServerCompThreads = 1"

text \<open>The messages that a server handles one after the other, on any of its sockets.\<close>

fun receive_all ::
  "'c server_env \<Rightarrow> int \<Rightarrow> 'w sys \<Rightarrow> bytes list \<Rightarrow> 'w \<times> connection \<times> tls \<times> 'c server \<Rightarrow>
   ('w \<times> connection \<times> tls \<times> 'c server) option" where
  "receive_all env sockfd sys [] s = Some s"
| "receive_all env sockfd sys (m # ms) (w, k, t, sv) =
     Option.bind (serve_message env sockfd sys w k t m sv) (receive_all env sockfd sys ms)"

lemma write_packet_type:
  assumes "write_packet pkt name dataSize compSize fp sn = Some p" "12 \<le> length p"
  shows "get_u32 p 8 = Some (msg_code WRITE_MSG)"
proof -
  define hd where "hd = fillMsgHeader WRITE_MSG (name_size name) (of_nat sizeof_writeMsg + name_size name + dataSize)"
  obtain q n where q: "blit pkt 0 (hd @ (put_u32 dataSize @ put_u32 compSize @ put_u64 fp @ put_u32 sn @ name @ [0])) = Some q"
      "mem_slice 0 n q = Some p"
    using assms(1) by (auto simp: write_packet_def Let_def bind_eq_Some_conv hd_def)
  then obtain rest where "q = hd @ rest" by (auto simp: blit_def split: if_splits)
  then have p: "p = take n (hd @ rest)" using q(2) by (simp add: mem_slice_def split: if_splits)
  have n: "12 \<le> n" using assms(2) unfolding p by simp
  have l: "length hd = 20" by (simp add: hd_def)
  have "take 4 (drop 8 p) = take 4 (drop 8 hd)"
    using n l unfolding p by (simp add: drop_take min_def)
  then have "get_u32 p 8 = get_u32 hd 8" using assms(2) l by (simp add: get_u32_def mem_slice_def)
  also have "\<dots> = Some (msg_code WRITE_MSG)" by (simp add: hd_def fillMsgHeader_def wire_simps del: msg_code.simps)
  finally show ?thesis .
qed

text \<open>A file that is open for writing on the server.\<close>

definition writable :: "bytes \<Rightarrow> 'c server \<Rightarrow> bool" where
  "writable name sv \<longleftrightarrow>
     (\<exists>f. getServeFile name sv = Some f \<and> sf_name f = name \<and> sf_output f \<and> \<not> sf_closing f)"

definition write_of :: "bytes \<Rightarrow> chunk \<Rightarrow> bytes \<times> bytes \<times> u64" where
  "write_of name c = (name, chunk_data (41 + length name) c, ck_fp c)"

lemma serve_chunk_eq:
  assumes "chunk_ok (41 + length name) c" "0 \<notin> set name" "writable name sv" "chunk_message name c = Some p"
  shows "serve_message env sockfd sys w k t p sv = Option.bind (serverSendClose sys w k t (ack_packet WRITE_MSG))
      (\<lambda>(w, k, t, _). Some (w, k, t, sv\<lparr>sv_tasks := sv_tasks sv @ [write_of name c]\<rparr>))"
proof -
  obtain f where f: "getServeFile name sv = Some f" "sf_name f = name" "sf_output f" "\<not> sf_closing f"
    using assms(3) by (auto simp: writable_def)
  have p: "parseWriteMsg p = Some (name, 41 + length name, ucast (ck_size c), ucast (ck_size c), ck_fp c)"
      "mem_slice (41 + length name) (unat (ck_size c)) p = Some (chunk_data (41 + length name) c)"
    using chunk_message_ok [OF assms(1,2)] assms(4) by auto
  have "12 \<le> length p" using chunk_message_ok [OF assms(1,2)] assms(4) by auto
  then have ty: "get_u32 p 8 = Some (msg_code WRITE_MSG)"
    using assms(4) write_packet_type unfolding chunk_message_def by blast
  have u: "unat (ucast (ck_size c) :: u32) = unat (ck_size c)"
    using assms(1) by (intro unat_ucast_small) (simp add: chunk_ok_def unat_outputFileBufferSize)
  have "serve_message env sockfd sys w k t p sv = writeDataToFile env sys w k t p sv"
    by (simp add: serve_message_def ty Let_def del: msg_code.simps)
  also have "\<dots> = Option.bind (serverSendClose sys w k t (ack_packet WRITE_MSG))
      (\<lambda>(w, k, t, _). Some (w, k, t, sv\<lparr>sv_tasks := sv_tasks sv @ [write_of name c]\<rparr>))"
    using f p u by (simp add: writeDataToFile_def received_data_def writeData_def write_of_def)
  finally show ?thesis .
qed

lemma serve_chunk:
  assumes "chunk_ok (41 + length name) c" "0 \<notin> set name" "writable name sv" "chunk_message name c = Some p"
    "serve_message env sockfd sys w k t p sv = Some (w', k', t', sv')"
  shows "sv' = sv\<lparr>sv_tasks := sv_tasks sv @ [write_of name c]\<rparr>"
  using assms(5) unfolding serve_chunk_eq [OF assms(1-4)] by (auto simp: bind_eq_Some_conv)

lemma writable_tasks [simp]: "writable name (sv\<lparr>sv_tasks := ts\<rparr>) = writable name sv"
  by (simp add: writable_def getServeFile_def)

lemma receive_chunks:
  assumes "0 \<notin> set name" "\<forall>c \<in> set cs. chunk_ok (41 + length name) c" "writable name sv"
    "receive_all env sockfd sys (map (\<lambda>c. the (chunk_message name c)) cs) (w, k, t, sv) = Some (w', k', t', sv')"
  shows "sv_tasks sv' = sv_tasks sv @ map (write_of name) cs \<and> sv_fs sv' = sv_fs sv"
  using assms(2-4)
proof (induction cs arbitrary: w k t sv)
  case (Cons c cs)
  have ok: "chunk_ok (41 + length name) c" using Cons.prems(1) by simp
  obtain p where p: "chunk_message name c = Some p" using chunk_message_ok [OF ok assms(1)] by blast
  obtain w1 k1 t1 sv1 where 1: "serve_message env sockfd sys w k t p sv = Some (w1, k1, t1, sv1)"
      "receive_all env sockfd sys (map (\<lambda>c. the (chunk_message name c)) cs) (w1, k1, t1, sv1) = Some (w', k', t', sv')"
    using Cons.prems(3) p by (auto simp: bind_eq_Some_conv)
  have sv1: "sv1 = sv\<lparr>sv_tasks := sv_tasks sv @ [write_of name c]\<rparr>"
    by (rule serve_chunk [OF ok assms(1) Cons.prems(2) p 1(1)])
  have wr: "writable name sv1" using Cons.prems(2) sv1 by simp
  have cs: "\<forall>c \<in> set cs. chunk_ok (41 + length name) c" using Cons.prems(1) by simp
  have "sv_tasks sv' = sv_tasks sv1 @ map (write_of name) cs \<and> sv_fs sv' = sv_fs sv1"
    by (rule Cons.IH [OF cs wr 1(2)])
  then show ?case using sv1 by simp
qed simp

lemma appended:
  assumes "fs name = Some d"
  shows "fold write_task (map (write_of name) cs) fs name = Some (d @ concat (map (chunk_data (41 + length name)) cs))"
  using assms
  by (induction cs arbitrary: fs d) (simp_all add: write_of_def write_task_def)


text \<open>A complete run, for any chunks and any tasks: the transfer pool can send them all, the pool run them all.\<close>

lemma all_sent:
  assumes "map ck_seq E = map of_nat [0..<length E]"
  shows "xstep\<^sup>*\<^sup>* (0, E, [], []) (of_nat (length E), [], [], E)"
proof -
  have "xstep\<^sup>*\<^sup>* (0, E, [], []) (of_nat i, drop i E, [], take i E)" if "i \<le> length E" for i
    using that
  proof (induction i)
    case (Suc i)
    let ?c = "E ! i"
    have i: "i < length E" using Suc.prems by simp
    have seq: "ck_seq ?c = of_nat i" using arg_cong [OF assms, of "\<lambda>xs. xs ! i"] i by simp
    have d: "drop i E = [] @ ?c # drop (Suc i) E" using Cons_nth_drop_Suc [OF i] by simp
    have "xstep (of_nat i, [] @ ?c # drop (Suc i) E, [], take i E) (of_nat i, [] @ drop (Suc i) E, [?c], take i E)"
      by (rule XSend [OF seq])
    moreover have "xstep (of_nat i, drop (Suc i) E, [] @ ?c # [], take i E)
        (of_nat i + 1, drop (Suc i) E, [] @ [], take i E @ [?c])"
      by (rule XDone)
    ultimately have "xstep\<^sup>*\<^sup>* (of_nat i, drop i E, [], take i E) (of_nat i + 1, drop (Suc i) E, [], take i E @ [?c])"
      unfolding d by (auto intro: converse_rtranclp_into_rtranclp)
    with Suc.IH i have "xstep\<^sup>*\<^sup>* (0, E, [], []) (of_nat i + 1, drop (Suc i) E, [], take i E @ [?c])" by auto
    then show ?case using i by (simp add: take_Suc_conv_app_nth add.commute)
  qed simp
  from this [of "length E"] show ?thesis by simp
qed

definition one_idle :: "'t list \<Rightarrow> ('t list, 't) tpool" where
  "one_idle q = \<lparr>tp_maxThreads = 1, tp_users = 1, tp_alive = True, tp_currentThreads = 1, tp_threads = [WHead], tp_queue = q\<rparr>"

lemma one_idle_added:
  "(tstep fifo_push fifo_pop)\<^sup>*\<^sup>* (pool_start 1 []) (one_idle ts, NotTerminating, ts, [])"
proof (induction ts rule: rev_induct)
  case Nil
  have "addThreads 1 (new_pool 1 []) = (one_idle [], 1)"
    by (simp add: addThreads_def new_pool_def one_idle_def Let_def)
  then show ?case unfolding pool_start_def by (intro r_into_rtranclp) (auto intro: TThreads simp: new_pool_def)
next
  case (snoc t ts)
  have "tstep fifo_push fifo_pop (one_idle ts, NotTerminating, ts, [])
      (addTask fifo_push t (one_idle ts), NotTerminating, ts @ [t], [])" by (rule TAdd)
  moreover have "addTask fifo_push t (one_idle ts) = one_idle (ts @ [t])"
    by (simp add: addTask_def fifo_push_def one_idle_def)
  ultimately show ?case using snoc.IH by simp
qed

lemma one_idle_runs:
  "(tstep fifo_push fifo_pop)\<^sup>*\<^sup>* (one_idle ts, NotTerminating, added, run) (one_idle [], NotTerminating, added, run @ ts)"
proof (induction ts arbitrary: run)
  case (Cons t ts)
  let ?p = "\<lambda>w q. (one_idle q)\<lparr>tp_threads := [w]\<rparr>"
  have work: "tstep fifo_push fifo_pop (p, NotTerminating, added, run) (p', NotTerminating, added, run @ r)"
    if "tp_threads p \<noteq> []" "worker_step fifo_pop 0 p = (p', r)" for p p' r and run :: "'a list"
    using that by (intro TWork) simp_all
  have 1: "worker_step fifo_pop 0 (?p WHead (t # ts)) = (?p WTest (t # ts), [])"
    and 2: "worker_step fifo_pop 0 (?p WTest (t # ts)) = (?p (WRun t) ts, [])"
    and 3: "worker_step fifo_pop 0 (?p (WRun t) ts) = (?p WHead ts, [t])"
    by (simp_all add: worker_step_def take_task_def one_idle_def)
  have e: "?p WHead q = one_idle q" for q by (simp add: one_idle_def)
  from work [OF _ 1, of run] work [OF _ 2, of run] work [OF _ 3, of run] Cons.IH [of "run @ [t]"]
  show ?case unfolding e by (auto simp: one_idle_def intro: converse_rtranclp_into_rtranclp)
qed simp

lemma all_run:
  "\<exists>p. (tstep fifo_push fifo_pop)\<^sup>*\<^sup>* (pool_start numServerCompThreads []) (p, NotTerminating, ts, ts)"
  using rtranclp_trans [OF one_idle_added one_idle_runs] unfolding numServerCompThreads_def by fastforce

lemma receive_all_ok:
  assumes "sends_all sys" "0 \<le> tl_socket t" "0 \<notin> set name" "\<forall>c \<in> set cs. chunk_ok (41 + length name) c" "writable name sv"
  shows "\<exists>w' sv'. receive_all env sockfd sys (map (\<lambda>c. the (chunk_message name c)) cs) (w, k, t, sv) = Some (w', k, t, sv')"
  using assms(4,5)
proof (induction cs arbitrary: w sv)
  case (Cons c cs)
  have ok: "chunk_ok (41 + length name) c" using Cons.prems(1) by simp
  obtain p where p: "chunk_message name c = Some p" using chunk_message_ok [OF ok assms(3)] by blast
  have "length (ack_packet WRITE_MSG) = 24" by (simp add: ack_packet_def)
  then have "ack_packet WRITE_MSG \<noteq> []" by auto
  then obtain w1 where w1: "serverSendClose sys w k t (ack_packet WRITE_MSG) = Some (w1, k, t, True)"
    using serverSendClose_all [OF assms(1,2)] by blast
  note sc = serve_chunk_eq [OF ok assms(3) Cons.prems(2) p, of env sockfd sys w k t, unfolded w1]
  have "writable name (sv\<lparr>sv_tasks := sv_tasks sv @ [write_of name c]\<rparr>)" using Cons.prems(2) by simp
  moreover have "\<forall>c \<in> set cs. chunk_ok (41 + length name) c" using Cons.prems(1) by simp
  ultimately show ?case using Cons.IH p sc by simp
qed simp

definition quiet_sys :: "unit sys" where
  "quiet_sys = \<lparr>rsend = (\<lambda>w s m. (w, Sent (length m))), rrecv = (\<lambda>w s n. (w, RecvErr EBADF)), rclose = (\<lambda>w s. (w, 0)),
     rshutdown = (\<lambda>w s. (w, 0)), getOutSocket = (\<lambda>w. (w, 5)), rpoll = (\<lambda>w ps. (w, ps, 0))\<rparr>"

definition plain_env :: "unit server_env" where
  "plain_env = \<lparr>se_isUrl = (\<lambda>_. False), se_urlSize = (\<lambda>_. 0), se_useServerNetworkCache = False, se_otherServers = (\<lambda>_. 0),
     se_removeOutput = False, se_uninit = 0, se_compress = (\<lambda>d. d), se_decompress = (\<lambda>d n. take n d), se_addFile = (\<lambda>_ _ _ _ _ c. c),
     se_removeFile = (\<lambda>_ c. Some c), se_request = (\<lambda>_ _ _ _ c. Some (c, None)), se_release = (\<lambda>_ _ c. c)\<rparr>"

definition empty_server :: "unit server" where
  "empty_server = \<lparr>sv_files = trackable_init, sv_register = FileCacheRegister_init, sv_fs = Map.empty, sv_tasks = [],
     sv_cache = (), sv_alive = True\<rparr>"

text \<open>The server after it has opened the file for output.\<close>

definition open_server :: "unit server" where
  "open_server = (case addNewServeFile plain_env [47, 97] False 0 True empty_server of Some (sv, _) \<Rightarrow> sv | None \<Rightarrow> empty_server)"

lemma open_server_ok: "writable [47, 97] open_server" "sv_tasks open_server = []" "sv_fs open_server [47, 97] = Some []"
  by (simp_all add: open_server_def writable_def getServeFile_def addNewServeFile_def ServeFile_new_def new_serve_file_def
      found_size_def plain_env_def empty_server_def AddTrackable_def LookupTrackable_def new_tracked_def incUsers_def
      trackable_init_def Let_def)

lemma write_file_tasks:
  assumes "writing index f" "offset_of f + unat (of_bufferCnt f) + length buf \<le> unat outputFileBufferSize"
    "write_file nb idle buf index f = Some (f', r)"
  shows "length (of_tasks f') \<le> Suc (length (of_tasks f))"
proof -
  let ?n = "of_nat (length buf) :: u64" and ?fp = "of_filePos f ! index"
  let ?g0 = "f\<lparr>of_filePos := (of_filePos f)[index := ?fp + ?n]\<rparr>"
  let ?g = "if of_fileSize ?g0 < ?fp + ?n then ?g0\<lparr>of_fileSize := ?fp + ?n + 1\<rparr> else ?g0"
  have wr: "of_active f" "index < length (of_filePos f)" "next_pos f = ?fp" "out_ok f" using assms(1) by (simp_all add: writing_def)
  have n: "unat ?n = length buf" using assms(2) unat_outputFileBufferSize by (intro unat_of_nat_small) simp
  have idx: "unat (of_bufferIndex f) = offset_of f + unat (of_bufferCnt f)" "of_bufferIndex f \<le> outputFileBufferSize"
    using wr(4) by (auto simp: out_ok_def word_le_nat_alt)
  have "unat ?n \<le> unat (outputFileBufferSize - of_bufferIndex f)"
    using unat_diff_le [OF idx(2)] idx(1) assms(2) n by simp
  then have nl: "\<not> outputFileBufferSize - of_bufferIndex f < ?n" by (simp add: word_le_nat_alt not_less)
  have g: "of_bufferIndex ?g = of_bufferIndex f" "of_bufferCnt ?g + of_bufferFp ?g = ?fp + 0" "of_tasks ?g = of_tasks f"
    using wr(3) by (simp_all add: next_pos_def add.commute)
  have l: "write_loop nb buf ?fp ?g 0 ?n (outputFileBufferSize - of_bufferIndex ?g) = Some (?g, 0, ?n)"
    unfolding g(1) using nl g(2) by (subst write_loop.simps) (simp cong: if_cong)
  have fl: "of_tasks h = of_tasks x" if "fill buf a b x = Some h" for a b x h
    using that by (auto simp: fill_def split: option.splits)
  obtain h where h: "fill buf 0 ?n ?g = Some h"
    using assms(3) wr(1,2) l by (cases "fill buf 0 ?n ?g") (simp_all add: write_file_def Let_def)
  have "length (of_tasks f') \<le> Suc (length (of_tasks h))"
    using assms(3) wr(1,2) l h by (cases idle) (auto simp: write_file_def Let_def flush_def)
  then show ?thesis using fl [OF h] g(3) by simp
qed


text \<open>
  the chunks of a file are sent in order and each once. In every order in which the
  threads of the transfer pool pick up their tasks, the chunks that are done are the first
  ones, at most one more is being sent, and \<open>_sendNum\<close> is their number: so when it has reached
  \<open>_seqNum\<close>, which \<open>close\<close> waits for, all have been sent.
\<close>

theorem chunks_sent_in_order:
  assumes "xstep\<^sup>*\<^sup>* (0, E, [], []) (sn, queue, busy, sent)" "map ck_seq E = map of_nat [0..<length E]" "length E < 2 ^ 32"
  shows "sent = take (length sent) E \<and> length busy \<le> 1 \<and> sn = of_nat (length sent) \<and>
    (sn = of_nat (length E) \<longrightarrow> sent = E \<and> busy = [] \<and> queue = [])"
proof -
  have "in_order E (sn, queue, busy, sent)" by (rule in_order_reachable [OF assms])
  then obtain k where k: "k \<le> length E" "sent = take k E" "sn = of_nat k"
      "busy = [] \<and> set queue = set (drop k E) \<or> k < length E \<and> busy = [E ! k] \<and> set queue = set (drop (Suc k) E)"
    by (auto simp: in_order_def)
  have len: "length sent = k" using k(1,2) by simp
  have "k = length E" if "sn = of_nat (length E)"
  proof -
    have "k < 2 ^ 32" using k(1) assms(3) by simp
    then show ?thesis using that k(3) of_nat_u32_inj [OF _ assms(3), of k] by simp
  qed
  then show ?thesis using k len by auto
qed

definition two_chunks :: "chunk list" where
  "two_chunks = [\<lparr>ck_buf = [1], ck_size = 1, ck_compSize = 1, ck_fp = 0, ck_seq = 0\<rparr>,
     \<lparr>ck_buf = [2], ck_size = 1, ck_compSize = 1, ck_fp = 1, ck_seq = 1\<rparr>]"

theorem chunks_sent_in_order_witness:
  "\<exists>queue busy. xstep\<^sup>*\<^sup>* (0, two_chunks, [], []) (2, queue, busy, two_chunks) \<and> busy = [] \<and> queue = []"
proof -
  have seqs: "map ck_seq two_chunks = map of_nat [0..<length two_chunks]" by (simp add: two_chunks_def upt_rec)
  have run: "xstep\<^sup>*\<^sup>* (0, two_chunks, [], []) (2, [], [], two_chunks)"
    using all_sent [OF seqs] by (simp add: two_chunks_def)
  have "length two_chunks < 2 ^ 32" by (simp add: two_chunks_def)
  from chunks_sent_in_order [OF run seqs this] run show ?thesis by blast
qed

text \<open>
  compression loses data that do not shrink. \<open>sendWriteMsg\<close> sends as many bytes as the data
  had before compression; when the compressed data are longer, the message ends before they do
  and the server reads past its end.
\<close>

theorem incompressible_chunk_overruns:
  assumes "chunk_ok (41 + length name) c" "0 \<notin> set name" "writable name sv"
    "compress_chunk lz4 bound fresh (41 + length name) c = Some d"
    "unat (ck_size c) < length (lz4 (chunk_data (41 + length name) c))" "length (lz4 (chunk_data (41 + length name) c)) < 2 ^ 31"
  shows "\<exists>p. chunk_message name d = Some p \<and> serve_message env sockfd sys w k t p sv = None"
proof -
  let ?off = "41 + length name" and ?n = "unat (ck_size c)"
  define comp where "comp = lz4 (chunk_data ?off c)"
  define F where "F = fresh (bound ?n + ?off)"
  have small: "length (ck_buf c) = 16777216" "?off + ?n \<le> 16777216"
    using assms(1) by (simp_all add: chunk_ok_def unat_outputFileBufferSize)
  have lc: "?n < length comp" "length comp < 2 ^ 31" using assms(5,6) by (simp_all add: comp_def)
  have "mem_slice ?off ?n (ck_buf c) = Some (chunk_data ?off c)" using small by (simp add: mem_slice_def chunk_data_def)
  then have d: "?off + length comp \<le> length F"
      "d = c\<lparr>ck_buf := take ?off F @ comp @ drop (?off + length comp) F, ck_compSize := ucast (of_nat (length comp) :: u32)\<rparr>"
    using assms(4) by (auto simp: compress_chunk_def bind_eq_Some_conv mem_simps comp_def F_def)
  have uc: "unat (of_nat (length comp) :: u32) = length comp" using lc(2) by (intro unat_of_nat_small) simp
  have un: "unat (ucast (ck_size c) :: u32) = ?n" using small by (intro unat_ucast_small) simp
  have cs: "ucast (ucast (of_nat (length comp) :: u32) :: u64) = (of_nat (length comp) :: u32)"
  proof -
    have "unat (ucast (of_nat (length comp) :: u32) :: u64) = length comp" by (simp add: unat_ucast_u64 uc)
    moreover then have "unat (ucast (ucast (of_nat (length comp) :: u32) :: u64) :: u32) = length comp"
      using lc(2) by (subst unat_ucast_small) simp_all
    ultimately show ?thesis by (simp only: word_unat_eq_iff uc)
  qed
  have lens: "length (take ?off F) = 40 + length name + 1" "length name + length (take ?n comp) + 41 < 2 ^ 32"
      "ucast (ck_size c) = (of_nat (length (take ?n comp)) :: u32)"
    using d(1) lc small by (simp_all add: min_absorb1)
  let ?slack = "drop ?n comp @ drop (?off + length comp) F"
  obtain p where p: "write_packet (take ?off F @ take ?n comp @ ?slack) name (ucast (ck_size c)) (of_nat (length comp)) (ck_fp c) (ck_seq c) = Some p"
      "length p = ?off + ?n" "parseWriteMsg p = Some (name, ?off, ucast (ck_size c), of_nat (length comp), ck_fp c)"
    using write_packet_ok [OF assms(2) lens, of ?slack "of_nat (length comp)" "ck_fp c" "ck_seq c"] lc(1) by auto
  have "take ?n comp @ drop ?n comp = comp" by (rule append_take_drop_id)
  then have m: "chunk_message name d = Some p"
    using p(1) unfolding chunk_message_def d(2) by (simp add: cs del: append_take_drop_id flip: append_assoc)
  have "get_u32 p 8 = Some (msg_code WRITE_MSG)" by (rule write_packet_type [OF p(1)]) (simp add: p(2))
  then have "serve_message env sockfd sys w k t p sv = writeDataToFile env sys w k t p sv"
    by (simp add: serve_message_def Let_def del: msg_code.simps)
  moreover have "of_nat (length comp) \<noteq> (ucast (ck_size c) :: u32)" using uc un lc(1) by (metis less_irrefl)
  moreover have "mem_slice ?off (length comp) p = None" using p(2) lc(1) by (simp add: mem_slice_def)
  ultimately have "serve_message env sockfd sys w k t p sv = None"
    using assms(3) p(3) uc by (auto simp: writeDataToFile_def received_data_def writable_def)
  then show ?thesis using m by blast
qed

definition growing_lz4 :: "bytes \<Rightarrow> bytes" where
  "growing_lz4 d = 240 # d"

definition small_chunk :: chunk where
  "small_chunk = \<lparr>ck_buf = replicate 16777216 7, ck_size = 3, ck_compSize = 3, ck_fp = 0, ck_seq = 0\<rparr>"

theorem incompressible_chunk_overruns_witness:
  "\<exists>d p. compress_chunk growing_lz4 (\<lambda>n. n + 16) (\<lambda>n. replicate n 0) 43 small_chunk = Some d \<and>
     chunk_message [47, 97] d = Some p \<and>
     serve_message plain_env 3 quiet_sys () (new_server 4) \<lparr>tl_socket = 4, tl_closed = 0, tl_buffer = []\<rparr> p open_server = None"
proof -
  let ?name = "[47, 97] :: bytes"
  have ok: "chunk_ok (41 + length ?name) small_chunk"
    by (simp add: chunk_ok_def small_chunk_def unat_outputFileBufferSize)
  have data: "length (growing_lz4 (chunk_data (41 + length ?name) small_chunk)) = 4"
    by (simp add: growing_lz4_def chunk_data_def small_chunk_def)
  obtain d where d: "compress_chunk growing_lz4 (\<lambda>n. n + 16) (\<lambda>n. replicate n 0) (41 + length ?name) small_chunk = Some d"
    by (simp add: compress_chunk_def growing_lz4_def small_chunk_def mem_slice_def blit_def)
  have n: "unat (ck_size small_chunk) < length (growing_lz4 (chunk_data (41 + length ?name) small_chunk))"
      "length (growing_lz4 (chunk_data (41 + length ?name) small_chunk)) < 2 ^ 31" "0 \<notin> set ?name"
    unfolding data by (simp_all add: small_chunk_def)
  have "\<exists>p. chunk_message ?name d = Some p \<and>
     serve_message plain_env 3 quiet_sys () (new_server 4) \<lparr>tl_socket = 4, tl_closed = 0, tl_buffer = []\<rparr> p open_server = None"
    by (rule incompressible_chunk_overruns [OF ok n(3) open_server_ok(1) d n(1,2)])
  then show ?thesis using d by auto
qed

end
