(* ===== verification/MetaFile.thy ===== *)
theory MetaFile
  imports Registry
begin

text \<open>
  Meta files: the small text files that stand for a remote file, and everything the client
  reads out of them.

  \<^item> the pieces of the C++ library that the parsers use: \<open>find\<close>, \<open>substr\<close>, \<open>atoi\<close>, \<open>to_string\<close>;
  \<^item> \<open>TazerFile::readMetaInfo\<close> and the registry of files (\<^verbatim>\<open>src/client/TazerFile.cpp\<close>),
    \<open>ServeFile::addConnections\<close> (\<^verbatim>\<open>src/server/ServeFile.cpp\<close>), which reads a shorter form of
    the same lines;
  \<^item> the registry of connections that both fill (\<^verbatim>\<open>src/common/Connection.cpp\<close>);
  \<^item> the test for meta files by their names (\<open>checkMeta\<close>, \<^verbatim>\<open>inc/tazer/client/Lib.h\<close>).
\<close>

subsection \<open>Strings of the C++ library\<close>

fun find_sub :: "string \<Rightarrow> string \<Rightarrow> nat option" where
  "find_sub tok [] = (if tok = [] then Some 0 else None)"
| "find_sub tok (c # cs) =
     (if take (length tok) (c # cs) = tok then Some 0 else map_option Suc (find_sub tok cs))"

text \<open>\<open>s.find(tok, pos)\<close>; \<open>None\<close> is \<open>npos\<close>.\<close>

definition find_at :: "string \<Rightarrow> string \<Rightarrow> nat \<Rightarrow> nat option" where
  "find_at tok s pos = (if pos \<le> length s then map_option ((+) pos) (find_sub tok (drop pos s)) else None)"

text \<open>\<open>s.substr(pos, n)\<close> throws \<open>out_of_range\<close> (\<open>None\<close>) behind the end and clips \<open>n\<close>.\<close>

definition substr :: "string \<Rightarrow> nat \<Rightarrow> nat \<Rightarrow> string option" where
  "substr s pos n = (if pos \<le> length s then Some (take n (drop pos s)) else None)"

definition digit :: "nat \<Rightarrow> char" where "digit d = char_of (48 + d)"

definition is_digit :: "char \<Rightarrow> bool" where
  "is_digit c \<longleftrightarrow> 48 \<le> (of_char c :: nat) \<and> (of_char c :: nat) \<le> 57"

fun digits :: "nat \<Rightarrow> string" where
  "digits n = (if n < 10 then [digit n] else digits (n div 10) @ [digit (n mod 10)])"

declare digits.simps [simp del]

definition to_string :: "int \<Rightarrow> string" where
  "to_string i = (if i < 0 then CHR ''-'' # digits (nat (- i)) else digits (nat i))"

definition is_space :: "char \<Rightarrow> bool" where
  "is_space c \<longleftrightarrow> c = CHR '' '' \<or> 9 \<le> (of_char c :: nat) \<and> (of_char c :: nat) \<le> 13"

definition digits_val :: "string \<Rightarrow> nat" where
  "digits_val s = foldl (\<lambda>v c. 10 * v + (of_char c - 48)) 0 (takeWhile is_digit s)"

text \<open>
  \<open>atoi\<close>: white space, a sign, digits. A number that is no \<open>int\<close> is clipped to a \<open>long\<close> and
  cut, which is what the usual library does where the standard leaves it open.
\<close>

definition atoi :: "string \<Rightarrow> int" where
  "atoi s =
     (let s = dropWhile is_space s;
          v = (if s \<noteq> [] \<and> hd s = CHR ''-'' then - int (digits_val (tl s))
               else if s \<noteq> [] \<and> hd s = CHR ''+'' then int (digits_val (tl s))
               else int (digits_val s));
          v = max (- (2 ^ 63)) (min (2 ^ 63 - 1) v)
      in sint (word_of_int v :: u32))"

subsection \<open>The registry of connections\<close>

record endpoint =
  e_addr :: string
  e_port :: int

definition addrport :: "endpoint \<Rightarrow> string" where
  "addrport e = e_addr e @ '':'' @ to_string (e_port e)"

text \<open>
  The registry of connections by name and the two counters of \<open>ConnectionPool\<close> by address. A
  connection is its number (which stands for the pointer) and its endpoint.
\<close>

record net_state =
  n_connections :: "(string, endpoint) trackable"
  n_useCnt :: "string \<rightharpoonup> u64"
  n_consecCnt :: "string \<rightharpoonup> u64"

definition net_start :: net_state where
  "net_start = \<lparr>n_connections = trackable_init, n_useCnt = Map.empty, n_consecCnt = Map.empty\<rparr>"

text \<open>\<open>connects\<close> tells whether \<open>initiate\<close> gets a socket to the endpoint.\<close>

definition addNewClientConnection ::
  "(endpoint \<Rightarrow> bool) \<Rightarrow> (string, endpoint) trackable \<Rightarrow> string \<Rightarrow> int \<Rightarrow>
   (string, endpoint) trackable \<times> endpoint tracked option" where
  "addNewClientConnection connects r hostAddr port =
     (let e = \<lparr>e_addr = hostAddr, e_port = port\<rparr>;
          (r', v, _) = AddTrackable r (hostAddr @ to_string port) (if connects e then Some e else None) None False
      in (r', v))"

definition removeConnection :: "(string, endpoint) trackable \<Rightarrow> endpoint \<Rightarrow> (string, endpoint) trackable \<times> bool" where
  "removeConnection r e = RemoveTrackable r (e_addr e @ to_string (e_port e)) 1"

text \<open>What both parsers do with the endpoint of a line; the result is the connection, if any.\<close>

definition register_server ::
  "(endpoint \<Rightarrow> bool) \<Rightarrow> net_state \<Rightarrow> string \<Rightarrow> int \<Rightarrow> net_state \<times> (u32 \<times> endpoint) list" where
  "register_server connects n hostAddr port =
     (case addNewClientConnection connects (n_connections n) hostAddr port of
        (r, None) \<Rightarrow> (n\<lparr>n_connections := r\<rparr>, [])
      | (r, Some t) \<Rightarrow>
          (let n = n\<lparr>n_connections := r\<rparr>; k = addrport (t_val t);
               n = (if n_useCnt n k = None
                    then n\<lparr>n_useCnt := (n_useCnt n)(k \<mapsto> 0),
                           n_consecCnt := (if n_consecCnt n k = None then (n_consecCnt n)(k \<mapsto> 0) else n_consecCnt n)\<rparr>
                    else n)
           in (n, [(t_id t, t_val t)])))"

subsection \<open>The lines of a meta file\<close>

datatype TazerFile_Type = Input | Output | Local

record meta_info =
  m_type :: TazerFile_Type
  m_name :: string
  m_compress :: bool
  m_prefetch :: u32
  m_save_local :: bool
  m_blkSize :: u64
  m_connections :: "(u32 \<times> endpoint) list"

definition new_meta :: "TazerFile_Type \<Rightarrow> string \<Rightarrow> meta_info" where
  "new_meta ty nm = \<lparr>m_type = ty, m_name = nm, m_compress = False, m_prefetch = 0, m_save_local = False,
     m_blkSize = 1, m_connections = []\<rparr>"

text \<open>A line ends early by an exception or by \<open>break\<close>, which keeps what was set.\<close>

datatype 'f stop = OutOfRange | Improper 'f

definition npos :: u64 where "npos = -1"

text \<open>
  One field: \<open>next = line.find(":", lcur)\<close> into a 32-bit word, the comparison of that word
  with the 64-bit \<open>npos\<close>, \<open>line.substr(lcur, next - lcur)\<close> and \<open>lcur = next + 1\<close>.
\<close>

definition find_u32 :: "string \<Rightarrow> u32 \<Rightarrow> u32" where
  "find_u32 line lcur = (case find_at '':'' line (unat lcur) of None \<Rightarrow> ucast npos | Some i \<Rightarrow> of_nat i)"

definition meta_field :: "'f \<Rightarrow> string \<Rightarrow> u32 \<Rightarrow> 'f stop + (u32 \<times> string)" where
  "meta_field f line lcur =
     (let nxt = find_u32 line lcur
      in if (ucast nxt :: u64) = npos then Inl (Improper f)
         else case substr line (unat lcur) (unat (nxt - lcur)) of
             None \<Rightarrow> Inl OutOfRange
           | Some s \<Rightarrow> Inr (nxt + 1, s))"

text \<open>The last field reaches to the end of the line.\<close>

definition last_field :: "string \<Rightarrow> u32 \<Rightarrow> 'f stop + string" where
  "last_field line lcur =
     (case substr line (unat lcur) (unat ((of_nat (length line) :: u32) - lcur)) of
        None \<Rightarrow> Inl OutOfRange
      | Some s \<Rightarrow> Inr s)"

definition bind_stop :: "'e + 'a \<Rightarrow> ('a \<Rightarrow> 'e + 'b) \<Rightarrow> 'e + 'b" where
  "bind_stop r k = (case r of Inl e \<Rightarrow> Inl e | Inr x \<Rightarrow> k x)"

lemma bind_stop_simps [simp]: "bind_stop (Inl e) k = Inl e" "bind_stop (Inr x) k = k x"
  by (simp_all add: bind_stop_def)

text \<open>\<open>host:port:compress:prefetch:save_local:blk_size:name\<close>; the result is the file, host and port.\<close>

definition meta_line :: "string \<Rightarrow> meta_info \<Rightarrow> meta_info stop + (meta_info \<times> string \<times> int)" where
  "meta_line line f =
     bind_stop (meta_field f line 0) (\<lambda>(lcur, hostAddr).
     bind_stop (meta_field f line lcur) (\<lambda>(lcur, p).
     let port = atoi p in
     bind_stop (meta_field f line lcur) (\<lambda>(lcur, s).
     let f = f\<lparr>m_compress := (atoi s \<noteq> 0)\<rparr> in
     bind_stop (meta_field f line lcur) (\<lambda>(lcur, s).
     let f = f\<lparr>m_prefetch := of_int (atoi s)\<rparr> in
     bind_stop (meta_field f line lcur) (\<lambda>(lcur, s).
     let f = f\<lparr>m_save_local := (atoi s \<noteq> 0)\<rparr> in
     bind_stop (meta_field f line lcur) (\<lambda>(lcur, s).
     let f = f\<lparr>m_blkSize := of_int (atoi s)\<rparr> in
     bind_stop (last_field line lcur) (\<lambda>fileName.
     Inr (if fileName \<noteq> [] then f\<lparr>m_name := fileName\<rparr> else f, hostAddr, port))))))))"

text \<open>
  The loop over the text up to each bar. \<open>None\<close>: an exception ends the process. The last
  component is \<open>numServers\<close>.
\<close>

function meta_loop ::
  "(endpoint \<Rightarrow> bool) \<Rightarrow> string \<Rightarrow> nat \<Rightarrow> net_state \<Rightarrow> meta_info \<Rightarrow> u32 \<Rightarrow> (net_state \<times> meta_info \<times> u32) option" where
  "meta_loop connects metaStr cur n f numServers =
     (case find_at ''|'' metaStr cur of
        None \<Rightarrow> Some (n, f, numServers)
      | Some l \<Rightarrow>
          (case substr metaStr cur (l - cur) of
             None \<Rightarrow> None
           | Some line \<Rightarrow>
               (case meta_line line f of
                  Inl OutOfRange \<Rightarrow> None
                | Inl (Improper f) \<Rightarrow> Some (n, f, numServers)
                | Inr (f, hostAddr, port) \<Rightarrow>
                    if m_type f \<noteq> Local
                    then (case register_server connects n hostAddr port of
                        (n, cs) \<Rightarrow>
                          meta_loop connects metaStr (l + 1) n (f\<lparr>m_connections := m_connections f @ cs\<rparr>)
                            (numServers + of_nat (length cs)))
                    else meta_loop connects metaStr (l + 1) n f numServers)))"
  by pat_completeness auto

lemma find_sub_bound: "find_sub tok s = Some i \<Longrightarrow> tok \<noteq> [] \<Longrightarrow> i + length tok \<le> length s"
proof (induction tok s arbitrary: i rule: find_sub.induct)
  case (2 tok c cs)
  show ?case
  proof (cases "take (length tok) (c # cs) = tok")
    case True
    then have "length tok \<le> length (c # cs)" by (metis length_take min.cobounded1)
    then show ?thesis using True 2 by simp
  next
    case False
    then obtain j where "find_sub tok cs = Some j" "i = Suc j" using 2 by auto
    then show ?thesis using 2 False by auto
  qed
qed (auto split: if_splits)

lemma find_at_bound: "find_at tok s pos = Some i \<Longrightarrow> tok \<noteq> [] \<Longrightarrow> pos \<le> i \<and> i + length tok \<le> length s"
  by (auto simp: find_at_def split: if_splits dest!: find_sub_bound)

termination meta_loop
  by (relation "measure (\<lambda>(connects, metaStr, cur, n, f, numServers). Suc (length metaStr) - cur)")
    (auto dest: find_at_bound)

declare meta_loop.simps [simp del]

text \<open>
  \<open>readMetaInfo\<close>. The meta file is \<open>None\<close> when its descriptor is negative, else what \<open>read\<close>
  gives: \<open>None\<close> (it fails, \<open>raise(SIGSEGV)\<close>) or the text, which is used as a C string.
\<close>

definition readMetaInfo ::
  "(endpoint \<Rightarrow> bool) \<Rightarrow> net_state \<Rightarrow> meta_info \<Rightarrow> string option option \<Rightarrow> (net_state \<times> meta_info \<times> bool) option" where
  "readMetaInfo connects n f meta =
     (case meta of
        None \<Rightarrow> Some (n, f, False)
      | Some None \<Rightarrow> None
      | Some (Some content) \<Rightarrow>
          map_option (\<lambda>(n, f, numServers). (n, f, 0 < numServers))
            (meta_loop connects (c_str content) 0 n f 0))"

subsection \<open>The list of servers of a server\<close>

text \<open>
  \<open>ServeFile::addConnections\<close> reads lines \<open>host:port\<close>. The length of the line, put into a
  32-bit word, is compared with the 64-bit \<open>npos\<close> as well.
\<close>

definition server_line :: "string \<Rightarrow> unit stop + (string \<times> int)" where
  "server_line line =
     bind_stop (meta_field () line 0) (\<lambda>(lcur, hostAddr).
     if (ucast (of_nat (length line) :: u32) :: u64) = npos then Inl (Improper ())
     else bind_stop (last_field line lcur) (\<lambda>p. Inr (hostAddr, atoi p)))"

function server_loop ::
  "(endpoint \<Rightarrow> bool) \<Rightarrow> string \<Rightarrow> nat \<Rightarrow> net_state \<Rightarrow> (u32 \<times> endpoint) list \<Rightarrow> u32 \<Rightarrow>
   (net_state \<times> (u32 \<times> endpoint) list \<times> u32) option" where
  "server_loop connects metaStr cur n connections numServers =
     (case find_at ''|'' metaStr cur of
        None \<Rightarrow> Some (n, connections, numServers)
      | Some l \<Rightarrow>
          (case substr metaStr cur (l - cur) of
             None \<Rightarrow> None
           | Some line \<Rightarrow>
               (case server_line line of
                  Inl OutOfRange \<Rightarrow> None
                | Inl (Improper _) \<Rightarrow> Some (n, connections, numServers)
                | Inr (hostAddr, port) \<Rightarrow>
                    (case register_server connects n hostAddr port of
                       (n, cs) \<Rightarrow>
                         server_loop connects metaStr (l + 1) n (connections @ cs)
                           (numServers + of_nat (length cs))))))"
  by pat_completeness auto
termination
  by (relation "measure (\<lambda>(connects, metaStr, cur, n, connections, numServers). Suc (length metaStr) - cur)")
    (auto dest: find_at_bound)

declare server_loop.simps [simp del]

text \<open>
  The file is missing, cannot be read (no connections then) or is used as a C string. The
  result tells whether a server was found.
\<close>

definition addConnections ::
  "(endpoint \<Rightarrow> bool) \<Rightarrow> net_state \<Rightarrow> string option option \<Rightarrow> (net_state \<times> (u32 \<times> endpoint) list \<times> bool) option" where
  "addConnections connects n meta =
     (case meta of
        None \<Rightarrow> Some (n, [], False)
      | Some None \<Rightarrow> Some (n, [], False)
      | Some (Some content) \<Rightarrow>
          map_option (\<lambda>(n, cs, numServers). (n, cs, 0 < numServers))
            (server_loop connects (c_str content) 0 n [] 0))"

subsection \<open>Names of meta files\<close>

text \<open>\<open>splitter\<close> of \<^verbatim>\<open>Lib.h\<close>; \<open>None\<close>: \<open>substr\<close> throws.\<close>

definition splitter :: "string \<Rightarrow> string \<Rightarrow> (string \<times> string \<times> bool) option" where
  "splitter tok full =
     (case find_at tok full 0 of
        None \<Rightarrow> Some (full, full, False)
      | Some pos \<Rightarrow>
          (case substr full 0 (pos + length tok) of
             None \<Rightarrow> None
           | Some path \<Rightarrow>
               if length path < length full
               then map_option (\<lambda>file. (path, file, True)) (substr full (length path + 1) (length full))
               else Some (path, full, True)))"

definition meta_tokens :: "(TazerFile_Type \<times> string) list" where
  "meta_tokens = [(Input, ''.meta.in''), (Output, ''.meta.out''), (Local, ''.meta.local'')]"

text \<open>\<open>checkMeta\<close>: the path of the meta file, the file and the type, when the name is one.\<close>

fun check_tokens :: "(TazerFile_Type \<times> string) list \<Rightarrow> string \<Rightarrow> (string \<times> string \<times> TazerFile_Type) option option" where
  "check_tokens [] full = Some None"
| "check_tokens ((ty, tok) # toks) full =
     (case splitter tok full of
        None \<Rightarrow> None
      | Some (path, f, found) \<Rightarrow> if found then Some (Some (path, f, ty)) else check_tokens toks full)"

definition checkMeta :: "string \<Rightarrow> (string \<times> string \<times> TazerFile_Type) option option" where
  "checkMeta pathname = (if find_sub ''.meta.'' pathname \<noteq> None then check_tokens meta_tokens pathname else Some None)"

subsection \<open>The registry of files\<close>

text \<open>
  A file is known by its name and the name of its meta file. \<open>made\<close> is what the constructor
  gives: \<open>None\<close> when the file was to be opened (an output file always is) and is not active, so
  that it is deleted again.
\<close>

record file_names =
  fn_type :: TazerFile_Type
  fn_name :: string
  fn_meta :: string

definition addNewTazerFile ::
  "(string, file_names) trackable \<Rightarrow> TazerFile_Type \<Rightarrow> string \<Rightarrow> string \<Rightarrow> (file_names \<Rightarrow> bool) \<Rightarrow> bool \<Rightarrow>
   (string, file_names) trackable \<times> file_names tracked option" where
  "addNewTazerFile r ty nm metaName opens openFile =
     (let f = \<lparr>fn_type = ty, fn_name = nm, fn_meta = metaName\<rparr>;
          made = (if (openFile \<or> ty = Output) \<and> \<not> opens f then None else Some f);
          key = (case ty of Input \<Rightarrow> metaName | Output \<Rightarrow> metaName | Local \<Rightarrow> nm);
          (r', v, _) = AddTrackable r key made None False
      in (r', v))"

definition removeStr :: "string \<Rightarrow> string \<Rightarrow> string \<times> int" where
  "removeStr s r =
     (case find_sub r s of None \<Rightarrow> (s, -1) | Some i \<Rightarrow> (take i s @ drop (i + length r) s, 0))"

text \<open>
  The key of a name: without its first \<open>.tmp\<close>. The copy goes to 1000 bytes; \<open>None\<close> when the
  name does not fit. A name is a C string here.
\<close>

definition file_key :: "string \<Rightarrow> string option" where
  "file_key nm =
     (if find_sub ''.tmp'' nm \<noteq> None
      then if length nm < 1000 then Some (fst (removeStr nm ''.tmp'')) else None
      else Some nm)"

definition removeTazerFile_name ::
  "(string, file_names) trackable \<Rightarrow> string \<Rightarrow> ((string, file_names) trackable \<times> bool) option" where
  "removeTazerFile_name r nm = map_option (\<lambda>k. RemoveTrackable r k 1) (file_key nm)"

definition removeTazerFile ::
  "(string, file_names) trackable \<Rightarrow> file_names \<Rightarrow> ((string, file_names) trackable \<times> bool) option" where
  "removeTazerFile r f = removeTazerFile_name r (fn_meta f)"

definition lookUpTazerFile :: "(string, file_names) trackable \<Rightarrow> string \<Rightarrow> file_names tracked option option" where
  "lookUpTazerFile r nm = map_option (LookupTrackable r) (file_key nm)"

subsection \<open>Numbers as text\<close>

lemma of_char_digit: "d < 10 \<Longrightarrow> (of_char (digit d) :: nat) = 48 + d"
  by (simp add: digit_def)

lemma is_digit_digit: "d < 10 \<Longrightarrow> is_digit (digit d)"
  by (simp add: is_digit_def of_char_digit)

lemma digits_are_digits: "c \<in> set (digits n) \<Longrightarrow> is_digit c"
proof (induction n rule: digits.induct)
  case (1 n)
  then show ?case
    by (cases "n < 10") (auto simp: digits.simps [of n] is_digit_digit)
qed

lemma digits_nonempty [simp]: "digits n \<noteq> []"
  by (simp add: digits.simps [of n])

lemma foldl_digits: "foldl (\<lambda>v c. 10 * v + (of_char c - 48)) 0 (digits n) = n"
proof (induction n rule: digits.induct)
  case (1 n)
  then show ?case
    by (cases "n < 10") (simp_all add: digits.simps [of n] of_char_digit)
qed

lemma takeWhile_all: "(\<And>c. c \<in> set s \<Longrightarrow> P c) \<Longrightarrow> takeWhile P s = s"
  by simp

lemma digits_val_digits [simp]: "digits_val (digits n) = n"
  by (simp add: digits_val_def foldl_digits takeWhile_all [OF digits_are_digits])

lemma digit_is_plain:
  assumes "is_digit c"
  shows "\<not> is_space c" "c \<noteq> CHR ''-''" "c \<noteq> CHR ''+''" "c \<noteq> CHR '':''" "c \<noteq> CHR ''|''" "c \<noteq> CHR 0x00"
  using assms by (auto simp: is_digit_def is_space_def)

lemma digits_plain:
  "CHR '':'' \<notin> set (digits n)" "CHR ''|'' \<notin> set (digits n)" "CHR 0x00 \<notin> set (digits n)"
  using digits_are_digits digit_is_plain by blast+

lemma atoi_digits: "n < 2 ^ 31 \<Longrightarrow> atoi (digits n) = int n"
proof -
  assume n: "n < 2 ^ 31"
  have h: "is_digit (hd (digits n))" by (rule digits_are_digits [of _ n]) simp
  then have "dropWhile is_space (digits n) = digits n"
    by (cases "digits n") (auto simp: digit_is_plain)
  moreover have "sint (word_of_int (int n) :: u32) = int n"
    using n by (simp add: signed_of_nat signed_take_bit_int_eq_self)
  ultimately show ?thesis using n h by (simp add: atoi_def digit_is_plain Let_def min_def max_def)
qed

subsection \<open>Fields\<close>

lemma find_sub_char: "c \<notin> set a \<Longrightarrow> find_sub [c] (a @ c # b) = Some (length a)"
  by (induction a) auto

lemma find_sub_char_None: "find_sub [c] a = None \<longleftrightarrow> c \<notin> set a"
  by (induction a) auto

lemma find_at_char: "c \<notin> set a \<Longrightarrow> find_at [c] (p @ a @ c # b) (length p) = Some (length p + length a)"
  by (simp add: find_at_def find_sub_char)

lemma unat_minus_1: "unat (-1 :: 'a::len word) = 2 ^ LENGTH('a) - 1"
  by (simp add: unsigned_minus_1_eq_mask mask_eq_exp_minus_1)

lemma npos_u32: "(ucast npos :: u32) = -1"
  by (rule bit_word_eqI) (simp add: npos_def bit_ucast_iff)

lemma never_npos: "(ucast (x :: u32) :: u64) \<noteq> npos"
proof
  assume "(ucast x :: u64) = npos"
  then have "unat (ucast x :: u64) = unat npos" by simp
  moreover have "unat (ucast x :: u64) = unat x" by (simp add: unat_ucast_small order.strict_trans [OF unat_bound])
  moreover have "unat npos = 2 ^ 64 - 1" by (simp add: npos_def unat_minus_1)
  moreover have "unat x < 2 ^ 32" using unat_bound [of x] by simp
  ultimately show False by simp
qed

lemma meta_field_at:
  assumes "CHR '':'' \<notin> set a" and "length (p @ a @ CHR '':'' # b) < 2 ^ 32"
  shows "meta_field f (p @ a @ CHR '':'' # b) (of_nat (length p)) = Inr (of_nat (length p + length a + 1), a)"
proof -
  let ?line = "p @ a @ CHR '':'' # b"
  have u: "unat (of_nat (length p) :: u32) = length p"
      "unat (of_nat (length p + length a) :: u32) = length p + length a"
    using assms(2) by (simp_all add: unat_of_nat_small del: of_nat_add)
  have f: "find_u32 ?line (of_nat (length p)) = of_nat (length p + length a)"
    by (simp add: find_u32_def find_at_char [OF assms(1)] u del: of_nat_add)
  have "unat ((of_nat (length p + length a) :: u32) - of_nat (length p)) = length a"
    using assms(2) by (simp add: unat_of_nat_small)
  then show ?thesis
    by (simp add: meta_field_def f never_npos substr_def u Let_def del: of_nat_add)
qed

lemma last_field_at:
  assumes "length (p @ a) < 2 ^ 32"
  shows "last_field (p @ a) (of_nat (length p)) = Inr a"
proof -
  have "unat (of_nat (length p) :: u32) = length p" using assms by (simp add: unat_of_nat_small)
  moreover have "unat ((of_nat (length (p @ a)) :: u32) - of_nat (length p)) = length a"
    using assms by (simp add: unat_of_nat_small)
  ultimately show ?thesis by (simp add: last_field_def substr_def)
qed

text \<open>A field that is not closed by a colon reaches to the end, and the next one starts at 0.\<close>

lemma meta_field_open:
  assumes "CHR '':'' \<notin> set a" and "length (p @ a) < 2 ^ 32"
  shows "meta_field f (p @ a) (of_nat (length p)) = Inr (0, a)"
proof -
  have u: "unat (of_nat (length p) :: u32) = length p"
    using assms(2) by (simp add: unat_of_nat_small)
  have nx: "find_u32 (p @ a) (of_nat (length p)) = -1"
    using assms(1) by (simp add: find_u32_def find_at_def u npos_u32 iffD2 [OF find_sub_char_None])
  have m: "unat (-1 :: u32) = 2 ^ 32 - 1" by (simp add: unat_minus_1)
  have "unat (-1 - of_nat (length p) :: u32) = 2 ^ 32 - 1 - length p"
    using assms(2) by (subst unat_diff_le) (simp_all add: u m word_le_nat_alt)
  then have "length a \<le> unat (-1 - of_nat (length p) :: u32)" using assms(2) by simp
  then show ?thesis
    by (simp add: meta_field_def nx never_npos [of "-1", simplified] substr_def u Let_def)
qed

lemma meta_field_total:
  assumes "unat lcur \<le> length line" "length line < 2 ^ 32"
  shows "\<exists>lcur' s. meta_field f line lcur = Inr (lcur', s) \<and> unat lcur' \<le> length line"
proof -
  have "unat (find_u32 line lcur + 1) \<le> length line"
  proof (cases "find_at '':'' line (unat lcur)")
    case None
    then show ?thesis by (simp add: find_u32_def npos_u32)
  next
    case (Some i)
    from find_at_bound [OF Some] have i: "Suc i \<le> length line" by simp
    then have "unat (of_nat i :: u32) = i" using assms(2) by (simp add: unat_of_nat_small)
    then show ?thesis using i assms(2) Some by (simp add: find_u32_def unat_inc_small)
  qed
  then show ?thesis
    using assms(1) by (simp add: meta_field_def never_npos substr_def Let_def)
qed

lemma meta_line_total:
  assumes "length line < 2 ^ 32"
  shows "\<exists>r. meta_line line f = Inr r"
proof -
  have step: "\<exists>l' s. meta_field g line l = Inr (l', s) \<and> unat l' \<le> length line"
    if "unat l \<le> length line" for l and g :: meta_info
    using that assms by (rule meta_field_total)
  have 0: "unat (0::u32) \<le> length line" by simp
  from step [OF 0] obtain l1 s1 where 1: "\<And>g. meta_field (g::meta_info) line 0 = Inr (l1, s1)" "unat l1 \<le> length line"
    by (auto simp: meta_field_def Let_def never_npos split: option.splits)
  from step [OF 1(2)] obtain l2 s2 where 2: "\<And>g. meta_field (g::meta_info) line l1 = Inr (l2, s2)" "unat l2 \<le> length line"
    by (auto simp: meta_field_def Let_def never_npos split: option.splits)
  from step [OF 2(2)] obtain l3 s3 where 3: "\<And>g. meta_field (g::meta_info) line l2 = Inr (l3, s3)" "unat l3 \<le> length line"
    by (auto simp: meta_field_def Let_def never_npos split: option.splits)
  from step [OF 3(2)] obtain l4 s4 where 4: "\<And>g. meta_field (g::meta_info) line l3 = Inr (l4, s4)" "unat l4 \<le> length line"
    by (auto simp: meta_field_def Let_def never_npos split: option.splits)
  from step [OF 4(2)] obtain l5 s5 where 5: "\<And>g. meta_field (g::meta_info) line l4 = Inr (l5, s5)" "unat l5 \<le> length line"
    by (auto simp: meta_field_def Let_def never_npos split: option.splits)
  from step [OF 5(2)] obtain l6 s6 where 6: "\<And>g. meta_field (g::meta_info) line l5 = Inr (l6, s6)" "unat l6 \<le> length line"
    by (auto simp: meta_field_def Let_def never_npos split: option.splits)
  show ?thesis using 6(2)
    by (simp add: meta_line_def 1(1) 2(1) 3(1) 4(1) 5(1) 6(1) last_field_def substr_def Let_def)
qed

lemma short_line:
  assumes "CHR '':'' \<notin> set h" "CHR '':'' \<notin> set p" "length (h @ '':'' @ p) < 2 ^ 32"
  shows "meta_line (h @ '':'' @ p) f =
    Inr (f\<lparr>m_compress := atoi h \<noteq> 0, m_prefetch := of_int (atoi p), m_save_local := atoi h \<noteq> 0,
           m_blkSize := of_int (atoi p), m_name := h @ '':'' @ p\<rparr>, h, atoi p)"
proof -
  have a: "meta_field g (h @ CHR '':'' # p) 0 = Inr (of_nat (length h + 1), h)" for g :: meta_info
    using meta_field_at [of h "[]" p g] assms by simp
  have b: "meta_field g (h @ CHR '':'' # p) (of_nat (length h + 1)) = Inr (0, p)" for g :: meta_info
    using meta_field_open [of p "h @ '':''" g] assms by simp
  have c: "(last_field (h @ CHR '':'' # p) 0 :: meta_info stop + string) = Inr (h @ CHR '':'' # p)"
    using last_field_at [of "[]" "h @ CHR '':'' # p"] assms by simp
  show ?thesis using a b c by (simp add: meta_line_def Let_def del: of_nat_add)
qed

subsection \<open>Meta files as they are meant\<close>

record server_entry =
  se_host :: string
  se_port :: nat
  se_compress :: bool
  se_prefetch :: nat
  se_save_local :: bool
  se_blkSize :: nat
  se_file :: string

definition flag :: "bool \<Rightarrow> string" where "flag b = digits (of_bool b)"

definition entry_line :: "server_entry \<Rightarrow> string" where
  "entry_line s = se_host s @ '':'' @ digits (se_port s) @ '':'' @ flag (se_compress s) @ '':'' @ digits (se_prefetch s) @
     '':'' @ flag (se_save_local s) @ '':'' @ digits (se_blkSize s) @ '':'' @ se_file s"

definition meta_text :: "server_entry list \<Rightarrow> string" where
  "meta_text ss = concat (map (\<lambda>s. entry_line s @ ''|'') ss)"

definition entry_ok :: "server_entry \<Rightarrow> bool" where
  "entry_ok s \<longleftrightarrow> set (se_host s) \<inter> {CHR '':'', CHR ''|'', CHR 0x00} = {} \<and>
     set (se_file s) \<inter> {CHR ''|'', CHR 0x00} = {} \<and>
     se_port s < 2 ^ 31 \<and> se_prefetch s < 2 ^ 31 \<and> se_blkSize s < 2 ^ 31 \<and> length (entry_line s) < 2 ^ 32"

definition keep_entry :: "server_entry \<Rightarrow> meta_info \<Rightarrow> meta_info" where
  "keep_entry s f = f\<lparr>m_compress := se_compress s, m_prefetch := of_nat (se_prefetch s),
     m_save_local := se_save_local s, m_blkSize := of_nat (se_blkSize s),
     m_name := (if se_file s \<noteq> [] then se_file s else m_name f)\<rparr>"

lemma atoi_flag: "atoi (flag b) \<noteq> 0 \<longleftrightarrow> b"
  by (cases b) (simp_all add: flag_def atoi_digits)

lemma flag_plain: "CHR '':'' \<notin> set (flag b)" "CHR ''|'' \<notin> set (flag b)" "CHR 0x00 \<notin> set (flag b)"
  by (simp_all add: flag_def digits_plain)

lemma entry_line_parsed:
  assumes "entry_ok s"
  shows "meta_line (entry_line s) f = Inr (keep_entry s f, se_host s, int (se_port s))"
proof -
  define l where "l = entry_line s"
  let ?p1 = "se_host s @ '':''" let ?p2 = "?p1 @ digits (se_port s) @ '':''"
  let ?p3 = "?p2 @ flag (se_compress s) @ '':''" let ?p4 = "?p3 @ digits (se_prefetch s) @ '':''"
  let ?p5 = "?p4 @ flag (se_save_local s) @ '':''" let ?p6 = "?p5 @ digits (se_blkSize s) @ '':''"
  have len: "length l < 2 ^ 32" using assms by (simp add: entry_ok_def l_def)
  have at: "meta_field g l (of_nat (length p)) = Inr (of_nat (length (p @ a @ '':'')), a)"
    if "CHR '':'' \<notin> set a" "l = p @ a @ CHR '':'' # b" for g :: meta_info and p a b
    using meta_field_at [OF that(1), of p b g] len that(2) by simp
  have h: "CHR '':'' \<notin> set (se_host s)" using assms by (auto simp: entry_ok_def)
  have f0: "meta_field g l 0 = Inr (of_nat (length ?p1), se_host s)" for g :: meta_info
    using at [OF h, of "[]"] by (simp add: l_def entry_line_def)
  have f1: "meta_field g l (of_nat (length ?p1)) = Inr (of_nat (length ?p2), digits (se_port s))" for g :: meta_info
    using at [OF digits_plain(1), of ?p1 "se_port s"] by (simp add: l_def entry_line_def)
  have f2: "meta_field g l (of_nat (length ?p2)) = Inr (of_nat (length ?p3), flag (se_compress s))" for g :: meta_info
    using at [OF flag_plain(1), of ?p2 "se_compress s"] by (simp add: l_def entry_line_def)
  have f3: "meta_field g l (of_nat (length ?p3)) = Inr (of_nat (length ?p4), digits (se_prefetch s))" for g :: meta_info
    using at [OF digits_plain(1), of ?p3 "se_prefetch s"] by (simp add: l_def entry_line_def)
  have f4: "meta_field g l (of_nat (length ?p4)) = Inr (of_nat (length ?p5), flag (se_save_local s))" for g :: meta_info
    using at [OF flag_plain(1), of ?p4 "se_save_local s"] by (simp add: l_def entry_line_def)
  have f5: "meta_field g l (of_nat (length ?p5)) = Inr (of_nat (length ?p6), digits (se_blkSize s))" for g :: meta_info
    using at [OF digits_plain(1), of ?p5 "se_blkSize s"] by (simp add: l_def entry_line_def)
  have e: "(last_field l (of_nat (length ?p6)) :: meta_info stop + string) = Inr (se_file s)"
    using last_field_at [of ?p6 "se_file s"] len by (simp add: l_def entry_line_def)
  have small: "se_port s < 2 ^ 31" "se_prefetch s < 2 ^ 31" "se_blkSize s < 2 ^ 31"
    using assms by (simp_all add: entry_ok_def)
  note nums = small [THEN atoi_digits]
  show ?thesis
    unfolding l_def [symmetric]
    by (simp only: meta_line_def f0 f1 f2 f3 f4 f5 e bind_stop_simps prod.case Let_def)
      (simp add: atoi_flag nums keep_entry_def)
qed

text \<open>What the entries ask for, as typed values: the last one decides the settings.\<close>

fun use_entries ::
  "(endpoint \<Rightarrow> bool) \<Rightarrow> server_entry list \<Rightarrow> net_state \<Rightarrow> meta_info \<Rightarrow> u32 \<Rightarrow> net_state \<times> meta_info \<times> u32" where
  "use_entries connects [] n f k = (n, f, k)"
| "use_entries connects (s # ss) n f k =
     (if m_type f \<noteq> Local
      then let (n, cs) = register_server connects n (se_host s) (int (se_port s))
           in use_entries connects ss n ((keep_entry s f)\<lparr>m_connections := m_connections f @ cs\<rparr>) (k + of_nat (length cs))
      else use_entries connects ss n (keep_entry s f) k)"

lemma bar_notin_entry: "entry_ok s \<Longrightarrow> CHR ''|'' \<notin> set (entry_line s)"
  by (auto simp: entry_ok_def entry_line_def digits_plain flag_plain)

lemma nul_notin_meta_text: "(\<And>s. s \<in> set ss \<Longrightarrow> entry_ok s) \<Longrightarrow> CHR 0x00 \<notin> set (meta_text ss)"
  by (induction ss) (auto simp: meta_text_def entry_ok_def entry_line_def digits_plain flag_plain)

lemma meta_loop_entries:
  assumes "\<And>s. s \<in> set ss \<Longrightarrow> entry_ok s" and "CHR ''|'' \<notin> set rest"
  shows "meta_loop connects (pre @ meta_text ss @ rest) (length pre) n f k = Some (use_entries connects ss n f k)"
  using assms(1)
proof (induction ss arbitrary: pre n f k)
  case Nil
  have "find_at ''|'' (pre @ rest) (length pre) = None"
    using assms(2) by (simp add: find_at_def find_sub_char_None)
  then show ?case by (subst meta_loop.simps) (simp add: meta_text_def)
next
  case (Cons s ss)
  have ok: "entry_ok s" using Cons.prems by simp
  let ?e = "entry_line s"
  let ?text = "pre @ ?e @ CHR ''|'' # meta_text ss @ rest"
  have whole: "pre @ meta_text (s # ss) @ rest = ?text" by (simp add: meta_text_def)
  have fi: "find_at ''|'' ?text (length pre) = Some (length pre + length ?e)"
    by (rule find_at_char) (rule bar_notin_entry [OF ok])
  have IH: "meta_loop connects ?text (length pre + length ?e + 1) n f k = Some (use_entries connects ss n f k)" for n f k
    using Cons.IH [of "pre @ ?e @ ''|''" n f k] Cons.prems by simp
  show ?case unfolding whole
    by (subst meta_loop.simps)
      (simp add: fi substr_def entry_line_parsed [OF ok] IH [simplified] keep_entry_def split: prod.split)
qed

text \<open>
  C38: meta files are read as they are meant. For every list of servers whose texts keep to the
  format (no colon, bar or NUL in a host name, no bar or NUL in a file name, numbers below
  \<open>2^31\<close>), \<open>readMetaInfo\<close> of the file \<open>host:port:compress:prefetch:save_local:blk_size:name|...\<close>
  connects to these servers in order and leaves the settings of the last entry, whatever
  follows the last bar; it answers true when a server was found.
\<close>

theorem meta_file_roundtrip:
  assumes "\<And>s. s \<in> set ss \<Longrightarrow> entry_ok s" and "CHR ''|'' \<notin> set rest" and "CHR 0x00 \<notin> set rest"
  shows "readMetaInfo connects n f (Some (Some (meta_text ss @ rest))) =
    (let (n', f', k) = use_entries connects ss n f 0 in Some (n', f', 0 < k))"
proof -
  have "CHR 0x00 \<notin> set (meta_text ss @ rest)"
    using nul_notin_meta_text [OF assms(1)] assms(3) by simp
  then have c: "c_str (meta_text ss @ rest) = meta_text ss @ rest" by (rule c_str_id)
  have "meta_loop connects (meta_text ss @ rest) 0 n f 0 = Some (use_entries connects ss n f 0)"
    using meta_loop_entries [OF assms(1,2), where pre = "[]"] by simp
  then show ?thesis by (simp add: readMetaInfo_def c split: prod.split)
qed

definition demo_entry :: server_entry where
  "demo_entry = \<lparr>se_host = ''1.2.3.4'', se_port = 5001, se_compress = False, se_prefetch = 1, se_save_local = False,
     se_blkSize = 1024, se_file = ''/data/a:b''\<rparr>"

lemma demo_entry_line: "entry_line demo_entry = ''1.2.3.4:5001:0:1:0:1024:/data/a:b''"
  by (simp add: entry_line_def demo_entry_def flag_def digits.simps digit_def char_of_def bit_0)

theorem meta_file_roundtrip_witness:
  "map_option (\<lambda>(n, f, ok). (m_name f, m_blkSize f, m_prefetch f, map snd (m_connections f), ok))
     (readMetaInfo (\<lambda>_. True) net_start (new_meta Input ''x'') (Some (Some ''1.2.3.4:5001:0:1:0:1024:/data/a:b|'')))
   = Some (''/data/a:b'', 1024, 1, [\<lparr>e_addr = ''1.2.3.4'', e_port = 5001\<rparr>], True)"
proof -
  have ok: "\<And>s. s \<in> set [demo_entry] \<Longrightarrow> entry_ok s"
    by (simp add: entry_ok_def demo_entry_line) (simp add: demo_entry_def)
  have t: "meta_text [demo_entry] @ [] = ''1.2.3.4:5001:0:1:0:1024:/data/a:b|''"
    by (simp add: meta_text_def demo_entry_line)
  show ?thesis
    using meta_file_roundtrip [where ss = "[demo_entry]", OF ok, where rest = "[]" and connects = "\<lambda>_. True" and n = net_start
        and f = "new_meta Input ''x''"]
    unfolding t
    by (simp add: demo_entry_def keep_entry_def new_meta_def register_server_def addNewClientConnection_def
        net_start_def AddTrackable_def trackable_init_def new_tracked_def incUsers_def Let_def)
qed

text \<open>
  an improper line is not noticed. \<open>find\<close> goes into a 32-bit word, so the tests against
  \<open>npos\<close> never hold: no line of less than \<open>2^32\<close> characters stops the parser. A line with a
  host and a port only is read in circles: the host and the port are taken as the flags, the
  port as the block size and the whole line as the name of the file.
\<close>

theorem short_meta_line_accepted:
  assumes "CHR '':'' \<notin> set h" "CHR '':'' \<notin> set p" "length (h @ '':'' @ p) < 2 ^ 32" "length line < 2 ^ 32"
  shows "(\<exists>r. meta_line line f = Inr r) \<and> meta_line (h @ '':'' @ p) f =
    Inr (f\<lparr>m_compress := atoi h \<noteq> 0, m_prefetch := of_int (atoi p), m_save_local := atoi h \<noteq> 0,
           m_blkSize := of_int (atoi p), m_name := h @ '':'' @ p\<rparr>, h, atoi p)"
  using meta_line_total [OF assms(4)] short_line [OF assms(1-3)] by blast

theorem short_meta_line_accepted_witness:
  "meta_line ''10.0.0.1:5001'' (new_meta Input ''data'') =
     Inr (\<lparr>m_type = Input, m_name = ''10.0.0.1:5001'', m_compress = True, m_prefetch = 5001, m_save_local = True,
           m_blkSize = 5001, m_connections = []\<rparr>, ''10.0.0.1'', 5001)"
proof -
  have a: "atoi ''10.0.0.1'' = 10" "atoi ''5001'' = 5001" by code_simp+
  show ?thesis
    using conjunct2 [OF short_meta_line_accepted [of "''10.0.0.1''" "''5001''" "[]" "new_meta Input ''data''"]]
    by (simp add: a new_meta_def)
qed

text \<open>
  the registry of connections confuses servers. Its key is the address followed by the
  port without a separator; when two endpoints spell the same key, whoever asks for the
  second one is given the connection to the first.
\<close>

theorem connection_keys_collide:
  assumes "active r (h1 @ to_string p1) = None" and "connects \<lparr>e_addr = h1, e_port = p1\<rparr>"
    and "h1 @ to_string p1 = h2 @ to_string p2"
  defines "r1 \<equiv> fst (addNewClientConnection connects r h1 p1)"
  shows "map_option t_val (snd (addNewClientConnection connects r1 h2 p2)) = Some \<lparr>e_addr = h1, e_port = p1\<rparr>"
  using assms
  by (simp add: addNewClientConnection_def AddTrackable_def new_tracked_def incUsers_def Let_def)

theorem connection_keys_collide_witness:
  "map_option t_val (snd (addNewClientConnection (\<lambda>_. True)
     (fst (addNewClientConnection (\<lambda>_. True) trackable_init ''10.0.0.1'' 15000)) ''10.0.0.11'' 5000))
   = Some \<lparr>e_addr = ''10.0.0.1'', e_port = 15000\<rparr>"
proof -
  have "''10.0.0.1'' @ to_string 15000 = ''10.0.0.11'' @ to_string 5000"
    by (simp add: to_string_def digits.simps digit_def char_of_def bit_0)
  then show ?thesis
    by (intro connection_keys_collide) (simp_all add: trackable_init_def)
qed

text \<open>
  closing a file forgets it exactly when it was registered under the name that
  \<open>removeTazerFile\<close> computes from its meta file. Input and output files without \<open>.tmp\<close> in that
  name are; a local file is registered under its own name and not under that of its meta
  file, and a name with \<open>.tmp\<close> is registered whole and looked for without it: these stay
  registered, and open, for ever.
\<close>

theorem close_forgets_file_iff:
  assumes "key = (if ty = Local then nm else meta)" and "file_key meta = Some k"
    and "active r key = None" "active r k = None" "opens \<lparr>fn_type = ty, fn_name = nm, fn_meta = meta\<rparr>"
  defines "f \<equiv> \<lparr>fn_type = ty, fn_name = nm, fn_meta = meta\<rparr>"
  defines "r1 \<equiv> fst (addNewTazerFile r ty nm meta opens True)"
  shows "map_option t_val (LookupTrackable r1 key) = Some f
    \<and> map_option snd (removeTazerFile r1 f) = Some (key = k)
    \<and> map_option (\<lambda>(r2, _). LookupTrackable r2 key = None) (removeTazerFile r1 f) = Some (key = k)"
  using assms
  by (cases ty)
    (auto simp: addNewTazerFile_def AddTrackable_def new_tracked_def incUsers_def Let_def LookupTrackable_def
      removeTazerFile_def removeTazerFile_name_def RemoveTrackable_def decUsers_def)

theorem close_forgets_file_iff_witness:
  "map_option snd (removeTazerFile (fst (addNewTazerFile trackable_init Local ''1'' ''a.meta.local'' (\<lambda>_. True) True))
     \<lparr>fn_type = Local, fn_name = ''1'', fn_meta = ''a.meta.local''\<rparr>) = Some False
   \<and> map_option snd (removeTazerFile (fst (addNewTazerFile trackable_init Input ''1'' ''a.meta.in'' (\<lambda>_. True) True))
     \<lparr>fn_type = Input, fn_name = ''1'', fn_meta = ''a.meta.in''\<rparr>) = Some True"
proof -
  have k: "file_key ''a.meta.local'' = Some ''a.meta.local''" "file_key ''a.meta.in'' = Some ''a.meta.in''"
    by code_simp+
  show ?thesis
    using close_forgets_file_iff [OF refl k(1), of trackable_init Local "''1''" "\<lambda>_. True"]
      close_forgets_file_iff [OF refl k(2), of trackable_init Input "''1''" "\<lambda>_. True"]
    by (simp add: trackable_init_def)
qed

end
