(* ===== verification/PosixApi.thy ===== *)
theory PosixApi
  imports MetaFile ReadPath WireFormat
begin

text \<open>
  The interface to the application: \<^verbatim>\<open>src/client/Lib.cpp\<close> and \<^verbatim>\<open>inc/tazer/client/Lib.h\<close>, the
  functions of the C library that the preloaded library replaces. Each looks for a descriptor,
  a stream or a path of its own (\<open>innerWrapper\<close>) and calls the C library for all others.

  The files (virtual methods of \<open>TazerFile\<close>) and the C library are parameters over one state
  \<open>'s\<close>. \<open>None\<close> is an access outside of a buffer, a NULL pointer or the end of the process.
  Timers and the sets of tracked and ignored descriptors, which serve the timers only, and the
  locks around the calls are left out.
\<close>

subsection \<open>Files, the C library and the process\<close>

text \<open>
  A \<open>ssize_t\<close> or \<open>off_t\<close> is the 64-bit word. \<open>v_read\<close> gets the buffer and the count and gives
  the buffer back; \<open>v_write\<close> gets the bytes.
\<close>

record ('f, 's) vtable =
  v_read :: "'s \<Rightarrow> 'f \<Rightarrow> bytes \<Rightarrow> u64 \<Rightarrow> u32 \<Rightarrow> ('s \<times> bytes \<times> u64) option"
  v_write :: "'s \<Rightarrow> 'f \<Rightarrow> bytes \<Rightarrow> u32 \<Rightarrow> ('s \<times> u64) option"
  v_seek :: "'s \<Rightarrow> 'f \<Rightarrow> u64 \<Rightarrow> whence \<Rightarrow> u32 \<Rightarrow> ('s \<times> u64) option"
  v_filePos :: "'s \<Rightarrow> 'f \<Rightarrow> u32 \<Rightarrow> u64 option"
  v_eof :: "'s \<Rightarrow> 'f \<Rightarrow> u32 \<Rightarrow> bool"
  v_fileSize :: "'s \<Rightarrow> 'f \<Rightarrow> 's \<times> u64"
  v_addNew :: "'s \<Rightarrow> TazerFile_Type \<Rightarrow> string \<Rightarrow> string \<Rightarrow> int \<Rightarrow> 's \<times> 'f option"
  v_newIndex :: "'s \<Rightarrow> 'f \<Rightarrow> 's \<times> u32"
  v_remove :: "'s \<Rightarrow> 'f \<Rightarrow> 's"
  v_lookUp :: "'s \<Rightarrow> string \<Rightarrow> 'f option"
  v_sizeOf :: "'s \<Rightarrow> TazerFile_Type \<Rightarrow> string \<Rightarrow> string \<Rightarrow> int \<Rightarrow> 's \<times> u64"
  v_urlSize :: "'s \<Rightarrow> string \<Rightarrow> int option"

record ('p, 's) libc =
  u_open :: "'s \<Rightarrow> string \<Rightarrow> 's \<times> int"
  u_close :: "'s \<Rightarrow> int \<Rightarrow> 's \<times> int"
  u_read :: "'s \<Rightarrow> int \<Rightarrow> bytes \<Rightarrow> u64 \<Rightarrow> ('s \<times> bytes \<times> u64) option"
  u_write :: "'s \<Rightarrow> int \<Rightarrow> bytes \<Rightarrow> ('s \<times> u64) option"
  u_lseek :: "'s \<Rightarrow> int \<Rightarrow> u64 \<Rightarrow> whence \<Rightarrow> ('s \<times> u64) option"
  u_stat :: "'s \<Rightarrow> string \<Rightarrow> 's \<times> int \<times> u64"
  u_fsync :: "'s \<Rightarrow> int \<Rightarrow> 's \<times> int"
  u_fopen :: "'s \<Rightarrow> string \<Rightarrow> 's \<times> 'p option"
  u_fclose :: "'s \<Rightarrow> 'p \<Rightarrow> 's \<times> int"
  u_fileno :: "'s \<Rightarrow> 'p \<Rightarrow> int"

record ('f, 'p, 's) proc =
  p_init :: bool
  p_fds :: "(int, 'f tazer_fd) trackable"
  p_streams :: "('p, tazer_stream) trackable"
  p_state :: 's

definition put_state :: "('f, 'p, 's) proc \<Rightarrow> 's \<times> 'a \<Rightarrow> ('f, 'p, 's) proc \<times> 'a" where
  "put_state P = (\<lambda>(s, x). (P\<lparr>p_state := s\<rparr>, x))"

subsection \<open>Dispatch\<close>

text \<open>\<open>innerWrapper\<close> for a descriptor, a stream and a path.\<close>

definition wrap_fd :: "('f, 'p, 's) proc \<Rightarrow> int \<Rightarrow> ('f \<Rightarrow> u32 \<Rightarrow> 'a) \<Rightarrow> 'a \<Rightarrow> 'a" where
  "wrap_fd P fd tazerFun localFun =
     (if p_init P
      then case lookupTazerFileDescriptor (p_fds P) fd of
          Some (file, fp) \<Rightarrow> tazerFun file fp
        | None \<Rightarrow> localFun
      else localFun)"

text \<open>A stream whose descriptor is not in the table has the file NULL and the position 0.\<close>

definition wrap_stream :: "('f, 'p, 's) proc \<Rightarrow> 'p \<Rightarrow> ('f option \<Rightarrow> u32 \<Rightarrow> int \<Rightarrow> 'a) \<Rightarrow> 'a \<Rightarrow> 'a" where
  "wrap_stream P fp tazerFun localFun =
     (if p_init P
      then let (fd, _) = lookupStream (p_streams P) fp
           in if fd \<noteq> -1
              then case lookupTazerFileDescriptor (p_fds P) fd of
                  Some (file, pos) \<Rightarrow> tazerFun (Some file) pos fd
                | None \<Rightarrow> tazerFun None 0 fd
              else localFun
      else localFun)"

definition wrap_path ::
  "('f, 'p, 's) proc \<Rightarrow> string \<Rightarrow> (string \<Rightarrow> string \<Rightarrow> TazerFile_Type \<Rightarrow> 'a option) \<Rightarrow> 'a option \<Rightarrow> 'a option" where
  "wrap_path P pathname tazerFun localFun =
     (if p_init P
      then case checkMeta pathname of
          None \<Rightarrow> None
        | Some (Some (path, file, ty)) \<Rightarrow> tazerFun file path ty
        | Some None \<Rightarrow> localFun
      else localFun)"

subsection \<open>Descriptors\<close>

definition tazerOpen ::
  "('f, 's) vtable \<Rightarrow> ('p, 's) libc \<Rightarrow> ('f, 'p, 's) proc \<Rightarrow> string \<Rightarrow> string \<Rightarrow> TazerFile_Type \<Rightarrow> ('f, 'p, 's) proc \<times> int" where
  "tazerOpen V U P name metaName ty =
     (let (s, fd) = u_open U (p_state P) metaName;
          (s, made) = v_addNew V s ty name metaName fd
      in case made of
           Some file \<Rightarrow>
             let (s, ix) = v_newIndex V s file
             in (P\<lparr>p_state := s, p_fds := fst (addTazerFileDescriptor (p_fds P) fd file ix)\<rparr>, fd)
         | None \<Rightarrow>
             if fd \<noteq> -1 then let (s, _) = u_close U s fd in (P\<lparr>p_state := s\<rparr>, -1) else (P\<lparr>p_state := s\<rparr>, fd))"

definition open_path ::
  "('f, 's) vtable \<Rightarrow> ('p, 's) libc \<Rightarrow> ('f, 'p, 's) proc \<Rightarrow> string \<Rightarrow> (('f, 'p, 's) proc \<times> int) option" where
  "open_path V U P pathname =
     wrap_path P pathname (\<lambda>name meta ty. Some (tazerOpen V U P name meta ty))
       (Some (put_state P (u_open U (p_state P) pathname)))"

definition tazerClose ::
  "('f, 's) vtable \<Rightarrow> ('p, 's) libc \<Rightarrow> ('f, 'p, 's) proc \<Rightarrow> 'f \<Rightarrow> int \<Rightarrow> ('f, 'p, 's) proc \<times> int" where
  "tazerClose V U P file fd =
     (let s = v_remove V (p_state P) file;
          fds = fst (removeTazerFileDescriptor (p_fds P) fd);
          (s, ret) = u_close U s fd
      in (P\<lparr>p_state := s, p_fds := fds\<rparr>, ret))"

definition close_fd ::
  "('f, 's) vtable \<Rightarrow> ('p, 's) libc \<Rightarrow> ('f, 'p, 's) proc \<Rightarrow> int \<Rightarrow> ('f, 'p, 's) proc \<times> int" where
  "close_fd V U P fd =
     wrap_fd P fd (\<lambda>file _. tazerClose V U P file fd) (put_state P (u_close U (p_state P) fd))"

definition read_fd ::
  "('f, 's) vtable \<Rightarrow> ('p, 's) libc \<Rightarrow> ('f, 'p, 's) proc \<Rightarrow> int \<Rightarrow> bytes \<Rightarrow> u64 \<Rightarrow> (('f, 'p, 's) proc \<times> bytes \<times> u64) option" where
  "read_fd V U P fd buf count =
     map_option (put_state P)
       (wrap_fd P fd (\<lambda>file fp. v_read V (p_state P) file buf count fp) (u_read U (p_state P) fd buf count))"

definition write_fd ::
  "('f, 's) vtable \<Rightarrow> ('p, 's) libc \<Rightarrow> ('f, 'p, 's) proc \<Rightarrow> int \<Rightarrow> bytes \<Rightarrow> (('f, 'p, 's) proc \<times> u64) option" where
  "write_fd V U P fd buf =
     map_option (put_state P)
       (wrap_fd P fd (\<lambda>file fp. v_write V (p_state P) file buf fp) (u_write U (p_state P) fd buf))"

definition lseek_fd ::
  "('f, 's) vtable \<Rightarrow> ('p, 's) libc \<Rightarrow> ('f, 'p, 's) proc \<Rightarrow> int \<Rightarrow> u64 \<Rightarrow> whence \<Rightarrow> (('f, 'p, 's) proc \<times> u64) option" where
  "lseek_fd V U P fd offset wh =
     map_option (put_state P)
       (wrap_fd P fd (\<lambda>file fp. v_seek V (p_state P) file offset wh fp) (u_lseek U (p_state P) fd offset wh))"

definition fsync_fd :: "('p, 's) libc \<Rightarrow> ('f, 'p, 's) proc \<Rightarrow> int \<Rightarrow> ('f, 'p, 's) proc \<times> int" where
  "fsync_fd U P fd = wrap_fd P fd (\<lambda>_ _. (P, 0)) (put_state P (u_fsync U (p_state P) fd))"

text \<open>
  \<open>tazerStat\<close>; the result is the return value and \<open>st_size\<close>. \<open>v_urlSize\<close> is the size that a
  URL reports (\<open>None\<close>: the name is no URL); a size of \<open>-1\<close> is treated as no URL.
\<close>

definition tazerStat ::
  "bool \<Rightarrow> ('f, 's) vtable \<Rightarrow> ('p, 's) libc \<Rightarrow> ('f, 'p, 's) proc \<Rightarrow> string \<Rightarrow> string \<Rightarrow> string \<Rightarrow> TazerFile_Type \<Rightarrow>
   ('f, 'p, 's) proc \<times> int \<times> u64" where
  "tazerStat downloadForSize V U P pathname name metaName ty =
     (let (s, ret, size0) = u_stat U (p_state P) metaName
      in case v_lookUp V s pathname of
           Some file \<Rightarrow> let (s, size1) = v_fileSize V s file in (P\<lparr>p_state := s\<rparr>, ret, size1)
         | None \<Rightarrow>
             let (s, fd) = u_open U s metaName;
                 (s, size1) =
                   (case ty of
                      Input \<Rightarrow> v_sizeOf V s Input name metaName fd
                    | TazerFile_Type.Local \<Rightarrow>
                        (let urlSize = (case v_urlSize V s name of Some u \<Rightarrow> u | None \<Rightarrow> -1)
                         in if -1 < urlSize
                            then (s, if downloadForSize then word_of_int urlSize else if urlSize = 0 then 1 else size0)
                            else v_sizeOf V s TazerFile_Type.Local name metaName fd)
                    | Output \<Rightarrow> (s, size0));
                 (s, _) = u_close U s fd
             in (P\<lparr>p_state := s\<rparr>, ret, size1))"

definition stat_path ::
  "bool \<Rightarrow> ('f, 's) vtable \<Rightarrow> ('p, 's) libc \<Rightarrow> ('f, 'p, 's) proc \<Rightarrow> string \<Rightarrow> (('f, 'p, 's) proc \<times> int \<times> u64) option" where
  "stat_path downloadForSize V U P pathname =
     wrap_path P pathname (\<lambda>name meta ty. Some (tazerStat downloadForSize V U P pathname name meta ty))
       (Some (put_state P (u_stat U (p_state P) pathname)))"

text \<open>
  The loop of \<open>tazerVector\<close> goes on while \<open>i < iovcnt && ret < iovcnt\<close>: the second condition
  compares the bytes moved so far with the number of buffers. \<open>move\<close> is \<open>read\<close> or \<open>write\<close> of
  one buffer; the sums and comparisons are signed.
\<close>

fun vector_loop ::
  "(('f, 'p, 's) proc \<Rightarrow> bytes \<Rightarrow> (('f, 'p, 's) proc \<times> bytes \<times> u64) option) \<Rightarrow> u64 \<Rightarrow> bytes list \<Rightarrow>
   ('f, 'p, 's) proc \<Rightarrow> u64 \<Rightarrow> (('f, 'p, 's) proc \<times> bytes list \<times> u64) option" where
  "vector_loop move iovcnt [] P ret = Some (P, [], ret)"
| "vector_loop move iovcnt (buf # bufs) P ret =
     (if sint ret < sint iovcnt
      then case move P buf of
          None \<Rightarrow> None
        | Some (P, buf, temp) \<Rightarrow>
            if temp = -1 then Some (P, buf # bufs, -1)
            else map_option (\<lambda>(P, bufs, r). (P, buf # bufs, r)) (vector_loop move iovcnt bufs P (ret + temp))
      else Some (P, buf # bufs, ret))"

definition readv_fd ::
  "('f, 's) vtable \<Rightarrow> ('p, 's) libc \<Rightarrow> ('f, 'p, 's) proc \<Rightarrow> int \<Rightarrow> bytes list \<Rightarrow>
   (('f, 'p, 's) proc \<times> bytes list \<times> u64) option" where
  "readv_fd V U P fd iov =
     vector_loop (\<lambda>P buf. read_fd V U P fd buf (of_nat (length buf))) (of_nat (length iov)) iov P 0"

definition writev_fd ::
  "('f, 's) vtable \<Rightarrow> ('p, 's) libc \<Rightarrow> ('f, 'p, 's) proc \<Rightarrow> int \<Rightarrow> bytes list \<Rightarrow> (('f, 'p, 's) proc \<times> u64) option" where
  "writev_fd V U P fd iov =
     map_option (\<lambda>(P, _, r). (P, r))
       (vector_loop (\<lambda>P buf. map_option (\<lambda>(P, r). (P, buf, r)) (write_fd V U P fd buf)) (of_nat (length iov)) iov P 0)"

subsection \<open>Streams\<close>

text \<open>\<open>tazerFopen\<close> opens the given path, not the path of the meta file, and for reading.\<close>

definition tazerFopen ::
  "('f, 's) vtable \<Rightarrow> ('p, 's) libc \<Rightarrow> ('f, 'p, 's) proc \<Rightarrow> string \<Rightarrow> string \<Rightarrow> TazerFile_Type \<Rightarrow> string \<Rightarrow>
   ('f, 'p, 's) proc \<times> 'p option" where
  "tazerFopen V U P name metaName ty pathname =
     (let (s, fp) = u_fopen U (p_state P) pathname
      in case fp of
           None \<Rightarrow> (P\<lparr>p_state := s\<rparr>, None)
         | Some p \<Rightarrow>
             let fd = u_fileno U s p; (s, made) = v_addNew V s ty name metaName fd
             in case made of
                  None \<Rightarrow> (P\<lparr>p_state := s\<rparr>, Some p)
                | Some file \<Rightarrow>
                    let (s, ix) = v_newIndex V s file
                    in (P\<lparr>p_state := s, p_fds := fst (addTazerFileDescriptor (p_fds P) fd file ix),
                          p_streams := fst (addStream (p_streams P) p fd)\<rparr>, Some p))"

definition fopen_path ::
  "('f, 's) vtable \<Rightarrow> ('p, 's) libc \<Rightarrow> ('f, 'p, 's) proc \<Rightarrow> string \<Rightarrow> (('f, 'p, 's) proc \<times> 'p option) option" where
  "fopen_path V U P pathname =
     wrap_path P pathname (\<lambda>name meta ty. Some (tazerFopen V U P name meta ty pathname))
       (Some (put_state P (u_fopen U (p_state P) pathname)))"

text \<open>\<open>tazerFclose\<close>, then \<open>removeFileStream\<close>.\<close>

definition fclose_stream ::
  "('f, 's) vtable \<Rightarrow> ('p, 's) libc \<Rightarrow> ('f, 'p, 's) proc \<Rightarrow> 'p \<Rightarrow> (('f, 'p, 's) proc \<times> int) option" where
  "fclose_stream V U P fp =
     wrap_stream P fp
       (\<lambda>file _ fd. case file of
            None \<Rightarrow> None
          | Some file \<Rightarrow>
              let s = v_remove V (p_state P) file;
                  fds = fst (removeTazerFileDescriptor (p_fds P) fd);
                  (s, ret) = u_fclose U s fp
              in Some (P\<lparr>p_state := s, p_fds := fds, p_streams := fst (removeStream (p_streams P) fp)\<rparr>, ret))
       (Some (put_state P (u_fclose U (p_state P) fp)))"

text \<open>
  The other functions of a stream, for a stream of the library; \<open>local\<close> is what the C library
  does with any other stream. Sizes and results of \<open>fread\<close> and \<open>fwrite\<close> are \<open>size_t\<close>.
\<close>

definition fread_stream ::
  "('f, 's) vtable \<Rightarrow> ('p, 's) libc \<Rightarrow> (('f, 'p, 's) proc \<times> bytes \<times> u64) option \<Rightarrow> ('f, 'p, 's) proc \<Rightarrow> 'p \<Rightarrow>
   bytes \<Rightarrow> u64 \<Rightarrow> u64 \<Rightarrow> (('f, 'p, 's) proc \<times> bytes \<times> u64) option" where
  "fread_stream V U local P fp buf sz n = wrap_stream P fp (\<lambda>_ _ fd. read_fd V U P fd buf (sz * n)) local"

text \<open>\<open>fwrite\<close> of \<open>sz * n\<close> bytes of the memory behind \<open>ptr\<close>.\<close>

definition fwrite_stream ::
  "('f, 's) vtable \<Rightarrow> ('p, 's) libc \<Rightarrow> (('f, 'p, 's) proc \<times> u64) option \<Rightarrow> ('f, 'p, 's) proc \<Rightarrow> 'p \<Rightarrow>
   bytes \<Rightarrow> u64 \<Rightarrow> u64 \<Rightarrow> (('f, 'p, 's) proc \<times> u64) option" where
  "fwrite_stream V U local P fp buf sz n =
     wrap_stream P fp
       (\<lambda>_ _ fd. case mem_slice 0 (unat (sz * n)) buf of None \<Rightarrow> None | Some d \<Rightarrow> write_fd V U P fd d) local"

definition ftell_stream ::
  "('f, 's) vtable \<Rightarrow> ('p, 's) libc \<Rightarrow> (('f, 'p, 's) proc \<times> u64) option \<Rightarrow> ('f, 'p, 's) proc \<Rightarrow> 'p \<Rightarrow>
   (('f, 'p, 's) proc \<times> u64) option" where
  "ftell_stream V U local P fp = wrap_stream P fp (\<lambda>_ _ fd. lseek_fd V U P fd 0 SEEK_CUR) local"

text \<open>The \<open>off_t\<close> that \<open>lseek\<close> answers is returned as an \<open>int\<close>.\<close>

definition fseek_stream ::
  "('f, 's) vtable \<Rightarrow> ('p, 's) libc \<Rightarrow> (('f, 'p, 's) proc \<times> int) option \<Rightarrow> ('f, 'p, 's) proc \<Rightarrow> 'p \<Rightarrow> u64 \<Rightarrow> whence \<Rightarrow>
   (('f, 'p, 's) proc \<times> int) option" where
  "fseek_stream V U local P fp off wh =
     wrap_stream P fp
       (\<lambda>_ _ fd. map_option (\<lambda>(P, r). (P, sint (ucast r :: u32))) (lseek_fd V U P fd off wh)) local"

text \<open>\<open>rewind\<close>; what it does with a stream of the C library is \<open>fseek\<close> as well.\<close>

definition rewind_stream ::
  "('f, 's) vtable \<Rightarrow> ('p, 's) libc \<Rightarrow> (('f, 'p, 's) proc \<times> int) option \<Rightarrow> ('f, 'p, 's) proc \<Rightarrow> 'p \<Rightarrow>
   ('f, 'p, 's) proc option" where
  "rewind_stream V U local P fp = map_option fst (fseek_stream V U local P fp 0 SEEK_SET)"

definition EOF :: int where "EOF = -1"

text \<open>\<open>junk\<close> is what the uninitialised \<open>buffer\<close> of \<open>tazerFgetc\<close> holds; the result of \<open>read\<close> is not looked at.\<close>

definition fgetc_stream ::
  "('f, 's) vtable \<Rightarrow> ('p, 's) libc \<Rightarrow> (('f, 'p, 's) proc \<times> int) option \<Rightarrow> u8 \<Rightarrow> ('f, 'p, 's) proc \<Rightarrow> 'p \<Rightarrow>
   (('f, 'p, 's) proc \<times> int) option" where
  "fgetc_stream V U local junk P fp =
     wrap_stream P fp
       (\<lambda>file pos fd. case file of
            None \<Rightarrow> None
          | Some file \<Rightarrow>
              if \<not> v_eof V (p_state P) file pos
              then map_option (\<lambda>(P, buffer, _). (P, uint (hd buffer))) (read_fd V U P fd [junk] 1)
              else Some (P, EOF))
       local"

text \<open>The index behind the first newline of the \<open>res\<close> bytes, or \<open>res\<close>; \<open>None\<close>: read outside of \<open>s\<close>.\<close>

definition line_end :: "bytes \<Rightarrow> nat \<Rightarrow> nat option" where
  "line_end s res =
     (let pre = take res s
      in if 10 \<in> set pre then Some (Suc (length (takeWhile (\<lambda>c. c \<noteq> 10) pre)))
         else if res \<le> length s then Some res else None)"

text \<open>
  \<open>tazerFgets\<close>. The position goes through an \<open>int\<close> and its sum with the \<open>unsigned\<close> index is
  \<open>unsigned\<close>. The result tells whether \<open>s\<close> or NULL is returned.
\<close>

definition fgets_stream ::
  "('f, 's) vtable \<Rightarrow> ('p, 's) libc \<Rightarrow> (('f, 'p, 's) proc \<times> bytes \<times> bool) option \<Rightarrow> ('f, 'p, 's) proc \<Rightarrow> 'p \<Rightarrow>
   bytes \<Rightarrow> int \<Rightarrow> (('f, 'p, 's) proc \<times> bytes \<times> bool) option" where
  "fgets_stream V U local P fp s n =
     wrap_stream P fp
       (\<lambda>file pos fd. do {
          file \<leftarrow> file;
          if v_eof V (p_state P) file pos then Some (P, s, False)
          else do {
            p \<leftarrow> v_filePos V (p_state P) file pos;
            let prior = (ucast p :: u32);
            (P, s, res) \<leftarrow> read_fd V U P fd s (word_of_int (n - 1));
            if res = 0 then Some (P, s, False)
            else do {
              index \<leftarrow> line_end s (unat res);
              P \<leftarrow> (if index < unat res
                    then map_option (put_state P \<circ> apsnd (\<lambda>_. ()))
                           (v_seek V (p_state P) file (ucast (prior + of_nat index)) SEEK_SET pos)
                    else Some (P, ()));
              s \<leftarrow> blit s index [0];
              Some (fst P, s, True)
            }
          }
        })
       local"

text \<open>\<open>write(fd, &c, 1)\<close> sends the low byte of \<open>c\<close>.\<close>

definition fputc_stream ::
  "('f, 's) vtable \<Rightarrow> ('p, 's) libc \<Rightarrow> (('f, 'p, 's) proc \<times> int) option \<Rightarrow> ('f, 'p, 's) proc \<Rightarrow> 'p \<Rightarrow> int \<Rightarrow>
   (('f, 'p, 's) proc \<times> int) option" where
  "fputc_stream V U local P fp c =
     wrap_stream P fp (\<lambda>_ _ fd. map_option (\<lambda>(P, _). (P, c)) (write_fd V U P fd [word_of_int c])) local"

definition fputs_stream ::
  "('f, 's) vtable \<Rightarrow> ('p, 's) libc \<Rightarrow> (('f, 'p, 's) proc \<times> int) option \<Rightarrow> ('f, 'p, 's) proc \<Rightarrow> 'p \<Rightarrow> bytes \<Rightarrow>
   (('f, 'p, 's) proc \<times> int) option" where
  "fputs_stream V U local P fp s =
     wrap_stream P fp
       (\<lambda>_ _ fd. case cstring_at s 0 of
            None \<Rightarrow> None
          | Some str \<Rightarrow>
              if str = [] then Some (P, EOF)
              else map_option (\<lambda>(P, r). (P, let res = sint (ucast r :: u32) in if res = -1 then EOF else res))
                     (write_fd V U P fd str))
       local"

definition feof_stream :: "('f, 's) vtable \<Rightarrow> int \<Rightarrow> ('f, 'p, 's) proc \<Rightarrow> 'p \<Rightarrow> int option" where
  "feof_stream V local P fp =
     wrap_stream P fp
       (\<lambda>file pos _. map_option (\<lambda>f. of_bool (v_eof V (p_state P) f pos)) file) (Some local)"

subsection \<open>A stream of the library\<close>

definition stream_open :: "('f, 'p, 's) proc \<Rightarrow> 'p \<Rightarrow> int \<Rightarrow> 'f \<Rightarrow> u32 \<Rightarrow> bool" where
  "stream_open P fp fd fl ix \<longleftrightarrow> p_init P \<and> fst (lookupStream (p_streams P) fp) = fd \<and> fd \<noteq> -1 \<and>
     lookupTazerFileDescriptor (p_fds P) fd = Some (fl, ix)"

lemma stream_open_state [simp]: "stream_open (P\<lparr>p_state := s\<rparr>) fp fd fl ix \<longleftrightarrow> stream_open P fp fd fl ix"
  by (simp add: stream_open_def)

lemma wrap_stream_open: "stream_open P fp fd fl ix \<Longrightarrow> wrap_stream P fp tz local = tz (Some fl) ix fd"
  by (auto simp: stream_open_def wrap_stream_def split: prod.splits)

lemma wrap_fd_open: "stream_open P fp fd fl ix \<Longrightarrow> wrap_fd P fd tz local = tz fl ix"
  by (simp add: stream_open_def wrap_fd_def)

lemma read_fd_open:
  "stream_open P fp fd fl ix \<Longrightarrow>
     read_fd V U P fd buf count = map_option (put_state P) (v_read V (p_state P) fl buf count ix)"
  by (simp add: read_fd_def wrap_fd_open)

lemma lseek_fd_open:
  "stream_open P fp fd fl ix \<Longrightarrow>
     lseek_fd V U P fd off wh = map_option (put_state P) (v_seek V (p_state P) fl off wh ix)"
  by (simp add: lseek_fd_def wrap_fd_open)

lemma put_state_simp [simp]: "put_state P (s, x) = (P\<lparr>p_state := s\<rparr>, x)"
  by (simp add: put_state_def)

subsection \<open>Lines\<close>

definition next_line :: "nat \<Rightarrow> bytes \<Rightarrow> bytes" where
  "next_line m xs =
     (let t = take m xs in if 10 \<in> set t then takeWhile (\<lambda>c. c \<noteq> 10) t @ [10] else t)"

lemma takeWhile_break: "x \<in> set t \<Longrightarrow> takeWhile (\<lambda>c. c \<noteq> x) t @ [x] = take (Suc (length (takeWhile (\<lambda>c. c \<noteq> x) t))) t"
  by (induction t) auto

lemma takeWhile_break_len: "x \<in> set t \<Longrightarrow> Suc (length (takeWhile (\<lambda>c. c \<noteq> x) t)) \<le> length t"
  by (induction t) auto

lemma next_line_prefix: "next_line m xs = take (length (next_line m xs)) xs" "length (next_line m xs) \<le> m"
  "length (next_line m xs) \<le> length xs"
proof -
  let ?t = "take m xs"
  have e: "next_line m xs = take (length (next_line m xs)) ?t \<and> length (next_line m xs) \<le> length ?t"
  proof (cases "10 \<in> set ?t")
    case True
    then show ?thesis using takeWhile_break [OF True] takeWhile_break_len [OF True] by (simp add: next_line_def Let_def)
  qed (simp add: next_line_def Let_def min_def)
  then show "length (next_line m xs) \<le> m" "length (next_line m xs) \<le> length xs" by simp_all
  then have "take (length (next_line m xs)) ?t = take (length (next_line m xs)) xs" by (simp add: min_absorb1)
  with e show "next_line m xs = take (length (next_line m xs)) xs" by metis
qed

lemma next_line_nonempty [simp]: "0 < m \<Longrightarrow> xs \<noteq> [] \<Longrightarrow> next_line m xs \<noteq> []"
  by (simp add: next_line_def Let_def)

lemma cstring_at_line: "0 \<notin> set l \<Longrightarrow> cstring_at (l @ 0 # r) 0 = Some l"
  unfolding cstring_at_def by (induction l) auto

lemma line_end_next_line:
  assumes "take c s = take m xs" "c = min m (length xs)" "c \<le> length s"
  shows "line_end s c = Some (length (next_line m xs))"
  using assms by (auto simp: line_end_def next_line_def Let_def)

function lines_of :: "nat \<Rightarrow> bytes \<Rightarrow> bytes list" where
  "lines_of m xs =
     (if m = 0 \<or> xs = [] then [] else next_line m xs # lines_of m (drop (length (next_line m xs)) xs))"
  by pat_completeness auto
termination by (relation "measure (length \<circ> snd)") simp_all

declare lines_of.simps [simp del]

lemma concat_lines_of: "0 < m \<Longrightarrow> concat (lines_of m xs) = xs"
proof (induction m xs rule: lines_of.induct)
  case (1 m xs)
  show ?case
  proof (cases "xs = []")
    case False
    then have "concat (lines_of m xs) = next_line m xs @ drop (length (next_line m xs)) xs"
      using 1 by (subst lines_of.simps) simp
    then show ?thesis using next_line_prefix(1) [of m xs] by (metis append_take_drop_id)
  qed (simp add: lines_of.simps)
qed

text \<open>What an application does: \<open>while (fgets(s, n, fp))\<close>, at most \<open>k\<close> times, collecting the lines.\<close>

fun gets_loop ::
  "('f, 's) vtable \<Rightarrow> ('p, 's) libc \<Rightarrow> nat \<Rightarrow> ('f, 'p, 's) proc \<Rightarrow> 'p \<Rightarrow> bytes \<Rightarrow> int \<Rightarrow>
   (('f, 'p, 's) proc \<times> bytes list) option" where
  "gets_loop V U 0 P fp s n = None"
| "gets_loop V U (Suc k) P fp s n =
     (case fgets_stream V U None P fp s n of
        None \<Rightarrow> None
      | Some (P, s, False) \<Rightarrow> Some (P, [])
      | Some (P, s, True) \<Rightarrow>
          (case cstring_at s 0 of
             None \<Rightarrow> None
           | Some l \<Rightarrow> map_option (\<lambda>(P, ls). (P, l # ls)) (gets_loop V U k P fp s n)))"

text \<open>
  A file that can be read and positioned: what \<open>fgets\<close> and \<open>fgetc\<close> need of the methods of a
  file. \<open>inv n s\<close>: the state is good for \<open>n\<close> more reads.
\<close>

locale byte_file =
  fixes V :: "('f, 's) vtable" and fl :: 'f and ix :: u32 and inv :: "nat \<Rightarrow> 's \<Rightarrow> bool" and content :: bytes
  assumes inv_mono: "inv n s \<Longrightarrow> m \<le> n \<Longrightarrow> inv m s"
    and read_in: "\<lbrakk>inv (Suc n) s; v_filePos V s fl ix = Some p; unat p < length content;
        c = min (unat count) (length content - unat p); c \<le> length buf; c < 2 ^ 31\<rbrakk>
      \<Longrightarrow> \<exists>s' buf'. v_read V s fl buf count ix = Some (s', buf', of_nat c) \<and> inv n s' \<and>
            take c buf' = take c (drop (unat p) content) \<and> drop c buf' = drop c buf \<and>
            v_filePos V s' fl ix = Some (p + of_nat c) \<and> v_eof V s' fl ix = v_eof V s fl ix"
    and read_end: "\<lbrakk>inv (Suc n) s; v_filePos V s fl ix = Some p; length content \<le> unat p\<rbrakk>
      \<Longrightarrow> \<exists>s'. v_read V s fl buf count ix = Some (s', buf, 0) \<and> inv n s' \<and>
            v_filePos V s' fl ix = Some p \<and> v_eof V s' fl ix"
    and seek_set: "\<lbrakk>inv n s; v_filePos V s fl ix = Some p\<rbrakk>
      \<Longrightarrow> \<exists>s' r. v_seek V s fl q SEEK_SET ix = Some (s', r) \<and> inv n s' \<and>
            v_filePos V s' fl ix = Some q \<and> \<not> v_eof V s' fl ix"
begin

text \<open>The stream is at byte \<open>k\<close> and not at its end.\<close>

definition at :: "nat \<Rightarrow> ('f, 'p, 's) proc \<Rightarrow> 'p \<Rightarrow> int \<Rightarrow> nat \<Rightarrow> bool" where
  "at n P fp fd k \<longleftrightarrow> stream_open P fp fd fl ix \<and> inv n (p_state P) \<and> k \<le> length content \<and>
     v_filePos V (p_state P) fl ix = Some (of_nat k) \<and> \<not> v_eof V (p_state P) fl ix"

lemma fgets_line:
  assumes at: "at (Suc n) P fp fd k" and k: "k < length content" and len: "length content < 2 ^ 32"
    and N: "2 \<le> N" "N < 2 ^ 31" "N \<le> int (length s)"
  defines "l \<equiv> next_line (nat (N - 1)) (drop k content)"
  shows "\<exists>P' s'. fgets_stream V U None P fp s N = Some (P', s', True) \<and> length s' = length s \<and>
    take (Suc (length l)) s' = l @ [0] \<and> at n P' fp fd (k + length l)"
proof -
  let ?m = "nat (N - 1)" and ?st = "p_state P"
  let ?c = "min ?m (length content - k)"
  have so: "stream_open P fp fd fl ix" and iv: "inv (Suc n) ?st"
    and fp: "v_filePos V ?st fl ix = Some (of_nat k)" and ne: "\<not> v_eof V ?st fl ix"
    using at by (simp_all add: at_def)
  have k64: "unat (of_nat k :: u64) = k" using k len by (simp add: unat_of_nat_small)
  define w :: u64 where "w = word_of_int (N - 1)"
  have cnt: "unat w = ?m"
    unfolding w_def using N by (simp only: unsigned_of_int) (simp add: take_bit_int_eq_self)
  have c: "?c \<le> length s" "?c < 2 ^ 31" using N by auto
  have ce: "?c = min (unat w) (length content - unat (of_nat k :: u64))" by (simp add: cnt k64)
  have kc: "unat (of_nat k :: u64) < length content" using k by (simp add: k64)
  obtain st1 s1 where rd: "v_read V ?st fl s w ix = Some (st1, s1, of_nat ?c)" "inv n st1"
      "take ?c s1 = take ?c (drop k content)" "drop ?c s1 = drop ?c s"
      "v_filePos V st1 fl ix = Some (of_nat k + of_nat ?c)" "v_eof V st1 fl ix = v_eof V ?st fl ix"
    using read_in [OF iv fp kc ce c, unfolded k64] by (elim exE conjE) (rule that)
  have len1: "length s1 = length s"
  proof -
    have "length (take ?c s1) = ?c" unfolding rd(3) by simp
    moreover have "length (drop ?c s1) = length s - ?c" unfolding rd(4) by simp
    moreover have "length s1 = length (take ?c s1) + length (drop ?c s1)"
      by (metis append_take_drop_id length_append)
    ultimately show ?thesis using c(1) by linarith
  qed
  have ll: "line_end s1 ?c = Some (length l)"
    unfolding l_def using rd(3) c(1) len1 by (intro line_end_next_line) (simp_all add: min_def)
  have lpre: "l = take (length l) (drop k content)" and lm: "length l \<le> ?c"
    unfolding l_def using next_line_prefix [of ?m "drop k content"] by simp_all
  have uc: "unat (of_nat ?c :: u64) = ?c" using c(2) by (simp add: unat_of_nat_small)
  have c0: "(of_nat ?c :: u64) \<noteq> 0"
  proof
    assume "(of_nat ?c :: u64) = 0"
    then show False using uc N k by simp
  qed
  have pos: "(ucast (ucast (of_nat k :: u64) + of_nat (length l) :: u32) :: u64) = of_nat (k + length l)"
  proof -
    have "length l \<le> length content - k" using lm by simp
    then have "k + length l < 2 ^ 32" using len k by linarith
    then have "unat (of_nat (k + length l) :: u32) = k + length l" by (simp add: unat_of_nat_small del: of_nat_add)
    moreover have "ucast (of_nat k :: u64) = (of_nat k :: u32)"
      using k len by (simp add: word_unat_eq_iff unat_ucast_small unat_of_nat_small)
    then have "ucast (of_nat k :: u64) + of_nat (length l) = (of_nat (k + length l) :: u32)" by simp
    ultimately have u: "unat (ucast (of_nat k :: u64) + of_nat (length l) :: u32) = k + length l" by simp
    then have "unat (ucast (ucast (of_nat k :: u64) + of_nat (length l) :: u32) :: u64) = k + length l"
      by (subst unat_ucast_small) (use \<open>k + length l < 2 ^ 32\<close> in simp_all)
    moreover have "unat (of_nat (k + length l) :: u64) = k + length l"
      using \<open>k + length l < 2 ^ 32\<close> by (simp add: unat_of_nat_small del: of_nat_add)
    ultimately show ?thesis by (simp only: word_unat_eq_iff)
  qed
  have s1l: "take (length l) s1 = l"
  proof -
    have "take (length l) s1 = take (length l) (take ?c s1)" using lm by (simp only: take_take min_absorb1)
    also have "\<dots> = take (length l) (drop k content)" using lm by (simp only: rd(3) take_take min_absorb1)
    also have "\<dots> = l" by (rule lpre [symmetric])
    finally show ?thesis .
  qed
  have lens: "length l + 1 \<le> length s1" using lm len1 N by linarith
  obtain s2 where s2: "blit s1 (length l) [0] = Some s2" "s2 = l @ [0] @ drop (Suc (length l)) s1"
    using lens s1l by (simp add: blit_def)
  have s2ok: "length s2 = length s" "take (Suc (length l)) s2 = l @ [0]"
    using s2(2) lens len1 by simp_all
  have kl: "k + length l \<le> length content" using lm k by linarith
  show ?thesis
  proof (cases "length l < ?c")
    case True
    obtain st2 r where sk: "v_seek V st1 fl (of_nat (k + length l)) SEEK_SET ix = Some (st2, r)" "inv n st2"
        "v_filePos V st2 fl ix = Some (of_nat (k + length l))" "\<not> v_eof V st2 fl ix"
      using seek_set [OF rd(2,5)] by blast
    have "fgets_stream V U None P fp s N = Some (P\<lparr>p_state := st2\<rparr>, s2, True)"
      using fp ne rd(1) c0 ll True sk(1) s2(1) uc pos
      by (simp add: fgets_stream_def wrap_stream_open [OF so] read_fd_open [OF so] Let_def w_def [symmetric] del: of_nat_add of_int_diff)
    moreover have "at n (P\<lparr>p_state := st2\<rparr>) fp fd (k + length l)"
      using so sk kl by (simp add: at_def del: of_nat_add)
    ultimately show ?thesis using s2ok by blast
  next
    case False
    then have e: "length l = ?c" using lm by linarith
    have "fgets_stream V U None P fp s N = Some (P\<lparr>p_state := st1\<rparr>, s2, True)"
      using fp ne rd(1) [folded e] c0 [folded e] ll [folded e] s2(1) uc [folded e]
      by (simp add: fgets_stream_def wrap_stream_open [OF so] read_fd_open [OF so] Let_def w_def [symmetric] del: of_int_diff)
    moreover have "at n (P\<lparr>p_state := st1\<rparr>) fp fd (k + length l)"
      using so rd(2) rd(5,6) [folded e] kl ne by (simp add: at_def)
    ultimately show ?thesis using s2ok by blast
  qed
qed

lemma fgets_end:
  assumes at: "at (Suc n) P fp fd k" and k: "k = length content" and len: "length content < 2 ^ 32"
  shows "\<exists>P'. fgets_stream V U None P fp s N = Some (P', s, False)"
proof -
  have so: "stream_open P fp fd fl ix" and iv: "inv (Suc n) (p_state P)"
    and fp: "v_filePos V (p_state P) fl ix = Some (of_nat k)" and ne: "\<not> v_eof V (p_state P) fl ix"
    using at by (simp_all add: at_def)
  have "length content \<le> unat (of_nat k :: u64)" using k len by (simp add: unat_of_nat_small)
  from read_end [OF iv fp this] obtain s' where "v_read V (p_state P) fl s (word_of_int (N - 1)) ix = Some (s', s, 0)"
    by blast
  then show ?thesis
    using fp ne by (simp add: fgets_stream_def wrap_stream_open [OF so] read_fd_open [OF so])
qed

lemma gets_loop_lines:
  assumes "at n P fp fd k" and "length content < 2 ^ 32" and "0 \<notin> set content"
    and N: "2 \<le> N" "N < 2 ^ 31" "N \<le> int (length s)" and "length content - k < n"
  shows "\<exists>P'. gets_loop V U n P fp s N = Some (P', lines_of (nat (N - 1)) (drop k content))"
  using assms(1,6,7)
proof (induction n arbitrary: P k s)
  case (Suc n)
  let ?l = "next_line (nat (N - 1)) (drop k content)"
  show ?case
  proof (cases "k < length content")
    case False
    then have "k = length content" using Suc.prems(1) by (simp add: at_def)
    then obtain P1 where "fgets_stream V U None P fp s N = Some (P1, s, False)"
      using fgets_end [OF Suc.prems(1) _ assms(2)] by blast
    then show ?thesis using \<open>k = length content\<close> by (simp add: lines_of.simps)
  next
    case True
    obtain P1 s1 where g: "fgets_stream V U None P fp s N = Some (P1, s1, True)" "length s1 = length s"
        "take (Suc (length ?l)) s1 = ?l @ [0]" "at n P1 fp fd (k + length ?l)"
      using fgets_line [OF Suc.prems(1) True assms(2) N(1,2) Suc.prems(2)] by blast
    have l0: "0 < length ?l" using True N by simp
    have "length content - (k + length ?l) < n" using l0 Suc.prems(3) True by linarith
    with Suc.IH [OF g(4)] obtain P2
      where ih: "gets_loop V U n P1 fp s1 N = Some (P2, lines_of (nat (N - 1)) (drop (k + length ?l) content))"
      using Suc.prems(2) g(2) by metis
    have z: "0 \<notin> set ?l"
      using assms(3) next_line_prefix(1) [of "nat (N - 1)" "drop k content"] by (metis in_set_dropD in_set_takeD)
    have s1: "s1 = ?l @ 0 # drop (Suc (length ?l)) s1"
      using g(3) by (metis append.assoc append_Cons append_Nil append_take_drop_id)
    have "cstring_at s1 0 = Some ?l"
      using cstring_at_line [OF z] s1 by metis
    then show ?thesis using g(1) ih True N
      by (subst lines_of.simps) (simp add: add.commute)
  qed
qed simp

lemma fgetc_at_end:
  assumes at: "at (Suc (Suc n)) P fp fd (length content)" and len: "length content < 2 ^ 32"
  shows "\<exists>P'. fgetc_stream V U None junk P fp = Some (P', uint junk) \<and> fgetc_stream V U None junk P' fp = Some (P', EOF)"
proof -
  have so: "stream_open P fp fd fl ix" and iv: "inv (Suc (Suc n)) (p_state P)"
    and fp: "v_filePos V (p_state P) fl ix = Some (of_nat (length content))" and ne: "\<not> v_eof V (p_state P) fl ix"
    using at by (simp_all add: at_def)
  have "length content \<le> unat (of_nat (length content) :: u64)" using len by (simp add: unat_of_nat_small)
  from read_end [OF iv fp this] obtain s'
    where "v_read V (p_state P) fl [junk] 1 ix = Some (s', [junk], 0)" "v_eof V s' fl ix" by blast
  then show ?thesis
    using ne so by (simp add: fgetc_stream_def wrap_stream_open [of _ fp fd fl ix] read_fd_open [OF so])
qed

end

subsection \<open>Input files over the memory cache\<close>

text \<open>An order in which a hash map lists its keys: each of them once.\<close>

definition hash_order :: "(u32 list \<Rightarrow> u32 list) \<Rightarrow> u32 list \<Rightarrow> u32 list" where
  "hash_order order ws = (if distinct (order ws) \<and> set (order ws) = set ws then order ws else ws)"

lemma hash_order: "distinct ws \<Longrightarrow> distinct (hash_order order ws) \<and> set (hash_order order ws) = set ws"
  by (simp add: hash_order_def)

text \<open>
  The methods of an input file; its state is that of the cache and the file, and \<open>index\<close>es are
  its positions. \<open>write\<close> ends the process. Opening and the registry are not used here.
\<close>

definition input_file :: "source \<Rightarrow> (u32 list \<Rightarrow> u32 list) \<Rightarrow> (unit, mstate \<times> tazer_file) vtable" where
  "input_file p order =
     \<lparr>v_read = (\<lambda>(s, f) _ buf count ix.
        map_option (\<lambda>(s, f, buf, n). ((s, f), buf, n))
          (InputFile_read (mem_request p 0) (mem_finish p) (hash_order order) (\<lambda>_ _ s. s) s f buf count ix)),
      v_write = (\<lambda>_ _ _ _. None),
      v_seek = (\<lambda>(s, f) _ offset wh ix. map_option (\<lambda>(f, r). ((s, f), r)) (seek f offset wh ix)),
      v_filePos = (\<lambda>(s, f) _ ix. filePos f ix),
      v_eof = (\<lambda>(s, f) _ ix. f_eof f ! unat ix),
      v_fileSize = (\<lambda>(s, f) _. ((s, f), f_fileSize f)),
      v_addNew = (\<lambda>s _ _ _ _. (s, None)), v_newIndex = (\<lambda>(s, f) _. let (f, ix) = newFilePosIndex f in ((s, f), ix)),
      v_remove = (\<lambda>s _. s), v_lookUp = (\<lambda>_ _. None), v_sizeOf = (\<lambda>s _ _ _ _. (s, 0)), v_urlSize = (\<lambda>_ _. None)\<rparr>"

text \<open>The cache as a source of blocks that is good for \<open>k\<close> calls more.\<close>

interpretation more: block_source "mem_request p prio" "mem_finish p"
  "\<lambda>n W s. source_ok p content \<and> read_inv p content (n + k) W s" content "unat (s_blkSize p)"
  for p prio content k
proof
  fix n m W s
  assume "source_ok p content \<and> read_inv p content (n + k) W s" "m \<le> n"
  then show "source_ok p content \<and> read_inv p content (m + k) W s"
    using read_inv_mono [of p content "n + k" W s "m + k"] by simp
next
  fix n W s b s' d
  assume "source_ok p content \<and> read_inv p content (Suc n + k) W s" "b \<notin> W"
    "unat b * unat (s_blkSize p) < length content" "mem_request p prio s b = (s', Some d)"
  then show "(source_ok p content \<and> read_inv p content (n + k) W s') \<and> good_block content (unat (s_blkSize p)) (unat b) d"
    using mem.request_Some [of p content "n + k" W s b prio s' d] by simp
next
  fix n W s b s'
  assume "source_ok p content \<and> read_inv p content (Suc n + k) W s" "b \<notin> W"
    "unat b * unat (s_blkSize p) < length content" "mem_request p prio s b = (s', None)"
  then show "source_ok p content \<and> read_inv p content (n + k) (insert b W) s'"
    using mem.request_None [of p content "n + k" W s b prio s'] by simp
next
  fix n W s b
  assume "source_ok p content \<and> read_inv p content (Suc n + k) W s" "b \<in> W"
  then show "\<exists>s' d. mem_finish p s b = (s', Some d) \<and>
      (source_ok p content \<and> read_inv p content (n + k) (W - {b}) s') \<and>
      good_block content (unat (s_blkSize p)) (unat b) d"
    using mem.finish [of p content "n + k" W s b] by simp
qed

text \<open>An open file whose state is good for \<open>n\<close> reads.\<close>

definition readable :: "source \<Rightarrow> bytes \<Rightarrow> u32 \<Rightarrow> nat \<Rightarrow> mstate \<times> tazer_file \<Rightarrow> bool" where
  "readable p content ix n sf \<longleftrightarrow>
     (case sf of (s, f) \<Rightarrow>
        content \<noteq> [] \<and> file_ok f content \<and> f_blkSize f = s_blkSize p \<and> unat (s_blkSize p) \<le> 2 ^ 31 \<and> source_ok p content
        \<and> read_inv p content (n * (2 * ceil_div (length content) (unat (s_blkSize p)))) {} s
        \<and> unat ix < length (f_filePos f) \<and> length (f_eof f) = length (f_filePos f))"

lemma InputFile_read_moves:
  assumes "InputFile_read request finish order prefetch s f buf count ix = Some (s', f', buf', n)"
    and "filePos f ix = Some p" "p < f_fileSize f"
  shows "\<exists>q. f' = f\<lparr>f_filePos := q\<rparr> \<and> length q = length (f_filePos f)"
proof (cases "f_active f \<and> f_numBlks f \<noteq> 0")
  case True
  then show ?thesis using assms
    by (auto simp: InputFile_read_def setFilePos_def filePos_def Let_def split: prod.splits option.splits if_splits)
next
  case False
  then have "f' = f" using assms(1) by (auto simp: InputFile_read_def)
  then show ?thesis by (intro exI [of _ "f_filePos f"]) simp
qed

interpretation inp: byte_file "input_file p order" "()" ix "readable p content ix" content
  for p order ix content
proof
  fix n m s
  assume "readable p content ix n s" "m \<le> n"
  then show "readable p content ix m s"
    by (auto simp: readable_def elim!: read_inv_mono)
next
  show "\<exists>s' buf'. v_read (input_file p order) sf () buf count ix = Some (s', buf', of_nat c) \<and>
      readable p content ix n s' \<and> take c buf' = take c (drop (unat q) content) \<and> drop c buf' = drop c buf \<and>
      v_filePos (input_file p order) s' () ix = Some (q + of_nat c) \<and>
      v_eof (input_file p order) s' () ix = v_eof (input_file p order) sf () ix"
    if iv: "readable p content ix (Suc n) sf" and fp: "v_filePos (input_file p order) sf () ix = Some q"
      and q: "unat q < length content" and c: "c = min (unat count) (length content - unat q)" "c \<le> length buf" "c < 2 ^ 31"
    for n sf q c count buf
  proof -
    obtain s f where sf: "sf = (s, f)" by fastforce
    let ?K = "2 * ceil_div (length content) (unat (s_blkSize p))"
    let ?k = "2 * ceil_div (unat q + c) (unat (s_blkSize p))"
    have ok: "file_ok f content" "f_blkSize f = s_blkSize p" "unat (s_blkSize p) \<le> 2 ^ 31" "source_ok p content"
        "read_inv p content (Suc n * ?K) {} s" "unat ix < length (f_filePos f)" "length (f_eof f) = length (f_filePos f)"
      using iv by (simp_all add: sf readable_def)
    have pos: "filePos f ix = Some q" using fp by (simp add: input_file_def sf)
    have "?k \<le> ?K" using c(1) q by (intro mult_le_mono2 ceil_div_mono) simp
    then have "read_inv p content (?k + n * ?K) {} s" using ok(5) read_inv_mono by fastforce
    then have "\<exists>s' f' buf'. InputFile_read (mem_request p 0) (mem_finish p) (hash_order order) (\<lambda>_ _ s. s) s f buf count ix
        = Some (s', f', buf', of_nat c) \<and> (source_ok p content \<and> read_inv p content (0 + n * ?K) {} s') \<and>
       take c buf' = take c (drop (unat q) content) \<and> drop c buf' = drop c buf \<and>
       filePos f' ix = Some (q + of_nat c)"
      by (intro more.read_ok [OF ok(1) _ pos q c(1) _ c(2) hash_order]) (use ok c in simp_all)
    then obtain s' f' buf' where r: "InputFile_read (mem_request p 0) (mem_finish p) (hash_order order) (\<lambda>_ _ s. s) s f buf count ix
        = Some (s', f', buf', of_nat c)" "read_inv p content (n * ?K) {} s'"
        "take c buf' = take c (drop (unat q) content)" "drop c buf' = drop c buf" "filePos f' ix = Some (q + of_nat c)"
      by auto
    have "q < f_fileSize f" using ok(1) q by (simp add: file_ok_def word_less_nat_alt)
    from InputFile_read_moves [OF r(1) pos this] obtain l where l: "f' = f\<lparr>f_filePos := l\<rparr>" "length l = length (f_filePos f)"
      by blast
    have "readable p content ix n (s', f')"
      using ok r(2) l q by (auto simp: readable_def file_ok_def)
    then show ?thesis using r l by (simp add: input_file_def sf)
  qed
next
  show "\<exists>s'. v_read (input_file p order) sf () buf count ix = Some (s', buf, 0) \<and> readable p content ix n s' \<and>
      v_filePos (input_file p order) s' () ix = Some q \<and> v_eof (input_file p order) s' () ix"
    if iv: "readable p content ix (Suc n) sf" and fp: "v_filePos (input_file p order) sf () ix = Some q"
      and q: "length content \<le> unat q" for n sf q buf count
  proof -
    obtain s f where sf: "sf = (s, f)" by fastforce
    have ok: "file_ok f content" "unat ix < length (f_filePos f)" "length (f_eof f) = length (f_filePos f)"
      using iv by (simp_all add: sf readable_def)
    have pos: "filePos f ix = Some q" using fp by (simp add: input_file_def sf)
    have le: "f_fileSize f \<le> q" using ok(1) q by (simp add: file_ok_def word_le_nat_alt)
    have "readable p content ix n (s, set_eof f ix True)"
      using iv unfolding sf readable_def by (auto simp: set_eof_def file_ok_def elim!: read_inv_mono)
    moreover have "f_numBlks f \<noteq> 0"
    proof -
      have "0 < ceil_div (length content) (unat (f_blkSize f))"
        using iv ok(1) by (subst less_ceil_div) (simp_all add: sf readable_def file_ok_def)
      then show ?thesis using ok(1) by (auto simp: file_ok_def)
    qed
    ultimately show ?thesis using ok pos le
      by (simp add: input_file_def sf InputFile_read_def file_ok_def) (simp add: set_eof_def filePos_def)
  qed
next
  show "\<exists>s' r. v_seek (input_file p order) sf () q' SEEK_SET ix = Some (s', r) \<and> readable p content ix n s' \<and>
      v_filePos (input_file p order) s' () ix = Some q' \<and> \<not> v_eof (input_file p order) s' () ix"
    if iv: "readable p content ix n sf" and fp: "v_filePos (input_file p order) sf () ix = Some q" for n sf q q'
  proof -
    obtain s f where sf: "sf = (s, f)" by fastforce
    have ok: "unat ix < length (f_filePos f)" "length (f_eof f) = length (f_filePos f)"
      using iv by (simp_all add: sf readable_def)
    define g where "g = set_eof (f\<lparr>f_filePos := (f_filePos f)[unat ix := q']\<rparr>) ix False"
    have "seek f q' SEEK_SET ix = Some (g, q')"
      using ok by (simp add: seek_def filePos_def setFilePos_def g_def)
    moreover have "readable p content ix n (s, g)"
      using iv unfolding sf readable_def by (auto simp: g_def set_eof_def file_ok_def)
    moreover have "filePos g ix = Some q'" "\<not> f_eof g ! unat ix"
      using ok by (simp_all add: g_def set_eof_def filePos_def)
    ultimately show ?thesis by (simp add: input_file_def sf)
  qed
qed

lemma readable_start:
  assumes "file_ok f content" "f_blkSize f = s_blkSize p" "unat (s_blkSize p) \<le> 2 ^ 31" "source_ok p content"
    and "ready_cache p content (n * (2 * ceil_div (length content) (unat (s_blkSize p)))) s"
    and "unat ix < length (f_filePos f)" "length (f_eof f) = length (f_filePos f)" "content \<noteq> []"
  shows "readable p content ix n (s, f)"
  using assms ready_cache_inv [OF assms(5,4)] by (simp add: readable_def)

text \<open>
  C36: a file is read line by line. On a newly opened input file without NUL bytes, an
  application that calls \<open>fgets(s, n, fp)\<close> until it answers NULL gets the lines of the file
  one after the other, each with its newline and cut after \<open>n - 1\<close> bytes, and together they
  are the whole file. (The position goes through 32 bits: the file is below 4 GiB.)
\<close>

theorem fgets_reads_lines:
  assumes stream: "stream_open P fp fd () ix" "p_state P = (s, f)"
    and opened: "file_ok f content" "f_blkSize f = s_blkSize p" "unat (s_blkSize p) \<le> 2 ^ 31" "source_ok p content"
    and cache: "ready_cache p content (Suc (length content) * (2 * ceil_div (length content) (unat (s_blkSize p)))) s"
    and start: "filePos f ix = Some 0" "length (f_eof f) = length (f_filePos f)" "\<not> f_eof f ! unat ix"
    and content: "content \<noteq> []" "length content < 2 ^ 32" "0 \<notin> set content"
    and N: "2 \<le> N" "N < 2 ^ 31" "N \<le> int (length buf)"
  shows "\<exists>P' ls. gets_loop (input_file p order) U (Suc (length content)) P fp buf N = Some (P', ls) \<and>
    ls = lines_of (nat (N - 1)) content \<and> concat ls = content"
proof -
  have ix: "unat ix < length (f_filePos f)" using start(1) by (simp add: filePos_def split: if_splits)
  have "readable p content ix (Suc (length content)) (p_state P)"
    unfolding stream(2) by (rule readable_start [OF opened cache ix start(2) content(1)])
  then have "inp.at p order ix content (Suc (length content)) P fp fd 0"
    unfolding inp.at_def using stream start by (simp add: input_file_def)
  from inp.gets_loop_lines [OF this content(2,3) N]
  show ?thesis using concat_lines_of [of "nat (N - 1)" content] N by fastforce
qed

definition small_proc :: "u64 \<Rightarrow> (unit, nat, mstate \<times> tazer_file) proc" where
  "small_proc pos =
     \<lparr>p_init = True, p_fds = fst (addTazerFileDescriptor trackable_init 7 () 0), p_streams = fst (addStream trackable_init 3 7),
      p_state = (small_state, small_file\<lparr>f_filePos := [pos]\<rparr>)\<rparr>"

text \<open>A C library in which every call fails: the reads below do not need it.\<close>

definition no_libc :: "(nat, mstate \<times> tazer_file) libc" where
  "no_libc = \<lparr>u_open = (\<lambda>s _. (s, -1)), u_close = (\<lambda>s _. (s, -1)), u_read = (\<lambda>s _ b _. Some (s, b, -1)),
     u_write = (\<lambda>s _ _. Some (s, -1)), u_lseek = (\<lambda>s _ _ _. Some (s, -1)), u_stat = (\<lambda>s _. (s, -1, 0)),
     u_fsync = (\<lambda>s _. (s, -1)), u_fopen = (\<lambda>s _. (s, None)), u_fclose = (\<lambda>s _. (s, -1)), u_fileno = (\<lambda>s _. -1)\<rparr>"

lemma small_proc_open: "stream_open (small_proc pos) 3 7 () 0"
  by (simp add: stream_open_def small_proc_def lookupStream_def addStream_def AddTrackable_def trackable_init_def
      new_tracked_def incUsers_def LookupTrackable_def lookupTazerFileDescriptor_def addTazerFileDescriptor_def Let_def)

lemma small_file_at: "file_ok (small_file\<lparr>f_filePos := [pos]\<rparr>) [10, 20, 30]"
  using small_opened(1) by (simp add: file_ok_def)

lemma small_ready_long: "n < 2 ^ 30 \<Longrightarrow> ready_cache small_source [10, 20, 30] n small_state"
  using small_ready by (simp add: ready_cache_def small_state_def)

lemma small_block: "s_blkSize small_source = 2" "f_blkSize small_file = 2"
  by (simp_all add: small_source_def small_file_def)

theorem fgets_reads_lines_witness:
  "\<exists>P' ls. gets_loop (input_file small_source id) no_libc 4 (small_proc 0) 3 [0, 0, 0, 0, 0] 5 = Some (P', ls) \<and>
     ls = lines_of 4 [10, 20, 30] \<and> concat ls = [10, 20, 30]"
proof -
  have "\<exists>P' ls. gets_loop (input_file small_source id) no_libc (Suc (length [10 :: u8, 20, 30])) (small_proc 0) 3 [0, 0, 0, 0, 0] 5 = Some (P', ls) \<and>
     ls = lines_of (nat (5 - 1)) [10, 20, 30] \<and> concat ls = [10, 20, 30]"
    by (rule fgets_reads_lines [OF small_proc_open _ small_file_at _ _ small_opened(3) small_ready_long])
      (simp_all add: small_proc_def small_block ceil_div_def filePos_def, simp_all add: small_file_def)
  moreover have "Suc (length [10 :: u8, 20, 30]) = 4" by simp
  ultimately show ?thesis by (simp only:) simp
qed

text \<open>
  \<open>fgetc\<close> does not see the end of a file when it gets there. Only a read at the end sets
  the end-of-file mark, and \<open>fgetc\<close> does not look at what the read answers: behind the last byte
  it returns the byte that its uninitialised buffer holds, and \<open>EOF\<close> only the next time. An
  application that copies a file until \<open>EOF\<close> copies one byte too many.
\<close>

theorem fgetc_misses_end:
  assumes stream: "stream_open P fp fd () ix" "p_state P = (s, f)"
    and opened: "file_ok f content" "f_blkSize f = s_blkSize p" "unat (s_blkSize p) \<le> 2 ^ 31" "source_ok p content"
    and cache: "ready_cache p content (2 * (2 * ceil_div (length content) (unat (s_blkSize p)))) s"
    and start: "filePos f ix = Some (of_nat (length content))" "length (f_eof f) = length (f_filePos f)" "\<not> f_eof f ! unat ix"
    and content: "content \<noteq> []" "length content < 2 ^ 32"
  shows "\<exists>P'. fgetc_stream (input_file p order) U None junk P fp = Some (P', uint junk) \<and> uint junk \<noteq> EOF \<and>
    fgetc_stream (input_file p order) U None junk P' fp = Some (P', EOF)"
proof -
  have ix: "unat ix < length (f_filePos f)" using start(1) by (simp add: filePos_def split: if_splits)
  have "readable p content ix (Suc (Suc 0)) (p_state P)"
    unfolding stream(2) by (rule readable_start [OF opened _ ix start(2) content(1)]) (use cache in \<open>simp add: numeral_2_eq_2\<close>)
  then have at: "inp.at p order ix content (Suc (Suc 0)) P fp fd (length content)"
    unfolding inp.at_def using stream start by (simp add: input_file_def)
  obtain P' where "fgetc_stream (input_file p order) U None junk P fp = Some (P', uint junk)"
      "fgetc_stream (input_file p order) U None junk P' fp = Some (P', EOF)"
    using inp.fgetc_at_end [OF at content(2), of U junk] by (elim exE conjE) (rule that)
  moreover have "uint junk \<noteq> EOF"
  proof
    assume "uint junk = EOF"
    then show False using uint_ge_0 [of junk] by (simp add: EOF_def)
  qed
  ultimately show ?thesis by (intro exI conjI)
qed

theorem fgetc_misses_end_witness:
  "\<exists>P'. fgetc_stream (input_file small_source id) no_libc None 88 (small_proc 3) 3 = Some (P', uint (88 :: u8)) \<and> uint (88 :: u8) \<noteq> EOF \<and>
    fgetc_stream (input_file small_source id) no_libc None 88 P' 3 = Some (P', EOF)"
  by (rule fgetc_misses_end [OF small_proc_open _ small_file_at _ _ small_opened(3) small_ready_long])
    (simp_all add: small_proc_def small_block ceil_div_def filePos_def, simp_all add: small_file_def)

text \<open>
  \<open>readv\<close> stops after the first buffer. Its loop compares the bytes read so far with the
  number of buffers; as soon as a read brings at least as many bytes as there are buffers, the
  others are left as they are, although the file goes on.
\<close>

theorem readv_stops_early:
  assumes "stream_open P fp fd fl ix" and "v_read V (p_state P) fl b (of_nat (length b)) ix = Some (s', b', r)"
    and "int (length (b # bs)) \<le> sint r" "length (b # bs) < 2 ^ 31" "bs \<noteq> []"
  shows "readv_fd V U P fd (b # bs) = Some (P\<lparr>p_state := s'\<rparr>, b' # bs, r)"
proof -
  have n: "sint (of_nat (length (b # bs)) :: u64) = int (length (b # bs))"
    using assms(4) by (simp add: signed_of_nat signed_take_bit_int_eq_self del: of_nat_Suc)
  define m :: u64 where "m = of_nat (length (b # bs))"
  have m: "0 < sint m" "\<not> sint r < sint m" "r \<noteq> -1" using n assms(3) by (auto simp: m_def)
  obtain c cs where bs: "bs = c # cs" using assms(5) by (cases bs) auto
  have "readv_fd V U P fd (b # bs) =
      vector_loop (\<lambda>P buf. read_fd V U P fd buf (of_nat (length buf))) m (b # c # cs) P 0"
    by (simp add: readv_fd_def m_def bs)
  then show ?thesis using assms(2) m bs by (simp add: read_fd_open [OF assms(1)])
qed

theorem readv_stops_early_witness:
  "\<exists>P'. readv_fd (input_file small_source id) no_libc (small_proc 0) 7 [[0, 0], [0, 0]] = Some (P', [[10, 20], [0, 0]], 2)"
proof -
  have "\<exists>s' buf'. v_read (input_file small_source id) (p_state (small_proc 0)) () [0, 0] (of_nat (length [0 :: u8, 0])) 0
      = Some (s', buf', of_nat 2) \<and> readable small_source [10, 20, 30] 0 0 s' \<and>
      take 2 buf' = take 2 (drop (unat (0 :: u64)) [10, 20, 30]) \<and> drop 2 buf' = drop 2 [0, 0] \<and>
      v_filePos (input_file small_source id) s' () 0 = Some (0 + of_nat 2) \<and>
      v_eof (input_file small_source id) s' () 0 = v_eof (input_file small_source id) (p_state (small_proc 0)) () 0"
  proof (rule inp.read_in)
    show "readable small_source [10, 20, 30] 0 (Suc 0) (p_state (small_proc 0))"
      unfolding small_proc_def proc.simps
      by (rule readable_start [OF small_file_at _ _ small_opened(3) small_ready_long])
        (simp_all add: small_block ceil_div_def, simp_all add: small_file_def)
    show "v_filePos (input_file small_source id) (p_state (small_proc 0)) () 0 = Some 0"
      by (simp add: input_file_def small_proc_def filePos_def)
  qed simp_all
  then obtain s' buf' where r: "v_read (input_file small_source id) (p_state (small_proc 0)) () [0, 0] (of_nat (length [0 :: u8, 0])) 0
      = Some (s', buf', 2)" "take 2 buf' = [10, 20]" "drop 2 buf' = []" by auto
  have b: "buf' = [10, 20]" using r(2,3) append_take_drop_id [of 2 buf'] by simp
  have "sint (2 :: u64) = 2" by simp
  then show ?thesis
    using readv_stops_early [OF small_proc_open r(1) [unfolded b], of "[[0, 0]]"] by auto
qed

text \<open>
  \<open>fread\<close> and \<open>fseek\<close> answer in the wrong units. \<open>fread\<close> returns the number of bytes, not of
  items, so that an application that asks for items of several bytes believes to have got more
  than it has; \<open>fseek\<close> returns the new position, where 0 means success.
\<close>

theorem fread_fseek_results:
  assumes stream: "stream_open P fp fd () ix" "p_state P = (s, f)"
    and opened: "file_ok f content" "f_blkSize f = s_blkSize p" "unat (s_blkSize p) \<le> 2 ^ 31" "source_ok p content"
    and cache: "ready_cache p content (2 * ceil_div (length content) (unat (s_blkSize p))) s"
    and start: "filePos f ix = Some pos" "length (f_eof f) = length (f_filePos f)"
    and pos: "unat pos < length content" and c: "c = min (unat (sz * n)) (length content - unat pos)" "c \<le> length buf" "c < 2 ^ 31"
    and q: "unat q < 2 ^ 31"
  shows "(\<exists>P' buf'. fread_stream (input_file p order) U None P fp buf sz n = Some (P', buf', of_nat c) \<and>
      take c buf' = take c (drop (unat pos) content)) \<and>
    (\<exists>P'. fseek_stream (input_file p order) U None P fp q SEEK_SET = Some (P', int (unat q)))"
proof
  have ix: "unat ix < length (f_filePos f)" using start(1) by (simp add: filePos_def split: if_splits)
  have "content \<noteq> []" using pos by auto
  then have iv: "readable p content ix (Suc 0) (p_state P)"
    unfolding stream(2) by (intro readable_start [OF opened _ ix start(2)]) (use cache in simp_all)
  have fp: "v_filePos (input_file p order) (p_state P) () ix = Some pos"
    using start(1) by (simp add: input_file_def stream(2))
  obtain s' buf' where "v_read (input_file p order) (p_state P) () buf (sz * n) ix = Some (s', buf', of_nat c)"
      "take c buf' = take c (drop (unat pos) content)"
    using inp.read_in [OF iv fp pos c] by (elim exE conjE) (rule that)
  then show "\<exists>P' buf'. fread_stream (input_file p order) U None P fp buf sz n = Some (P', buf', of_nat c) \<and>
      take c buf' = take c (drop (unat pos) content)"
    by (simp add: fread_stream_def wrap_stream_open [OF stream(1)] read_fd_open [OF stream(1)])
  have "sint (ucast q :: u32) = int (unat q)"
  proof -
    have "(ucast q :: u32) = of_nat (unat q)"
      using q by (simp only: word_unat_eq_iff) (simp add: unat_ucast_small)
    moreover have "sint (of_nat (unat q) :: u32) = int (unat q)"
    proof -
      have "int (unat q) < int (2 ^ 31)" using q by (rule iffD2 [OF of_nat_less_iff])
      then have "signed_take_bit 31 (int (unat q)) = int (unat q)"
        by (intro signed_take_bit_int_eq_self) (rule order_trans [of _ 0], simp_all)
      then show ?thesis by (simp only: signed_of_nat) simp
    qed
    ultimately show ?thesis by (simp only:)
  qed
  then show "\<exists>P'. fseek_stream (input_file p order) U None P fp q SEEK_SET = Some (P', int (unat q))"
    using start(1) by (simp add: fseek_stream_def wrap_stream_open [OF stream(1)] lseek_fd_open [OF stream(1)]
        stream(2) input_file_def seek_def setFilePos_filePos)
qed

theorem fread_fseek_results_witness:
  "(\<exists>P' buf'. fread_stream (input_file small_source id) no_libc None (small_proc 1) 3 [0, 0, 0] 2 1 = Some (P', buf', 2) \<and>
      take 2 buf' = [20, 30]) \<and>
    (\<exists>P'. fseek_stream (input_file small_source id) no_libc None (small_proc 1) 3 2 SEEK_SET = Some (P', 2))"
proof -
  have "(\<exists>P' buf'. fread_stream (input_file small_source id) no_libc None (small_proc 1) 3 [0, 0, 0] 2 1 = Some (P', buf', of_nat 2) \<and>
      take 2 buf' = take 2 (drop (unat (1 :: u64)) [10, 20, 30])) \<and>
    (\<exists>P'. fseek_stream (input_file small_source id) no_libc None (small_proc 1) 3 2 SEEK_SET = Some (P', int (unat (2 :: u64))))"
    by (rule fread_fseek_results [OF small_proc_open _ small_file_at _ _ small_opened(3) small_ready_long])
      (simp_all add: small_proc_def small_block ceil_div_def filePos_def, simp_all add: small_file_def)
  then show ?thesis by simp
qed

end
