(* ===== verification/CacheLevels.thy ===== *)
theory CacheLevels
  imports Complex_Main Registry CacheCore "HOL-Library.Monad_Syntax"
begin

text \<open>
  The levels of caches: \<^verbatim>\<open>src/caches/Cache.cpp\<close>. A cache is an object with a pointer to the next
  level; caches are shared by name through \<open>Trackable\<close>. The chains of the input files, the
  local files (\<open>cache_init\<close> of \<^verbatim>\<open>src/client/InputFile.cpp\<close>, \<^verbatim>\<open>src/client/LocalFile.cpp\<close>) and the
  served files (\<^verbatim>\<open>src/server/ServeFile.cpp\<close>) are built from these operations; the objects live
  in a store, since the chains of a process can share them. Also here: the window of request
  times that a cache keeps. Curl, statistics and tracing are left out.
\<close>

subsection \<open>Caches in the store\<close>

record cache_node =
  n_name :: string
  n_type :: CacheType
  n_level :: u64
  n_next :: "nat option"
  n_last :: nat
  n_base :: "nat option"

record cache_store =
  h_node :: "nat \<rightharpoonup> cache_node"
  h_free :: nat
  h_names :: "(string, nat) trackable"

definition put_node :: "cache_store \<Rightarrow> nat \<Rightarrow> cache_node \<Rightarrow> cache_store" where
  "put_node h p n = h\<lparr>h_node := (h_node h)(p \<mapsto> n)\<rparr>"

text \<open>The constructor \<open>Cache\<close>; the base cache is its own base, other caches have none yet.\<close>

definition new_node :: "string \<Rightarrow> CacheType \<Rightarrow> nat \<Rightarrow> cache_node" where
  "new_node name ty p =
     \<lparr>n_name = name, n_type = ty, n_level = 0, n_next = None, n_last = p,
      n_base = (if name = ''base'' then Some p else None)\<rparr>"

text \<open>\<open>new Cache(...)\<close>: the pointer is the next free one.\<close>

definition new_cache :: "cache_store \<Rightarrow> string \<Rightarrow> CacheType \<Rightarrow> cache_store \<times> nat" where
  "new_cache h name ty = ((put_node h (h_free h) (new_node name ty (h_free h)))\<lparr>h_free := Suc (h_free h)\<rparr>, h_free h)"

text \<open>
  \<open>addNewMemoryCache\<close>, \<open>addNewSharedMemoryCache\<close>, \<open>addNewLocalFileCache\<close>, \<open>addNewNetworkCache\<close>:
  the cache with that name, made when there is none. The pointers of objects are positive.
\<close>

definition addNewCache :: "cache_store \<Rightarrow> string \<Rightarrow> CacheType \<Rightarrow> cache_store \<times> nat" where
  "addNewCache h name ty =
     (case LookupTrackable (h_names h) name of
        Some t \<Rightarrow> (h\<lparr>h_names := fst (AddTrackable (h_names h) name None None False)\<rparr>, t_val t)
      | None \<Rightarrow>
          (let (h, p) = new_cache h name ty
           in (h\<lparr>h_names := fst (AddTrackable (h_names h) name (Some p) None False)\<rparr>, p)))"

subsection \<open>Levels\<close>

text \<open>\<open>None\<close>: a NULL or dangling pointer is followed.\<close>

partial_function (option) addCacheLevel :: "cache_store \<Rightarrow> nat \<Rightarrow> nat \<Rightarrow> u64 \<Rightarrow> cache_store option" where
  "addCacheLevel h this cache level =
     do {
       n \<leftarrow> h_node h this;
       if n_level n \<noteq> level - 1
       then do {
         let h = put_node h this (n\<lparr>n_last := cache\<rparr>);
         nxt \<leftarrow> n_next n;
         addCacheLevel h nxt cache level
       }
       else do {
         c \<leftarrow> h_node h cache;
         let h = put_node h cache (c\<lparr>n_level := level\<rparr>);
         n \<leftarrow> h_node h this;
         let h = put_node h this (n\<lparr>n_next := Some cache, n_last := cache\<rparr>);
         c \<leftarrow> h_node h cache;
         n \<leftarrow> h_node h this;
         Some (put_node h cache (c\<lparr>n_base := n_base n\<rparr>))
       }
     }"

declare addCacheLevel.simps [code]

text \<open>\<open>getCacheAtLevel\<close>, \<open>getCacheByName\<close>, \<open>getCacheByType\<close>: the first cache with the property, or NULL (\<open>Some None\<close>).\<close>

partial_function (option) find_cache :: "(cache_node \<Rightarrow> bool) \<Rightarrow> cache_store \<Rightarrow> nat \<Rightarrow> nat option option" where
  "find_cache P h this =
     do {
       n \<leftarrow> h_node h this;
       if P n then Some (Some this)
       else case n_next n of Some nxt \<Rightarrow> find_cache P h nxt | None \<Rightarrow> Some None
     }"

declare find_cache.simps [code]

definition getCacheAtLevel :: "cache_store \<Rightarrow> nat \<Rightarrow> u64 \<Rightarrow> nat option option" where
  "getCacheAtLevel h this level = find_cache (\<lambda>n. level = n_level n) h this"

definition getCacheByName :: "cache_store \<Rightarrow> nat \<Rightarrow> string \<Rightarrow> nat option option" where
  "getCacheByName h this name = find_cache (\<lambda>n. name = n_name n) h this"

definition getCacheByType :: "cache_store \<Rightarrow> nat \<Rightarrow> CacheType \<Rightarrow> nat option option" where
  "getCacheByType h this ty = find_cache (\<lambda>n. ty = n_type n) h this"

text \<open>
  \<open>requestBlock\<close> of the base cache: the request, with no reservation at any level, is handed to
  \<open>readBlock\<close> of the next level (\<open>read\<close>, by its pointer). A base without a next level is not
  noticed: its name is printed first.
\<close>

definition requestBlock ::
  "cache_store \<Rightarrow> (nat \<Rightarrow> request \<Rightarrow> u64 \<Rightarrow> 's \<Rightarrow> 's \<times> request) \<Rightarrow> nat \<Rightarrow> u32 \<Rightarrow> u64 \<Rightarrow> u32 \<Rightarrow> u64 \<Rightarrow> 's \<Rightarrow> ('s \<times> request) option" where
  "requestBlock h read this index sz fileIndex priority s =
     do {
       n \<leftarrow> h_node h this;
       nxt \<leftarrow> n_next n;
       Some (read nxt (new_request this (n_type n) index fileIndex sz) priority s)
     }"

subsection \<open>The chains of the program\<close>

text \<open>The settings (\<^verbatim>\<open>inc/tazer/Config.h\<close>) that decide which caches there are.\<close>

record cache_config =
  cf_memory :: bool
  cf_shared :: bool
  cf_enableShared :: bool
  cf_burstBuffer :: bool
  cf_file :: bool
  cf_filelock :: bool
  cf_localFile :: bool
  cf_network :: bool
  cf_serverNetwork :: bool

definition input_levels :: "cache_config \<Rightarrow> (string \<times> CacheType) list" where
  "input_levels cf =
     (if cf_memory cf then [(''privatememory'', PrivateMemory)] else []) @
     (if cf_shared cf \<and> cf_enableShared cf then [(''sharedmemory'', SharedMemory)] else []) @
     (if cf_burstBuffer cf then [(''burstbuffer'', BurstBuffer)] else []) @
     (if cf_file cf then [(''filecache'', NodeFile)] else []) @
     (if cf_filelock cf then [(''boundedfilelock'', BoundedGlobalFile)] else []) @
     (if cf_localFile cf then [(''localfilecache'', Local)] else []) @
     (if cf_network cf then [(''network'', Network)] else [])"

definition local_levels :: "cache_config \<Rightarrow> (string \<times> CacheType) list" where
  "local_levels cf =
     (if cf_memory cf then [(''privatememory'', PrivateMemory)] else []) @
     (if cf_shared cf then [(''sharedmemory'', SharedMemory)] else []) @
     [(''localfilecache'', Local)]"

definition serve_levels :: "cache_config \<Rightarrow> (string \<times> CacheType) list" where
  "serve_levels cf =
     [(''privatememory'', PrivateMemory)] @
     (if cf_shared cf then [(''sharedmemory'', SharedMemory)] else []) @
     [(''localfilecache'', Local)] @
     (if cf_filelock cf then [(''boundedfilelock'', BoundedGlobalFile)] else []) @
     (if cf_serverNetwork cf then [(''network'', Network)] else [])"

text \<open>\<open>cache_init\<close>: the caches are added at the levels 1, 2, and so on.\<close>

fun cache_init :: "cache_store \<Rightarrow> nat \<Rightarrow> u64 \<Rightarrow> (string \<times> CacheType) list \<Rightarrow> cache_store option" where
  "cache_init h base level [] = Some h"
| "cache_init h base level ((name, ty) # ls) =
     (let (h, c) = addNewCache h name ty; level = level + 1
      in case addCacheLevel h base c level of
           None \<Rightarrow> None
         | Some h \<Rightarrow> cache_init h base level ls)"

definition store_start :: cache_store where
  "store_start = \<lparr>h_node = Map.empty, h_free = 1, h_names = trackable_init\<rparr>"

subsection \<open>Request times\<close>

definition ioWinSize :: nat where "ioWinSize = 100"

text \<open>The window of the last request times: \<open>_ioIndex\<close> and \<open>_ioCnt\<close> are single bytes.\<close>

record req_times =
  q_times :: "u64 list"
  q_sum :: u64
  q_index :: u8
  q_cnt :: u8

definition new_times :: req_times where
  "new_times = \<lparr>q_times = replicate ioWinSize 0, q_sum = 0, q_index = 0, q_cnt = 0\<rparr>"

definition updateRequestTime :: "u64 \<Rightarrow> req_times \<Rightarrow> req_times" where
  "updateRequestTime time q =
     (let cnt = (if unat (q_cnt q) < ioWinSize then q_cnt q + 1 else q_cnt q);
          myIndex = unat (q_index q) mod ioWinSize
      in q\<lparr>q_cnt := cnt, q_index := q_index q + 1,
           q_times := (q_times q)[myIndex := time],
           q_sum := q_sum q - q_times q ! myIndex + time\<rparr>)"

text \<open>Seconds per request; the division of doubles is exact here.\<close>

definition getRequestTime :: "req_times \<Rightarrow> rat" where
  "getRequestTime q =
     (if q_cnt q = 0 then 0 else (of_nat (unat (q_sum q)) / 1000000000) / of_nat (unat (q_cnt q)))"

subsection \<open>Chains\<close>

text \<open>\<open>ps\<close> are the pointers of a chain whose caches have the levels \<open>k\<close>, \<open>k + 1\<close>, and so on.\<close>

fun chain :: "cache_store \<Rightarrow> nat \<Rightarrow> nat list \<Rightarrow> bool" where
  "chain h k [] = True"
| "chain h k (p # ps) =
     (case h_node h p of
        None \<Rightarrow> False
      | Some n \<Rightarrow> n_level n = of_nat k \<and> n_next n = (case ps of [] \<Rightarrow> None | q # _ \<Rightarrow> Some q) \<and> chain h (Suc k) ps)"

definition names_of :: "cache_store \<Rightarrow> nat list \<Rightarrow> string list" where
  "names_of h ps = map (\<lambda>p. case h_node h p of Some n \<Rightarrow> n_name n | None \<Rightarrow> []) ps"

lemma names_of_append: "names_of h (ps @ qs) = names_of h ps @ names_of h qs"
  by (simp add: names_of_def)

lemma chain_cong:
  "(\<And>p. p \<in> set ps \<Longrightarrow> map_option n_level (h_node h' p) = map_option n_level (h_node h p)
      \<and> map_option n_next (h_node h' p) = map_option n_next (h_node h p)) \<Longrightarrow> chain h' k ps = chain h k ps"
  by (induction ps arbitrary: k) (force split: option.splits)+

lemma of_nat_u64_inj: "i < 2 ^ 64 \<Longrightarrow> j < 2 ^ 64 \<Longrightarrow> (of_nat i :: u64) = of_nat j \<longleftrightarrow> i = j"
  using unat_of_nat_small [where 'a = 64, of i] unat_of_nat_small [where 'a = 64, of j] by (simp add: word_unat_eq_iff)

text \<open>What changing the levels leaves alone: names and types of the caches, and all other objects.\<close>

definition same_but :: "nat set \<Rightarrow> cache_store \<Rightarrow> cache_store \<Rightarrow> bool" where
  "same_but S h h' \<longleftrightarrow> h_free h' = h_free h \<and> h_names h' = h_names h \<and>
     (\<forall>p. map_option n_name (h_node h' p) = map_option n_name (h_node h p) \<and>
          map_option n_type (h_node h' p) = map_option n_type (h_node h p)) \<and>
     (\<forall>p. p \<notin> S \<longrightarrow> h_node h' p = h_node h p)"

lemma same_but_refl: "same_but S h h"
  by (simp add: same_but_def)

lemma same_but_trans: "same_but S h h' \<Longrightarrow> same_but T h' h'' \<Longrightarrow> S \<subseteq> U \<Longrightarrow> T \<subseteq> U \<Longrightarrow> same_but U h h''"
  unfolding same_but_def by (simp add: subset_iff) metis

lemma same_but_put:
  "h_node h p = Some n \<Longrightarrow> n_name n' = n_name n \<Longrightarrow> n_type n' = n_type n \<Longrightarrow> same_but {p} h (put_node h p n')"
  by (simp add: same_but_def put_node_def)

lemma put_node_simps [simp]:
  "h_node (put_node h p n) = (h_node h)(p \<mapsto> n)" "h_free (put_node h p n) = h_free h" "h_names (put_node h p n) = h_names h"
  by (simp_all add: put_node_def)

lemma addCacheLevel_chain:
  assumes "chain h k ps" "ps \<noteq> []" "distinct ps" "c \<notin> set ps" "h_node h c = Some cn" "n_next cn = None"
    and "k + length ps < 2 ^ 64"
  shows "\<exists>h'. addCacheLevel h (hd ps) c (of_nat (k + length ps)) = Some h' \<and> chain h' k (ps @ [c]) \<and>
    same_but (insert c (set ps)) h h'"
  using assms
proof (induction ps arbitrary: h k)
  case (Cons p ps)
  obtain n where n: "h_node h p = Some n" "n_level n = of_nat k" "n_next n = (case ps of [] \<Rightarrow> None | q # _ \<Rightarrow> Some q)"
      "chain h (Suc k) ps"
    using Cons.prems(1) by (auto split: option.splits)
  let ?lv = "of_nat (k + length (p # ps)) :: u64"
  have pc: "p \<noteq> c" "p \<notin> set ps" "c \<notin> set ps" using Cons.prems(3,4) by auto
  have lv: "?lv - 1 = of_nat (k + length ps)" by simp
  show ?case
  proof (cases ps)
    case Nil
    define c1 where "c1 = cn\<lparr>n_level := ?lv\<rparr>"
    define n1 where "n1 = n\<lparr>n_next := Some c, n_last := c\<rparr>"
    define h' where "h' = put_node (put_node (put_node h c c1) p n1) c (c1\<lparr>n_base := n_base n1\<rparr>)"
    have "addCacheLevel h p c ?lv = Some h'"
      using n Nil pc Cons.prems(5)
      by (subst addCacheLevel.simps) (simp add: Let_def h'_def c1_def n1_def)
    moreover have "chain h' k [p, c]"
      using n pc Cons.prems(6) Nil by (simp add: h'_def n1_def c1_def)
    moreover have "same_but (insert c (set [p])) h h'"
      using n Cons.prems(5) pc by (simp add: same_but_def h'_def n1_def c1_def)
    ultimately show ?thesis using Nil by auto
  next
    case (Cons q qs)
    let ?h1 = "put_node h p (n\<lparr>n_last := c\<rparr>)"
    have ne: "n_level n \<noteq> ?lv - 1"
      unfolding lv n(2) using Cons.prems(7) Cons by (subst of_nat_u64_inj) simp_all
    have ch: "chain ?h1 (Suc k) ps"
      using n(4) pc by (subst chain_cong [where h = h]) auto
    have cn: "h_node ?h1 c = Some cn" using Cons.prems(5) pc by simp
    obtain h' where h': "addCacheLevel ?h1 (hd ps) c (of_nat (Suc k + length ps)) = Some h'" "chain h' (Suc k) (ps @ [c])"
        "same_but (insert c (set ps)) ?h1 h'"
      using Cons.IH [OF ch _ _ pc(3) cn Cons.prems(6)] Cons.prems(3,7) Cons by auto
    have "addCacheLevel h p c ?lv = Some h'"
      using n ne h'(1) Cons by (subst addCacheLevel.simps) simp
    moreover have "chain h' k (p # ps @ [c])"
      using h'(2,3) n pc Cons by (simp add: same_but_def)
    moreover have "same_but (insert c (set (p # ps))) h h'"
      by (rule same_but_trans [OF same_but_put h'(3)]) (use n in auto)
    ultimately show ?thesis by auto
  qed
qed simp

lemma find_cache_chain:
  "chain h k ps \<Longrightarrow> ps \<noteq> [] \<Longrightarrow> find_cache P h (hd ps) = Some (List.find (\<lambda>p. P (the (h_node h p))) ps)"
proof (induction ps arbitrary: k)
  case (Cons p ps)
  then obtain n where n: "h_node h p = Some n" "n_next n = (case ps of [] \<Rightarrow> None | q # _ \<Rightarrow> Some q)" "chain h (Suc k) ps"
    by (auto split: option.splits)
  show ?case
  proof (cases ps)
    case Nil
    then show ?thesis using n by (subst find_cache.simps) simp
  next
    case (Cons q qs)
    then show ?thesis using n Cons.IH [OF n(3)] by (subst find_cache.simps) simp
  qed
qed simp

lemma chain_level: "chain h k ps \<Longrightarrow> i < length ps \<Longrightarrow> n_level (the (h_node h (ps ! i))) = of_nat (k + i)"
proof (induction ps arbitrary: k i)
  case (Cons p ps)
  then show ?case using Cons.IH [of "Suc k" "i - 1"] by (cases i) (auto split: option.splits)
qed simp

lemma find_first: "i < length ps \<Longrightarrow> P (ps ! i) \<Longrightarrow> (\<And>j. j < i \<Longrightarrow> \<not> P (ps ! j)) \<Longrightarrow> List.find P ps = Some (ps ! i)"
  by (auto simp: find_Some_iff)

lemma getCacheAtLevel_chain:
  assumes "chain h 0 ps" "i < length ps" "length ps < 2 ^ 64"
  shows "getCacheAtLevel h (hd ps) (of_nat i) = Some (Some (ps ! i))"
proof -
  have lv: "n_level (the (h_node h (ps ! j))) = of_nat j" if "j < length ps" for j
    using chain_level [OF assms(1) that] by simp
  have "List.find (\<lambda>p. of_nat i = n_level (the (h_node h p))) ps = Some (ps ! i)"
    by (rule find_first) (use assms lv of_nat_u64_inj in auto)
  moreover have "ps \<noteq> []" using assms(2) by auto
  ultimately show ?thesis
    by (simp add: getCacheAtLevel_def find_cache_chain [OF assms(1)])
qed

subsection \<open>Building a chain\<close>

definition fresh_store :: "cache_store \<Rightarrow> bool" where
  "fresh_store h \<longleftrightarrow> (\<forall>p. h_free h \<le> p \<longrightarrow> h_node h p = None)"

lemma addNewCache_new:
  assumes "LookupTrackable (h_names h) name = None"
  shows "\<exists>h'. addNewCache h name ty = (h', h_free h) \<and> h_free h' = Suc (h_free h) \<and>
    h_node h' = (h_node h)(h_free h \<mapsto> new_node name ty (h_free h)) \<and>
    (\<forall>nm. nm \<noteq> name \<longrightarrow> LookupTrackable (h_names h') nm = LookupTrackable (h_names h) nm)"
  using assms
  by (simp add: addNewCache_def new_cache_def AddTrackable_def LookupTrackable_def new_tracked_def Let_def)

lemma cache_init_chain:
  assumes "chain h 0 (b # ps)" "distinct (b # ps)" "\<forall>p \<in> set (b # ps). p < h_free h" "fresh_store h"
    and "distinct (map fst ls)" "\<forall>nm \<in> set (map fst ls). LookupTrackable (h_names h) nm = None"
    and "Suc (length ps + length ls) < 2 ^ 64"
  shows "\<exists>h' qs. cache_init h b (of_nat (length ps)) ls = Some h' \<and> chain h' 0 (b # ps @ qs) \<and>
    distinct (b # ps @ qs) \<and> names_of h' (b # ps @ qs) = names_of h (b # ps) @ map fst ls"
  using assms
proof (induction ls arbitrary: h ps)
  case Nil
  then show ?case by (intro exI [of _ h] exI [of _ "[]"]) simp
next
  case (Cons l ls)
  obtain name ty where l: "l = (name, ty)" by fastforce
  let ?c = "h_free h"
  have "LookupTrackable (h_names h) name = None" using Cons.prems(6) by (simp add: l)
  from addNewCache_new [OF this] obtain h1 where h1: "addNewCache h name ty = (h1, ?c)" "h_free h1 = Suc ?c"
      "h_node h1 = (h_node h)(?c \<mapsto> new_node name ty ?c)"
      "\<forall>nm. nm \<noteq> name \<longrightarrow> LookupTrackable (h_names h1) nm = LookupTrackable (h_names h) nm" by blast
  have c: "?c \<notin> set (b # ps)" using Cons.prems(3) by blast
  have ch: "chain h1 0 (b # ps)"
    using Cons.prems(1) c by (subst chain_cong [where h = h]) (auto simp: h1(3))
  have cn: "h_node h1 ?c = Some (new_node name ty ?c)" "n_next (new_node name ty ?c) = None"
    by (simp_all add: h1(3) new_node_def)
  obtain h2 where h2: "addCacheLevel h1 b ?c (of_nat (length (b # ps))) = Some h2" "chain h2 0 (b # ps @ [?c])"
      "same_but (insert ?c (set (b # ps))) h1 h2"
    using addCacheLevel_chain [OF ch _ Cons.prems(2) c cn] Cons.prems(7) by auto
  have nm: "map_option n_name (h_node h2 p) = map_option n_name (h_node h1 p)" for p
    using h2(3) by (simp add: same_but_def)
  have names1: "names_of h2 (b # ps @ [?c]) = names_of h (b # ps) @ [name]"
  proof -
    have "(case h_node h2 p of Some n \<Rightarrow> n_name n | None \<Rightarrow> []) = (case h_node h1 p of Some n \<Rightarrow> n_name n | None \<Rightarrow> [])" for p
      using nm [of p] by (auto split: option.splits)
    then have "names_of h2 qs = names_of h1 qs" for qs by (simp add: names_of_def)
    moreover have "names_of h1 (b # ps) = names_of h (b # ps)" using c by (auto simp: names_of_def h1(3))
    moreover have "names_of h1 [?c] = [name]" by (simp add: names_of_def h1(3) new_node_def)
    ultimately show ?thesis using names_of_append [of h1 "b # ps" "[?c]"] by simp
  qed
  have fr: "fresh_store h2"
    using Cons.prems(3,4) h2(3) h1(2,3) unfolding fresh_store_def same_but_def
    by (metis Suc_leD c fun_upd_other insertE not_less_eq_eq order_refl leD)
  have less: "\<forall>p \<in> set (b # ps @ [?c]). p < h_free h2"
    using Cons.prems(3) h2(3) h1(2) by (auto simp: same_but_def)
  have reg: "\<forall>m \<in> set (map fst ls). LookupTrackable (h_names h2) m = None"
  proof
    fix m assume m: "m \<in> set (map fst ls)"
    then have "m \<noteq> name" using Cons.prems(5) by (auto simp: l)
    moreover have "LookupTrackable (h_names h) m = None" using m Cons.prems(6) by auto
    ultimately show "LookupTrackable (h_names h2) m = None"
      using h1(4) h2(3) by (simp add: same_but_def)
  qed
  obtain h' qs where ih: "cache_init h2 b (of_nat (length (ps @ [?c]))) ls = Some h'" "chain h' 0 (b # (ps @ [?c]) @ qs)"
      "distinct (b # (ps @ [?c]) @ qs)" "names_of h' (b # (ps @ [?c]) @ qs) = names_of h2 (b # ps @ [?c]) @ map fst ls"
    using Cons.IH [OF h2(2) _ less fr _ reg] Cons.prems(2,5,7) c l by auto
  have "cache_init h b (of_nat (length ps)) (l # ls) = Some h'"
    using h1(1) h2(1) ih(1) by (simp add: l add.commute)
  then show ?case using ih(2-4) names1 by (intro exI [of _ h'] exI [of _ "?c # qs"]) (simp add: l)
qed

text \<open>
  C39: the levels are built in order. When the base cache is alone and none of the names is in
  use, \<open>cache_init\<close> gives a well-formed chain: the base at level 0 and then the caches in the
  order of the list, each at its place as its level, all different; \<open>getCacheAtLevel\<close> finds
  every one of them.
\<close>

theorem levels_in_order:
  assumes "h_node h b = Some n" "n_level n = 0" "n_next n = None" "b < h_free h" "fresh_store h"
    and "distinct (map fst ls)" "\<forall>nm \<in> set (map fst ls). LookupTrackable (h_names h) nm = None" "Suc (length ls) < 2 ^ 64"
  shows "\<exists>h' ps. cache_init h b 0 ls = Some h' \<and> chain h' 0 ps \<and> distinct ps \<and> hd ps = b \<and>
    names_of h' ps = n_name n # map fst ls \<and>
    (\<forall>i \<le> length ls. getCacheAtLevel h' b (of_nat i) = Some (Some (ps ! i)))"
proof -
  have ch: "chain h 0 [b]" using assms(1-3) by simp
  obtain h' qs where h': "cache_init h b (of_nat (length ([] :: nat list))) ls = Some h'" "chain h' 0 (b # [] @ qs)"
      "distinct (b # [] @ qs)" "names_of h' (b # [] @ qs) = names_of h [b] @ map fst ls"
    using cache_init_chain [OF ch _ _ assms(5-7)] assms(4,8) by auto
  have len: "length qs = length ls"
    using arg_cong [OF h'(4), of length] by (simp add: names_of_def)
  have "getCacheAtLevel h' b (of_nat i) = Some (Some ((b # qs) ! i))" if "i \<le> length ls" for i
    using getCacheAtLevel_chain [of h' "b # qs" i] h'(2) that len assms(8) by simp
  then show ?thesis
    using h' assms(1) by (intro exI [of _ h'] exI [of _ "b # qs"]) (simp add: names_of_def)
qed

definition default_config :: cache_config where
  "default_config = \<lparr>cf_memory = True, cf_shared = False, cf_enableShared = True, cf_burstBuffer = False, cf_file = False,
     cf_filelock = False, cf_localFile = False, cf_network = True, cf_serverNetwork = False\<rparr>"

text \<open>The base caches of the input files (1) and of the local files (2).\<close>

definition two_bases :: cache_store where
  "two_bases = fst (new_cache (fst (new_cache store_start ''base'' Base)) ''base'' Base)"

theorem levels_in_order_witness:
  "\<exists>h' ps. cache_init two_bases 1 0 (input_levels default_config) = Some h' \<and> hd ps = 1 \<and>
    names_of h' ps = [''base'', ''privatememory'', ''network''] \<and> getCacheAtLevel h' 1 2 = Some (Some (ps ! 2))"
proof -
  have n: "h_node two_bases 1 = Some (new_node ''base'' Base 1)" "h_free two_bases = 3"
    by (simp_all add: two_bases_def new_cache_def store_start_def)
  have f: "fresh_store two_bases" "LookupTrackable (h_names two_bases) nm = None" for nm
    by (simp_all add: fresh_store_def two_bases_def new_cache_def store_start_def LookupTrackable_def trackable_init_def)
  have l: "map fst (input_levels default_config) = [''privatememory'', ''network'']" "length (input_levels default_config) = 2"
    by (simp_all add: input_levels_def default_config_def)
  have "\<exists>h' ps. cache_init two_bases 1 0 (input_levels default_config) = Some h' \<and> chain h' 0 ps \<and> distinct ps \<and> hd ps = 1 \<and>
      names_of h' ps = n_name (new_node ''base'' Base 1) # map fst (input_levels default_config) \<and>
      (\<forall>i \<le> length (input_levels default_config). getCacheAtLevel h' 1 (of_nat i) = Some (Some (ps ! i)))"
    by (rule levels_in_order [OF n(1) _ _ _ f(1)]) (simp_all add: n(2) f(2) l new_node_def)
  then obtain h' ps where h': "cache_init two_bases 1 0 (input_levels default_config) = Some h'" "hd ps = 1"
      "names_of h' ps = n_name (new_node ''base'' Base 1) # map fst (input_levels default_config)"
      "\<forall>i \<le> length (input_levels default_config). getCacheAtLevel h' 1 (of_nat i) = Some (Some (ps ! i))"
    by (elim exE conjE) (rule that)
  have "getCacheAtLevel h' 1 (of_nat 2) = Some (Some (ps ! 2))"
    by (rule h'(4) [THEN spec, THEN mp]) (simp add: l(2))
  then have "getCacheAtLevel h' 1 2 = Some (Some (ps ! 2))" by (simp only: of_nat_numeral)
  then show ?thesis using h'(1-3) unfolding l(1)
    by (intro exI [of _ h'] exI [of _ ps]) (simp add: new_node_def)
qed

text \<open>
  input files and local files take the caches away from each other. The memory cache is
  one object, found by its name, in both chains; setting up the second chain puts the next
  level of that chain behind it. With the default settings, the input files lose the network
  cache as soon as a local file is opened (the next \<open>open\<close> of an input file then follows the
  NULL that \<open>getCacheByName\<close> answers), and in the other order the local files lose theirs.
\<close>

theorem second_cache_init_cuts_chain:
  "map_option (\<lambda>h. getCacheByName h 1 ''network'' = Some None)
     (cache_init two_bases 1 0 (input_levels default_config)) = Some False
   \<and> map_option (\<lambda>h. getCacheByName h 1 ''network'' = Some None)
     (Option.bind (cache_init two_bases 1 0 (input_levels default_config)) (\<lambda>h. cache_init h 2 0 (local_levels default_config)))
     = Some True
   \<and> map_option (\<lambda>h. getCacheByName h 2 ''localfilecache'' = Some None)
     (Option.bind (cache_init two_bases 2 0 (local_levels default_config)) (\<lambda>h. cache_init h 1 0 (input_levels default_config)))
     = Some True"
  by code_simp

subsection \<open>The window of request times\<close>

lemma window_step:
  fixes ts :: "u64 list"
  assumes "n < length ts"
  shows "sum_list (drop (Suc n - 100) (take (Suc n) ts)) =
    sum_list (drop (n - 100) (take n ts)) - (if n < 100 then 0 else ts ! (n - 100)) + ts ! n"
proof (cases "n < 100")
  case True
  then show ?thesis using assms by (simp add: take_Suc_conv_app_nth)
next
  case False
  then have "drop (n - 100) (take n ts) = ts ! (n - 100) # drop (Suc n - 100) (take n ts)"
  proof -
    have e: "Suc n - 100 = Suc (n - 100)" using False by simp
    show ?thesis unfolding e
      using assms False by (subst Cons_nth_drop_Suc [symmetric]) simp_all
  qed
  moreover have "drop (Suc n - 100) (take (Suc n) ts) = drop (Suc n - 100) (take n ts) @ [ts ! n]"
    using assms False by (simp add: take_Suc_conv_app_nth)
  ultimately show ?thesis using False by simp
qed

text \<open>After \<open>n\<close> updates with the times \<open>ts\<close>.\<close>

definition window :: "u64 list \<Rightarrow> nat \<Rightarrow> req_times \<Rightarrow> bool" where
  "window ts n q \<longleftrightarrow> length (q_times q) = 100 \<and> q_index q = of_nat n \<and> unat (q_cnt q) = min n 100 \<and>
     q_sum q = sum_list (drop (n - 100) (take n ts)) \<and>
     (\<forall>i. i < n \<longrightarrow> n \<le> i + 100 \<longrightarrow> q_times q ! (i mod 100) = ts ! i) \<and> (\<forall>i. n \<le> i \<longrightarrow> i < 100 \<longrightarrow> q_times q ! i = 0)"

lemma window_new: "window ts 0 new_times"
  by (simp add: window_def new_times_def ioWinSize_def)

lemma window_slot:
  assumes "window ts n q" "n < 256"
  shows "q_times q ! (unat (q_index q) mod 100) = (if n < 100 then 0 else ts ! (n - 100))" "unat (q_index q) = n"
proof -
  show u: "unat (q_index q) = n" using assms by (simp add: window_def unat_of_nat_small)
  have "(n - 100) mod 100 = n mod 100" if "\<not> n < 100"
    using that mod_add_self2 [of "n - 100" 100] by simp
  moreover have "q_times q ! ((n - 100) mod 100) = ts ! (n - 100)" if "\<not> n < 100"
    using that assms(1) by (simp add: window_def)
  ultimately show "q_times q ! (unat (q_index q) mod 100) = (if n < 100 then 0 else ts ! (n - 100))"
    using assms(1) u by (auto simp: window_def)
qed

lemma window_update:
  assumes w: "window ts n q" and n: "n < 256" "n < length ts"
  shows "window ts (Suc n) (updateRequestTime (ts ! n) q)"
proof -
  let ?q = "updateRequestTime (ts ! n) q"
  note sl = window_slot [OF w n(1)]
  have len: "length (q_times q) = 100" using w by (simp add: window_def)
  have tm: "q_times ?q = (q_times q)[n mod 100 := ts ! n]"
    by (simp add: updateRequestTime_def ioWinSize_def sl(2) Let_def)
  have "unat (q_cnt ?q) = min (Suc n) 100"
  proof -
    have c: "unat (q_cnt q) = min n 100" using w by (simp add: window_def)
    show ?thesis
    proof (cases "n < 100")
      case True
      then have "unat (q_cnt q + 1) = Suc n" using c by (subst unat_inc_small) simp_all
      then show ?thesis using c True by (simp add: updateRequestTime_def ioWinSize_def Let_def)
    qed (use c in \<open>simp add: updateRequestTime_def ioWinSize_def Let_def\<close>)
  qed
  moreover have "q_sum ?q = sum_list (drop (Suc n - 100) (take (Suc n) ts))"
    using w sl(1) by (simp only: window_step [OF n(2)])
      (simp add: updateRequestTime_def ioWinSize_def window_def Let_def)
  moreover have "q_times ?q ! (i mod 100) = ts ! i" if "i < Suc n" "Suc n \<le> i + 100" for i
  proof (cases "i = n")
    case False
    then have i: "i < n" "n - i < 100" using that by simp_all
    have "i mod 100 \<noteq> n mod 100"
    proof
      assume "i mod 100 = n mod 100"
      then have "100 dvd n - i" using i(1) by (metis mod_eq_dvd_iff_nat less_imp_le_nat)
      then show False using i nat_dvd_not_less by fastforce
    qed
    then show ?thesis using w that i by (simp add: tm window_def)
  qed (simp add: tm len)
  moreover have "q_times ?q ! i = 0" if "Suc n \<le> i" "i < 100" for i
    using w that by (simp add: tm window_def)
  moreover have "length (q_times ?q) = 100" "q_index ?q = of_nat (Suc n)"
    using w by (simp_all add: updateRequestTime_def window_def Let_def)
  ultimately show ?thesis by (simp add: window_def)
qed

lemma window_fold: "n \<le> length ts \<Longrightarrow> n \<le> 256 \<Longrightarrow> window ts n (fold updateRequestTime (take n ts) new_times)"
proof (induction n)
  case (Suc n)
  then show ?case
    using window_update [of ts n "fold updateRequestTime (take n ts) new_times"] by (simp add: take_Suc_conv_app_nth)
qed (simp add: window_new)

text \<open>
  C40: the request times are those of the last 100 requests, but only for the first 256
  requests. Then the index, a single byte, starts again at 0 in the middle of the window: the
  257th time takes the place of the 201st instead of that of the 157th, which stays.
\<close>

theorem request_times_window:
  assumes "length ts \<le> 256" "length us = 256"
  shows "q_sum (fold updateRequestTime ts new_times) = sum_list (drop (length ts - 100) ts)
    \<and> unat (q_cnt (fold updateRequestTime ts new_times)) = min (length ts) 100
    \<and> q_sum (fold updateRequestTime (us @ [t]) new_times) = sum_list (drop 157 us) + t + us ! 156 - us ! 200"
proof -
  have w: "window ts (length ts) (fold updateRequestTime ts new_times)"
    using window_fold [of "length ts" ts] assms(1) by simp
  let ?q = "fold updateRequestTime us new_times"
  have v: "window us 256 ?q" using window_fold [of 256 us] assms(2) by simp
  have d: "drop 156 us = us ! 156 # drop 157 us" using assms(2) by (subst Cons_nth_drop_Suc [symmetric]) simp_all
  have s: "q_sum ?q = us ! 156 + sum_list (drop 157 us)" using v assms(2) d by (simp add: window_def)
  have "q_times ?q ! (200 mod 100) = us ! 200"
    using v unfolding window_def by (elim conjE allE [of _ "200 :: nat"]) simp
  moreover have "q_index ?q = 0" using v by (simp add: window_def)
  ultimately have "q_sum (updateRequestTime t ?q) = us ! 156 + sum_list (drop 157 us) - us ! 200 + t"
    using s by (simp add: updateRequestTime_def Let_def)
  then show ?thesis using w by (simp add: window_def)
qed

theorem request_times_window_witness:
  "q_sum (fold updateRequestTime (replicate 250 1 @ [8]) new_times) = 107 \<and>
   q_sum (fold updateRequestTime (replicate 200 1 @ replicate 56 3 @ [3]) new_times) = 212"
proof -
  have a: "q_sum (fold updateRequestTime (replicate 250 1 @ [8]) new_times) = 107"
    using request_times_window [of "replicate 250 1 @ [8]" "replicate 256 0" 0] by (simp add: sum_list_replicate)
  have b: "q_sum (fold updateRequestTime ((replicate 200 1 @ replicate 56 3) @ [3]) new_times) =
      sum_list (drop 157 (replicate 200 1 @ replicate 56 3)) + 3 + (replicate 200 1 @ replicate 56 3) ! 156
        - (replicate 200 1 @ replicate 56 3) ! 200"
    using request_times_window [of "[]" "replicate 200 1 @ replicate 56 3" 3] by simp
  show ?thesis using a b by (simp add: sum_list_replicate nth_append)
qed

end
