(* ===== verification/Prefetching.thy ===== *)
theory Prefetching
  imports ReadPath "HOL-Library.Monad_Syntax"
begin

text \<open>
  Prefetching: the prefetchers (\<^verbatim>\<open>src/prefetchers/\<close>), which choose blocks after a read, and
  \<open>Cache::prefetch\<close> (\<^verbatim>\<open>src/caches/Cache.cpp\<close>), which a thread of the prefetch pool runs on
  them. The trace file of the perfect prefetcher is a parameter, already parsed.
\<close>

subsection \<open>The prefetchers\<close>

function delta_loop :: "u64 \<Rightarrow> u64 \<Rightarrow> u64 \<Rightarrow> u64 \<Rightarrow> u64 list" where
  "delta_loop blkSize fileSize endBlk blk =
     (if blk < endBlk \<and> blk * blkSize < fileSize then blk # delta_loop blkSize fileSize endBlk (blk + 1) else [])"
  by pat_completeness auto

lemma unat_inc_less: "(blk :: 'a::len word) < e \<Longrightarrow> unat (blk + 1) = Suc (unat blk)"
proof -
  assume "blk < e"
  then have "Suc (unat blk) \<le> unat e" by (simp add: word_less_nat_alt)
  then show ?thesis using unat_bound [of e] by (intro unat_inc_small) linarith
qed

termination delta_loop
  by (relation "measure (\<lambda>(blkSize, fileSize, endBlk, blk). unat endBlk - unat blk)")
    (auto simp: unat_inc_less word_less_nat_alt)

declare delta_loop.simps [simp del]

text \<open>
  \<open>DeltaPrefetcher::getBlocks\<close>; \<open>prefetchDelta\<close> is an \<open>int\<close>. The test \<open>startBlk < 0\<close> of an
  unsigned number is never true and left out.
\<close>

definition delta_getBlocks :: "int \<Rightarrow> u64 \<Rightarrow> u64 \<Rightarrow> u64 \<Rightarrow> u64 \<Rightarrow> u64 \<Rightarrow> u64 list" where
  "delta_getBlocks prefetchDelta startBlk endBlk numBlocks blkSize fileSize =
     (let startBlk = (if 0 < prefetchDelta then endBlk else startBlk) + of_int prefetchDelta;
          endBlk = startBlk + numBlocks
      in delta_loop blkSize fileSize endBlk startBlk)"

text \<open>The loop over a 32-bit block number, up to a 64-bit end: it may not end.\<close>

partial_function (option) perfect_loop :: "u64 \<Rightarrow> u32 \<Rightarrow> u64 list option" where
  "perfect_loop stop blk =
     (if ucast blk < stop then do { bs \<leftarrow> perfect_loop stop (blk + 1); Some (ucast blk # bs) } else Some [])"

text \<open>
  \<open>PerfectPrefetcher::getBlocks\<close>, with \<open>_lastIndex\<close> (\<open>-1\<close> at the start). The comparison of the
  \<open>int\<close> with \<open>size() - 1\<close> is unsigned: an empty trace is at its end, too.
\<close>

definition perfect_getBlocks :: "(u64 \<times> u64) list \<Rightarrow> int \<Rightarrow> (u64 list \<times> int) option" where
  "perfect_getBlocks trace lastIndex =
     (if (word_of_int lastIndex :: u64) = of_nat (length trace) - 1 then Some ([], lastIndex)
      else let lastIndex = lastIndex + 1
           in if 0 \<le> lastIndex \<and> nat lastIndex < length trace
              then map_option (\<lambda>bs. (bs, lastIndex))
                     (perfect_loop (snd (trace ! nat lastIndex)) (ucast (fst (trace ! nat lastIndex))))
              else None)"

subsection \<open>Prefetching blocks\<close>

text \<open>
  The first loop of \<open>Cache::prefetch\<close>: a ready request is given back at once, the others are
  collected. The priority is a 32-bit word.
\<close>

fun prefetch_loop ::
  "(u64 \<Rightarrow> 's \<Rightarrow> u32 \<Rightarrow> 's \<times> bytes option) \<Rightarrow> u64 \<Rightarrow> u64 list \<Rightarrow> 's \<Rightarrow> 's \<times> u32 list" where
  "prefetch_loop request startBlk [] s = (s, [])"
| "prefetch_loop request startBlk (blk # blks) s =
     (let priority = (ucast (1 + (blk - startBlk)) :: u32);
          (s, r) = request (ucast priority) s (ucast blk);
          (s, ws) = prefetch_loop request startBlk blks s
      in (s, case r of Some _ \<Rightarrow> ws | None \<Rightarrow> ucast blk # ws))"

text \<open>The loops over \<open>net_reads\<close> and \<open>local_reads\<close>, in the order of the hash maps.\<close>

fun finish_all :: "('s \<Rightarrow> u32 \<Rightarrow> 's \<times> bytes option) \<Rightarrow> u32 list \<Rightarrow> 's \<Rightarrow> 's" where
  "finish_all finish [] s = s"
| "finish_all finish (b # bs) s = finish_all finish bs (fst (finish s b))"

text \<open>\<open>blocks[0]\<close> of an empty vector is undefined: \<open>None\<close>.\<close>

definition Cache_prefetch ::
  "(u64 \<Rightarrow> 's \<Rightarrow> u32 \<Rightarrow> 's \<times> bytes option) \<Rightarrow> ('s \<Rightarrow> u32 \<Rightarrow> 's \<times> bytes option) \<Rightarrow> (u32 list \<Rightarrow> u32 list) \<Rightarrow>
   u64 list \<Rightarrow> 's \<Rightarrow> 's option" where
  "Cache_prefetch request finish order blocks s =
     (case blocks of
        [] \<Rightarrow> None
      | b # _ \<Rightarrow> let (s, ws) = prefetch_loop request b blocks s in Some (finish_all finish (order ws) s))"

subsection \<open>The blocks of the delta prefetcher\<close>

lemma delta_loop_range:
  assumes "0 < unat blkSize" "unat endBlk * unat blkSize < 2 ^ 64"
  shows "map unat (delta_loop blkSize fileSize endBlk blk) =
    [unat blk..<min (unat endBlk) (ceil_div (unat fileSize) (unat blkSize))]"
  using assms
proof (induction blkSize fileSize endBlk blk rule: delta_loop.induct)
  case (1 blkSize fileSize endBlk blk)
  let ?m = "min (unat endBlk) (ceil_div (unat fileSize) (unat blkSize))"
  have prod: "unat (blk * blkSize) = unat blk * unat blkSize" if "blk < endBlk"
  proof -
    have "unat blk * unat blkSize \<le> unat endBlk * unat blkSize"
      using that by (intro mult_le_mono1) (simp add: word_less_nat_alt)
    then have "unat blk * unat blkSize < 2 ^ 64" using 1(3) by linarith
    then show ?thesis by (intro unat_mult_small) simp
  qed
  have c: "blk < endBlk \<and> blk * blkSize < fileSize \<longleftrightarrow> unat blk < ?m"
    using prod less_ceil_div [OF 1(2), of "unat blk" "unat fileSize"] by (auto simp: word_less_nat_alt)
  show ?case
  proof (cases "unat blk < ?m")
    case True
    then have t: "blk < endBlk \<and> blk * blkSize < fileSize" using c by blast
    then have "unat (blk + 1) = Suc (unat blk)" using unat_inc_less by blast
    moreover have "[unat blk..<?m] = unat blk # [Suc (unat blk)..<?m]" using True by (rule upt_conv_Cons)
    ultimately show ?thesis using 1(1) [OF t 1(2,3)] t by (subst delta_loop.simps) simp
  next
    case False
    then show ?thesis using c by (subst delta_loop.simps) auto
  qed
qed

lemma delta_getBlocks_range:
  assumes "0 < d" "0 < unat blkSize" "(unat endBlk + nat d + unat numBlocks) * unat blkSize < 2 ^ 64"
  shows "map unat (delta_getBlocks d startBlk endBlk numBlocks blkSize fileSize) =
    [unat endBlk + nat d..<min (unat endBlk + nat d + unat numBlocks) (ceil_div (unat fileSize) (unat blkSize))]"
proof -
  have "unat endBlk + nat d + unat numBlocks \<le> (unat endBlk + nat d + unat numBlocks) * unat blkSize"
    using assms(2) by simp
  then have le: "unat endBlk + nat d + unat numBlocks < 2 ^ 64" using assms(3) by linarith
  have d: "(of_int d :: u64) = of_nat (nat d)" using assms(1) by simp
  have "unat (of_nat (nat d) :: u64) = nat d" using le by (intro unat_of_nat_small) simp
  then have s: "unat (endBlk + of_int d) = unat endBlk + nat d"
    unfolding d using le by (subst unat_add_small) simp_all
  then have e: "unat (endBlk + of_int d + numBlocks) = unat endBlk + nat d + unat numBlocks"
    using le by (subst unat_add_small) simp_all
  show ?thesis
    using assms delta_loop_range [of blkSize "endBlk + of_int d + numBlocks" fileSize "endBlk + of_int d"]
    by (simp add: delta_getBlocks_def Let_def s e)
qed

subsection \<open>Prefetching keeps the cache sound\<close>

text \<open>A source of blocks whose requests have a priority.\<close>

locale prio_source =
  fixes request :: "u64 \<Rightarrow> 's \<Rightarrow> u32 \<Rightarrow> 's \<times> bytes option" and finish :: "'s \<Rightarrow> u32 \<Rightarrow> 's \<times> bytes option"
    and inv :: "nat \<Rightarrow> u32 set \<Rightarrow> 's \<Rightarrow> bool" and content :: bytes and bs :: nat
  assumes source: "block_source (request prio) finish inv content bs"
begin

lemma prefetch_loop_ok:
  assumes "inv (length blocks + n) W s" "distinct (map ucast blocks :: u32 list)" "ucast ` set blocks \<inter> W = {}"
    and "\<And>b. b \<in> set blocks \<Longrightarrow> unat (ucast b :: u32) * bs < length content"
  shows "\<exists>s' ws. prefetch_loop request start blocks s = (s', ws) \<and> distinct ws \<and> set ws \<subseteq> ucast ` set blocks \<and>
    inv n (W \<union> set ws) s'"
  using assms
proof (induction blocks arbitrary: W s)
  case (Cons b blocks)
  let ?pr = "ucast (ucast (1 + (b - start)) :: u32) :: u64" and ?b = "ucast b :: u32"
  have iv: "inv (Suc (length blocks + n)) W s" and b: "?b \<notin> W" "unat ?b * bs < length content"
    using Cons.prems by auto
  obtain s1 r where rq: "request ?pr s ?b = (s1, r)" by fastforce
  show ?case
  proof (cases r)
    case None
    have "inv (length blocks + n) (insert ?b W) s1"
      using block_source.request_None [OF source iv b] rq None by simp
    then obtain s' ws where ih: "prefetch_loop request start blocks s1 = (s', ws)" "distinct ws"
        "set ws \<subseteq> ucast ` set blocks" "inv n (insert ?b W \<union> set ws) s'"
      using Cons.IH [of "insert ?b W" s1] Cons.prems(2-4) by auto
    then show ?thesis using rq None Cons.prems(2)
      by (intro exI [of _ s'] exI [of _ "?b # ws"]) auto
  next
    case (Some d)
    have "inv (length blocks + n) W s1"
      using block_source.request_Some [OF source iv b] rq Some by simp
    then obtain s' ws where ih: "prefetch_loop request start blocks s1 = (s', ws)" "distinct ws"
        "set ws \<subseteq> ucast ` set blocks" "inv n (W \<union> set ws) s'"
      using Cons.IH [of W s1] Cons.prems(2-4) by auto
    then show ?thesis using rq Some by (intro exI [of _ s'] exI [of _ ws]) auto
  qed
qed auto

lemma finish_all_ok:
  assumes "inv (length ws + n) W s" "distinct ws" "set ws \<subseteq> W"
  shows "inv n (W - set ws) (finish_all finish ws s)"
  using assms
proof (induction ws arbitrary: W s)
  case (Cons b ws)
  obtain s1 d where f: "finish s b = (s1, Some d)" "inv (length ws + n) (W - {b}) s1"
    using block_source.finish [OF source, of "length ws + n" W s b] Cons.prems by auto
  have "inv n (W - {b} - set ws) (finish_all finish ws s1)"
    using Cons.IH [OF f(2)] Cons.prems(2,3) by auto
  moreover have "W - set (b # ws) = W - {b} - set ws" by auto
  ultimately show ?case using f(1) by simp
qed simp

lemma Cache_prefetch_ok:
  assumes "inv (2 * length blocks + n) {} s" "distinct (map ucast blocks :: u32 list)" "blocks \<noteq> []"
    and "\<And>b. b \<in> set blocks \<Longrightarrow> unat (ucast b :: u32) * bs < length content"
    and order: "\<And>ws. distinct ws \<Longrightarrow> distinct (order ws) \<and> set (order ws) = set ws"
  shows "\<exists>s'. Cache_prefetch request finish order blocks s = Some s' \<and> inv n {} s'"
proof -
  obtain b bs' where bs: "blocks = b # bs'" using assms(3) by (cases blocks) auto
  have "inv (length blocks + (length blocks + n)) {} s" using assms(1) by (simp add: mult_2 add.assoc)
  from prefetch_loop_ok [OF this assms(2) _ assms(4), of b]
  obtain s1 ws where p: "prefetch_loop request b blocks s = (s1, ws)" "distinct ws" "set ws \<subseteq> ucast ` set blocks"
      "inv (length blocks + n) (set ws) s1" by auto
  have "length (order ws) = card (set ws)"
    using order [OF p(2)] distinct_card by metis
  also have "\<dots> \<le> card (ucast ` set blocks :: u32 set)" by (rule card_mono) (use p(3) in auto)
  also have "\<dots> \<le> length blocks" by (meson card_image_le card_length finite_set le_trans)
  finally have "inv (length (order ws) + n) (set ws) s1"
    by (intro block_source.inv_mono [OF source p(4)]) simp
  from finish_all_ok [OF this] order [OF p(2)] have "inv n {} (finish_all finish (order ws) s1)" by auto
  then show ?thesis using p(1) by (simp add: Cache_prefetch_def bs)
qed

end

interpretation pre: prio_source "mem_request p" "mem_finish p"
  "\<lambda>n W s. source_ok p content \<and> read_inv p content n W s" content "unat (s_blkSize p)"
  for p content
  by unfold_locales



end
