(* ===== verification/AccessTrace.thy ===== *)
theory AccessTrace
  imports Prefetching MetaFile
begin

text \<open>
  The trace of the perfect prefetcher (\<^verbatim>\<open>src/prefetchers/PerfectPrefetcher.cpp\<close>): reading the file
  that holds it, and what the prefetcher makes of it, call by call. \<open>None\<close> is the end of the
  process.
\<close>

subsection \<open>Reading the trace\<close>

text \<open>
  \<open>ssin >> x\<close> for an unsigned 64-bit \<open>x\<close> that is 0: the value, and the rest of the line unless
  the stream has failed. A sign is read, too; a number that is too large gives the largest.
\<close>

definition read_u64 :: "string \<Rightarrow> u64 \<times> string option" where
  "read_u64 s =
     (let s = dropWhile is_space s;
          neg = (s \<noteq> [] \<and> hd s = CHR ''-'');
          s = (if s \<noteq> [] \<and> (hd s = CHR ''-'' \<or> hd s = CHR ''+'') then tl s else s);
          v = digits_val s; rest = dropWhile is_digit s
      in if takeWhile is_digit s = [] then (0, None)
         else if 2 ^ 64 \<le> v then (- 1, None)
         else (if neg then - of_nat v else of_nat v, Some rest))"

definition trace_pair :: "string \<Rightarrow> u64 \<times> u64" where
  "trace_pair line =
     (case read_u64 line of (a, Some rest) \<Rightarrow> (a, fst (read_u64 rest)) | (a, None) \<Rightarrow> (a, 0))"

lemma tl_dropWhile_shorter: "dropWhile P s \<noteq> [] \<Longrightarrow> length (tl (dropWhile P s)) < length s"
  using length_dropWhile_le [of P s] by (cases "dropWhile P s") auto

text \<open>
  The loop over \<open>getline\<close> until \<open>eof\<close>: the end is noticed by the \<open>getline\<close> that meets it, so a
  line that ends the file is followed by an empty one.
\<close>

function trace_lines :: "string \<Rightarrow> string list" where
  "trace_lines s =
     (let line = takeWhile (\<lambda>c. c \<noteq> CHR 0x0A) s; rest = dropWhile (\<lambda>c. c \<noteq> CHR 0x0A) s
      in if rest = [] then [line] else line # trace_lines (tl rest))"
  by pat_completeness auto

termination
proof (relation "measure length")
  fix s :: string and line rest
  assume "rest = dropWhile (\<lambda>c. c \<noteq> CHR 0x0A) s" "rest \<noteq> []"
  then have "length (tl rest) < length s" using tl_dropWhile_shorter by blast
  then show "(tl rest, s) \<in> measure length" by simp
qed simp

declare trace_lines.simps [simp del]

text \<open>\<open>prefetchFileDir\<close> and the files are parameters; the name loses its last 7 characters.\<close>

definition loadAccessTrace :: "string \<Rightarrow> (string \<rightharpoonup> string) \<Rightarrow> string \<Rightarrow> (u64 \<times> u64) list option" where
  "loadAccessTrace prefetchFileDir files name =
     (if length name < 7 then None
      else map_option (\<lambda>text. map trace_pair (trace_lines text))
        (files (prefetchFileDir @ take (length name - 7) name @ ''access'')))"

subsection \<open>Writing it\<close>

text \<open>The file as a tool writes it: a line for each pair, two numbers with a space between them.\<close>

definition trace_line :: "u64 \<times> u64 \<Rightarrow> string" where
  "trace_line ab = digits (unat (fst ab)) @ '' '' @ digits (unat (snd ab)) @ [CHR 0x0A]"

definition trace_text :: "(u64 \<times> u64) list \<Rightarrow> string" where
  "trace_text trace = concat (map trace_line trace)"

lemma read_digits:
  assumes "rest = [] \<or> \<not> is_digit (hd rest)"
  shows "read_u64 (digits (unat n) @ rest) = (n, Some rest)"
proof -
  have d: "is_digit c" if "c \<in> set (digits (unat n))" for c using digits_are_digits that by blast
  obtain c cs where e: "digits (unat n) = c # cs" by (cases "digits (unat n)") auto
  note plain = digit_is_plain(1-3) [OF d [of c, unfolded e, OF list.set_intros(1)]]
  have tw: "takeWhile is_digit (digits (unat n) @ rest) = digits (unat n)"
    using assms d by (cases rest) (simp_all add: takeWhile_append2)
  have dw: "dropWhile is_digit (digits (unat n) @ rest) = rest"
    using assms d by (cases rest) (simp_all add: dropWhile_append2)
  have v: "digits_val (digits (unat n) @ rest) = unat n"
    unfolding digits_val_def tw by (rule foldl_digits)
  have "dropWhile is_space (digits (unat n) @ rest) = digits (unat n) @ rest"
    using plain(1) by (simp add: e)
  then show ?thesis
    using plain(2,3) tw dw v unat_bound [of n] by (simp add: read_u64_def Let_def e)
qed

lemma trace_pair_line: "trace_pair (digits (unat a) @ '' '' @ digits (unat b)) = (a, b)"
proof -
  have "\<not> is_digit (CHR '' '')" by (simp add: is_digit_def)
  moreover have "read_u64 ('' '' @ digits (unat b)) = read_u64 (digits (unat b) @ [])"
    by (simp add: read_u64_def is_space_def)
  ultimately show ?thesis
    using read_digits [of "'' '' @ digits (unat b)" a] read_digits [of "[]" b] by (simp add: trace_pair_def)
qed

lemma trace_lines_cons:
  assumes "\<forall>c \<in> set l. c \<noteq> CHR 0x0A"
  shows "trace_lines (l @ CHR 0x0A # rest) = l # trace_lines rest"
proof -
  have "takeWhile (\<lambda>c. c \<noteq> CHR 0x0A) (l @ CHR 0x0A # rest) = l"
    "dropWhile (\<lambda>c. c \<noteq> CHR 0x0A) (l @ CHR 0x0A # rest) = CHR 0x0A # rest"
    using assms by (simp_all add: takeWhile_append2 dropWhile_append2)
  then show ?thesis by (subst trace_lines.simps) (simp add: Let_def)
qed

lemma digits_no_newline: "c \<in> set (digits n) \<Longrightarrow> c \<noteq> CHR 0x0A"
  using digits_are_digits [of c n] by (auto simp: is_digit_def)

lemma trace_read_back: "map trace_pair (trace_lines (trace_text trace)) = trace @ [(0, 0)]"
proof (induction trace)
  case Nil
  have "trace_lines [] = [[]]" by (subst trace_lines.simps) simp
  then show ?case by (simp add: trace_text_def trace_pair_def read_u64_def)
next
  case (Cons ab trace)
  obtain a b where ab: "ab = (a, b)" by (cases ab)
  let ?l = "digits (unat a) @ '' '' @ digits (unat b)"
  have "trace_text (ab # trace) = ?l @ CHR 0x0A # trace_text trace"
    by (simp add: trace_text_def trace_line_def ab)
  moreover have "\<forall>c \<in> set ?l. c \<noteq> CHR 0x0A" using digits_no_newline by auto
  ultimately have "trace_lines (trace_text (ab # trace)) = ?l # trace_lines (trace_text trace)"
    using trace_lines_cons [of ?l "trace_text trace"] by simp
  then show ?case using Cons.IH trace_pair_line [of a b] ab by simp
qed

subsection \<open>Replaying it\<close>

lemma perfect_loop_stop: "\<not> (ucast blk :: u64) < stop \<Longrightarrow> perfect_loop stop blk = Some []"
  by (subst perfect_loop.simps) simp

lemma perfect_loop_next:
  "(ucast blk :: u64) < stop \<Longrightarrow> perfect_loop stop (blk + 1) = Some bs \<Longrightarrow> perfect_loop stop blk = Some (ucast blk # bs)"
  by (subst perfect_loop.simps) simp

lemma unat_ucast_up: "unat (ucast (blk :: u32) :: u64) = unat blk"
  using unat_bound [of blk] by (simp add: unsigned_ucast_eq take_bit_nat_eq_self)

lemma perfect_loop_range:
  assumes "unat stop < 2 ^ 32"
  shows "perfect_loop stop blk = Some (map of_nat [unat blk..<unat stop])"
proof (induction "unat stop - unat blk" arbitrary: blk)
  case 0
  then have le: "unat stop \<le> unat blk" by (metis diff_is_0_eq)
  then have "\<not> (ucast blk :: u64) < stop" by (simp add: word_less_nat_alt unat_ucast_up)
  then show ?case using le by (simp add: perfect_loop_stop)
next
  case (Suc n)
  have lt: "unat blk < unat stop" by (rule ccontr) (use Suc.hyps(2) in simp)
  have inc: "unat (blk + 1) = Suc (unat blk)" using lt assms by (intro unat_inc_small) simp
  have "n = unat stop - unat (blk + 1)" using Suc.hyps(2) inc by linarith
  note ih = Suc.hyps(1) [OF this]
  have "(ucast blk :: u64) < stop" using lt by (simp add: word_less_nat_alt unat_ucast_up)
  from perfect_loop_next [OF this ih]
  have "perfect_loop stop blk = Some (of_nat (unat blk) # map of_nat [Suc (unat blk)..<unat stop])"
    by (simp only: inc of_nat_unat)
  then show ?case by (simp only: upt_conv_Cons [OF lt] list.map)
qed

text \<open>What \<open>n\<close> calls of \<open>getBlocks\<close> answer, one after the other.\<close>

fun perfect_calls :: "(u64 \<times> u64) list \<Rightarrow> nat \<Rightarrow> int \<Rightarrow> u64 list list option" where
  "perfect_calls trace 0 lastIndex = Some []"
| "perfect_calls trace (Suc n) lastIndex =
     (do { (bs, lastIndex) \<leftarrow> perfect_getBlocks trace lastIndex;
           bss \<leftarrow> perfect_calls trace n lastIndex;
           Some (bs # bss) })"

definition recorded :: "u64 \<times> u64 \<Rightarrow> u64 list" where
  "recorded ab = map of_nat [unat (fst ab)..<unat (snd ab)]"

lemma perfect_getBlocks_at:
  assumes "j < length tr" "length tr < 2 ^ 64" "unat (fst (tr ! j)) < 2 ^ 32" "unat (snd (tr ! j)) < 2 ^ 32"
  shows "perfect_getBlocks tr (int j - 1) = Some (recorded (tr ! j), int j)"
proof -
  have "(of_nat j :: u64) \<noteq> of_nat (length tr)"
  proof
    assume "(of_nat j :: u64) = of_nat (length tr)"
    then have "unat (of_nat j :: u64) = unat (of_nat (length tr) :: u64)" by simp
    then show False using assms(1,2) by (simp add: unat_of_nat_small)
  qed
  then have ne: "(word_of_int (int j - 1) :: u64) \<noteq> of_nat (length tr) - 1" by simp
  have "unat (ucast (fst (tr ! j)) :: u32) = unat (fst (tr ! j))"
    using assms(3) by (simp add: unsigned_ucast_eq take_bit_nat_eq_self)
  then show ?thesis
    using ne assms(1) perfect_loop_range [OF assms(4), of "ucast (fst (tr ! j))"]
    by (simp add: perfect_getBlocks_def recorded_def)
qed

lemma perfect_getBlocks_end: "perfect_getBlocks tr (int (length tr) - 1) = Some ([], int (length tr) - 1)"
  by (simp add: perfect_getBlocks_def)

lemma take_more_replicate [simp]: "m \<le> Suc n \<Longrightarrow> take m (x # replicate n x) = replicate m x"
  by (cases m) (simp_all add: min_def)

lemma perfect_calls_from:
  assumes "j \<le> length tr" "length tr < 2 ^ 64"
    "\<forall>ab \<in> set tr. unat (fst ab) < 2 ^ 32 \<and> unat (snd ab) < 2 ^ 32"
  shows "perfect_calls tr n (int j - 1) = Some (take n (map recorded (drop j tr) @ replicate n []))"
  using assms(1)
proof (induction n arbitrary: j)
  case (Suc n)
  show ?case
  proof (cases "j < length tr")
    case True
    have "perfect_getBlocks tr (int j - 1) = Some (recorded (tr ! j), int (Suc j) - 1)"
      using perfect_getBlocks_at [OF True assms(2)] assms(3) nth_mem [OF True] by simp
    moreover have "perfect_calls tr n (int (Suc j) - 1) = Some (take n (map recorded (drop (Suc j) tr) @ replicate n []))"
      by (rule Suc.IH) (use True in simp)
    ultimately show ?thesis using Cons_nth_drop_Suc [OF True, symmetric] by (simp del: of_nat_Suc)
  next
    case False
    then have j: "j = length tr" using Suc.prems by simp
    have "perfect_calls tr n (int j - 1) = Some (replicate n [])"
      using Suc.IH [OF Suc.prems] j by simp
    then show ?thesis using j perfect_getBlocks_end [of tr] by simp
  qed
qed simp

text \<open>
  The perfect prefetcher replays the trace: with a file that holds one range of block numbers
  per line, the call of \<open>getBlocks\<close> after the \<open>i\<close>-th read answers the blocks of the \<open>i\<close>-th line,
  and every later call no block.
\<close>

theorem perfect_prefetch_replays:
  assumes "files (prefetchFileDir @ take (length name - 7) name @ ''access'') = Some (trace_text trace)"
    "7 \<le> length name" "length trace < 2 ^ 31 - 1"
    "\<forall>ab \<in> set trace. unat (fst ab) < 2 ^ 32 \<and> unat (snd ab) < 2 ^ 32"
  shows "\<exists>tr. loadAccessTrace prefetchFileDir files name = Some tr
    \<and> perfect_calls tr (length trace + k) (-1) = Some (map recorded trace @ replicate k [])"
proof (intro exI conjI)
  show "loadAccessTrace prefetchFileDir files name = Some (trace @ [(0, 0)])"
    using assms(1,2) by (simp add: loadAccessTrace_def trace_read_back)
  have "perfect_calls (trace @ [(0, 0)]) (length trace + k) (int 0 - 1)
      = Some (take (length trace + k) (map recorded (drop 0 (trace @ [(0, 0)])) @ replicate (length trace + k) []))"
    by (rule perfect_calls_from) (use assms(3,4) in auto)
  moreover have "take (length trace + k) ((map recorded trace @ [[]]) @ replicate (length trace + k) [])
      = map recorded trace @ replicate k []"
    by (cases k) simp_all
  ultimately show "perfect_calls (trace @ [(0, 0)]) (length trace + k) (-1) = Some (map recorded trace @ replicate k [])"
    by (simp add: recorded_def)
qed

theorem perfect_prefetch_replays_witness:
  "\<exists>tr. loadAccessTrace ''/p/'' [''/p/data.access'' \<mapsto> trace_text [(2, 4), (7, 8)]] ''data.meta.in'' = Some tr
    \<and> perfect_calls tr 3 (-1) = Some [[2, 3], [7], []]"
proof -
  have "\<exists>tr. loadAccessTrace ''/p/'' [''/p/data.access'' \<mapsto> trace_text [(2, 4), (7, 8)]] ''data.meta.in'' = Some tr
    \<and> perfect_calls tr (length [(2 :: u64, 4 :: u64), (7, 8)] + 1) (-1)
      = Some (map recorded [(2, 4), (7, 8)] @ replicate 1 [])"
    by (rule perfect_prefetch_replays) simp_all
  moreover have "map recorded [(2, 4), (7, 8)] = [[2, 3], [7]]"
    by (simp add: recorded_def upt_rec)
  ultimately show ?thesis by (simp add: numeral_3_eq_3)
qed

end
