(* ===== verification/ConnectionPool.thy ===== *)
theory ConnectionPool
  imports MetaFile OutputPath "HOL-Library.Multiset"
begin

text \<open>
  The pool of connections of a file: \<^verbatim>\<open>src/common/ConnectionPool.cpp\<close>.

  \<^item> the queue of connections that a thread takes the best one of and puts it back into. The
    rates are doubles in the source; here \<open>speed rate age\<close> stands for
    \<open>rate * pow(1.00001, age)\<close>, in any linear order. \<open>popConnection(size)\<close>, which nobody calls,
    and the statistics that only it uses are left out;
  \<^item> opening the file on all servers: one thread per server and the caller, which waits until
    one of them is done, as a machine of the accesses to the fields they share;
  \<^item> closing it again.

  A connection is, as in \<^verbatim>\<open>MetaFile.thy\<close>, its number (the pointer) and its endpoint.
\<close>

subsection \<open>The queue\<close>

type_synonym con = "u32 \<times> endpoint"

record con_pool =
  cp_name :: bytes
  cp_compress :: bool
  cp_connections :: "con list"
  cp_fileSize :: u64
  cp_requested :: int
  cp_valid :: bool
  cp_mq :: "(u64 \<times> con) list"

definition new_con_pool :: "bytes \<Rightarrow> bool \<Rightarrow> con list \<Rightarrow> con_pool" where
  "new_con_pool name compress connections =
     \<lparr>cp_name = name, cp_compress = compress, cp_connections = connections, cp_fileSize = 0,
      cp_requested = 0, cp_valid = False, cp_mq = []\<rparr>"

text \<open>The counters that all pools share: \<open>useCnt\<close>, \<open>consecCnt\<close> and \<open>_curCnt\<close>.\<close>

record pool_net = net_state +
  n_curCnt :: u64

text \<open>The constructor \<open>ConnectionCompare\<close>: the rate is computed in 64-bit integers.\<close>

definition con_rate :: "u64 \<Rightarrow> u64 \<Rightarrow> u64" where
  "con_rate bytes time = (if time = 0 then 1000000000000 else bytes * 1000000000 div time)"

text \<open>\<open>pushConnection\<close>; the bytes and the time of the last exchange are given when \<open>useTL\<close>.\<close>

definition pushConnection :: "con \<Rightarrow> (u64 \<times> u64) option \<Rightarrow> con_pool \<Rightarrow> con_pool" where
  "pushConnection c useTL P =
     (let (bytes, time) = (case useTL of None \<Rightarrow> (100, 1) | Some bt \<Rightarrow> bt)
      in P\<lparr>cp_mq := cp_mq P @ [(con_rate bytes time, c)]\<rparr>)"

definition numConnections :: "con_pool \<Rightarrow> nat" where
  "numConnections P = length (cp_mq P)"

text \<open>What \<open>popConnection\<close> compares; \<open>None\<close>: \<open>consecCnt->at\<close> throws.\<close>

definition entry_score :: "(u64 \<Rightarrow> u64 \<Rightarrow> 'd) \<Rightarrow> 'm pool_net_scheme \<Rightarrow> u64 \<times> con \<Rightarrow> 'd option" where
  "entry_score speed n e =
     map_option (\<lambda>consec. speed (fst e) (n_curCnt n - consec)) (n_consecCnt n (addrport (snd (snd e))))"

fun best_entry :: "('e \<Rightarrow> 'd::linorder option) \<Rightarrow> 'e \<times> nat \<Rightarrow> nat \<Rightarrow> 'e list \<Rightarrow> ('e \<times> nat) option" where
  "best_entry score best i [] = Some best"
| "best_entry score best i (temp # es) =
     (case score temp of
        None \<Rightarrow> None
      | Some x \<Rightarrow>
          (case score (fst best) of
             None \<Rightarrow> None
           | Some y \<Rightarrow> best_entry score (if y < x then (temp, i) else best) (i + 1) es))"

definition popConnection ::
  "(u64 \<Rightarrow> u64 \<Rightarrow> 'd::linorder) \<Rightarrow> 'm pool_net_scheme \<Rightarrow> con_pool \<Rightarrow> ('m pool_net_scheme \<times> con_pool \<times> con option) option" where
  "popConnection speed n P =
     (case cp_mq P of
        [] \<Rightarrow> Some (n, P, None)
      | front # es \<Rightarrow> do {
          (entry, bit) \<leftarrow> best_entry (entry_score speed n) (front, 0) 0 (cp_mq P);
          let P = P\<lparr>cp_mq := take bit (cp_mq P) @ drop (bit + 1) (cp_mq P)\<rparr>;
          let addr = addrport (snd (snd entry));
          _ \<leftarrow> n_consecCnt n addr;
          let n = n\<lparr>n_curCnt := n_curCnt n + 1, n_consecCnt := (n_consecCnt n)(addr \<mapsto> n_curCnt n + 1)\<rparr>;
          use \<leftarrow> n_useCnt n addr;
          let n = n\<lparr>n_useCnt := (n_useCnt n)(addr \<mapsto> use + 1)\<rparr>;
          Some (n, P, Some (snd entry))
        })"

subsection \<open>What the queue promises\<close>

definition cons_of :: "con_pool \<Rightarrow> con multiset" where
  "cons_of P = mset (map snd (cp_mq P))"

text \<open>Every connection has been counted (\<open>readMetaInfo\<close> and \<open>addConnections\<close> see to it).\<close>

definition known :: "'m pool_net_scheme \<Rightarrow> con_pool \<Rightarrow> bool" where
  "known n P \<longleftrightarrow> (\<forall>c \<in> snd ` set (cp_mq P).
     n_consecCnt n (addrport (snd c)) \<noteq> None \<and> n_useCnt n (addrport (snd c)) \<noteq> None)"

definition first_best :: "('e \<Rightarrow> 'd::linorder) \<Rightarrow> 'e list \<Rightarrow> 'e \<Rightarrow> 'e list \<Rightarrow> bool" where
  "first_best sc pre e post \<longleftrightarrow> (\<forall>x \<in> set pre. sc x < sc e) \<and> (\<forall>x \<in> set post. sc x \<le> sc e)"

lemma best_entry_first:
  assumes "\<And>e. e \<in> set (pre @ e0 # post @ es) \<Longrightarrow> score e = Some (sc e)" and "first_best sc pre e0 post"
  shows "\<exists>pre' e' post'. best_entry score (e0, length pre) (length (pre @ e0 # post)) es = Some (e', length pre') \<and>
    pre @ e0 # post @ es = pre' @ e' # post' \<and> first_best sc pre' e' post'"
  using assms
proof (induction es arbitrary: pre e0 post)
  case Nil
  then show ?case by auto
next
  case (Cons x es)
  have s: "score x = Some (sc x)" "score e0 = Some (sc e0)" using Cons.prems(1) by simp_all
  show ?case
  proof (cases "sc e0 < sc x")
    case True
    then have "first_best sc (pre @ e0 # post) x []" using Cons.prems(2) by (auto simp: first_best_def)
    then show ?thesis
      using Cons.IH [of "pre @ e0 # post" x "[]"] Cons.prems(1) True s by simp
  next
    case False
    then have "first_best sc pre e0 (post @ [x])" using Cons.prems(2) by (auto simp: first_best_def)
    then show ?thesis
      using Cons.IH [of pre e0 "post @ [x]"] Cons.prems(1) False s by simp
  qed
qed


lemma popConnection_first:
  fixes speed :: "u64 \<Rightarrow> u64 \<Rightarrow> 'd::linorder"
  assumes "known n P" "cp_mq P \<noteq> []"
  defines "sc \<equiv> \<lambda>e. the (entry_score speed n e)"
  shows "\<exists>n' pre r c post. popConnection speed n P = Some (n', P\<lparr>cp_mq := pre @ post\<rparr>, Some c) \<and>
    cp_mq P = pre @ (r, c) # post \<and> first_best sc pre (r, c) post \<and>
    n_curCnt n' = n_curCnt n + 1 \<and> n_consecCnt n' = (n_consecCnt n)(addrport (snd c) \<mapsto> n_curCnt n + 1) \<and>
    n_useCnt n' = (n_useCnt n)(addrport (snd c) \<mapsto> the (n_useCnt n (addrport (snd c))) + 1)"
proof -
  obtain e es where q: "cp_mq P = e # es" using assms(2) by (cases "cp_mq P") auto
  have s: "entry_score speed n x = Some (sc x)" if "x \<in> set (cp_mq P)" for x
    using assms(1) that by (auto simp: known_def entry_score_def sc_def)
  obtain pre e' post where b: "best_entry (entry_score speed n) (e, 0) 1 es = Some (e', length pre)"
      "e # es = pre @ e' # post" "first_best sc pre e' post"
    using best_entry_first [of "[]" e "[]" es "entry_score speed n" sc] s q by (auto simp: first_best_def)
  have all: "best_entry (entry_score speed n) (e, 0) 0 (cp_mq P) = Some (e', length pre)"
    using b(1) s q by simp
  have "e' \<in> set (cp_mq P)" unfolding q b(2) by simp
  then obtain consec use where k: "n_consecCnt n (addrport (snd (snd e'))) = Some consec" "n_useCnt n (addrport (snd (snd e'))) = Some use"
    using assms(1) unfolding known_def by blast
  obtain r c where e': "e' = (r, c)" by (cases e')
  have q': "cp_mq P = pre @ (r, c) # post" using q b(2) e' by simp
  have pop: "popConnection speed n P = Some (n\<lparr>n_curCnt := n_curCnt n + 1, n_consecCnt := (n_consecCnt n)(addrport (snd c) \<mapsto> n_curCnt n + 1),
      n_useCnt := (n_useCnt n)(addrport (snd c) \<mapsto> use + 1)\<rparr>, P\<lparr>cp_mq := pre @ post\<rparr>, Some c)"
  proof -
    have "take (length pre) (cp_mq P) @ drop (Suc (length pre)) (cp_mq P) = pre @ post" by (simp add: q')
    moreover have "hd (cp_mq P) = e" by (simp add: q)
    ultimately show ?thesis
      using all k e' assms(2) by (simp add: popConnection_def list.case_eq_if Let_def)
  qed
  show ?thesis
    by (rule exI [of _ "n\<lparr>n_curCnt := n_curCnt n + 1, n_consecCnt := (n_consecCnt n)(addrport (snd c) \<mapsto> n_curCnt n + 1),
        n_useCnt := (n_useCnt n)(addrport (snd c) \<mapsto> use + 1)\<rparr>"], rule exI [of _ pre], rule exI [of _ r], rule exI [of _ c], rule exI [of _ post])
      (use pop q' b(3) k(2) e' in simp)
qed

text \<open>
  a thread gets the best connection. From a pool that is not empty \<open>popConnection\<close> takes the
  first of the entries with the greatest product of rate and age, and exactly this entry; the
  others stay in their order, and the connection counts as used last. Among connections of one
  rate, and when the product grows with the age, this is one that has been idle the longest.
\<close>

theorem best_connection_first:
  fixes speed :: "u64 \<Rightarrow> u64 \<Rightarrow> 'd::linorder"
  assumes "known n P" "cp_mq P \<noteq> []"
  shows "\<exists>n' pre r c post. popConnection speed n P = Some (n', P\<lparr>cp_mq := pre @ post\<rparr>, Some c) \<and>
    cp_mq P = pre @ (r, c) # post \<and>
    first_best (\<lambda>e. the (entry_score speed n e)) pre (r, c) post \<and>
    n_consecCnt n' (addrport (snd c)) = Some (n_curCnt n') \<and>
    ((\<forall>e \<in> set (cp_mq P). fst e = r) \<and> strict_mono (speed r) \<longrightarrow>
      (\<forall>e \<in> set (cp_mq P). n_curCnt n - the (n_consecCnt n (addrport (snd (snd e))))
        \<le> n_curCnt n - the (n_consecCnt n (addrport (snd c)))))"
proof -
  obtain n' pre r c post where p: "popConnection speed n P = Some (n', P\<lparr>cp_mq := pre @ post\<rparr>, Some c)"
      "cp_mq P = pre @ (r, c) # post" "first_best (\<lambda>e. the (entry_score speed n e)) pre (r, c) post"
      "n_curCnt n' = n_curCnt n + 1" "n_consecCnt n' = (n_consecCnt n)(addrport (snd c) \<mapsto> n_curCnt n + 1)"
    using popConnection_first [OF assms, of speed] by (elim exE conjE) (rule that)
  have score: "the (entry_score speed n e) = speed (fst e) (n_curCnt n - the (n_consecCnt n (addrport (snd (snd e)))))"
    if "e \<in> set (cp_mq P)" for e
    using assms(1) that by (auto simp: known_def entry_score_def)
  have le: "the (entry_score speed n e) \<le> the (entry_score speed n (r, c))" if "e \<in> set (cp_mq P)" for e
    using p(2,3) that by (auto simp: first_best_def)
  have in_q: "(r, c) \<in> set (cp_mq P)" unfolding p(2) by simp
  have "n_curCnt n - the (n_consecCnt n (addrport (snd (snd e)))) \<le> n_curCnt n - the (n_consecCnt n (addrport (snd c)))"
    if "\<forall>e \<in> set (cp_mq P). fst e = r" "strict_mono (speed r)" "e \<in> set (cp_mq P)" for e
    using le [OF that(3)] score [OF that(3)] score [OF in_q] bspec [OF that(1,3)] strict_mono_less_eq [OF that(2)] by simp
  then show ?thesis
    by (intro exI [of _ n'] exI [of _ pre] exI [of _ r] exI [of _ c] exI [of _ post]) (use p in simp)
qed

definition demo_con :: "u32 \<Rightarrow> con" where
  "demo_con i = (i, \<lparr>e_addr = ''h'', e_port = uint i\<rparr>)"

definition demo_net :: pool_net where
  "demo_net = \<lparr>n_connections = trackable_init, n_useCnt = [''h:1'' \<mapsto> 4, ''h:2'' \<mapsto> 3],
     n_consecCnt = [''h:1'' \<mapsto> 7, ''h:2'' \<mapsto> 5], n_curCnt = 7\<rparr>"

definition demo_con_pool :: con_pool where
  "demo_con_pool = (new_con_pool [100] False [demo_con 1, demo_con 2])\<lparr>cp_mq := [(50, demo_con 1), (50, demo_con 2)]\<rparr>"

lemma demo_addr: "addrport (snd (demo_con 1)) = ''h:1''" "addrport (snd (demo_con 2)) = ''h:2''"
  by (simp_all add: addrport_def demo_con_def to_string_def digits.simps digit_def char_of_def bit_0)

lemma demo_known: "known demo_net demo_con_pool"
  by (simp add: known_def demo_con_pool_def demo_net_def new_con_pool_def demo_addr)

theorem best_connection_first_witness:
  "\<exists>n'. popConnection (\<lambda>r a. unat r + unat a) demo_net demo_con_pool
     = Some (n', demo_con_pool\<lparr>cp_mq := [(50, demo_con 1)]\<rparr>, Some (demo_con 2)) \<and>
     n_consecCnt n' ''h:2'' = Some (n_curCnt n') \<and>
     n_curCnt demo_net - the (n_consecCnt demo_net ''h:1'') \<le> n_curCnt demo_net - the (n_consecCnt demo_net ''h:2'')"
proof -
  have ne: "cp_mq demo_con_pool \<noteq> []" by (simp add: demo_con_pool_def)
  obtain n' pre r c post where p:
      "popConnection (\<lambda>r a. unat r + unat a) demo_net demo_con_pool = Some (n', demo_con_pool\<lparr>cp_mq := pre @ post\<rparr>, Some c)"
      "cp_mq demo_con_pool = pre @ (r, c) # post"
      "first_best (\<lambda>e. the (entry_score (\<lambda>r a. unat r + unat a) demo_net e)) pre (r, c) post"
      "n_consecCnt n' (addrport (snd c)) = Some (n_curCnt n')"
      "(\<forall>e \<in> set (cp_mq demo_con_pool). fst e = r) \<and> strict_mono (\<lambda>a :: u64. unat r + unat a) \<longrightarrow>
      (\<forall>e \<in> set (cp_mq demo_con_pool). n_curCnt demo_net - the (n_consecCnt demo_net (addrport (snd (snd e))))
        \<le> n_curCnt demo_net - the (n_consecCnt demo_net (addrport (snd c))))"
    using best_connection_first [OF demo_known ne, of "\<lambda>r a. unat r + unat a"] by (elim exE conjE) (rule that)
  have c: "pre = [(50, demo_con 1)] \<and> c = demo_con 2 \<and> post = [] \<and> r = 50"
    using p(2,3) by (cases pre; cases "tl pre")
      (auto simp: demo_con_pool_def first_best_def entry_score_def demo_net_def demo_addr Cons_eq_append_conv)
  have "strict_mono (\<lambda>a :: u64. unat r + unat a)" by (auto intro!: strict_monoI simp: word_less_nat_alt)
  then have "\<forall>e \<in> set (cp_mq demo_con_pool). n_curCnt demo_net - the (n_consecCnt demo_net (addrport (snd (snd e))))
        \<le> n_curCnt demo_net - the (n_consecCnt demo_net (addrport (snd c)))"
    using p(5) c by (simp add: demo_con_pool_def)
  then have "n_curCnt demo_net - the (n_consecCnt demo_net ''h:1'') \<le> n_curCnt demo_net - the (n_consecCnt demo_net ''h:2'')"
    using c by (simp add: demo_con_pool_def demo_addr)
  then show ?thesis using p(1,4) c by (simp add: demo_addr)
qed

subsection \<open>Opening the file on a server\<close>

text \<open>What \<open>openFileOnServer\<close> does with the size that the server has answered.\<close>

definition admit_size :: "u64 \<Rightarrow> con_pool \<Rightarrow> con_pool \<times> bool" where
  "admit_size fileSize P =
     (if fileSize = 0 then (P, False)
      else if cp_fileSize P = 0 then (P\<lparr>cp_fileSize := fileSize\<rparr>, True)
      else (P, cp_fileSize P = fileSize))"

text \<open>The exchange goes over a socket of the connection, \<open>socketRetry\<close> times at most.\<close>

definition openFileOnServer ::
  "'w sys \<Rightarrow> (nat \<Rightarrow> bytes) \<Rightarrow> u32 \<Rightarrow> 'w \<Rightarrow> connection \<Rightarrow> tls \<Rightarrow> con_pool \<Rightarrow>
   ('w \<times> connection \<times> tls \<times> con_pool \<times> bool) option" where
  "openFileOnServer sys fresh networkBlockSize w k t P =
     map_option (\<lambda>(w, k, t, fileSize). (w, k, t, admit_size fileSize P))
       (with_socket k t (\<lambda>t. size_loop sys fresh (openFile_packet (cp_name P) networkBlockSize (cp_compress P) False) socketRetry w t 0))"

subsection \<open>Opening the file on all servers\<close>

text \<open>
  The threads of \<open>addOpenFileTask\<close> and the caller of \<open>openFileOnAllServers\<close>, access by access.
  A thread is where it is after the exchange with its server, whose answer (0: none) and
  number of sockets are given: the two reads of \<open>_fileSize\<close> and the write, a call of
  \<open>pushConnection\<close> for each socket, \<open>_valid_server = true\<close>, \<open>_servers_requested--\<close>.
\<close>

datatype open_pc = OAsk | OCheck u64 | OCompare u64 | OStore u64 | OPush nat | OValid | OLeave | OEnd

fun task_step :: "(con \<Rightarrow> u64) \<Rightarrow> (con \<Rightarrow> nat) \<Rightarrow> con \<Rightarrow> open_pc \<Rightarrow> con_pool \<Rightarrow> con_pool \<times> open_pc" where
  "task_step answer sockets c OAsk P = (P, if answer c = 0 then OLeave else OCheck (answer c))"
| "task_step answer sockets c (OCheck sz) P = (P, if cp_fileSize P = 0 then OStore sz else OCompare sz)"
| "task_step answer sockets c (OCompare sz) P = (P, if cp_fileSize P \<noteq> sz then OLeave else OPush 0)"
| "task_step answer sockets c (OStore sz) P = (P\<lparr>cp_fileSize := sz\<rparr>, OPush 0)"
| "task_step answer sockets c (OPush j) P =
     (if j < sockets c then (pushConnection c None P, OPush (j + 1)) else (P, OValid))"
| "task_step answer sockets c OValid P = (P\<lparr>cp_valid := True\<rparr>, OLeave)"
| "task_step answer sockets c OLeave P = (P\<lparr>cp_requested := cp_requested P - 1\<rparr>, OEnd)"
| "task_step answer sockets c OEnd P = (P, OEnd)"

datatype main_pc = MStart | MSpawn nat | MWait | MValid | MRead | MDone u64

record open_state =
  os_pool :: con_pool
  os_tasks :: "(con \<times> open_pc) list"
  os_main :: main_pc

fun main_step :: "main_pc \<Rightarrow> con_pool \<Rightarrow> con_pool \<times> (con \<times> open_pc) list \<times> main_pc" where
  "main_step MStart P = (P, [], if cp_valid P then MRead else MSpawn 0)"
| "main_step (MSpawn i) P =
     (if i < length (cp_connections P)
      then (P\<lparr>cp_requested := cp_requested P + 1\<rparr>, [(cp_connections P ! i, OAsk)], MSpawn (i + 1))
      else (P, [], MWait))"
| "main_step MWait P = (P, [], if 0 < cp_requested P then MValid else MRead)"
| "main_step MValid P = (P, [], if \<not> cp_valid P then MWait else MRead)"
| "main_step MRead P = (P, [], MDone (cp_fileSize P))"
| "main_step (MDone r) P = (P, [], MDone r)"

definition run_task :: "(con \<Rightarrow> u64) \<Rightarrow> (con \<Rightarrow> nat) \<Rightarrow> nat \<Rightarrow> open_state \<Rightarrow> open_state" where
  "run_task answer sockets i s =
     (let (c, pc) = os_tasks s ! i; (P, pc) = task_step answer sockets c pc (os_pool s)
      in s\<lparr>os_pool := P, os_tasks := (os_tasks s)[i := (c, pc)]\<rparr>)"

definition run_main :: "open_state \<Rightarrow> open_state" where
  "run_main s =
     (let (P, ts, pc) = main_step (os_main s) (os_pool s)
      in s\<lparr>os_pool := P, os_tasks := os_tasks s @ ts, os_main := pc\<rparr>)"

inductive open_step :: "(con \<Rightarrow> u64) \<Rightarrow> (con \<Rightarrow> nat) \<Rightarrow> open_state \<Rightarrow> open_state \<Rightarrow> bool" for answer sockets where
  OTask: "i < length (os_tasks s) \<Longrightarrow> open_step answer sockets s (run_task answer sockets i s)"
| OMain: "open_step answer sockets s (run_main s)"

definition open_start :: "bytes \<Rightarrow> bool \<Rightarrow> con list \<Rightarrow> open_state" where
  "open_start name compress cs = \<lparr>os_pool = new_con_pool name compress cs, os_tasks = [], os_main = MStart\<rparr>"

text \<open>A schedule: \<open>None\<close> for the caller, \<open>Some i\<close> for the thread \<open>i\<close> (if there is one).\<close>

fun open_run :: "(con \<Rightarrow> u64) \<Rightarrow> (con \<Rightarrow> nat) \<Rightarrow> nat option list \<Rightarrow> open_state \<Rightarrow> open_state" where
  "open_run answer sockets [] s = s"
| "open_run answer sockets (None # es) s = open_run answer sockets es (run_main s)"
| "open_run answer sockets (Some i # es) s = 
     open_run answer sockets es (if i < length (os_tasks s) then run_task answer sockets i s else s)"

text \<open>A thread that is not disturbed does what \<open>openFileOnServer\<close> says.\<close>

lemma task_alone:
  assumes "admit_size (answer c) P = (P', ok)"
  shows "\<exists>n \<le> 3. ((\<lambda>(P, pc). task_step answer sockets c pc P) ^^ n) (P, OAsk) = (P', if ok then OPush 0 else OLeave)"
proof (cases "answer c = 0")
  case True
  then show ?thesis using assms by (intro exI [of _ 1]) (simp add: admit_size_def)
next
  case False
  then show ?thesis using assms
    by (intro exI [of _ 3]) (auto simp: admit_size_def numeral_3_eq_3 split: if_splits)
qed

subsection \<open>The invariant of the machine\<close>

definition grows :: "con_pool \<Rightarrow> con_pool \<Rightarrow> bool" where
  "grows P P' \<longleftrightarrow> (cp_fileSize P \<noteq> 0 \<longrightarrow> cp_fileSize P' \<noteq> 0) \<and> cons_of P \<subseteq># cons_of P' \<and>
     (cp_valid P \<longrightarrow> cp_valid P') \<and> cp_connections P' = cp_connections P"

text \<open>The size has been admitted and the connections are being pushed.\<close>

definition pushing :: "open_pc \<Rightarrow> bool" where
  "pushing pc \<longleftrightarrow> (case pc of OPush _ \<Rightarrow> True | OValid \<Rightarrow> True | _ \<Rightarrow> False)"

fun pc_ok :: "(con \<Rightarrow> u64) \<Rightarrow> (con \<Rightarrow> nat) \<Rightarrow> con_pool \<Rightarrow> con \<Rightarrow> open_pc \<Rightarrow> bool" where
  "pc_ok answer sockets P c OAsk \<longleftrightarrow> True"
| "pc_ok answer sockets P c (OCheck sz) \<longleftrightarrow> sz = answer c \<and> sz \<noteq> 0"
| "pc_ok answer sockets P c (OCompare sz) \<longleftrightarrow> sz = answer c \<and> sz \<noteq> 0 \<and> cp_fileSize P \<noteq> 0"
| "pc_ok answer sockets P c (OStore sz) \<longleftrightarrow> sz = answer c \<and> sz \<noteq> 0"
| "pc_ok answer sockets P c (OPush j) \<longleftrightarrow>
     answer c \<noteq> 0 \<and> cp_fileSize P \<noteq> 0 \<and> j \<le> sockets c \<and> j \<le> count (cons_of P) c"
| "pc_ok answer sockets P c OValid \<longleftrightarrow> answer c \<noteq> 0 \<and> cp_fileSize P \<noteq> 0 \<and> sockets c \<le> count (cons_of P) c"
| "pc_ok answer sockets P c OLeave \<longleftrightarrow> (answer c = 0 \<or> cp_fileSize P \<noteq> 0)"
| "pc_ok answer sockets P c OEnd \<longleftrightarrow> (answer c = 0 \<or> cp_fileSize P \<noteq> 0)"

lemma pc_ok_mono: "grows P P' \<Longrightarrow> pc_ok answer sockets P c pc \<Longrightarrow> pc_ok answer sockets P' c pc"
  by (cases pc) (auto simp: grows_def dest: mset_subset_eq_count [of _ _ c] intro: order_trans)

lemma cons_of_push [simp]: "cons_of (pushConnection c u P) = add_mset c (cons_of P)"
  by (simp add: cons_of_def pushConnection_def split: prod.split)

lemma push_sel [simp]:
  "cp_fileSize (pushConnection c u P) = cp_fileSize P" "cp_valid (pushConnection c u P) = cp_valid P"
  "cp_connections (pushConnection c u P) = cp_connections P" "cp_requested (pushConnection c u P) = cp_requested P"
  by (simp_all add: pushConnection_def split: prod.split)

lemma cons_of_upd [simp]:
  "cons_of (P\<lparr>cp_fileSize := a\<rparr>) = cons_of P" "cons_of (P\<lparr>cp_valid := v\<rparr>) = cons_of P"
  "cons_of (P\<lparr>cp_requested := n\<rparr>) = cons_of P"
  by (simp_all add: cons_of_def)

lemma task_step_ok:
  assumes "pc_ok answer sockets P c pc" "task_step answer sockets c pc P = (P', pc')"
  shows "grows P P' \<and> pc_ok answer sockets P' c pc' \<and>
    cp_requested P' + of_bool (pc \<noteq> OEnd) = cp_requested P + of_bool (pc' \<noteq> OEnd) \<and>
    (cp_fileSize P' \<noteq> 0 \<longrightarrow> cp_fileSize P' = cp_fileSize P \<or> cp_fileSize P' = answer c \<and> pushing pc') \<and>
    (pushing pc \<longrightarrow> pushing pc' \<or> cp_valid P') \<and> (cp_valid P' \<longrightarrow> cp_valid P \<or> pc = OValid)"
  using assms by (cases pc) (auto simp: grows_def pushing_def split: if_splits)

fun spawned :: "main_pc \<Rightarrow> con list \<Rightarrow> con list" where
  "spawned MStart cs = []"
| "spawned (MSpawn i) cs = take i cs"
| "spawned _ cs = cs"

fun main_ok :: "(con \<Rightarrow> u64) \<Rightarrow> con list \<Rightarrow> con_pool \<Rightarrow> (con \<times> open_pc) list \<Rightarrow> main_pc \<Rightarrow> bool" where
  "main_ok answer cs P ts MStart \<longleftrightarrow> \<not> cp_valid P"
| "main_ok answer cs P ts (MSpawn i) \<longleftrightarrow> i \<le> length cs"
| "main_ok answer cs P ts MRead \<longleftrightarrow> cp_valid P \<or> (\<forall>t \<in> set ts. snd t = OEnd)"
| "main_ok answer cs P ts (MDone r) \<longleftrightarrow>
     (if r = 0 then \<forall>c \<in> set cs. answer c = 0 else r \<in> answer ` set cs \<and> cp_valid P)"
| "main_ok answer cs P ts _ \<longleftrightarrow> True"

definition open_ok :: "(con \<Rightarrow> u64) \<Rightarrow> (con \<Rightarrow> nat) \<Rightarrow> con list \<Rightarrow> open_state \<Rightarrow> bool" where
  "open_ok answer sockets cs s \<longleftrightarrow>
     cp_connections (os_pool s) = cs \<and> map fst (os_tasks s) = spawned (os_main s) cs \<and>
     cp_requested (os_pool s) = int (count_if (\<lambda>t. snd t \<noteq> OEnd) (os_tasks s)) \<and>
     (\<forall>t \<in> set (os_tasks s). pc_ok answer sockets (os_pool s) (fst t) (snd t)) \<and>
     (cp_fileSize (os_pool s) \<noteq> 0 \<longrightarrow> cp_fileSize (os_pool s) \<in> answer ` set cs \<and>
        (cp_valid (os_pool s) \<or> (\<exists>t \<in> set (os_tasks s). pushing (snd t)))) \<and>
     (cp_valid (os_pool s) \<longrightarrow> cp_fileSize (os_pool s) \<noteq> 0 \<and>
        (\<exists>c \<in> set cs. answer c \<noteq> 0 \<and> sockets c \<le> count (cons_of (os_pool s)) c)) \<and>
     main_ok answer cs (os_pool s) (os_tasks s) (os_main s)"

lemma open_ok_start: "open_ok answer sockets cs (open_start name compress cs)"
  by (simp add: open_ok_def open_start_def new_con_pool_def)

lemma open_ok_D:
  assumes "open_ok answer sockets cs s"
  shows "cp_connections (os_pool s) = cs" "map fst (os_tasks s) = spawned (os_main s) cs"
    "cp_requested (os_pool s) = int (count_if (\<lambda>t. snd t \<noteq> OEnd) (os_tasks s))"
    "t \<in> set (os_tasks s) \<Longrightarrow> pc_ok answer sockets (os_pool s) (fst t) (snd t)"
    "cp_fileSize (os_pool s) \<noteq> 0 \<Longrightarrow> cp_fileSize (os_pool s) \<in> answer ` set cs"
    "cp_fileSize (os_pool s) \<noteq> 0 \<Longrightarrow> cp_valid (os_pool s) \<or> (\<exists>t \<in> set (os_tasks s). pushing (snd t))"
    "cp_valid (os_pool s) \<Longrightarrow> cp_fileSize (os_pool s) \<noteq> 0"
    "cp_valid (os_pool s) \<Longrightarrow> \<exists>c \<in> set cs. answer c \<noteq> 0 \<and> sockets c \<le> count (cons_of (os_pool s)) c"
    "main_ok answer cs (os_pool s) (os_tasks s) (os_main s)"
  using assms by (simp_all add: open_ok_def)

lemma set_update_cases: "t \<in> set (xs[i := x]) \<Longrightarrow> t = x \<or> t \<in> set xs"
  by (auto dest!: set_update_subset_insert [THEN subsetD])

lemma spawned_subset: "set (spawned pc cs) \<subseteq> set cs"
  by (cases pc) (auto dest: in_set_takeD)

lemma open_ok_task:
  assumes ok: "open_ok answer sockets cs s" and i: "i < length (os_tasks s)"
  shows "open_ok answer sockets cs (run_task answer sockets i s)"
proof -
  obtain c pc where t: "os_tasks s ! i = (c, pc)" by (cases "os_tasks s ! i")
  obtain P' pc' where st: "task_step answer sockets c pc (os_pool s) = (P', pc')" by (cases "task_step answer sockets c pc (os_pool s)")
  let ?P = "os_pool s" and ?ts = "os_tasks s" and ?ts' = "(os_tasks s)[i := (c, pc')]"
  note D = open_ok_D [OF ok]
  have in_ts: "(c, pc) \<in> set ?ts" using nth_mem [OF i] t by simp
  have "c \<in> set (map fst ?ts)" using in_ts by force
  then have in_cs: "c \<in> set cs" unfolding D(2) by (rule subsetD [OF spawned_subset])
  have pok: "pc_ok answer sockets ?P c pc" using D(4) [OF in_ts] by simp
  have s: "grows ?P P'" "pc_ok answer sockets P' c pc'"
      "cp_requested P' + of_bool (pc \<noteq> OEnd) = cp_requested ?P + of_bool (pc' \<noteq> OEnd)"
      "cp_fileSize P' \<noteq> 0 \<Longrightarrow> cp_fileSize P' = cp_fileSize ?P \<or> cp_fileSize P' = answer c \<and> pushing pc'"
      "pushing pc \<Longrightarrow> pushing pc' \<or> cp_valid P'" "cp_valid P' \<Longrightarrow> cp_valid ?P \<or> pc = OValid"
    using task_step_ok [OF pok st] by simp_all
  have r: "run_task answer sockets i s = s\<lparr>os_pool := P', os_tasks := ?ts'\<rparr>"
    using t st by (simp add: run_task_def)
  have fst': "map fst ?ts' = map fst ?ts"
    using i t by (intro nth_equalityI) (auto simp: nth_list_update)
  have cnt: "cp_requested P' = int (count_if (\<lambda>t. snd t \<noteq> OEnd) ?ts')"
  proof -
    have "int (count_if (\<lambda>t. snd t \<noteq> OEnd) ?ts') + of_bool (pc \<noteq> OEnd) = int (count_if (\<lambda>t. snd t \<noteq> OEnd) ?ts) + of_bool (pc' \<noteq> OEnd)"
      using count_if_update [OF i, of "\<lambda>t. snd t \<noteq> OEnd" "(c, pc')"] t by (cases "pc = OEnd"; cases "pc' = OEnd") simp_all
    then show ?thesis using s(3) D(3) by linarith
  qed
  have pcs: "pc_ok answer sockets P' (fst t) (snd t)" if "t \<in> set ?ts'" for t
    using set_update_cases [OF that] s(2) pc_ok_mono [OF s(1) D(4), of t] by auto
  have push: "\<exists>t \<in> set ?ts'. pushing (snd t)" if "pushing pc'"
    using that set_update_memI [OF i, of "(c, pc')"] by force
  have keep: "cp_valid P' \<or> (\<exists>t \<in> set ?ts'. pushing (snd t))" if "t \<in> set ?ts" "pushing (snd t)" for t
  proof (cases "t = (c, pc)")
    case True
    then show ?thesis using that(2) s(5) push by auto
  next
    case False
    note in_t = that(1)
    obtain j where j: "j < length ?ts" "?ts ! j = t" using in_t [unfolded in_set_conv_nth] by blast
    then have "i \<noteq> j" using False t by auto
    then have "?ts' ! j = t" using j by simp
    then have "t \<in> set ?ts'" using j(1) by (metis length_list_update nth_mem)
    then show ?thesis using that(2) by blast
  qed
  have grow: "cp_valid ?P \<Longrightarrow> cp_valid P'" "cp_connections P' = cs" "cp_fileSize ?P \<noteq> 0 \<Longrightarrow> cp_fileSize P' \<noteq> 0"
      "count (cons_of ?P) d \<le> count (cons_of P') d" for d
    using s(1) D(1) by (simp_all add: grows_def mset_subset_eq_count)
  have sz: "cp_fileSize P' \<in> answer ` set cs \<and> (cp_valid P' \<or> (\<exists>t \<in> set ?ts'. pushing (snd t)))" if "cp_fileSize P' \<noteq> 0"
  proof (cases "cp_fileSize P' = answer c \<and> pushing pc'")
    case True
    then show ?thesis using in_cs push by auto
  next
    case False
    then have "cp_fileSize P' = cp_fileSize ?P" using s(4) that by blast
    then show ?thesis using D(5,6) that keep grow(1) by auto
  qed
  have val: "cp_fileSize P' \<noteq> 0 \<and> (\<exists>c \<in> set cs. answer c \<noteq> 0 \<and> sockets c \<le> count (cons_of P') c)" if "cp_valid P'"
  proof (cases "pc = OValid")
    case True
    then show ?thesis using pok s(2) in_cs st by auto
  next
    case False
    then have v: "cp_valid ?P" using s(6) that by blast
    obtain d where "d \<in> set cs" "answer d \<noteq> 0" "sockets d \<le> count (cons_of ?P) d" using D(8) [OF v] by blast
    then show ?thesis using grow(3) [OF D(7) [OF v]] grow(4) [of d] order_trans by blast
  qed
  have mn: "main_ok answer cs P' ?ts' (os_main s)"
  proof (cases "os_main s")
    case MStart
    then show ?thesis using D(2) i by simp
  next
    case MRead
    show ?thesis
    proof (cases "cp_valid ?P")
      case True
      then show ?thesis using MRead grow(1) by simp
    next
      case False
      then have all: "\<forall>t \<in> set ?ts. snd t = OEnd" using D(9) MRead by simp
      then have "pc' = OEnd" using in_ts st by fastforce
      then have "snd t = OEnd" if "t \<in> set ?ts'" for t using set_update_cases [OF that] all by auto
      then have "\<forall>t \<in> set ?ts'. snd t = OEnd" by blast
      then show ?thesis unfolding MRead main_ok.simps by (rule disjI2)
    qed
  next
    case (MDone r)
    then show ?thesis using D(9) grow(1) by (simp split: if_splits)
  qed (use D(9) in simp_all)
  show ?thesis
    unfolding r open_ok_def using D(2) fst' cnt pcs sz val mn grow(2) by simp
qed

lemma pc_ok_requested [simp]: "pc_ok answer sockets (P\<lparr>cp_requested := n\<rparr>) c pc = pc_ok answer sockets P c pc"
  by (cases pc) simp_all

lemma all_ended:
  assumes "open_ok answer sockets cs s" "cp_requested (os_pool s) \<le> 0"
  shows "\<forall>t \<in> set (os_tasks s). snd t = OEnd"
  using open_ok_D(3) [OF assms(1)] assms(2) by (auto simp: filter_empty_conv)

lemma open_ok_keep:
  assumes "open_ok answer sockets cs s" "spawned pc cs = spawned (os_main s) cs"
    "main_ok answer cs (os_pool s) (os_tasks s) pc"
  shows "open_ok answer sockets cs (s\<lparr>os_main := pc\<rparr>)"
  using assms by (simp add: open_ok_def)

lemma open_ok_spawn:
  assumes "open_ok answer sockets cs s" "os_main s = MSpawn i" "i < length cs"
  shows "open_ok answer sockets cs (s\<lparr>os_pool := (os_pool s)\<lparr>cp_requested := cp_requested (os_pool s) + 1\<rparr>,
        os_tasks := os_tasks s @ [(cs ! i, OAsk)], os_main := MSpawn (i + 1)\<rparr>)"
proof -
  note D = open_ok_D [OF assms(1)]
  have "cp_valid (os_pool s) \<or> pushing OAsk \<or> (\<exists>t \<in> set (os_tasks s). pushing (snd t))" if "cp_fileSize (os_pool s) \<noteq> 0"
    using D(6) [OF that] by (elim disjE) simp_all
  moreover have "\<forall>t \<in> set (os_tasks s). pc_ok answer sockets (os_pool s) (fst t) (snd t)" using D(4) by blast
  ultimately show ?thesis
    using D(1-3,5,7,8) assms(2,3) by (simp add: open_ok_def take_Suc_conv_app_nth bex_Un)
qed

lemma run_main_moves:
  "run_main s = (case os_main s of
     MStart \<Rightarrow> s\<lparr>os_main := if cp_valid (os_pool s) then MRead else MSpawn 0\<rparr>
   | MSpawn i \<Rightarrow> (if i < length (cp_connections (os_pool s))
       then s\<lparr>os_pool := (os_pool s)\<lparr>cp_requested := cp_requested (os_pool s) + 1\<rparr>,
           os_tasks := os_tasks s @ [(cp_connections (os_pool s) ! i, OAsk)], os_main := MSpawn (i + 1)\<rparr>
       else s\<lparr>os_main := MWait\<rparr>)
   | MWait \<Rightarrow> s\<lparr>os_main := if 0 < cp_requested (os_pool s) then MValid else MRead\<rparr>
   | MValid \<Rightarrow> s\<lparr>os_main := if cp_valid (os_pool s) then MRead else MWait\<rparr>
   | MRead \<Rightarrow> s\<lparr>os_main := MDone (cp_fileSize (os_pool s))\<rparr>
   | MDone r \<Rightarrow> s)"
  by (cases "os_main s") (simp_all add: run_main_def)

lemma open_ok_read:
  assumes "open_ok answer sockets cs s" "os_main s = MRead"
  shows "main_ok answer cs (os_pool s) (os_tasks s) (MDone (cp_fileSize (os_pool s)))"
proof -
  note D = open_ok_D [OF assms(1)]
  have stop: "cp_valid (os_pool s) \<or> (\<forall>t \<in> set (os_tasks s). snd t = OEnd)" using D(9) assms(2) by simp
  show ?thesis
  proof (cases "cp_fileSize (os_pool s) = 0")
    case True
    then have all: "\<forall>t \<in> set (os_tasks s). snd t = OEnd" using stop D(7) by blast
    have "answer c = 0" if "c \<in> set cs" for c
    proof -
      have "c \<in> set (map fst (os_tasks s))" using that D(2) assms(2) by simp
      then obtain t where t: "t \<in> set (os_tasks s)" "fst t = c" by auto
      then show ?thesis using D(4) [OF t(1)] all True by simp
    qed
    then show ?thesis using True by simp
  next
    case False
    have "\<not> pushing OEnd" by (simp add: pushing_def)
    then have "cp_valid (os_pool s)" using D(6) [OF False] stop by auto
    then show ?thesis using False D(5) [OF False] by simp
  qed
qed

lemma open_ok_main:
  assumes ok: "open_ok answer sockets cs s"
  shows "open_ok answer sockets cs (run_main s)"
proof (cases "os_main s")
  case MStart
  then show ?thesis
    using open_ok_keep [OF ok, of "MSpawn 0"] open_ok_D(9) [OF ok] by (simp add: run_main_moves)
next
  case (MSpawn i)
  then show ?thesis
    using open_ok_keep [OF ok, of MWait] open_ok_spawn [OF ok MSpawn] open_ok_D(1,9) [OF ok]
    by (simp add: run_main_moves)
next
  case MWait
  then show ?thesis
    using open_ok_keep [OF ok, of MValid] open_ok_keep [OF ok, of MRead] all_ended [OF ok] by (simp add: run_main_moves)
next
  case MValid
  then show ?thesis
    using open_ok_keep [OF ok, of MWait] open_ok_keep [OF ok, of MRead] by (simp add: run_main_moves)
next
  case MRead
  then show ?thesis
    using open_ok_keep [OF ok _ open_ok_read [OF ok MRead]] by (simp add: run_main_moves)
next
  case (MDone r)
  then show ?thesis using ok by (simp add: run_main_moves)
qed

lemma open_ok_reachable:
  assumes "(open_step answer sockets)\<^sup>*\<^sup>* (open_start name compress cs) s"
  shows "open_ok answer sockets cs s"
  using assms
proof induction
  case base
  show ?case by (rule open_ok_start)
next
  case (step s s')
  then show ?case by (auto elim!: open_step.cases intro: open_ok_task open_ok_main)
qed

subsection \<open>What the caller gets\<close>

text \<open>
  C26: when \<open>openFileOnAllServers\<close> returns, whatever the order of the threads, its result is 0
  exactly when no server has the file. Otherwise it is a size that one of the servers has
  answered, and the pool holds a connection for every socket to some server with the file, so
  that a thread that asks for a connection gets one.
\<close>

theorem open_all_result:
  assumes "(open_step answer sockets)\<^sup>*\<^sup>* (open_start name compress cs) s" "os_main s = MDone r"
  shows "(r = 0 \<longleftrightarrow> (\<forall>c \<in> set cs. answer c = 0)) \<and>
    (r \<noteq> 0 \<longrightarrow> r \<in> answer ` set cs \<and> cp_valid (os_pool s) \<and>
      (\<exists>c \<in> set cs. answer c \<noteq> 0 \<and> sockets c \<le> count (cons_of (os_pool s)) c))"
proof -
  have ok: "open_ok answer sockets cs s" using assms(1) by (rule open_ok_reachable)
  note D = open_ok_D [OF ok]
  show ?thesis
  proof (cases "r = 0")
    case True
    then show ?thesis using D(9) assms(2) by simp
  next
    case False
    then have v: "r \<in> answer ` set cs" "cp_valid (os_pool s)" using D(9) assms(2) by simp_all
    show ?thesis using v D(8) [OF v(2)] False by auto
  qed
qed

lemma open_run_steps: "(open_step answer sockets)\<^sup>*\<^sup>* s (open_run answer sockets es s)"
proof (induction es arbitrary: s)
  case (Cons e es)
  show ?case
  proof (cases e)
    case None
    then show ?thesis using Cons.IH [of "run_main s"] OMain [of answer sockets s]
      by (auto intro: converse_rtranclp_into_rtranclp)
  next
    case (Some i)
    then show ?thesis using Cons.IH [of "run_task answer sockets i s"] Cons.IH [of s] OTask [of i s answer sockets]
      by (auto intro: converse_rtranclp_into_rtranclp)
  qed
qed simp

text \<open>Two servers, of which the first has the file: the caller does not wait for the second.\<close>

definition one_answer :: "con \<Rightarrow> u64" where "one_answer c = (if fst c = 1 then 5 else 0)"

definition demo_open :: open_state where
  "demo_open = open_run one_answer (\<lambda>_. 1)
     (replicate 4 None @ [None, None] @ replicate 6 (Some 0) @ [None, None, None])
     (open_start [100] False [demo_con 1, demo_con 2])"

lemma demo_open_main: "os_main demo_open = MDone 5"
  by code_simp

theorem open_all_result_witness:
  "(\<exists>c \<in> set [demo_con 1, demo_con 2]. one_answer c \<noteq> 0 \<and> 1 \<le> count (cons_of (os_pool demo_open)) c)
     \<and> (5 :: u64) \<in> one_answer ` set [demo_con 1, demo_con 2]"
  using open_all_result [OF open_run_steps [of one_answer "\<lambda>_. 1" "open_start [100] False [demo_con 1, demo_con 2]"
        "replicate 4 None @ [None, None] @ replicate 6 (Some 0) @ [None, None, None]"] demo_open_main [unfolded demo_open_def]]
  unfolding demo_open_def by auto

subsection \<open>The caller returns\<close>

text \<open>How many steps are left, without the turns of the caller's waiting loop.\<close>

fun task_work :: "(con \<Rightarrow> nat) \<Rightarrow> con \<times> open_pc \<Rightarrow> nat" where
  "task_work sockets (c, OAsk) = sockets c + 7"
| "task_work sockets (c, OCheck _) = sockets c + 6"
| "task_work sockets (c, OCompare _) = sockets c + 5"
| "task_work sockets (c, OStore _) = sockets c + 5"
| "task_work sockets (c, OPush j) = (sockets c - j) + 4"
| "task_work sockets (c, OValid) = 3"
| "task_work sockets (c, OLeave) = 2"
| "task_work sockets (c, OEnd) = 0"

fun main_work :: "(con \<Rightarrow> nat) \<Rightarrow> con list \<Rightarrow> main_pc \<Rightarrow> nat" where
  "main_work sockets cs MStart = (\<Sum>c\<leftarrow>cs. sockets c + 8) + 6"
| "main_work sockets cs (MSpawn i) = (\<Sum>c\<leftarrow>drop i cs. sockets c + 8) + 5"
| "main_work sockets cs MWait = 3"
| "main_work sockets cs MValid = 4"
| "main_work sockets cs MRead = 2"
| "main_work sockets cs (MDone r) = 0"

definition open_work :: "(con \<Rightarrow> nat) \<Rightarrow> con list \<Rightarrow> open_state \<Rightarrow> nat" where
  "open_work sockets cs s = main_work sockets cs (os_main s) + (\<Sum>t\<leftarrow>os_tasks s. task_work sockets t)"

lemma sum_list_update_less:
  fixes f :: "'x \<Rightarrow> nat"
  shows "i < length xs \<Longrightarrow> f y < f (xs ! i) \<Longrightarrow> (\<Sum>x\<leftarrow>xs[i := y]. f x) < (\<Sum>x\<leftarrow>xs. f x)"
proof (induction xs arbitrary: i)
  case (Cons x xs)
  then show ?case by (cases i) simp_all
qed simp

lemma task_step_work:
  "task_step answer sockets c pc P = (P', pc') \<Longrightarrow> pc \<noteq> OEnd \<Longrightarrow> task_work sockets (c, pc') < task_work sockets (c, pc)"
  by (cases pc) (auto split: if_splits)

lemma run_task_work:
  assumes "i < length (os_tasks s)" "snd (os_tasks s ! i) \<noteq> OEnd"
  shows "open_work sockets cs (run_task answer sockets i s) < open_work sockets cs s"
proof -
  obtain c pc where t: "os_tasks s ! i = (c, pc)" by (cases "os_tasks s ! i")
  obtain P' pc' where st: "task_step answer sockets c pc (os_pool s) = (P', pc')" by (cases "task_step answer sockets c pc (os_pool s)")
  have "task_work sockets (c, pc') < task_work sockets (os_tasks s ! i)"
    using task_step_work [OF st] assms(2) t by simp
  from sum_list_update_less [OF assms(1) this] show ?thesis
    using t st by (simp add: run_task_def open_work_def)
qed

lemma open_progress:
  assumes ok: "open_ok answer sockets cs s" and "\<And>r. os_main s \<noteq> MDone r"
  shows "\<exists>s'. open_step answer sockets s s' \<and> open_work sockets cs s' < open_work sockets cs s"
proof -
  note D = open_ok_D [OF ok]
  have main: ?thesis if "open_work sockets cs (run_main s) < open_work sockets cs s"
    using that OMain by blast
  show ?thesis
  proof (cases "os_main s")
    case MStart
    then show ?thesis using D(9) by (intro main) (simp add: run_main_moves open_work_def)
  next
    case (MSpawn i)
    show ?thesis
    proof (cases "i < length cs")
      case True
      then have "drop i cs = cs ! i # drop (Suc i) cs" by (rule Cons_nth_drop_Suc [symmetric])
      then show ?thesis using MSpawn True D(1) by (intro main) (simp add: run_main_moves open_work_def)
    next
      case False
      then show ?thesis using MSpawn D(1) by (intro main) (simp add: run_main_moves open_work_def)
    qed
  next
    case MWait
    show ?thesis
    proof (cases "0 < cp_requested (os_pool s)")
      case True
      then obtain t where "t \<in> set (os_tasks s)" "snd t \<noteq> OEnd" using D(3) by (auto simp: filter_empty_conv)
      then obtain i where "i < length (os_tasks s)" "snd (os_tasks s ! i) \<noteq> OEnd" by (metis in_set_conv_nth)
      then show ?thesis using run_task_work OTask by blast
    next
      case False
      then show ?thesis using MWait by (intro main) (simp add: run_main_moves open_work_def)
    qed
  next
    case MValid
    then show ?thesis by (intro main) (simp add: run_main_moves open_work_def)
  next
    case MRead
    then show ?thesis by (intro main) (simp add: run_main_moves open_work_def)
  next
    case (MDone r)
    then show ?thesis using assms(2) by blast
  qed
qed

lemma open_returns:
  "open_ok answer sockets cs s \<Longrightarrow>
   \<exists>n \<le> open_work sockets cs s. \<exists>s' r. (open_step answer sockets ^^ n) s s' \<and> os_main s' = MDone r"
proof (induction "open_work sockets cs s" arbitrary: s rule: less_induct)
  case less
  show ?case
  proof (cases "\<exists>r. os_main s = MDone r")
    case True
    then show ?thesis by (intro exI [of _ 0]) auto
  next
    case False
    then obtain s1 where s1: "open_step answer sockets s s1" "open_work sockets cs s1 < open_work sockets cs s"
      using open_progress [OF less.prems] by blast
    have "open_ok answer sockets cs s1"
      using s1(1) less.prems by (auto elim!: open_step.cases intro: open_ok_task open_ok_main)
    then obtain n s' r where n: "n \<le> open_work sockets cs s1" "(open_step answer sockets ^^ n) s1 s'" "os_main s' = MDone r"
      using less.hyps [OF s1(2)] by blast
    then have "(open_step answer sockets ^^ Suc n) s s'" using s1(1) by (rule_tac relpowp_Suc_I2)
    then show ?thesis using n s1(2) by (intro exI [of _ "Suc n"]) auto
  qed
qed

text \<open>
  C27: \<open>openFileOnAllServers\<close> gets to its end. Wherever its threads and the caller are, they can
  go on until the caller returns: no schedule leads into a state from which it could only wait
  for ever, whatever the servers answer. The number of steps is bounded by what is left to do.
\<close>

theorem open_all_returns:
  assumes "(open_step answer sockets)\<^sup>*\<^sup>* (open_start name compress cs) s"
  shows "\<exists>n \<le> open_work sockets cs s. \<exists>s' r. (open_step answer sockets ^^ n) s s' \<and> os_main s' = MDone r"
  by (rule open_returns [OF open_ok_reachable [OF assms]])

theorem open_all_returns_witness:
  "\<exists>n \<le> 35. \<exists>s' r. (open_step one_answer (\<lambda>_. 1) ^^ n)
     (open_run one_answer (\<lambda>_. 1) (replicate 4 None) (open_start [100] False [demo_con 1, demo_con 2])) s' \<and> os_main s' = MDone r"
proof -
  have "open_work (\<lambda>_. 1) [demo_con 1, demo_con 2]
      (open_run one_answer (\<lambda>_. 1) (replicate 4 None) (open_start [100] False [demo_con 1, demo_con 2])) \<le> 35" by code_simp
  then show ?thesis
    using open_all_returns [OF open_run_steps [of one_answer "\<lambda>_. 1" "open_start [100] False [demo_con 1, demo_con 2]" "replicate 4 None"]]
    by (meson order_trans)
qed

text \<open>
  the sizes of the servers are not compared reliably. Two threads that read \<open>_fileSize\<close>
  before either of them writes it both store their own size: servers whose files have different
  sizes are both put into the pool, and the caller returns one size while the pool keeps the
  other.
\<close>

definition two_answers :: "con \<Rightarrow> u64" where "two_answers c = (if fst c = 1 then 5 else 7)"

theorem sizes_not_compared:
  "\<exists>s. (open_step two_answers (\<lambda>_. 1))\<^sup>*\<^sup>* (open_start [100] False [demo_con 1, demo_con 2]) s \<and>
     os_main s = MDone 5 \<and> cp_fileSize (os_pool s) = 7 \<and>
     map snd (cp_mq (os_pool s)) = [demo_con 1, demo_con 2]"
proof (intro exI conjI)
  let ?es = "replicate 4 None @ replicate 2 (Some 0) @ replicate 2 (Some 1) @ replicate 5 (Some 0) @
    replicate 4 None @ replicate 4 (Some (1 :: nat))"
  show "(open_step two_answers (\<lambda>_. 1))\<^sup>*\<^sup>* (open_start [100] False [demo_con 1, demo_con 2])
      (open_run two_answers (\<lambda>_. 1) ?es (open_start [100] False [demo_con 1, demo_con 2]))"
    by (rule open_run_steps)
qed code_simp+

subsection \<open>Closing the file, the registry of pools\<close>

text \<open>
  \<open>closeFileOnAllServers\<close>: it waits for the threads of \<open>openFileOnAllServers\<close> (\<open>None\<close> while
  there are any); then, for each server in a thread of its own, the exchange and one call of
  \<open>popConnection\<close>. The threads work on different connections; \<open>order\<close> is the order in which
  they get to the queue. A new thread has no socket.
\<close>

definition closeFileOnServer ::
  "'w sys \<Rightarrow> (nat \<Rightarrow> bytes) \<Rightarrow> (u64 \<Rightarrow> u64 \<Rightarrow> 'd::linorder) \<Rightarrow> bytes \<Rightarrow> con \<Rightarrow>
   'w \<times> (con \<Rightarrow> connection) \<times> 'm pool_net_scheme \<times> con_pool \<Rightarrow> ('w \<times> (con \<Rightarrow> connection) \<times> 'm pool_net_scheme \<times> con_pool) option" where
  "closeFileOnServer sys fresh speed buffer server = (\<lambda>(w, K, n, P). do {
     (w, k, t, ret) \<leftarrow> close_on_server sys fresh w (K server) \<lparr>tl_socket = -1, tl_closed = 0, tl_buffer = buffer\<rparr> (cp_name P);
     (n, P, c) \<leftarrow> popConnection speed n P;
     Some (w, K(server := k), n, P)
   })"

fun close_servers ::
  "'w sys \<Rightarrow> (nat \<Rightarrow> bytes) \<Rightarrow> (u64 \<Rightarrow> u64 \<Rightarrow> 'd::linorder) \<Rightarrow> bytes \<Rightarrow> con list \<Rightarrow>
   'w \<times> (con \<Rightarrow> connection) \<times> 'm pool_net_scheme \<times> con_pool \<Rightarrow> ('w \<times> (con \<Rightarrow> connection) \<times> 'm pool_net_scheme \<times> con_pool) option" where
  "close_servers sys fresh speed buffer [] s = Some s"
| "close_servers sys fresh speed buffer (c # cs) s =
     Option.bind (closeFileOnServer sys fresh speed buffer c s) (close_servers sys fresh speed buffer cs)"

definition closeFileOnAllServers ::
  "'w sys \<Rightarrow> (nat \<Rightarrow> bytes) \<Rightarrow> (u64 \<Rightarrow> u64 \<Rightarrow> 'd::linorder) \<Rightarrow> bytes \<Rightarrow> (con list \<Rightarrow> con list) \<Rightarrow>
   'w \<times> (con \<Rightarrow> connection) \<times> 'm pool_net_scheme \<times> con_pool \<Rightarrow>
   (('w \<times> (con \<Rightarrow> connection) \<times> 'm pool_net_scheme \<times> con_pool) \<times> bool) option" where
  "closeFileOnAllServers sys fresh speed buffer order = (\<lambda>(w, K, n, P).
     if cp_requested P \<noteq> 0 then None
     else map_option (\<lambda>s. (s, True)) (close_servers sys fresh speed buffer (order (cp_connections P)) (w, K, n, P)))"

text \<open>The parameter \<open>created\<close> is passed on to nobody: it stays what it was.\<close>

definition addNewConnectionPool ::
  "(bytes, con_pool) trackable \<Rightarrow> bytes \<Rightarrow> bool \<Rightarrow> con list \<Rightarrow> bool \<Rightarrow> (bytes, con_pool) trackable \<times> con_pool tracked option \<times> bool" where
  "addNewConnectionPool r filename compress connections created =
     (let (r, P, _) = AddTrackable r filename (Some (new_con_pool filename compress connections)) None False
      in (r, P, created))"

definition removeConnectionPool :: "(bytes, con_pool) trackable \<Rightarrow> bytes \<Rightarrow> u32 \<Rightarrow> (bytes, con_pool) trackable \<times> bool" where
  "removeConnectionPool r filename dec = RemoveTrackable r filename dec"

end
