(* ===== verification/NetworkCache.thy ===== *)
theory NetworkCache
  imports ConnectionPool Server
begin

text \<open>
  The cache at the end of the chain that asks the servers: \<^verbatim>\<open>src/caches/NetworkCache.cpp\<close>. A
  request becomes a task of the transfer pool, which takes a connection of the file's pool,
  sends the request and receives the block; when that fails, it takes another connection before
  it gives the first one back, ten times at most. Compressed blocks become a task of the
  decompression pool. The threads of the pools themselves are in \<^verbatim>\<open>TaskPool.thy\<close>; statistics
  and the times of requests are left out.
\<close>

subsection \<open>The state of the cache\<close>

record network_cache =
  nc_level :: nat
  nc_fileMap :: "u32 \<rightharpoonup> bytes \<times> u64 \<times> u64"
  nc_compressMap :: "u32 \<rightharpoonup> bool"
  nc_conPoolMap :: "u32 \<rightharpoonup> con_pool"

definition new_network_cache :: "nat \<Rightarrow> network_cache" where
  "new_network_cache level =
     \<lparr>nc_level = level, nc_fileMap = Map.empty, nc_compressMap = Map.empty, nc_conPoolMap = Map.empty\<rparr>"

definition setFileCompress :: "u32 \<Rightarrow> bool \<Rightarrow> network_cache \<Rightarrow> network_cache" where
  "setFileCompress index compress c = c\<lparr>nc_compressMap := (nc_compressMap c)(index \<mapsto> compress)\<rparr>"

definition setFileConnectionPool :: "u32 \<Rightarrow> con_pool \<Rightarrow> network_cache \<Rightarrow> network_cache" where
  "setFileConnectionPool index conPool c = c\<lparr>nc_conPoolMap := (nc_conPoolMap c)(index \<mapsto> conPool)\<rparr>"

text \<open>\<open>addFile\<close>, which also goes to the next level, if there is one.\<close>

definition network_addFile ::
  "(u32 \<Rightarrow> bytes \<Rightarrow> u64 \<Rightarrow> u64 \<Rightarrow> 'n \<Rightarrow> 'n) option \<Rightarrow> u32 \<Rightarrow> bytes \<Rightarrow> u64 \<Rightarrow> u64 \<Rightarrow> network_cache \<times> 'n \<Rightarrow> network_cache \<times> 'n" where
  "network_addFile nextLevel index filename blockSize fileSize = (\<lambda>(c, n).
     (if nc_fileMap c index = None then c\<lparr>nc_fileMap := (nc_fileMap c)(index \<mapsto> (filename, blockSize, fileSize))\<rparr> else c,
      case nextLevel of None \<Rightarrow> n | Some add \<Rightarrow> add index filename blockSize fileSize n))"

text \<open>\<open>writeBlock\<close> is that of \<open>LocalFileCache\<close>: the cache's own requests are deleted.\<close>

definition network_writeBlock :: "(request \<Rightarrow> 'n \<Rightarrow> 'n \<times> bool) option \<Rightarrow> request \<Rightarrow> network_cache \<times> 'n \<Rightarrow> (network_cache \<times> 'n) \<times> bool" where
  "network_writeBlock nextLevel req = (\<lambda>(c, n). let (n, ret) = source_writeBlock (nc_level c) nextLevel req n in ((c, n), ret))"

subsection \<open>Asking a server for a block\<close>

text \<open>The future: none, a request that is ready, or a task of the decompression pool.\<close>

datatype net_future = FInvalid | FValue request | FTask request bytes u32 u32

definition got_block :: "nat \<Rightarrow> request \<Rightarrow> data_ref \<Rightarrow> request" where
  "got_block level req d =
     req\<lparr>r_data := d, r_originating := level, r_origType := Network, r_reservedMap := (r_reservedMap req)(level := 1),
         r_ready := True, r_waitingCache := Network\<rparr>"

text \<open>\<open>decompress\<close>; LZ4 (\<open>None\<close>: a negative result) is a parameter, the rest of the buffer is as allocated.\<close>

definition decompress ::
  "(nat \<Rightarrow> bytes) \<Rightarrow> (bytes \<Rightarrow> nat \<Rightarrow> bytes option) \<Rightarrow> nat \<Rightarrow> request \<Rightarrow> bytes \<Rightarrow> u32 \<Rightarrow> u32 \<Rightarrow> request" where
  "decompress fresh lz4 level req compBuf compBufSize blkBufSize =
     got_block level req
       (case lz4 (take (unat compBufSize) compBuf) (unat blkBufSize) of
          None \<Rightarrow> DNull
        | Some d \<Rightarrow> DBuf (d @ drop (length d) (fresh (unat blkBufSize))))"

text \<open>\<open>get()\<close> of the future; without a state it throws (\<open>None\<close>).\<close>

definition fut_get ::
  "(nat \<Rightarrow> bytes) \<Rightarrow> (bytes \<Rightarrow> nat \<Rightarrow> bytes option) \<Rightarrow> nat \<Rightarrow> net_future \<Rightarrow> request option" where
  "fut_get fresh lz4 level fut =
     (case fut of FInvalid \<Rightarrow> None | FValue req \<Rightarrow> Some req
      | FTask req compBuf compBufSize blkBufSize \<Rightarrow> Some (decompress fresh lz4 level req compBuf compBufSize blkBufSize))"

text \<open>
  The loop over the blocks that have been asked for, of which there is one. The 32-bit index may
  run on for ever behind the last of all numbers.
\<close>

partial_function (option) blk_loop ::
  "'w sys \<Rightarrow> (nat \<Rightarrow> bytes) \<Rightarrow> u64 \<Rightarrow> u64 \<Rightarrow> bool \<Rightarrow> nat \<Rightarrow> request \<Rightarrow> u32 \<Rightarrow> u32 \<Rightarrow> u32 \<Rightarrow> 'w \<Rightarrow> tls \<Rightarrow> net_future \<Rightarrow> bool \<Rightarrow>
   ('w \<times> tls \<times> net_future \<times> bool) option" where
  "blk_loop sys fresh blkSize fileSize compress level req blkStart blkEnd i w t fut success =
     (if i \<le> blkEnd
      then do {
        let start = ucast blkStart * blkSize;
        let stop = (if fileSize < ucast blkEnd * blkSize then fileSize else start + blkSize);
        (w, t, fileName, data, blk, dataSize) \<leftarrow> recSendBlkMsg sys fresh w t None (ucast blkSize);
        case data of
          None \<Rightarrow> Some (w, t, fut, False)
        | Some d \<Rightarrow>
            if fileName \<noteq> [] \<and> dataSize \<noteq> 0 \<and> blk = i
            then blk_loop sys fresh blkSize fileSize compress level req blkStart blkEnd (i + 1) w t
                   (if compress then FTask req d dataSize (ucast (stop - start)) else FValue (got_block level req (DBuf d))) True
            else Some (w, t, fut, False)
      }
      else Some (w, t, fut, success))"

fun ask_loop ::
  "'w sys \<Rightarrow> (nat \<Rightarrow> bytes) \<Rightarrow> u64 \<Rightarrow> bytes \<Rightarrow> u64 \<Rightarrow> bool \<Rightarrow> nat \<Rightarrow> request \<Rightarrow> nat \<Rightarrow> 'w \<Rightarrow> tls \<Rightarrow> net_future \<Rightarrow> bool \<Rightarrow>
   ('w \<times> tls \<times> net_future \<times> bool) option" where
  "ask_loop sys fresh blkSize name fileSize compress level req 0 w t fut success = Some (w, t, fut, success)"
| "ask_loop sys fresh blkSize name fileSize compress level req (Suc n) w t fut success =
     do {
       let blkStart = r_blkIndex req;
       (w, t, sent) \<leftarrow> clientSendRetry sys w t (requestBlk_packet name blkStart blkStart);
       if sent then do {
         (w, t, fut, success) \<leftarrow>
           blk_loop sys fresh blkSize fileSize compress level req blkStart blkStart blkStart w t fut success;
         if success then Some (w, t, fut, success)
         else ask_loop sys fresh blkSize name fileSize compress level req n w t fut success
       } else ask_loop sys fresh blkSize name fileSize compress level req n w t fut success
     }"

text \<open>
  \<open>requestBlk\<close>: over a socket of the connection. The maps are read with \<open>operator[]\<close>, which
  puts an empty entry where there is none.
\<close>

definition requestBlk ::
  "'w sys \<Rightarrow> (nat \<Rightarrow> bytes) \<Rightarrow> u64 \<Rightarrow> request \<Rightarrow> 'w \<Rightarrow> connection \<Rightarrow> tls \<Rightarrow> network_cache \<Rightarrow> bool \<Rightarrow>
   ('w \<times> connection \<times> tls \<times> network_cache \<times> net_future \<times> bool) option" where
  "requestBlk sys fresh networkBlockSize req w k t c success =
     (let index = r_fileIndex req;
          compress = (nc_compressMap c index = Some True);
          entry = (case nc_fileMap c index of None \<Rightarrow> ([], 0, 0) | Some e \<Rightarrow> e);
          c = c\<lparr>nc_compressMap := (nc_compressMap c)(index \<mapsto> compress), nc_fileMap := (nc_fileMap c)(index \<mapsto> entry)\<rparr>
      in map_option (\<lambda>(w, k, t, fut, success). (w, k, t, c, fut, success))
           (with_socket k t (\<lambda>t.
              ask_loop sys fresh networkBlockSize (fst entry) (snd (snd entry)) compress (nc_level c) req socketRetry w t FInvalid success)))"

subsection \<open>The task of a request\<close>

text \<open>
  The task of \<open>readBlock\<close>, over \<open>take\<close> (waiting for \<open>popConnection\<close>), \<open>give\<close>
  (\<open>pushConnection\<close>) and \<open>ask\<close> (\<open>requestBlk\<close>, with \<open>success\<close>). The number counts the retries left.
\<close>

fun retry_loop ::
  "('s \<Rightarrow> ('s \<times> 'c) option) \<Rightarrow> ('c \<Rightarrow> 's \<Rightarrow> 's) \<Rightarrow> ('c \<Rightarrow> 's \<Rightarrow> ('s \<times> 'f \<times> bool) option) \<Rightarrow>
   nat \<Rightarrow> 'c \<Rightarrow> 'f \<Rightarrow> bool \<Rightarrow> 's \<Rightarrow> ('s \<times> 'c \<times> 'f) option" where
  "retry_loop take_con give ask 0 sev fut success s = Some (s, sev, fut)"
| "retry_loop take_con give ask (Suc n) sev fut success s =
     (if success then Some (s, sev, fut)
      else do {
        (s, sev') \<leftarrow> take_con s;
        let s = give sev s;
        (s, fut, success) \<leftarrow> ask sev' s;
        retry_loop take_con give ask n sev' fut success s
      })"

definition read_task ::
  "('s \<Rightarrow> ('s \<times> 'c) option) \<Rightarrow> ('c \<Rightarrow> 's \<Rightarrow> 's) \<Rightarrow> ('c \<Rightarrow> 's \<Rightarrow> ('s \<times> 'f \<times> bool) option) \<Rightarrow> 's \<Rightarrow> ('s \<times> 'f) option" where
  "read_task take_con give ask s =
     do {
       (s, sev) \<leftarrow> take_con s;
       (s, fut, success) \<leftarrow> ask sev s;
       (s, sev, fut) \<leftarrow> retry_loop take_con give ask 10 sev fut success s;
       Some (give sev s, fut)
     }"

text \<open>\<open>while (!sev) sev = pool->popConnection()\<close>.\<close>

partial_function (option) wait_pop ::
  "(u64 \<Rightarrow> u64 \<Rightarrow> 'd::linorder) \<Rightarrow> 'm pool_net_scheme \<Rightarrow> con_pool \<Rightarrow> ('m pool_net_scheme \<times> con_pool \<times> con) option" where
  "wait_pop speed n Q =
     do {
       (n, Q, sev) \<leftarrow> popConnection speed n Q;
       case sev of None \<Rightarrow> wait_pop speed n Q | Some c \<Rightarrow> Some (n, Q, c)
     }"

text \<open>
  The pool, the counters and the rest of the world \<open>'x\<close>; \<open>spent\<close> gives the bytes and the time
  of the thread's last exchange (\<open>_tlSocketBytes\<close>, \<open>_tlSocketTime\<close>).
\<close>

type_synonym ('m, 'x) pool_world = "'m pool_net_scheme \<times> con_pool \<times> 'x"

definition pool_take :: "(u64 \<Rightarrow> u64 \<Rightarrow> 'd::linorder) \<Rightarrow> ('m, 'x) pool_world \<Rightarrow> (('m, 'x) pool_world \<times> con) option" where
  "pool_take speed = (\<lambda>(n, P, x). map_option (\<lambda>(n, P, c). ((n, P, x), c)) (wait_pop speed n P))"

definition pool_give :: "('x \<Rightarrow> u64 \<times> u64) \<Rightarrow> con \<Rightarrow> ('m, 'x) pool_world \<Rightarrow> ('m, 'x) pool_world" where
  "pool_give spent c = (\<lambda>(n, P, x). (n, pushConnection c (Some (spent x)) P, x))"

definition pool_ask :: "(con \<Rightarrow> 'x \<Rightarrow> ('x \<times> 'f \<times> bool) option) \<Rightarrow> con \<Rightarrow> ('m, 'x) pool_world \<Rightarrow> (('m, 'x) pool_world \<times> 'f \<times> bool) option" where
  "pool_ask ask c = (\<lambda>(n, P, x). map_option (\<lambda>(x, r). ((n, P, x), r)) (ask c x))"

definition pool_read_task ::
  "(u64 \<Rightarrow> u64 \<Rightarrow> 'd::linorder) \<Rightarrow> ('x \<Rightarrow> u64 \<times> u64) \<Rightarrow> (con \<Rightarrow> 'x \<Rightarrow> ('x \<times> 'f \<times> bool) option) \<Rightarrow>
   ('m, 'x) pool_world \<Rightarrow> (('m, 'x) pool_world \<times> 'f) option" where
  "pool_read_task speed spent ask = read_task (pool_take speed) (pool_give spent) (pool_ask ask)"

text \<open>The world of a task: the system, the connections, the thread and the cache.\<close>

type_synonym 'w net_world = "'w \<times> (con \<Rightarrow> connection) \<times> tls \<times> network_cache"

definition ask_server ::
  "'w sys \<Rightarrow> (nat \<Rightarrow> bytes) \<Rightarrow> u64 \<Rightarrow> request \<Rightarrow> con \<Rightarrow> 'w net_world \<Rightarrow> ('w net_world \<times> net_future \<times> bool) option" where
  "ask_server sys fresh networkBlockSize req c = (\<lambda>(w, K, t, nc).
     map_option (\<lambda>(w, k, t, nc, fut, success). ((w, K(c := k), t, nc), fut, success))
       (requestBlk sys fresh networkBlockSize req w (K c) t nc False))"

text \<open>
  \<open>readBlock\<close>, run by a thread of the transfer pool. A file without a pool has a NULL pointer;
  the pool is kept with its file, as the cache's map does.
\<close>

definition network_readBlock ::
  "'w sys \<Rightarrow> (nat \<Rightarrow> bytes) \<Rightarrow> (u64 \<Rightarrow> u64 \<Rightarrow> 'd::linorder) \<Rightarrow> ('w net_world \<Rightarrow> u64 \<times> u64) \<Rightarrow> u64 \<Rightarrow> request \<Rightarrow>
   'm pool_net_scheme \<times> 'w net_world \<Rightarrow> (('m pool_net_scheme \<times> 'w net_world) \<times> net_future) option" where
  "network_readBlock sys fresh speed spent networkBlockSize req = (\<lambda>(n, w, K, t, nc).
     let req = req\<lparr>r_originating := nc_level nc, r_origType := Network\<rparr>; index = r_fileIndex req
     in do {
       P \<leftarrow> nc_conPoolMap nc index;
       ((n, P, w, K, t, nc), fut) \<leftarrow>
         pool_read_task speed spent (ask_server sys fresh networkBlockSize req) (n, P, w, K, t, nc);
       Some ((n, w, K, t, setFileConnectionPool index P nc), fut)
     })"

subsection \<open>Borrowing a connection\<close>

text \<open>
  What the task relies on: taking one removes exactly it, giving it back adds it, the exchange
  leaves the pool alone; there is something to take unless the pool is empty.
\<close>

locale lender =
  fixes take_con :: "'s \<Rightarrow> ('s \<times> 'c) option"
    and give :: "'c \<Rightarrow> 's \<Rightarrow> 's"
    and ask :: "'c \<Rightarrow> 's \<Rightarrow> ('s \<times> 'f \<times> bool) option"
    and contents :: "'s \<Rightarrow> 'c multiset"
    and good :: "'s \<Rightarrow> bool"
    and members :: "'c set"
  assumes take_removes: "good s \<Longrightarrow> take_con s = Some (s', c) \<Longrightarrow> contents s = add_mset c (contents s')"
    and take_fails: "good s \<Longrightarrow> take_con s = None \<longleftrightarrow> contents s = {#}"
    and take_good: "good s \<Longrightarrow> take_con s = Some (s', c) \<Longrightarrow> good s' \<and> c \<in> members"
    and give_adds: "contents (give c s) = add_mset c (contents s)"
    and give_good: "good s \<Longrightarrow> c \<in> members \<Longrightarrow> good (give c s)"
    and ask_keeps: "ask c s = Some (s', r) \<Longrightarrow> contents s' = contents s"
    and ask_good: "good s \<Longrightarrow> ask c s = Some (s', r) \<Longrightarrow> good s'"
begin

lemma retry_keeps:
  assumes "retry_loop take_con give ask n sev fut ok s = Some (s', sev', fut')" "good s" "sev \<in> members"
  shows "add_mset sev' (contents s') = add_mset sev (contents s) \<and> good s' \<and> sev' \<in> members"
  using assms
proof (induction n arbitrary: sev fut ok s)
  case (Suc n)
  show ?case
  proof (cases ok)
    case True
    then show ?thesis using Suc.prems by simp
  next
    case False
    then obtain s1 c s2 f ok2 where st: "take_con s = Some (s1, c)" "ask c (give sev s1) = Some (s2, f, ok2)"
        "retry_loop take_con give ask n c f ok2 s2 = Some (s', sev', fut')"
      using Suc.prems(1) by (auto simp: bind_eq_Some_conv Let_def)
    have g: "good s1" "c \<in> members" using take_good [OF Suc.prems(2) st(1)] by auto
    have "good s2" by (rule ask_good [OF give_good [OF g(1) Suc.prems(3)] st(2)])
    from Suc.IH [OF st(3) this g(2)] show ?thesis
      using take_removes [OF Suc.prems(2) st(1)] ask_keeps [OF st(2)] by (simp add: give_adds add_mset_commute)
  qed
qed simp

lemma task_keeps:
  assumes "read_task take_con give ask s = Some (s', fut)" "good s"
  shows "contents s' = contents s \<and> good s'"
proof -
  obtain s1 c s2 f ok s3 c3 where st: "take_con s = Some (s1, c)" "ask c s1 = Some (s2, f, ok)"
      "retry_loop take_con give ask 10 c f ok s2 = Some (s3, c3, fut)" "s' = give c3 s3"
    using assms(1) by (auto simp: read_task_def bind_eq_Some_conv)
  have g: "good s1" "c \<in> members" using take_good [OF assms(2) st(1)] by auto
  have "good s2" by (rule ask_good [OF g(1) st(2)])
  note r = retry_keeps [OF st(3) this g(2)]
  show ?thesis
    using r take_removes [OF assms(2) st(1)] ask_keeps [OF st(2)] by (simp add: st(4) give_adds give_good)
qed

text \<open>With another connection left, the retries come to an end; without one, the first of them waits for ever.\<close>

lemma retry_ends:
  assumes total: "\<And>c s. good s \<Longrightarrow> ask c s \<noteq> None" and "good s" "sev \<in> members"
  shows "retry_loop take_con give ask n sev fut ok s = None \<longleftrightarrow> \<not> ok \<and> 0 < n \<and> contents s = {#}"
  using assms(2,3)
proof (induction n arbitrary: sev fut ok s)
  case (Suc n)
  show ?case
  proof (cases "ok \<or> contents s = {#}")
    case True
    then show ?thesis using take_fails [OF Suc.prems(1)] by auto
  next
    case False
    then obtain s1 c where st: "take_con s = Some (s1, c)" using take_fails [OF Suc.prems(1)] by auto
    have g: "good (give sev s1)" "c \<in> members"
      using take_good [OF Suc.prems(1) st] give_good Suc.prems(2) by auto
    obtain s2 f ok2 where a: "ask c (give sev s1) = Some (s2, f, ok2)" using total [OF g(1), of c] by (cases "ask c (give sev s1)") auto
    have "contents s2 \<noteq> {#}" using ask_keeps [OF a] by (simp add: give_adds)
    then show ?thesis using Suc.IH [OF ask_good [OF g(1) a] g(2)] st a False by simp
  qed
qed simp

lemma task_ends_iff:
  assumes total: "\<And>c s. good s \<Longrightarrow> ask c s \<noteq> None" and "good s"
  shows "read_task take_con give ask s = None \<longleftrightarrow>
    contents s = {#} \<or> (\<exists>s1 c s2 fut. take_con s = Some (s1, c) \<and> contents s = {#c#} \<and> ask c s1 = Some (s2, fut, False))"
proof (cases "take_con s")
  case None
  then show ?thesis using take_fails [OF assms(2)] by (simp add: read_task_def)
next
  case (Some r)
  obtain s1 c where st: "take_con s = Some (s1, c)" using Some by (cases r) auto
  have g: "good s1" "c \<in> members" using take_good [OF assms(2) st] by auto
  obtain s2 f ok where a: "ask c s1 = Some (s2, f, ok)" using total [OF g(1), of c] by (cases "ask c s1") auto
  have "read_task take_con give ask s = None \<longleftrightarrow> retry_loop take_con give ask 10 c f ok s2 = None"
    by (cases "retry_loop take_con give ask 10 c f ok s2") (simp_all add: read_task_def st a split: prod.split)
  then show ?thesis
    using retry_ends [OF total ask_good [OF g(1) a] g(2), of 10 f ok] take_removes [OF assms(2) st] ask_keeps [OF a] st a by auto
qed

text \<open>When no exchange succeeds, the task ends with what the last of them gave.\<close>

lemma task_gives_up:
  assumes "\<And>c s. good s \<Longrightarrow> \<exists>s'. ask c s = Some (s', fut, False)" and "good s" "1 < size (contents s)"
  shows "\<exists>s'. read_task take_con give ask s = Some (s', fut)"
proof -
  have total: "ask c s \<noteq> None" if "good s" for c s using assms(1) [OF that, of c] by auto
  have "contents s \<noteq> {#} \<and> contents s \<noteq> {#c#}" for c using assms(3) by auto
  then have "read_task take_con give ask s \<noteq> None" using task_ends_iff [OF total assms(2)] by blast
  then obtain s' f where r: "read_task take_con give ask s = Some (s', f)" by auto
  have last: "f' = fut"
    if "retry_loop take_con give ask n sev fut ok s = Some (s', sev', f')" "good s" "sev \<in> members" for n sev ok s s' sev' f'
    using that
  proof (induction n arbitrary: sev ok s)
    case (Suc n)
    show ?case
    proof (cases ok)
      case False
      then obtain s1 c s2 f2 ok2 where st: "take_con s = Some (s1, c)" "ask c (give sev s1) = Some (s2, f2, ok2)"
          "retry_loop take_con give ask n c f2 ok2 s2 = Some (s', sev', f')"
        using Suc.prems(1) by (auto simp: bind_eq_Some_conv Let_def)
      have g: "good (give sev s1)" "c \<in> members"
        using take_good [OF Suc.prems(2) st(1)] give_good Suc.prems(3) by auto
      have "f2 = fut" using assms(1) [OF g(1), of c] st(2) by auto
      then show ?thesis using Suc.IH st(3) ask_good [OF g(1) st(2)] g(2) by blast
    qed (use Suc.prems in simp)
  qed simp
  obtain s1 c s2 f1 ok s3 c3 where st: "take_con s = Some (s1, c)" "ask c s1 = Some (s2, f1, ok)"
      "retry_loop take_con give ask 10 c f1 ok s2 = Some (s3, c3, f)"
    using r by (auto simp: read_task_def bind_eq_Some_conv)
  have g: "good s1" "c \<in> members" using take_good [OF assms(2) st(1)] by auto
  have "f1 = fut" using assms(1) [OF g(1), of c] st(2) by auto
  then have "f = fut" using last st(3) ask_good [OF g(1) st(2)] g(2) by blast
  then show ?thesis using r by blast
qed

end

definition is_counted :: "'m pool_net_scheme \<Rightarrow> con \<Rightarrow> bool" where
  "is_counted n c \<longleftrightarrow> n_consecCnt n (addrport (snd c)) \<noteq> None \<and> n_useCnt n (addrport (snd c)) \<noteq> None"

definition pool_good :: "con set \<Rightarrow> ('m, 'x) pool_world \<Rightarrow> bool" where
  "pool_good C = (\<lambda>(n, P, x). (\<forall>c \<in> C. is_counted n c) \<and> snd ` set (cp_mq P) \<subseteq> C)"

lemma wait_pop_empty: "cp_mq P = [] \<Longrightarrow> wait_pop speed n P = None"
proof -
  have "wait_pop speed n P = Some r \<Longrightarrow> cp_mq P \<noteq> []" for r
  proof (erule wait_pop.raw_induct [where P = "\<lambda>speed n P r. cp_mq P \<noteq> []", rotated])
    fix wp :: "(u64 \<Rightarrow> u64 \<Rightarrow> 'b) \<Rightarrow> 'a pool_net_scheme \<Rightarrow> con_pool \<Rightarrow> ('a pool_net_scheme \<times> con_pool \<times> con) option"
    fix speed n P r
    assume ih: "\<And>speed n P r. wp speed n P = Some r \<Longrightarrow> cp_mq P \<noteq> []"
      and r: "Option.bind (popConnection speed n P) (\<lambda>(n, P, sev). case sev of None \<Rightarrow> wp speed n P | Some c \<Rightarrow> Some (n, P, c)) = Some r"
    show "cp_mq P \<noteq> []"
    proof
      assume e: "cp_mq P = []"
      then have "wp speed n P = Some r" using r by (simp add: popConnection_def)
      then show False using ih e by blast
    qed
  qed
  then show "cp_mq P = [] \<Longrightarrow> wait_pop speed n P = None" by (cases "wait_pop speed n P") auto
qed

lemma wait_pop_takes:
  fixes speed :: "u64 \<Rightarrow> u64 \<Rightarrow> 'd::linorder"
  assumes "known n P" "cp_mq P \<noteq> []"
  shows "\<exists>n' P' c. wait_pop speed n P = Some (n', P', c) \<and> cons_of P = add_mset c (cons_of P') \<and>
    snd ` set (cp_mq P) = insert c (snd ` set (cp_mq P')) \<and> (\<forall>d. is_counted n d \<longrightarrow> is_counted n' d) \<and>
    P' = P\<lparr>cp_mq := cp_mq P'\<rparr>"
proof -
  obtain n' pre r c post where p: "popConnection speed n P = Some (n', P\<lparr>cp_mq := pre @ post\<rparr>, Some c)"
      "cp_mq P = pre @ (r, c) # post" "n_consecCnt n' = (n_consecCnt n)(addrport (snd c) \<mapsto> n_curCnt n + 1)"
      "n_useCnt n' = (n_useCnt n)(addrport (snd c) \<mapsto> the (n_useCnt n (addrport (snd c))) + 1)"
    using popConnection_first [OF assms, of speed] by (elim exE conjE) (rule that)
  have "wait_pop speed n P = Some (n', P\<lparr>cp_mq := pre @ post\<rparr>, c)" by (subst wait_pop.simps) (simp add: p(1))
  then show ?thesis
    using p(2-4) by (intro exI [of _ n'] exI [of _ "P\<lparr>cp_mq := pre @ post\<rparr>"] exI [of _ c]) (auto simp: cons_of_def is_counted_def)
qed

lemma pool_good_known: "pool_good C (n, P, x) \<Longrightarrow> known n P"
  by (auto simp: pool_good_def known_def is_counted_def)

lemma pool_good_start: "known n P \<Longrightarrow> pool_good (snd ` set (cp_mq P)) (n, P, x)"
  by (auto simp: pool_good_def known_def is_counted_def)

lemma cons_of_empty: "cons_of P = {#} \<longleftrightarrow> cp_mq P = []"
  by (simp add: cons_of_def)

interpretation lend: lender "pool_take speed" "pool_give spent" "pool_ask ask"
  "\<lambda>(n, P, x). cons_of P" "pool_good C" C
  for speed :: "u64 \<Rightarrow> u64 \<Rightarrow> 'd::linorder" and spent :: "'x \<Rightarrow> u64 \<times> u64"
    and ask :: "con \<Rightarrow> 'x \<Rightarrow> ('x \<times> 'f \<times> bool) option" and C :: "con set"
proof
  fix s s' :: "('m, 'x) pool_world" and c
  assume g: "pool_good C s"
  obtain n P x where s: "s = (n, P, x)" by (cases s)
  have k: "known n P" using g unfolding s by (rule pool_good_known)
  show "pool_take speed s = None \<longleftrightarrow> (case s of (n, P, x) \<Rightarrow> cons_of P) = {#}"
  proof (cases "cp_mq P = []")
    case True
    then show ?thesis by (simp add: s pool_take_def cons_of_empty wait_pop_empty)
  next
    case False
    then show ?thesis using wait_pop_takes [OF k False, of speed] by (auto simp: s pool_take_def cons_of_empty)
  qed
  assume t: "pool_take speed s = Some (s', c)"
  then have "cp_mq P \<noteq> []" by (auto simp: s pool_take_def wait_pop_empty)
  from wait_pop_takes [OF k this, of speed] obtain n' P' where w: "wait_pop speed n P = Some (n', P', c)" "s' = (n', P', x)"
      "cons_of P = add_mset c (cons_of P')" "snd ` set (cp_mq P) = insert c (snd ` set (cp_mq P'))"
      "\<forall>d. is_counted n d \<longrightarrow> is_counted n' d"
    using t by (auto simp: s pool_take_def)
  show "(case s of (n, P, x) \<Rightarrow> cons_of P) = add_mset c (case s' of (n, P, x) \<Rightarrow> cons_of P)"
    using w(2,3) s by simp
  show "pool_good C s' \<and> c \<in> C" using g w(2,4,5) by (auto simp: s pool_good_def)
next
  fix s s' :: "('m, 'x) pool_world" and c r
  show "(case pool_give spent c s of (n, P, x) \<Rightarrow> cons_of P) = add_mset c (case s of (n, P, x) \<Rightarrow> cons_of P)"
    by (cases s) (simp add: pool_give_def)
  show "pool_good C (pool_give spent c s)" if "pool_good C s" "c \<in> C"
    using that by (cases s) (auto simp: pool_good_def pool_give_def pushConnection_def split: prod.splits)
  show "(case s' of (n, P, x) \<Rightarrow> cons_of P) = (case s of (n, P, x) \<Rightarrow> cons_of P)" if "pool_ask ask c s = Some (s', r)"
    using that by (cases s) (auto simp: pool_ask_def)
  show "pool_good C s'" if "pool_good C s" "pool_ask ask c s = Some (s', r)"
    using that by (cases s) (auto simp: pool_ask_def pool_good_def)
qed

lemma pool_ask_total: "(\<And>c x. ask c x \<noteq> None) \<Longrightarrow> pool_ask ask c s \<noteq> None"
  by (cases s) (simp add: pool_ask_def)

lemma one_connection: "cons_of P = {#c#} \<longleftrightarrow> map snd (cp_mq P) = [c]"
  unfolding cons_of_def by (rule mset_single_iff)

lemma first_exchange_iff:
  fixes speed :: "u64 \<Rightarrow> u64 \<Rightarrow> 'd::linorder"
  assumes "known n P"
  shows "(\<exists>s1 c s2 fut. pool_take speed (n, P, x) = Some (s1, c) \<and> cons_of P = {#c#} \<and> pool_ask ask c s1 = Some (s2, fut, False))
    \<longleftrightarrow> (\<exists>c x' fut. map snd (cp_mq P) = [c] \<and> ask c x = Some (x', fut, False))" (is "?l \<longleftrightarrow> ?r")
proof
  assume ?l
  then obtain s1 c s2 fut where l: "pool_take speed (n, P, x) = Some (s1, c)" "cons_of P = {#c#}" "pool_ask ask c s1 = Some (s2, fut, False)"
    by (elim exE conjE) (rule that)
  obtain n1 P1 where s1: "s1 = (n1, P1, x)" using l(1) by (auto simp: pool_take_def)
  obtain x' where "ask c x = Some (x', fut, False)" using l(3) by (auto simp: s1 pool_ask_def)
  moreover have "map snd (cp_mq P) = [c]" using l(2) unfolding one_connection .
  ultimately show ?r by (intro exI conjI)
next
  assume ?r
  then obtain c x' fut where c: "map snd (cp_mq P) = [c]" "ask c x = Some (x', fut, False)"
    by (elim exE conjE) (rule that)
  then have "cp_mq P \<noteq> []" by auto
  from wait_pop_takes [OF assms this, of speed] obtain n' P' d where w: "wait_pop speed n P = Some (n', P', d)"
      "cons_of P = add_mset d (cons_of P')" by (elim exE conjE) (rule that)
  have one: "cons_of P = {#c#}" using c(1) unfolding one_connection .
  then have "d = c" using w(2) by simp
  then have "pool_take speed (n, P, x) = Some ((n', P', x), c)" "pool_ask ask c (n', P', x) = Some ((n', P', x'), fut, False)"
    using w(1) c(2) by (simp_all add: pool_take_def pool_ask_def)
  then show ?l using one by (intro exI conjI)
qed

lemma read_task_ends_iff:
  fixes speed :: "u64 \<Rightarrow> u64 \<Rightarrow> 'd::linorder"
  assumes "known n P" and "\<And>c x. ask c x \<noteq> None"
  shows "pool_read_task speed spent ask (n, P, x) = None \<longleftrightarrow>
      cp_mq P = [] \<or> (\<exists>c x' fut. map snd (cp_mq P) = [c] \<and> ask c x = Some (x', fut, False))"
proof -
  have "pool_read_task speed spent ask (n, P, x) = None \<longleftrightarrow> cons_of P = {#} \<or>
      (\<exists>s1 c s2 fut. pool_take speed (n, P, x) = Some (s1, c) \<and> cons_of P = {#c#} \<and> pool_ask ask c s1 = Some (s2, fut, False))"
    using lend.task_ends_iff [where speed = speed and spent = spent and ask = ask, OF pool_ask_total [OF assms(2)] pool_good_start [OF assms(1)]]
    unfolding pool_read_task_def prod.case .
  then show ?thesis unfolding first_exchange_iff [OF assms(1)] cons_of_empty .
qed

lemma read_task_keeps:
  fixes speed :: "u64 \<Rightarrow> u64 \<Rightarrow> 'd::linorder"
  assumes "known n P" "pool_read_task speed spent ask (n, P, x) = Some ((n', P', x'), fut)"
  shows "cons_of P' = cons_of P"
  using lend.task_keeps [OF assms(2) [unfolded pool_read_task_def] pool_good_start [OF assms(1)]] by simp


text \<open>
  The first connection works, the second does not. With both of them in the pool the task ends;
  with the second alone it does not.
\<close>

definition demo_ask :: "con \<Rightarrow> nat \<Rightarrow> (nat \<times> net_future \<times> bool) option" where
  "demo_ask c x = Some (x + 1, FInvalid, fst c = 1)"


text \<open>
  a block that no server delivers ends the reader. When every exchange fails, the task gives
  up after ten retries, with the future of the last exchange, which has no state: whoever waits
  for the block gets no request, not even an empty one, but an exception.
\<close>

theorem gives_up_without_request:
  fixes speed :: "u64 \<Rightarrow> u64 \<Rightarrow> 'd::linorder"
  assumes "known n P" "1 < length (cp_mq P)" and fails: "\<And>c x. \<exists>x'. ask c x = Some (x', FInvalid, False)"
  shows "\<exists>s. pool_read_task speed spent ask (n, P, x) = Some (s, FInvalid) \<and> fut_get fresh lz4 level FInvalid = None"
proof -
  let ?C = "snd ` set (cp_mq P)"
  have g: "pool_good ?C (n, P, x)" using assms(1) by (rule pool_good_start)
  have f: "\<exists>s'. pool_ask ask c s = Some (s', FInvalid, False)" for c and s :: "('a, 'b) pool_world"
  proof (cases s)
    case (fields n P x)
    obtain x' where "ask c x = Some (x', FInvalid, False)" using fails by blast
    then show ?thesis by (simp add: fields pool_ask_def)
  qed
  have "1 < size (case (n, P, x) of (n, P, x) \<Rightarrow> cons_of P)" using assms(2) by (simp add: cons_of_def)
  then show ?thesis
    using lend.task_gives_up [OF f g, of speed spent] unfolding pool_read_task_def by (simp add: fut_get_def)
qed

definition dead_ask :: "con \<Rightarrow> nat \<Rightarrow> (nat \<times> net_future \<times> bool) option" where
  "dead_ask c x = Some (x + 1, FInvalid, False)"

theorem gives_up_without_request_witness:
  "\<exists>s. pool_read_task (\<lambda>r a. unat r + unat a) (\<lambda>_. (1, 1)) dead_ask (demo_net, demo_con_pool, 0) = Some (s, FInvalid)
     \<and> fut_get (\<lambda>n. replicate n 0) (\<lambda>d n. Some d) 2 FInvalid = None"
  by (rule gives_up_without_request [OF demo_known]) (simp_all add: demo_con_pool_def dead_ask_def)

subsection \<open>A block that arrives\<close>

lemma clientSendRetry_all:
  assumes "0 \<le> tl_socket t" "rsend sys w (tl_socket t) m = (w1, Sent (length m))" "m \<noteq> []"
  shows "clientSendRetry sys w t m = Some (w1, t, True)"
proof -
  have "send_loop sys w1 (tl_socket t) m (length m) 0 = (w1, int (length m))" by (subst send_loop.simps) simp
  then have "send_loop sys w (tl_socket t) m 0 0 = (w1, int (length m))"
    using assms(2,3) by (subst send_loop.simps) simp
  then show ?thesis using assms(1) by (simp add: clientSendRetry_def socketRetry_def sendMsg_def)
qed

lemma requestBlk_packet_nonempty: "requestBlk_packet name i j \<noteq> []"
  by (simp add: requestBlk_packet_def fillMsgHeader_def wire_simps)

definition block_future :: "bool \<Rightarrow> nat \<Rightarrow> request \<Rightarrow> bytes \<Rightarrow> u32 \<Rightarrow> u32 \<Rightarrow> net_future" where
  "block_future compress level req d dataSize sz = (if compress then FTask req d dataSize sz else FValue (got_block level req (DBuf d)))"

lemma ask_loop_delivers:
  assumes sock: "0 \<le> tl_socket t" "stream_recv sys pending (tl_socket t)" "\<And>n. length (fresh n) = n"
    and sent: "rsend sys w (tl_socket t) (requestBlk_packet name (r_blkIndex req) (r_blkIndex req))
      = (w1, Sent (length (requestBlk_packet name (r_blkIndex req) (r_blkIndex req))))"
    and answer: "pending w1 = sendData_packet name (r_blkIndex req) (length m) @ name @ [0] @ m @ rest"
    and len: "length name < 2 ^ 31" "0 < length m" "length m \<le> unat (ucast blkSize :: u32)" "unat (r_blkIndex req) + 1 < 2 ^ 32"
  shows "\<exists>w' d sz. ask_loop sys fresh blkSize name fileSize compress level req socketRetry w t FInvalid False
      = Some (w', t, block_future compress level req d (of_nat (length m)) sz, True) \<and> take (length m) d = m \<and> pending w' = rest"
proof -
  let ?b = "r_blkIndex req"
  obtain w2 where r: "recSendBlkMsg sys fresh w1 t None (ucast blkSize)
      = Some (w2, t, name @ [0], Some (m @ drop (length m) (fresh (unat (ucast blkSize :: u32)))), ?b, of_nat (length m))" "pending w2 = rest"
    using recSendBlkMsg_stream [OF sock(2,1,3) answer len(1,3)] by blast
  have "unat (of_nat (length m) :: u32) = length m"
    using len(3) unat_bound [of "ucast blkSize :: u32"] by (intro unat_of_nat_small) simp
  then have nz: "(of_nat (length m) :: u32) \<noteq> 0" using len(2) by auto
  have "unat (?b + 1) = unat ?b + 1" using len(4) unat_inc_small [of ?b] by simp
  then have past: "\<not> ?b + 1 \<le> ?b" by (simp add: word_le_nat_alt)
  have again: "blk_loop sys fresh blkSize fileSize compress level req ?b ?b (?b + 1) w t fut True = Some (w, t, fut, True)"
    for w fut by (subst blk_loop.simps) (simp add: past)
  let ?d = "m @ drop (length m) (fresh (unat (ucast blkSize :: u32)))"
  have "\<exists>sz. ask_loop sys fresh blkSize name fileSize compress level req socketRetry w t FInvalid False
      = Some (w2, t, block_future compress level req ?d (of_nat (length m)) sz, True)"
    using clientSendRetry_all [OF sock(1) sent requestBlk_packet_nonempty] r nz
    by (simp add: socketRetry_def blk_loop.simps [of _ _ _ _ _ _ _ _ _ ?b] again Let_def block_future_def)
  moreover have "take (length m) ?d = m" by simp
  ultimately show ?thesis using r(2) by blast
qed

lemma requestBlk_delivers:
  assumes lock: "lock_connection k t = Some (k1, t1)" "0 \<le> tl_socket t1" "stream_recv sys pending (tl_socket t1)" "\<And>n. length (fresh n) = n"
    and sent: "rsend sys w (tl_socket t1) (requestBlk_packet name (r_blkIndex req) (r_blkIndex req))
      = (w1, Sent (length (requestBlk_packet name (r_blkIndex req) (r_blkIndex req))))"
    and answer: "pending w1 = sendData_packet name (r_blkIndex req) (length m) @ name @ [0] @ m @ rest"
    and len: "length name < 2 ^ 31" "0 < length m" "length m \<le> unat (ucast blkSize :: u32)" "unat (r_blkIndex req) + 1 < 2 ^ 32"
    and entry: "nc_fileMap c (r_fileIndex req) = Some (name, bs, fs)"
  shows "\<exists>w' k' t' c' d sz. requestBlk sys fresh blkSize req w k t c False
      = Some (w', k', t', c', block_future (nc_compressMap c (r_fileIndex req) = Some True) (nc_level c) req d (of_nat (length m)) sz, True)
    \<and> take (length m) d = m \<and> pending w' = rest \<and> nc_conPoolMap c' = nc_conPoolMap c"
proof -
  let ?comp = "nc_compressMap c (r_fileIndex req) = Some True"
  obtain w' d sz where a: "ask_loop sys fresh blkSize name fs ?comp (nc_level c) req socketRetry w t1 FInvalid False
      = Some (w', t1, block_future ?comp (nc_level c) req d (of_nat (length m)) sz, True)" "take (length m) d = m" "pending w' = rest"
    using ask_loop_delivers [OF lock(2-4) sent answer len] by blast
  obtain k' t' n where u: "unlock_connection k1 t1 = (k', t', n)" by (cases "unlock_connection k1 t1")
  show ?thesis
    using a by (simp add: requestBlk_def Let_def with_socket_def lock(1) entry u) blast
qed

text \<open>
  A connection on which the message \<open>msg\<close> comes back when a block of the file is asked for.
\<close>

definition answers_with ::
  "'w sys \<Rightarrow> ('w \<Rightarrow> bytes) \<Rightarrow> 'w \<Rightarrow> tls \<Rightarrow> connection \<Rightarrow> bytes \<Rightarrow> u32 \<Rightarrow> bytes \<Rightarrow> bool" where
  "answers_with sys pending w t k name blk msg \<longleftrightarrow>
     (\<exists>k1 t1 w1. lock_connection k t = Some (k1, t1) \<and> 0 \<le> tl_socket t1 \<and> stream_recv sys pending (tl_socket t1) \<and>
        rsend sys w (tl_socket t1) (requestBlk_packet name blk blk) = (w1, Sent (length (requestBlk_packet name blk blk))) \<and>
        pending w1 = msg)"

lemma network_readBlock_delivers:
  fixes speed :: "u64 \<Rightarrow> u64 \<Rightarrow> 'd::linorder"
  assumes pool: "nc_conPoolMap nc (r_fileIndex req) = Some P" "known n P" "cp_mq P \<noteq> []"
    and conns: "\<forall>c \<in> snd ` set (cp_mq P). answers_with sys pending w t (K c) name (r_blkIndex req)
      (sendData_packet name (r_blkIndex req) (length m) @ name @ [0] @ m @ rest)"
    and fresh: "\<And>n. length (fresh n) = n"
    and len: "length name < 2 ^ 31" "0 < length m" "length m \<le> unat (ucast blkSize :: u32)" "unat (r_blkIndex req) + 1 < 2 ^ 32"
    and entry: "nc_fileMap nc (r_fileIndex req) = Some (name, bs, fs)"
  shows "\<exists>n' w' K' t' nc' req' d sz P'. network_readBlock sys fresh speed spent blkSize req (n, w, K, t, nc)
      = Some ((n', w', K', t', nc'), block_future (nc_compressMap nc (r_fileIndex req) = Some True) (nc_level nc) req' d (of_nat (length m)) sz)
    \<and> take (length m) d = m \<and> pending w' = rest \<and> nc_conPoolMap nc' (r_fileIndex req) = Some P' \<and> cons_of P' = cons_of P"
proof -
  let ?r = "req\<lparr>r_originating := nc_level nc, r_origType := Network\<rparr>"
  obtain n1 P1 c where w: "wait_pop speed n P = Some (n1, P1, c)" "cons_of P = add_mset c (cons_of P1)"
      "snd ` set (cp_mq P) = insert c (snd ` set (cp_mq P1))"
    using wait_pop_takes [OF pool(2,3), of speed] by (elim exE conjE) (rule that)
  have "c \<in> snd ` set (cp_mq P)" unfolding w(3) by simp
  then obtain k1 t1 w1 where a: "lock_connection (K c) t = Some (k1, t1)" "0 \<le> tl_socket t1" "stream_recv sys pending (tl_socket t1)"
      "rsend sys w (tl_socket t1) (requestBlk_packet name (r_blkIndex ?r) (r_blkIndex ?r))
        = (w1, Sent (length (requestBlk_packet name (r_blkIndex ?r) (r_blkIndex ?r))))"
      "pending w1 = sendData_packet name (r_blkIndex ?r) (length m) @ name @ [0] @ m @ rest"
    using conns unfolding answers_with_def by fastforce
  have e: "nc_fileMap nc (r_fileIndex ?r) = Some (name, bs, fs)" "unat (r_blkIndex ?r) + 1 < 2 ^ 32"
    using entry len(4) by simp_all
  obtain w' k' t' c' d sz where rb: "requestBlk sys fresh blkSize ?r w (K c) t nc False
      = Some (w', k', t', c', block_future (nc_compressMap nc (r_fileIndex ?r) = Some True) (nc_level nc) ?r d (of_nat (length m)) sz, True)"
      "take (length m) d = m" "pending w' = rest"
    using requestBlk_delivers [OF a(1-3) fresh a(4,5) len(1-3) e(2,1)] by (elim exE conjE) (rule that)
  define P' where "P' = pushConnection c (Some (spent (w', K(c := k'), t', c'))) P1"
  have "network_readBlock sys fresh speed spent blkSize req (n, w, K, t, nc)
      = Some ((n1, w', K(c := k'), t', setFileConnectionPool (r_fileIndex req) P' c'),
          block_future (nc_compressMap nc (r_fileIndex req) = Some True) (nc_level nc) ?r d (of_nat (length m)) sz)"
    using rb(1) w(1)
    by (simp add: network_readBlock_def pool(1) pool_read_task_def read_task_def pool_take_def pool_ask_def ask_server_def
        pool_give_def P'_def eval_nat_numeral Let_def)
  moreover have "cons_of P' = cons_of P" by (simp add: P'_def w(2))
  moreover have "nc_conPoolMap (setFileConnectionPool (r_fileIndex req) P' c') (r_fileIndex req) = Some P'"
    by (simp add: setFileConnectionPool_def)
  ultimately show ?thesis using rb(2,3) by blast
qed


text \<open>Every request is answered with the message \<open>msg\<close>.\<close>

definition answer_sys :: "bytes \<Rightarrow> bytes sys" where
  "answer_sys msg = wire_sys\<lparr>rsend := (\<lambda>w s m. (w @ msg, Sent (length m)))\<rparr>"

lemma answer_sys_answers:
  assumes "k_isServer k = False" "k_sockets k = 5 # ss"
  shows "answers_with (answer_sys msg) (\<lambda>w. w) [] t k name blk msg"
  using assms by (simp add: answers_with_def lock_connection_def answer_sys_def stream_recv_def wire_sys_def)

definition demo_client :: connection where
  "demo_client = new_client\<lparr>k_sockets := [5]\<rparr>"


end
