(* ===== verification/FileLocks.thy ===== *)
theory FileLocks
  imports RWLock
begin

text \<open>
  The locks that processes on several machines share through a file system:

  \<^item> \<open>FileLinkReaderWriterLock\<close> (\<^verbatim>\<open>src/caches/bounded/FileLinkReaderWriterLock.cpp\<close>), a hard link;
  \<^item> \<open>FcntlBoundedReaderWriterLock\<close> (\<^verbatim>\<open>src/caches/FcntlReaderWriterLock.cpp\<close>), counters in the memory
    of a machine and record locks of \<open>fcntl\<close> between processes.

  A step is one access of a thread to what is shared; the flag \<open>fails\<close> says that the system call
  of the step fails though it could succeed. Entries of a lock do not affect each other (their
  links, counters and record ranges are disjoint), so each model is of one entry.
\<close>

subsection \<open>Threads and tokens\<close>

inductive lk_step ::
  "(nat \<Rightarrow> bool \<Rightarrow> 'm \<Rightarrow> 'p \<Rightarrow> 'm \<times> 'p) \<Rightarrow> ('o \<Rightarrow> 'p \<Rightarrow> 'p option) \<Rightarrow> ('o \<Rightarrow> bool) \<Rightarrow>
   'm \<times> 'p list \<Rightarrow> 'm \<times> 'p list \<Rightarrow> bool"
  for step :: "nat \<Rightarrow> bool \<Rightarrow> 'm \<Rightarrow> 'p \<Rightarrow> 'm \<times> 'p" and call :: "'o \<Rightarrow> 'p \<Rightarrow> 'p option"
    and allowed :: "'o \<Rightarrow> bool" where
  LCall: "i < length ps \<Longrightarrow> allowed opn \<Longrightarrow> call opn (ps ! i) = Some p \<Longrightarrow>
    lk_step step call allowed (m, ps) (m, ps[i := p])"
| LRun: "i < length ps \<Longrightarrow> step i fails m (ps ! i) = (m', p) \<Longrightarrow>
    lk_step step call allowed (m, ps) (m', ps[i := p])"

inductive_cases lk_stepE: "lk_step step call allowed (m, ps) t"

text \<open>A computed run: thread, the call it makes (or none: its next access), whether that fails.\<close>

fun lk_run ::
  "(nat \<Rightarrow> bool \<Rightarrow> 'm \<Rightarrow> 'p \<Rightarrow> 'm \<times> 'p) \<Rightarrow> ('o \<Rightarrow> 'p \<Rightarrow> 'p option) \<Rightarrow> (nat \<times> 'o option \<times> bool) list \<Rightarrow>
   'm \<times> 'p list \<Rightarrow> ('m \<times> 'p list) option" where
  "lk_run step call [] s = Some s"
| "lk_run step call ((i, opn, fails) # es) (m, ps) =
     (if i < length ps
      then case opn of
          None \<Rightarrow> (let (m', p) = step i fails m (ps ! i) in lk_run step call es (m', ps[i := p]))
        | Some r \<Rightarrow> (case call r (ps ! i) of None \<Rightarrow> None | Some p \<Rightarrow> lk_run step call es (m, ps[i := p]))
      else None)"

lemma lk_run_steps:
  "lk_run step call es s = Some t \<Longrightarrow> \<forall>(i, r, f) \<in> set es. (\<forall>q. r = Some q \<longrightarrow> allowed q) \<Longrightarrow>
     (lk_step step call allowed)\<^sup>*\<^sup>* s t"
proof (induction step call es s rule: lk_run.induct)
  case (2 step call i opn fails es m ps)
  have i: "i < length ps" using 2(3) by (simp split: if_splits)
  have al: "\<forall>(i, r, f) \<in> set es. (\<forall>q. r = Some q \<longrightarrow> allowed q)" using 2(4) by auto
  show ?case
  proof (cases opn)
    case None
    obtain m' p where s: "step i fails m (ps ! i) = (m', p)" by fastforce
    have r: "lk_run step call es (m', ps[i := p]) = Some t" using 2(3) None i s by simp
    have st: "lk_step step call allowed (m, ps) (m', ps[i := p])"
      by (rule lk_step.LRun [where fails = fails]) (simp_all add: i s)
    show ?thesis by (rule converse_rtranclp_into_rtranclp [OF st 2(1) [OF i None s [symmetric] refl r al]])
  next
    case (Some r)
    obtain p where c: "call r (ps ! i) = Some p" "lk_run step call es (m, ps[i := p]) = Some t"
      using 2(3) Some i by (auto split: option.splits)
    have "allowed r" using 2(4) Some by auto
    then have st: "lk_step step call allowed (m, ps) (m, ps[i := p])"
      by (intro lk_step.LCall [where opn = r]) (simp_all add: i c(1))
    show ?thesis by (rule converse_rtranclp_into_rtranclp [OF st 2(2) [OF i Some c(1) c(2) al]])
  qed
qed simp

text \<open>
  What a lock needs that hangs on one token (a link, a directory, a flag): a thread gets inside
  by taking the free token and frees it when it leaves, and no one else touches it.
\<close>

locale token =
  fixes step :: "nat \<Rightarrow> bool \<Rightarrow> 'm \<Rightarrow> 'p \<Rightarrow> 'm \<times> 'p"
    and call :: "'o \<Rightarrow> 'p \<Rightarrow> 'p option"
    and free :: "'m \<Rightarrow> bool"
    and inside :: "nat \<Rightarrow> 'p \<Rightarrow> bool"
  assumes takes: "step i f m p = (m', p') \<Longrightarrow> \<not> inside i p \<Longrightarrow> inside i p' \<Longrightarrow> free m \<and> \<not> free m'"
    and gives: "step i f m p = (m', p') \<Longrightarrow> inside i p \<Longrightarrow> \<not> inside i p' \<Longrightarrow> free m'"
    and keeps: "step i f m p = (m', p') \<Longrightarrow> inside i p' = inside i p \<Longrightarrow> free m' = free m"
    and calls: "call opn p = Some p' \<Longrightarrow> inside i p' = inside i p"

text \<open>The token is free when no one is inside, and else one thread is.\<close>

definition one_inside :: "('m \<Rightarrow> bool) \<Rightarrow> (nat \<Rightarrow> 'p \<Rightarrow> bool) \<Rightarrow> 'm \<times> 'p list \<Rightarrow> bool" where
  "one_inside free inside s \<longleftrightarrow>
     (case s of (m, ps) \<Rightarrow>
        if free m then \<forall>i < length ps. \<not> inside i (ps ! i)
        else \<exists>i < length ps. inside i (ps ! i) \<and> (\<forall>j < length ps. inside j (ps ! j) \<longrightarrow> j = i))"

context token begin

lemma one_inside_step:
  assumes "lk_step step call allowed s t" "one_inside free inside s"
  shows "one_inside free inside t"
  using assms
proof (cases rule: lk_step.cases)
  case (LCall i ps opn p m)
  have "inside i p = inside i (ps ! i)" by (rule calls [OF LCall(5)])
  then have "inside j (ps[i := p] ! j) = inside j (ps ! j)" for j using LCall(3) by (cases "j = i") auto
  then show ?thesis using assms(2) LCall(1,2) by (simp add: one_inside_def)
next
  case (LRun i ps fails m m' p)
  have oth: "inside j (ps[i := p] ! j) = inside j (ps ! j)" if "j \<noteq> i" for j using that by simp
  have own: "inside i (ps[i := p] ! i) = inside i p" using LRun(3) by simp
  consider (enter) "\<not> inside i (ps ! i)" "inside i p" | (leave) "inside i (ps ! i)" "\<not> inside i p"
    | (same) "inside i p = inside i (ps ! i)" by blast
  then show ?thesis
  proof cases
    case enter
    have f: "free m" "\<not> free m'" using takes [OF LRun(4) enter] by blast+
    have "j = i" if "j < length ps" "inside j (ps[i := p] ! j)" for j
      using assms(2) LRun(1) f(1) oth [of j] that unfolding one_inside_def by (cases "j = i") auto
    then show ?thesis using f(2) LRun(2,3) own enter(2) unfolding one_inside_def by auto
  next
    case leave
    have "free m'" by (rule gives [OF LRun(4) leave])
    moreover have "\<not> inside j (ps[i := p] ! j)" if "j < length ps" for j
    proof (cases "j = i")
      case False
      have "\<not> inside j (ps ! j)"
        using assms(2) LRun(1,3) leave(1) that False unfolding one_inside_def by (auto split: if_splits)
      then show ?thesis using oth [OF False] by simp
    qed (use own leave in simp)
    ultimately show ?thesis using LRun(2) unfolding one_inside_def by simp
  next
    case same
    have "free m' = free m" by (rule keeps [OF LRun(4) same])
    moreover have "inside j (ps[i := p] ! j) = inside j (ps ! j)" for j using same oth own by (cases "j = i") auto
    ultimately show ?thesis using assms(2) LRun(1,2) by (simp add: one_inside_def)
  qed
qed

lemma one_inside_reach:
  "(lk_step step call allowed)\<^sup>*\<^sup>* s t \<Longrightarrow> one_inside free inside s \<Longrightarrow> one_inside free inside t"
  by (induction rule: rtranclp_induct) (auto intro: one_inside_step)

end

lemma one_insideD:
  assumes "one_inside free inside (m, ps)"
  shows "i < length ps \<Longrightarrow> inside i (ps ! i) \<Longrightarrow> \<not> free m"
    "i < length ps \<Longrightarrow> j < length ps \<Longrightarrow> inside i (ps ! i) \<Longrightarrow> inside j (ps ! j) \<Longrightarrow> i = j"
    "\<not> free m \<Longrightarrow> \<exists>i < length ps. inside i (ps ! i)"
  using assms by (auto simp: one_inside_def split: if_splits)

subsection \<open>A hard link as a lock\<close>

text \<open>
  \<open>KSwap\<close>: the loop on \<open>exchange\<close>; \<open>KLink\<close>: the loop of \<open>getLock\<close> on \<open>link\<close>; \<open>KUnlink\<close>: the loop on
  \<open>unlink\<close>; \<open>KClear\<close>: the store of 0. Readers do the same as writers.
\<close>

datatype link_pc = KIdle | KSwap | KLink | KHeld | KUnlink | KClear

text \<open>The file of the entry, its link, and the flag of each process.\<close>

record link_mem =
  k_entry :: bool
  k_link :: bool
  k_writers :: "nat \<Rightarrow> u16"

text \<open>
  The constructor creates the file of the entry unless it is there (and does not notice when it
  cannot). A link that is already there, from another process or an earlier run, stays.
\<close>

definition FileLinkReaderWriterLock :: "bool \<Rightarrow> bool \<Rightarrow> bool \<Rightarrow> link_mem" where
  "FileLinkReaderWriterLock present link created =
     \<lparr>k_entry = (present \<or> created), k_link = link, k_writers = (\<lambda>_. 0)\<rparr>"

definition link_call :: "lock_op \<Rightarrow> link_pc \<Rightarrow> link_pc option" where
  "link_call opn p =
     (if opn \<in> {ReaderLock, WriterLock} \<and> p = KIdle then Some KSwap
      else if opn \<in> {ReaderUnlock, WriterUnlock} \<and> p = KHeld then Some KUnlink
      else None)"

definition getLock :: "bool \<Rightarrow> link_mem \<Rightarrow> link_mem \<times> bool" where
  "getLock fails m =
     (if k_entry m \<and> \<not> k_link m \<and> \<not> fails then (m\<lparr>k_link := True\<rparr>, True) else (m, False))"

fun link_step :: "(nat \<Rightarrow> nat) \<Rightarrow> nat \<Rightarrow> bool \<Rightarrow> link_mem \<Rightarrow> link_pc \<Rightarrow> link_mem \<times> link_pc" where
  "link_step proc i fails m KSwap =
     (m\<lparr>k_writers := (k_writers m)(proc i := 1)\<rparr>, if k_writers m (proc i) = 1 then KSwap else KLink)"
| "link_step proc i fails m KLink = (let (m, got) = getLock fails m in (m, if got then KHeld else KLink))"
| "link_step proc i fails m KUnlink =
     (if k_link m \<and> \<not> fails then (m\<lparr>k_link := False\<rparr>, KClear) else (m, KUnlink))"
| "link_step proc i fails m KClear = (m\<lparr>k_writers := (k_writers m)(proc i := 0)\<rparr>, KIdle)"
| "link_step proc i fails m p = (m, p)"

definition link_held :: "nat \<Rightarrow> link_pc \<Rightarrow> bool" where
  "link_held i p \<longleftrightarrow> p = KHeld \<or> p = KUnlink"

definition link_flagged :: "(nat \<Rightarrow> nat) \<Rightarrow> nat \<Rightarrow> nat \<Rightarrow> link_pc \<Rightarrow> bool" where
  "link_flagged proc q i p \<longleftrightarrow> proc i = q \<and> p \<in> {KLink, KHeld, KUnlink, KClear}"

lemmas link_defs = link_call_def link_held_def link_flagged_def getLock_def

lemma link_stepE:
  assumes "link_step proc i f m p = (m', p')"
  obtains (swap) "p = KSwap" "m' = m\<lparr>k_writers := (k_writers m)(proc i := 1)\<rparr>"
      "p' = (if k_writers m (proc i) = 1 then KSwap else KLink)"
  | (taken) "p = KLink" "k_entry m" "\<not> k_link m" "\<not> f" "m' = m\<lparr>k_link := True\<rparr>" "p' = KHeld"
  | (freed) "p = KUnlink" "k_link m" "\<not> f" "m' = m\<lparr>k_link := False\<rparr>" "p' = KClear"
  | (cleared) "p = KClear" "m' = m\<lparr>k_writers := (k_writers m)(proc i := 0)\<rparr>" "p' = KIdle"
  | (stays) "m' = m" "p' = p"
proof (cases p)
  case KSwap
  with assms show thesis by (intro swap) simp_all
next
  case KLink
  show thesis
  proof (cases "k_entry m \<and> \<not> k_link m \<and> \<not> f")
    case True
    with assms KLink show thesis by (intro taken) (simp_all add: getLock_def)
  next
    case False
    with assms KLink show thesis by (intro stays) (simp_all only: getLock_def link_step.simps Let_def if_False if_not_P split prod.inject)
  qed
next
  case KUnlink
  show thesis
  proof (cases "k_link m \<and> \<not> f")
    case True
    with assms KUnlink show thesis by (intro freed) simp_all
  next
    case False
    with assms KUnlink show thesis by (intro stays) (simp_all split: if_splits)
  qed
next
  case KClear
  with assms show thesis by (intro cleared) simp_all
qed (use assms in \<open>simp_all add: stays\<close>)

text \<open>The link is the token of the entry, the flag of a process that of its threads.\<close>

interpretation linked: token "link_step proc" link_call "\<lambda>m. \<not> k_link m" link_held for proc
proof
  fix i f m p m' p' opn
  assume st: "link_step proc i f m p = (m', p')"
  show "\<not> k_link m \<and> \<not> \<not> k_link m'" if "\<not> link_held i p" "link_held i p'"
    using st that by (cases rule: link_stepE) (simp_all add: link_held_def split: if_splits)
  show "\<not> k_link m'" if "link_held i p" "\<not> link_held i p'"
    using st that by (cases rule: link_stepE) (simp_all add: link_held_def split: if_splits)
  show "(\<not> k_link m') = (\<not> k_link m)" if "link_held i p' = link_held i p"
    using st that by (cases rule: link_stepE) (simp_all add: link_held_def split: if_splits)
next
  fix opn i p p'
  assume "link_call opn p = Some p'"
  then show "link_held i p' = link_held i p"
    by (auto simp: link_call_def link_held_def split: if_splits)
qed

interpretation flagged: token "link_step proc" link_call "\<lambda>m. k_writers m q \<noteq> 1" "link_flagged proc q" for proc q
proof
  fix i f m p m' p' opn
  assume st: "link_step proc i f m p = (m', p')"
  show "k_writers m q \<noteq> 1 \<and> \<not> k_writers m' q \<noteq> 1" if "\<not> link_flagged proc q i p" "link_flagged proc q i p'"
    using st that by (cases rule: link_stepE) (simp_all add: link_flagged_def split: if_splits)
  show "k_writers m' q \<noteq> 1" if "link_flagged proc q i p" "\<not> link_flagged proc q i p'"
    using st that by (cases rule: link_stepE) (simp_all add: link_flagged_def split: if_splits)
  show "(k_writers m' q \<noteq> 1) = (k_writers m q \<noteq> 1)" if "link_flagged proc q i p' = link_flagged proc q i p"
    using st that by (cases rule: link_stepE) (auto simp: link_flagged_def split: if_splits)
next
  fix opn i p p'
  assume "link_call opn p = Some p'"
  then show "link_flagged proc q i p' = link_flagged proc q i p"
    by (auto simp: link_call_def link_flagged_def split: if_splits)
qed

definition link_reach :: "(nat \<Rightarrow> nat) \<Rightarrow> bool \<Rightarrow> nat \<Rightarrow> link_mem \<times> link_pc list \<Rightarrow> bool" where
  "link_reach proc stale n s \<longleftrightarrow>
     (lk_step (link_step proc) link_call (\<lambda>_. True))\<^sup>*\<^sup>*
       (FileLinkReaderWriterLock False stale True, replicate n KIdle) s"

lemma link_reach_tokens:
  assumes "link_reach proc False n s"
  shows "one_inside (\<lambda>m. \<not> k_link m) link_held s" "one_inside (\<lambda>m. k_writers m q \<noteq> 1) (link_flagged proc q) s"
proof -
  let ?s = "(FileLinkReaderWriterLock False False True, replicate n KIdle)"
  have "one_inside (\<lambda>m. \<not> k_link m) link_held ?s" "one_inside (\<lambda>m. k_writers m q \<noteq> 1) (link_flagged proc q) ?s"
    by (simp_all add: one_inside_def link_defs FileLinkReaderWriterLock_def)
  with assms show "one_inside (\<lambda>m. \<not> k_link m) link_held s"
    "one_inside (\<lambda>m. k_writers m q \<noteq> 1) (link_flagged proc q) s"
    unfolding link_reach_def by (blast intro: linked.one_inside_reach flagged.one_inside_reach)+
qed

lemma link_reach_entry:
  assumes "link_reach proc stale n s"
  shows "k_entry (fst s) \<and> length (snd s) = n"
  using assms unfolding link_reach_def
proof (induction rule: rtranclp_induct)
  case (step s t)
  from step.hyps(2) show ?case using step.IH
    by (cases rule: lk_step.cases) (auto elim!: link_stepE)
qed (simp add: FileLinkReaderWriterLock_def)

text \<open>
  C17: The lock of an entry that processes share through a link: at every moment one thread at most,
  reader or writer, of any process, holds it; the link exists as long as it does; and whenever
  nobody holds it, a thread whose process has no other thread in the way gets it in two steps
  whose system calls succeed.
\<close>

theorem link_lock_excludes:
  assumes "link_reach proc False n (m, ps)"
  shows "(\<forall>i < n. \<forall>j < n. ps ! i = KHeld \<and> ps ! j = KHeld \<longrightarrow> i = j)
    \<and> (\<forall>i < n. ps ! i = KHeld \<longrightarrow> k_link m \<and> k_writers m (proc i) = 1)
    \<and> (\<forall>i < n. ps ! i = KSwap \<and> (\<forall>j < n. ps ! j \<notin> {KHeld, KUnlink})
         \<and> (\<forall>j < n. proc j = proc i \<longrightarrow> ps ! j \<in> {KIdle, KSwap}) \<longrightarrow>
       (let (m1, p1) = link_step proc i False m KSwap in snd (link_step proc i False m1 p1)) = KHeld)"
proof (intro conjI allI impI; (elim conjE)?)
  note tok = link_reach_tokens [OF assms]
  have len: "length ps = n" "k_entry m" using link_reach_entry [OF assms] by simp_all
  show "i = j" if "i < n" "j < n" "ps ! i = KHeld" "ps ! j = KHeld" for i j
    by (rule one_insideD(2) [OF tok(1)]) (use that len in \<open>simp_all add: link_held_def\<close>)
  show "k_link m" if "i < n" "ps ! i = KHeld" for i
    using one_insideD(1) [OF tok(1), of i] that len by (simp add: link_defs)
  show "k_writers m (proc i) = 1" if "i < n" "ps ! i = KHeld" for i
    using one_insideD(1) [OF tok(2) [of "proc i"], of i] that len by (simp add: link_defs)
  fix i assume a: "i < n" "ps ! i = KSwap" "\<forall>j < n. ps ! j \<notin> {KHeld, KUnlink}"
    "\<forall>j < n. proc j = proc i \<longrightarrow> ps ! j \<in> {KIdle, KSwap}"
  have "\<not> k_link m" using one_insideD(3) [OF tok(1)] a(3) len by (auto simp: link_held_def)
  moreover have "k_writers m (proc i) \<noteq> 1"
    using one_insideD(3) [OF tok(2) [of "proc i"]] a(4) len by (fastforce simp: link_flagged_def)
  ultimately show "(let (m1, p1) = link_step proc i False m KSwap in snd (link_step proc i False m1 p1)) = KHeld"
    using len by (simp add: getLock_def)
qed

theorem link_lock_excludes_witness:
  "\<exists>m. link_reach id False 2 (m, [KHeld, KLink]) \<and> k_link m \<and> k_writers m 0 = 1"
proof -
  let ?es = "[(0, Some WriterLock, False), (0, None, False), (1, Some ReaderLock, False), (0, None, False),
    (1, None, False), (1, None, False)]"
  let ?s = "(FileLinkReaderWriterLock False False True, replicate 2 KIdle)"
  obtain t where r: "lk_run (link_step id) link_call ?es ?s = Some t" and t: "snd t = [KHeld, KLink]"
    by (simp add: FileLinkReaderWriterLock_def link_call_def getLock_def numeral_2_eq_2)
  have "link_reach id False 2 t" unfolding link_reach_def by (rule lk_run_steps [OF r]) simp
  then have f: "link_reach id False 2 (fst t, [KHeld, KLink])" using t by (cases t) simp
  have "k_link (fst t) \<and> k_writers (fst t) (id 0) = 1"
    using link_lock_excludes [OF f] by (auto dest: spec [of _ 0])
  then show ?thesis using f by auto
qed

text \<open>
  After a process has died with the lock, nobody ever gets it again: the link is nobody's, and
  only who holds the lock removes it.
\<close>

lemma stale_link_blocks:
  assumes "link_reach proc True n s"
  shows "k_link (fst s) \<and> (\<forall>p \<in> set (snd s). p \<noteq> KHeld \<and> p \<noteq> KUnlink)"
  using assms unfolding link_reach_def
proof (induction rule: rtranclp_induct)
  case (step s t)
  from step.hyps(2) show ?case
  proof (cases rule: lk_step.cases)
    case (LCall i ps opn p m)
    then show ?thesis using step.IH
      by (auto simp: link_call_def split: if_splits dest!: set_update_subset_insert [THEN subsetD])
  next
    case (LRun i ps fails m m' p)
    have q: "ps ! i \<noteq> KUnlink" "k_link m" using step.IH LRun(1,3) by auto
    have "k_link m' \<and> (p \<noteq> KHeld \<and> p \<noteq> KUnlink \<or> p = ps ! i)" using LRun(4) q by (cases rule: link_stepE) (auto split: if_splits)
    then show ?thesis using step.IH LRun(1-3)
      by (auto dest!: set_update_subset_insert [THEN subsetD])
  qed
qed (simp add: FileLinkReaderWriterLock_def)

subsection \<open>Counters and record locks\<close>

text \<open>
  The record locks of \<open>fcntl\<close> on the bytes of one entry: they belong to processes, locks of the
  same process never conflict, and locking or unlocking again replaces what the process has.
\<close>

datatype flock_type = F_RDLCK | F_WRLCK | F_UNLCK

type_synonym records = "(nat \<times> flock_type) list"

definition conflict :: "nat \<Rightarrow> flock_type \<Rightarrow> nat \<times> flock_type \<Rightarrow> bool" where
  "conflict p ty e \<longleftrightarrow> fst e \<noteq> p \<and> (ty = F_WRLCK \<or> snd e = F_WRLCK)"

text \<open>\<open>F_SETLK\<close>; the result says whether it succeeded.\<close>

definition lockOp :: "nat \<Rightarrow> flock_type \<Rightarrow> bool \<Rightarrow> records \<Rightarrow> records \<times> bool" where
  "lockOp p ty fails L =
     (let rest = filter (\<lambda>e. fst e \<noteq> p) L
      in if fails then (L, False)
         else if ty = F_UNLCK then (rest, True)
         else if list_ex (conflict p ty) L then (L, False)
         else ((p, ty) # rest, True))"

text \<open>\<open>F_GETLK\<close> for a write lock: \<open>F_UNLCK\<close> when it would be granted.\<close>

definition getlk :: "nat \<Rightarrow> records \<Rightarrow> flock_type" where
  "getlk p L = (case filter (conflict p F_WRLCK) L of [] \<Rightarrow> F_UNLCK | e # _ \<Rightarrow> snd e)"

text \<open>
  The counters of the entry in the memory of each machine. With shared memory the processes of
  a machine have one pair (and one \<open>_shmLock\<close>), without it each process is a machine of its own.
\<close>

record fc_node =
  n_readers :: u16
  n_writers :: u16

record fc_mem =
  f_nodes :: "nat \<Rightarrow> fc_node"
  f_locks :: records

text \<open>
  Each step is what a thread does between taking \<open>_shmLock\<close> and giving it back; all accesses to
  the counters are in such sections, and each has one call of \<open>fcntl\<close> at most. \<open>RCheck\<close>, \<open>WSwap\<close>,
  \<open>WDrain\<close>, \<open>RTake\<close> and \<open>WTake\<close> are the loops that the thread is in, \<open>FLeft\<close> is the retry of
  the unlocking of a reader, \<open>AQuery\<close>, \<open>AAgain\<close> those of \<open>lockAvail\<close>.
\<close>

datatype fc_pc =
  FIdle | RCheck | RTake | FReading | RLeave | FLeft | WSwapping | WDraining | WTake | FWriting | WLeave
| AQuery | AAgain | ADone int

datatype fc_op = Lock lock_op | LockAvail

fun fc_call :: "fc_op \<Rightarrow> fc_pc \<Rightarrow> fc_pc option" where
  "fc_call (Lock ReaderLock) FIdle = Some RCheck"
| "fc_call (Lock WriterLock) FIdle = Some WSwapping"
| "fc_call LockAvail FIdle = Some AQuery"
| "fc_call (Lock ReaderUnlock) FReading = Some RLeave"
| "fc_call (Lock WriterUnlock) FWriting = Some WLeave"
| "fc_call opn p = None"

definition set_readers :: "nat \<Rightarrow> u16 \<Rightarrow> fc_mem \<Rightarrow> fc_mem" where
  "set_readers n v m = m\<lparr>f_nodes := (f_nodes m)(n := (f_nodes m n)\<lparr>n_readers := v\<rparr>)\<rparr>"

definition set_writers :: "nat \<Rightarrow> u16 \<Rightarrow> fc_mem \<Rightarrow> fc_mem" where
  "set_writers n v m = m\<lparr>f_nodes := (f_nodes m)(n := (f_nodes m n)\<lparr>n_writers := v\<rparr>)\<rparr>"

definition reader_take :: "nat \<Rightarrow> nat \<Rightarrow> bool \<Rightarrow> fc_mem \<Rightarrow> fc_mem \<times> fc_pc" where
  "reader_take n p fails m =
     (let r = n_readers (f_nodes m n)
      in if r = 0
         then (case lockOp p F_RDLCK fails (f_locks m) of
             (L, True) \<Rightarrow> (set_readers n (r + 1) (m\<lparr>f_locks := L\<rparr>), FReading)
           | (L, False) \<Rightarrow> (m, RTake))
         else (set_readers n (r + 1) m, FReading))"

definition reader_left :: "nat \<Rightarrow> nat \<Rightarrow> bool \<Rightarrow> fc_mem \<Rightarrow> fc_mem \<times> fc_pc" where
  "reader_left n p fails m =
     (if n_readers (f_nodes m n) = 0
      then (let (L, ok) = lockOp p F_UNLCK fails (f_locks m)
            in (m\<lparr>f_locks := L\<rparr>, if ok then FIdle else FLeft))
      else (m, FIdle))"

definition writer_take :: "nat \<Rightarrow> bool \<Rightarrow> fc_mem \<Rightarrow> fc_mem \<times> fc_pc" where
  "writer_take p fails m =
     (let (L, ok) = lockOp p F_WRLCK fails (f_locks m)
      in (m\<lparr>f_locks := L\<rparr>, if ok then FWriting else WTake))"

definition writer_drain :: "nat \<Rightarrow> nat \<Rightarrow> bool \<Rightarrow> fc_mem \<Rightarrow> fc_mem \<times> fc_pc" where
  "writer_drain n p fails m =
     (if n_readers (f_nodes m n) \<noteq> 0 then (m, WDraining) else writer_take p fails m)"

definition no_users :: "fc_node \<Rightarrow> bool" where
  "no_users a \<longleftrightarrow> n_readers a = 0 \<and> n_writers a = 0"

text \<open>A call of \<open>fcntl\<close> that fails leaves the type \<open>F_WRLCK\<close> in the structure and returns -1.\<close>

definition avail_query :: "nat \<Rightarrow> nat \<Rightarrow> bool \<Rightarrow> fc_mem \<Rightarrow> fc_pc" where
  "avail_query n p fails m =
     (if fails then (if no_users (f_nodes m n) then AAgain else ADone (-1))
      else if getlk p (f_locks m) = F_UNLCK \<and> no_users (f_nodes m n) then ADone 1
      else ADone 0)"

fun fc_step ::
  "(nat \<Rightarrow> nat) \<Rightarrow> (nat \<Rightarrow> nat) \<Rightarrow> nat \<Rightarrow> bool \<Rightarrow> fc_mem \<Rightarrow> fc_pc \<Rightarrow> fc_mem \<times> fc_pc" where
  "fc_step node proc i fails m RCheck =
     (if n_writers (f_nodes m (node i)) \<noteq> 0 then (m, RCheck)
      else reader_take (node i) (proc i) fails m)"
| "fc_step node proc i fails m RTake = reader_take (node i) (proc i) fails m"
| "fc_step node proc i fails m RLeave =
     (let m = set_readers (node i) (n_readers (f_nodes m (node i)) - 1) m
      in reader_left (node i) (proc i) fails m)"
| "fc_step node proc i fails m FLeft = reader_left (node i) (proc i) fails m"
| "fc_step node proc i fails m WSwapping =
     (let old = n_writers (f_nodes m (node i)); m = set_writers (node i) 1 m
      in if old = 1 then (m, WSwapping) else writer_drain (node i) (proc i) fails m)"
| "fc_step node proc i fails m WDraining = writer_drain (node i) (proc i) fails m"
| "fc_step node proc i fails m WTake = writer_take (proc i) fails m"
| "fc_step node proc i fails m WLeave =
     (let (L, ok) = lockOp (proc i) F_UNLCK fails (f_locks m); m = m\<lparr>f_locks := L\<rparr>
      in if ok then (set_writers (node i) 0 m, FIdle) else (m, WLeave))"
| "fc_step node proc i fails m AQuery =
     (if no_users (f_nodes m (node i)) then (m, avail_query (node i) (proc i) fails m)
      else (m, ADone (-1)))"
| "fc_step node proc i fails m AAgain = (m, avail_query (node i) (proc i) fails m)"
| "fc_step node proc i fails m (ADone r) = (m, FIdle)"
| "fc_step node proc i fails m p = (m, p)"

definition FcntlBoundedReaderWriterLock :: fc_mem where
  "FcntlBoundedReaderWriterLock = \<lparr>f_nodes = (\<lambda>_. \<lparr>n_readers = 0, n_writers = 0\<rparr>), f_locks = []\<rparr>"

text \<open>The flag of a machine is the token of its writers, whatever readers do.\<close>

definition fc_flagged :: "(nat \<Rightarrow> nat) \<Rightarrow> nat \<Rightarrow> nat \<Rightarrow> fc_pc \<Rightarrow> bool" where
  "fc_flagged node q i p \<longleftrightarrow> node i = q \<and> p \<in> {WDraining, WTake, FWriting, WLeave}"

definition fc_locked :: "fc_pc \<Rightarrow> bool" where
  "fc_locked p \<longleftrightarrow> p = FWriting \<or> p = WLeave"

abbreviation node_writers :: "nat \<Rightarrow> fc_mem \<Rightarrow> u16" where
  "node_writers q m \<equiv> n_writers (f_nodes m q)"

lemma set_counters [simp]:
  "node_writers q (set_readers n v m) = node_writers q m"
  "node_writers q (set_writers n v m) = (if q = n then v else node_writers q m)"
  "f_locks (set_readers n v m) = f_locks m" "f_locks (set_writers n v m) = f_locks m"
  "n_readers (f_nodes (set_writers n v m) q) = n_readers (f_nodes m q)"
  "node_writers q (m\<lparr>f_locks := L\<rparr>) = node_writers q m"
  by (simp_all add: set_readers_def set_writers_def)

lemma reader_take_writers:
  "reader_take n p f m = (m', p') \<Longrightarrow> node_writers q m' = node_writers q m \<and> \<not> fc_flagged node q i p'"
  by (auto simp: reader_take_def fc_flagged_def Let_def split: if_splits prod.splits bool.splits)

lemma reader_left_writers:
  "reader_left n p f m = (m', p') \<Longrightarrow> node_writers q m' = node_writers q m \<and> \<not> fc_flagged node q i p'"
  by (auto simp: reader_left_def fc_flagged_def Let_def split: if_splits prod.splits)

lemma writer_take_writers:
  "writer_take p f m = (m', p') \<Longrightarrow>
     node_writers q m' = node_writers q m \<and> fc_flagged node q i p' = (node i = q)"
  by (auto simp: writer_take_def fc_flagged_def split: if_splits prod.splits)

lemma writer_drain_writers:
  "writer_drain n p f m = (m', p') \<Longrightarrow>
     node_writers q m' = node_writers q m \<and> fc_flagged node q i p' = (node i = q)"
  by (auto simp: writer_drain_def fc_flagged_def dest: writer_take_writers [where q = q] split: if_splits)

lemma fc_step_writers:
  assumes "fc_step node proc i f m p = (m', p')"
  shows "\<not> fc_flagged node q i p \<and> fc_flagged node q i p' \<and> node_writers q m \<noteq> 1 \<and> node_writers q m' = 1
    \<or> fc_flagged node q i p \<and> \<not> fc_flagged node q i p' \<and> node_writers q m' \<noteq> 1
    \<or> fc_flagged node q i p = fc_flagged node q i p' \<and> (node_writers q m' = 1) = (node_writers q m = 1)"
proof (cases p)
  case RCheck
  then show ?thesis using assms
    by (auto split: if_splits simp: fc_flagged_def dest: reader_take_writers [where q = q and node = node and i = i])
next
  case RTake
  then show ?thesis using assms
    by (auto simp: fc_flagged_def dest: reader_take_writers [where q = q and node = node and i = i])
next
  case RLeave
  then show ?thesis using assms
    by (auto simp: Let_def fc_flagged_def dest: reader_left_writers [where q = q and node = node and i = i])
next
  case FLeft
  then show ?thesis using assms
    by (auto simp: fc_flagged_def dest: reader_left_writers [where q = q and node = node and i = i])
next
  case WSwapping
  have p: "\<not> fc_flagged node q i p" using WSwapping by (simp add: fc_flagged_def)
  show ?thesis
  proof (cases "node_writers (node i) m = 1")
    case True
    then show ?thesis using assms WSwapping by (auto simp: Let_def fc_flagged_def split: if_splits)
  next
    case False
    then have "writer_drain (node i) (proc i) f (set_writers (node i) 1 m) = (m', p')"
      using assms WSwapping by (simp add: Let_def)
    from writer_drain_writers [OF this, of q node i] show ?thesis using p False by auto
  qed
next
  case WDraining
  then have "writer_drain (node i) (proc i) f m = (m', p')" using assms by simp
  from writer_drain_writers [OF this, of q node i] show ?thesis using WDraining by (simp add: fc_flagged_def)
next
  case WTake
  then have "writer_take (proc i) f m = (m', p')" using assms by simp
  from writer_take_writers [OF this, of q node i] show ?thesis using WTake by (simp add: fc_flagged_def)
next
  case WLeave
  then show ?thesis using assms by (auto simp: Let_def fc_flagged_def split: prod.splits if_splits)
next
  case AQuery
  then show ?thesis using assms by (auto simp: fc_flagged_def avail_query_def split: if_splits)
next
  case AAgain
  then show ?thesis using assms by (auto simp: fc_flagged_def avail_query_def split: if_splits)
qed (use assms in \<open>auto simp: fc_flagged_def\<close>)

lemma fc_call_flagged: "fc_call opn p = Some p' \<Longrightarrow> fc_flagged node q i p' = fc_flagged node q i p \<and> fc_locked p' = fc_locked p"
  by (induction opn p rule: fc_call.induct) (auto simp: fc_flagged_def fc_locked_def)

interpretation node_flag: token "fc_step node proc" fc_call "\<lambda>m. node_writers q m \<noteq> 1" "fc_flagged node q"
  for node proc q
proof
  fix i f m p m' p' opn
  assume st: "fc_step node proc i f m p = (m', p')"
  note ws = fc_step_writers [OF st, of q]
  show "node_writers q m \<noteq> 1 \<and> \<not> node_writers q m' \<noteq> 1" if "\<not> fc_flagged node q i p" "fc_flagged node q i p'"
    using ws that by simp
  show "node_writers q m' \<noteq> 1" if "fc_flagged node q i p" "\<not> fc_flagged node q i p'"
    using ws that by simp
  show "(node_writers q m' \<noteq> 1) = (node_writers q m \<noteq> 1)" if "fc_flagged node q i p' = fc_flagged node q i p"
    using ws that by auto
qed (simp add: fc_call_flagged)

text \<open>
  The caches take this lock for writing only. Then the record lock of a process belongs to the
  thread that is inside, no two processes have one, and the readers' counters stay 0.
\<close>

definition writer_pc :: "fc_pc \<Rightarrow> bool" where
  "writer_pc p \<longleftrightarrow> p \<notin> {RCheck, RTake, FReading, RLeave, FLeft}"

definition writer_ops :: "fc_op set" where
  "writer_ops = {Lock WriterLock, Lock WriterUnlock, LockAvail}"

definition fc_inv :: "(nat \<Rightarrow> nat) \<Rightarrow> fc_mem \<times> fc_pc list \<Rightarrow> bool" where
  "fc_inv proc s \<longleftrightarrow> (case s of (m, ps) \<Rightarrow>
     (\<forall>i < length ps. writer_pc (ps ! i))
     \<and> (\<forall>i < length ps. fc_locked (ps ! i) \<longrightarrow> (proc i, F_WRLCK) \<in> set (f_locks m))
     \<and> (\<forall>e \<in> set (f_locks m). snd e = F_WRLCK)
     \<and> (\<forall>e \<in> set (f_locks m). \<exists>i < length ps. proc i = fst e \<and> fc_locked (ps ! i))
     \<and> (\<forall>e \<in> set (f_locks m). \<forall>e' \<in> set (f_locks m). fst e = fst e')
     \<and> (\<forall>q. n_readers (f_nodes m q) = 0))"

lemma fc_invD:
  assumes "fc_inv proc (m, ps)"
  shows "i < length ps \<Longrightarrow> writer_pc (ps ! i)"
    "i < length ps \<Longrightarrow> fc_locked (ps ! i) \<Longrightarrow> (proc i, F_WRLCK) \<in> set (f_locks m)"
    "e \<in> set (f_locks m) \<Longrightarrow> snd e = F_WRLCK"
    "e \<in> set (f_locks m) \<Longrightarrow> \<exists>i < length ps. proc i = fst e \<and> fc_locked (ps ! i)"
    "e \<in> set (f_locks m) \<Longrightarrow> e' \<in> set (f_locks m) \<Longrightarrow> fst e = fst e'"
    "n_readers (f_nodes m q) = 0"
  using assms unfolding fc_inv_def prod.case by blast+

lemma fc_invI:
  assumes "\<And>i. i < length ps \<Longrightarrow> writer_pc (ps ! i)"
    "\<And>i. i < length ps \<Longrightarrow> fc_locked (ps ! i) \<Longrightarrow> (proc i, F_WRLCK) \<in> set (f_locks m)"
    "\<And>e. e \<in> set (f_locks m) \<Longrightarrow> snd e = F_WRLCK"
    "\<And>e. e \<in> set (f_locks m) \<Longrightarrow> \<exists>i < length ps. proc i = fst e \<and> fc_locked (ps ! i)"
    "\<And>e e'. e \<in> set (f_locks m) \<Longrightarrow> e' \<in> set (f_locks m) \<Longrightarrow> fst e = fst e'"
    "\<And>q. n_readers (f_nodes m q) = 0"
  shows "fc_inv proc (m, ps)"
  unfolding fc_inv_def prod.case using assms by blast

lemma lockOp_write:
  assumes "lockOp p F_WRLCK f L = (L', True)" "\<forall>e \<in> set L. snd e = F_WRLCK"
  shows "set L' = {(p, F_WRLCK)}" "fst ` set L \<subseteq> {p}"
  using assms by (auto simp: lockOp_def Let_def conflict_def list_ex_iff split: if_splits)

lemma lockOp_unlock: "lockOp p F_UNLCK f L = (L', True) \<Longrightarrow> set L' = {e \<in> set L. fst e \<noteq> p}"
  by (auto simp: lockOp_def Let_def split: if_splits)

lemma lockOp_failed: "lockOp p ty f L = (L', False) \<Longrightarrow> L' = L"
  by (auto simp: lockOp_def Let_def split: if_splits)

text \<open>What a writer's step does to the record locks.\<close>

lemma writer_stepE:
  assumes "fc_step node proc i f m p = (m', p')" "writer_pc p" "\<forall>q. n_readers (f_nodes m q) = 0"
  obtains (enters) "p \<in> {WSwapping, WDraining, WTake}" "p' = FWriting" "lockOp (proc i) F_WRLCK f (f_locks m) = (f_locks m', True)"
  | (leaves) "p = WLeave" "p' = FIdle" "lockOp (proc i) F_UNLCK f (f_locks m) = (f_locks m', True)"
  | (other) "f_locks m' = f_locks m" "fc_locked p' = fc_locked p" "writer_pc p'"
proof -
  have take: thesis if "writer_take (proc i) f m0 = (m', p')" "f_locks m0 = f_locks m" "p \<in> {WSwapping, WDraining, WTake}" for m0
  proof -
    obtain L ok where L: "lockOp (proc i) F_WRLCK f (f_locks m) = (L, ok)" by fastforce
    then have e: "f_locks m' = L" "p' = (if ok then FWriting else WTake)" using that(1,2) by (auto simp: writer_take_def)
    show thesis
    proof (cases ok)
      case True
      with L e that(3) show thesis by (intro enters) simp_all
    next
      case False
      then show thesis using L e that(3) lockOp_failed [of "proc i" F_WRLCK f "f_locks m" L]
        by (intro other) (auto simp: fc_locked_def writer_pc_def)
    qed
  qed
  show thesis
  proof (cases p)
    case WSwapping
    show thesis
    proof (cases "node_writers (node i) m = 1")
      case True
      then show thesis using assms(1) WSwapping by (intro other) (auto simp: Let_def writer_pc_def)
    next
      case False
      then have "writer_take (proc i) f (set_writers (node i) 1 m) = (m', p')"
        using assms(1,3) WSwapping by (simp add: Let_def writer_drain_def)
      then show thesis by (rule take) (simp_all add: WSwapping)
    qed
  next
    case WDraining
    then have "writer_take (proc i) f m = (m', p')" using assms(1,3) by (simp add: writer_drain_def)
    then show thesis by (rule take) (simp_all add: WDraining)
  next
    case WTake
    then have "writer_take (proc i) f m = (m', p')" using assms(1) by simp
    then show thesis by (rule take) (simp_all add: WTake)
  next
    case WLeave
    obtain L ok where L: "lockOp (proc i) F_UNLCK f (f_locks m) = (L, ok)" by fastforce
    show thesis
    proof (cases ok)
      case True
      then show thesis using L assms(1) WLeave by (intro leaves) (auto simp: Let_def)
    next
      case False
      then show thesis using L assms(1) WLeave lockOp_failed [of "proc i" F_UNLCK f "f_locks m" L]
        by (intro other) (auto simp: Let_def writer_pc_def)
    qed
  qed (use assms(1,2) in \<open>auto simp: writer_pc_def fc_locked_def avail_query_def split: if_splits intro: other\<close>)
qed

lemma writer_step_readers:
  "fc_step node proc i f m p = (m', p') \<Longrightarrow> writer_pc p \<Longrightarrow>
     n_readers (f_nodes m' q) = n_readers (f_nodes m q)"
  by (cases p) (auto simp: writer_pc_def writer_drain_def writer_take_def Let_def split: if_splits prod.splits)

lemma fc_inv_run:
  assumes inv: "fc_inv proc (m, ps)" and i: "i < length ps" and st: "fc_step node proc i f m (ps ! i) = (m', p)"
    and alone: "\<And>j. j < length ps \<Longrightarrow> fc_locked (ps ! i) \<Longrightarrow> fc_locked (ps ! j) \<Longrightarrow> proc j = proc i \<Longrightarrow> j = i"
  shows "fc_inv proc (m', ps[i := p])"
proof -
  note I = fc_invD [OF inv]
  have rd: "\<forall>q. n_readers (f_nodes m' q) = 0" using writer_step_readers [OF st I(1) [OF i]] I(6) by simp
  have oth: "ps[i := p] ! j = ps ! j" if "j \<noteq> i" for j using that by simp
  have here: "ps[i := p] ! i = p" using i by simp
  have ro: "\<forall>q. n_readers (f_nodes m q) = 0" using I(6) by simp
  have wr: "\<forall>e \<in> set (f_locks m). snd e = F_WRLCK" using I(3) by blast
  from st I(1) [OF i] ro show ?thesis
  proof (cases rule: writer_stepE)
    case enters
    note L = lockOp_write [OF enters(3) wr]
    show ?thesis
    proof (rule fc_invI; (unfold length_list_update)?)
      show "writer_pc (ps[i := p] ! j)" if "j < length ps" for j
        using I(1) [OF that] oth [of j] here enters(2) by (cases "j = i") (simp_all add: writer_pc_def)
      show "(proc j, F_WRLCK) \<in> set (f_locks m')" if j: "j < length ps" "fc_locked (ps[i := p] ! j)" for j
      proof (cases "j = i")
        case False
        then have "(proc j, F_WRLCK) \<in> set (f_locks m)" using I(2) j oth by simp
        then have "proc j = proc i" using L(2) by force
        then show ?thesis using L(1) by simp
      qed (use L in simp)
      show "\<exists>j < length ps. proc j = fst e \<and> fc_locked (ps[i := p] ! j)" if "e \<in> set (f_locks m')" for e
        using that L(1) i here enters(2) by (intro exI [of _ i]) (simp add: fc_locked_def)
    qed (use L(1) rd in simp_all)
  next
    case leaves
    note L = lockOp_unlock [OF leaves(3)]
    show ?thesis
    proof (rule fc_invI; (unfold length_list_update)?)
      show "writer_pc (ps[i := p] ! j)" if "j < length ps" for j
        using I(1) [OF that] oth [of j] here leaves(2) by (cases "j = i") (simp_all add: writer_pc_def)
      show "(proc j, F_WRLCK) \<in> set (f_locks m')" if j: "j < length ps" "fc_locked (ps[i := p] ! j)" for j
      proof (cases "j = i")
        case True
        then show ?thesis using j here leaves(2) by (simp add: fc_locked_def)
      next
        case False
        then have l: "fc_locked (ps ! j)" using j oth by simp
        then have "proc j \<noteq> proc i" using alone [OF j(1) _ l] leaves(1) False by (auto simp: fc_locked_def)
        then show ?thesis using I(2) [OF j(1) l] L by simp
      qed
      show "\<exists>j < length ps. proc j = fst e \<and> fc_locked (ps[i := p] ! j)" if e: "e \<in> set (f_locks m')" for e
      proof -
        have "e \<in> set (f_locks m)" and ne: "fst e \<noteq> proc i" using e L by auto
        from I(4) [OF this(1)] obtain j where j: "j < length ps" "proc j = fst e" "fc_locked (ps ! j)" by blast
        then have "j \<noteq> i" using ne by auto
        then show ?thesis using j oth by (intro exI [of _ j]) simp
      qed
      show "snd e = F_WRLCK" if "e \<in> set (f_locks m')" for e using that L I(3) by simp
      show "fst e = fst e'" if "e \<in> set (f_locks m')" "e' \<in> set (f_locks m')" for e e'
        using that L I(5) by simp
    qed (use rd in simp)
  next
    case other
    have lk: "fc_locked (ps[i := p] ! j) = fc_locked (ps ! j)" for j
      using oth [of j] here other(2) by (cases "j = i") simp_all
    show ?thesis
    proof (rule fc_invI; (unfold length_list_update lk other(1))?)
      show "writer_pc (ps[i := p] ! j)" if "j < length ps" for j
        using I(1) [OF that] oth [of j] here other(3) by (cases "j = i") simp_all
      show "n_readers (f_nodes m' q) = 0" for q using rd by simp
    qed (fact I)+
  qed
qed

definition fc_reach :: "(nat \<Rightarrow> nat) \<Rightarrow> (nat \<Rightarrow> nat) \<Rightarrow> nat \<Rightarrow> fc_mem \<times> fc_pc list \<Rightarrow> bool" where
  "fc_reach node proc n s \<longleftrightarrow>
     (lk_step (fc_step node proc) fc_call (\<lambda>opn. opn \<in> writer_ops))\<^sup>*\<^sup>*
       (FcntlBoundedReaderWriterLock, replicate n FIdle) s"

lemma writer_call:
  "fc_call opn p = Some p' \<Longrightarrow> opn \<in> writer_ops \<Longrightarrow> writer_pc p' \<and> fc_locked p' = fc_locked p"
  by (induction opn p rule: fc_call.induct) (auto simp: writer_ops_def writer_pc_def fc_locked_def)

lemma fc_reach_inv:
  assumes "fc_reach node proc n s" and nodes: "\<And>i j. proc i = proc j \<Longrightarrow> node i = node j"
  shows "fc_inv proc s \<and> (\<forall>q. one_inside (\<lambda>m. node_writers q m \<noteq> 1) (fc_flagged node q) s)
    \<and> length (snd s) = n"
  using assms(1) unfolding fc_reach_def
proof (induction rule: rtranclp_induct)
  case base
  show ?case
    by (simp add: fc_inv_def one_inside_def FcntlBoundedReaderWriterLock_def writer_pc_def fc_locked_def fc_flagged_def)
next
  case (step s t)
  have flags: "\<forall>q. one_inside (\<lambda>m. node_writers q m \<noteq> 1) (fc_flagged node q) t"
    using node_flag.one_inside_step [OF step.hyps(2)] step.IH by blast
  from step.hyps(2) show ?case
  proof (cases rule: lk_step.cases)
    case (LCall i ps opn p m)
    have c: "writer_pc p" "fc_locked p = fc_locked (ps ! i)" using writer_call [OF LCall(5)] LCall(4) by auto
    have e: "fc_locked (ps[i := p] ! j) = fc_locked (ps ! j)" for j
      using c(2) LCall(3) by (cases "j = i") auto
    have inv: "fc_inv proc (m, ps)" using step.IH LCall(1) by simp
    have "fc_inv proc (m, ps[i := p])"
    proof (rule fc_invI; (unfold length_list_update e)?)
      show "writer_pc (ps[i := p] ! j)" if "j < length ps" for j
        using fc_invD(1) [OF inv that] c(1) LCall(3) by (cases "j = i") simp_all
    qed (fact fc_invD [OF inv])+
    then show ?thesis using flags step.IH LCall(1,2) by simp
  next
    case (LRun i ps f m m' p)
    have inv: "fc_inv proc (m, ps)" and tok: "one_inside (\<lambda>m. node_writers q m \<noteq> 1) (fc_flagged node q) (m, ps)" for q
      using step.IH LRun(1) by simp_all
    have "fc_inv proc (m', ps[i := p])"
    proof (rule fc_inv_run [OF inv LRun(3,4)])
      fix j assume "j < length ps" "fc_locked (ps ! i)" "fc_locked (ps ! j)" "proc j = proc i"
      then show "j = i" using nodes [of j i] LRun(3)
        by (intro one_insideD(2) [OF tok [of "node i"]]) (auto simp: fc_flagged_def fc_locked_def)
    qed
    then show ?thesis using flags step.IH LRun(1,2) by simp
  qed
qed

lemma fc_writing:
  assumes "fc_reach node proc n (m, ps)" and nodes: "\<And>i j. proc i = proc j \<Longrightarrow> node i = node j"
    and i: "i < n" "ps ! i = FWriting"
  shows "n_writers (f_nodes m (node i)) = 1" "(proc i, F_WRLCK) \<in> set (f_locks m)"
    "j < n \<Longrightarrow> ps ! j = FWriting \<Longrightarrow> i = j"
proof -
  note all = fc_reach_inv [OF assms(1) nodes, simplified]
  have inv: "fc_inv proc (m, ps)" and len: "length ps = n"
    and tok: "one_inside (\<lambda>m. node_writers q m \<noteq> 1) (fc_flagged node q) (m, ps)" for q
    using all by simp_all
  note I = fc_invD [OF inv, unfolded len]
  show "n_writers (f_nodes m (node i)) = 1"
    using one_insideD(1) [OF tok [of "node i"], of i] i len by (simp add: fc_flagged_def)
  show lk: "(proc i, F_WRLCK) \<in> set (f_locks m)" using I(2) [OF i(1)] i(2) by (simp add: fc_locked_def)
  assume j: "j < n" "ps ! j = FWriting"
  show "i = j"
  proof (rule one_insideD(2) [OF tok [of "node i"]])
    have "(proc j, F_WRLCK) \<in> set (f_locks m)" using I(2) [OF j(1)] j(2) by (simp add: fc_locked_def)
    then have "proc i = proc j" using I(5) [OF lk] by simp
    then have "node i = node j" by (rule nodes)
    then show "fc_flagged node (node i) i (ps ! i)" "fc_flagged node (node i) j (ps ! j)"
      using i j by (simp_all add: fc_flagged_def)
  qed (use i j len in simp_all)
qed

lemma fc_query_alone:
  assumes r: "fc_reach node proc n (m, ps)" and nodes: "\<And>i j. proc i = proc j \<Longrightarrow> node i = node j"
    and q: "fc_step node proc i f m AQuery = (m', ADone 1)" and j: "j < n"
  shows "ps ! j \<noteq> FWriting"
proof
  assume w: "ps ! j = FWriting"
  note wr = fc_writing [OF r nodes j w]
  have u: "getlk (proc i) (f_locks m) = F_UNLCK" "n_writers (f_nodes m (node i)) = 0"
    using q by (auto simp: avail_query_def no_users_def split: if_splits)
  have "proc j \<noteq> proc i" using wr(1) u(2) nodes [of j i] by auto
  then have "(proc j, F_WRLCK) \<in> set (filter (conflict (proc i) F_WRLCK) (f_locks m))"
    using wr(2) by (simp add: conflict_def)
  moreover have "snd e = F_WRLCK" if "e \<in> set (filter (conflict (proc i) F_WRLCK) (f_locks m))" for e
    using fc_invD(3) [of proc m ps] fc_reach_inv [OF r nodes, simplified] that by simp
  ultimately show False using u(1)
    by (cases "filter (conflict (proc i) F_WRLCK) (f_locks m)") (simp_all add: getlk_def)
qed

lemma fc_gets_in:
  assumes r: "fc_reach node proc n (m, ps)" and nodes: "\<And>i j. proc i = proc j \<Longrightarrow> node i = node j"
    and w: "i < n" "\<forall>j < n. ps ! j \<noteq> FWriting \<and> ps ! j \<noteq> WLeave"
      "\<forall>j < n. node j = node i \<longrightarrow> ps ! j \<in> {FIdle, WSwapping}"
  shows "snd (fc_step node proc i False m WSwapping) = FWriting"
proof -
  note all = fc_reach_inv [OF r nodes, simplified]
  have inv: "fc_inv proc (m, ps)" and len: "length ps = n"
    and tok: "one_inside (\<lambda>m. node_writers (node i) m \<noteq> 1) (fc_flagged node (node i)) (m, ps)"
    using all by simp_all
  note I = fc_invD [OF inv, unfolded len]
  have "f_locks m = []" using I(4) w(2) by (cases "f_locks m") (auto simp: fc_locked_def)
  moreover have "n_writers (f_nodes m (node i)) \<noteq> 1"
    using one_insideD(3) [OF tok] w(3) len by (fastforce simp: fc_flagged_def)
  ultimately show ?thesis
    using I(6) by (simp add: Let_def writer_drain_def writer_take_def lockOp_def)
qed

text \<open>
  C16: The lock that the caches in shared files take around a bin, used as they use it, for writing
  only: whatever processes on whatever machines do, one thread at most is inside, and it has the
  record lock and the flag of its machine; \<open>lockAvail\<close> answers 1 only when nobody is inside; and
  when nobody is, a thread that is alone on its machine gets in at its next step, if its call
  of \<open>fcntl\<close> succeeds.
\<close>

theorem fcntl_lock_excludes:
  assumes "fc_reach node proc n (m, ps)" and nodes: "\<forall>i j. proc i = proc j \<longrightarrow> node i = node j"
  shows "(\<forall>i < n. \<forall>j < n. ps ! i = FWriting \<and> ps ! j = FWriting \<longrightarrow> i = j)
    \<and> (\<forall>i < n. ps ! i = FWriting \<longrightarrow> (proc i, F_WRLCK) \<in> set (f_locks m) \<and> n_writers (f_nodes m (node i)) = 1)
    \<and> (\<forall>i f m'. fc_step node proc i f m AQuery = (m', ADone 1) \<longrightarrow> (\<forall>j < n. ps ! j \<noteq> FWriting))
    \<and> (\<forall>i < n. ps ! i = WSwapping \<and> (\<forall>j < n. ps ! j \<noteq> FWriting \<and> ps ! j \<noteq> WLeave)
         \<and> (\<forall>j < n. node j = node i \<longrightarrow> ps ! j \<in> {FIdle, WSwapping}) \<longrightarrow>
         snd (fc_step node proc i False m WSwapping) = FWriting)"
proof -
  have nodes': "node i = node j" if "proc i = proc j" for i j using nodes that by blast
  note reached = assms(1) nodes'
  show ?thesis
    using fc_writing [OF reached] fc_query_alone [OF reached] fc_gets_in [OF reached]
    by (intro conjI allI impI; (elim conjE)?) (assumption | metis)+
qed

theorem fcntl_lock_excludes_witness:
  "\<exists>m. fc_reach id id 2 (m, [FWriting, WTake]) \<and> (0, F_WRLCK) \<in> set (f_locks m)"
proof -
  let ?es = "[(0, Some (Lock WriterLock), False), (0, None, False), (1, Some (Lock WriterLock), False), (1, None, False)]"
  let ?s = "(FcntlBoundedReaderWriterLock, replicate 2 FIdle)"
  obtain t where r: "lk_run (fc_step id id) fc_call ?es ?s = Some t" and t: "snd t = [FWriting, WTake]"
    by (simp add: FcntlBoundedReaderWriterLock_def Let_def writer_drain_def writer_take_def lockOp_def
        set_writers_def conflict_def numeral_2_eq_2)
  have "fc_reach id id 2 t" unfolding fc_reach_def
    by (rule lk_run_steps [OF r]) (simp add: writer_ops_def)
  then have f: "fc_reach id id 2 (fst t, [FWriting, WTake])" using t by (cases t) simp
  have "(id 0, F_WRLCK) \<in> set (f_locks (fst t))"
    using fcntl_lock_excludes [OF f] by (auto dest: spec [of _ 0])
  then show ?thesis using f by auto
qed

text \<open>
  Readers would break it. First: a reader that waits for the record lock does not look at the
  writers' flag again, and \<open>fcntl\<close> does not keep it from a thread of its own process: a writer
  and two readers are inside, on two machines. Second: when the first and the last reader are
  not of the same process, the record lock of the first is never given back, and a writer on
  another machine waits for ever for a lock that nobody holds.
\<close>

theorem fcntl_readers_break:
  "map_option snd (lk_run (fc_step (\<lambda>i. i div 2) (\<lambda>i. i div 2)) fc_call
      [(2, Some (Lock WriterLock), False), (2, None, False),
       (0, Some (Lock ReaderLock), False), (0, None, False),
       (1, Some (Lock WriterLock), False), (1, None, False),
       (2, Some (Lock WriterUnlock), False), (2, None, False),
       (1, None, False), (0, None, False),
       (2, Some (Lock ReaderLock), False), (2, None, False)]
      (FcntlBoundedReaderWriterLock, replicate 3 FIdle)) = Some [FReading, FWriting, FReading]
   \<and> (\<exists>m. lk_run (fc_step (\<lambda>i. i div 2) id) fc_call
      [(0, Some (Lock ReaderLock), False), (0, None, False),
       (1, Some (Lock ReaderLock), False), (1, None, False),
       (0, Some (Lock ReaderUnlock), False), (0, None, False),
       (1, Some (Lock ReaderUnlock), False), (1, None, False),
       (2, Some (Lock WriterLock), False), (2, None, False)]
      (FcntlBoundedReaderWriterLock, replicate 3 FIdle) = Some (m, [FIdle, FIdle, WTake])
     \<and> (\<forall>f. fc_step (\<lambda>i. i div 2) id 2 f m WTake = (m, WTake)))"
  by (simp add: FcntlBoundedReaderWriterLock_def Let_def writer_drain_def writer_take_def lockOp_def reader_take_def
      reader_left_def set_writers_def set_readers_def conflict_def numeral_3_eq_3)

end
