(* ===== verification/FileTable.thy ===== *)
theory FileTable
  imports BoundedCache FileLocks "HOL-Library.Monad_Syntax"
begin

text \<open>
  The bounded caches whose table of entries and whose blocks are files that the processes of
  several machines share: \<open>NewBoundedFilelockCache\<close> and \<open>NewBoundedLinkfileCache\<close>. The two differ
  in the lock of a bin only; the lines named are those of the first.

  Every process has a copy of the table in its memory, \<open>_cacheEntries\<close>. An access under the lock
  of a bin starts by reading the bin from the file into the copy, works on the copy, and
  writes each entry that it changes back to the file. An entry of the file is read and written
  as a whole.
\<close>

subsection \<open>Entries in a file\<close>

definition BFL_FILENAME_LEN :: nat where
  "BFL_FILENAME_LEN = 1024"

text \<open>\<open>FileBlockEntry\<close>: counts have 16 bits, and the file is known by its name.\<close>

record file_blk =
  b_id :: u32
  b_fileIndex :: u32
  b_blockIndex :: u32
  b_timeStamp :: u32
  b_status :: blk_status
  b_prefetched :: u32
  b_origCache :: CacheType
  b_activeCnt :: u16
  b_pid :: u32
  b_fileName :: string

text \<open>The last \<open>BFL_FILENAME_LEN\<close> characters of a name in a buffer of zeros.\<close>

definition name_buf :: "string \<Rightarrow> string" where
  "name_buf name =
     (let len = length name; start = (if len < BFL_FILENAME_LEN then 0 else len - BFL_FILENAME_LEN);
          name = take BFL_FILENAME_LEN (drop start name)
      in name @ replicate (BFL_FILENAME_LEN - length name) (CHR 0x00))"

definition FileBlockEntry :: "u32 \<Rightarrow> file_blk" where
  "FileBlockEntry entryId =
     \<lparr>b_id = entryId, b_fileIndex = 0, b_blockIndex = 0, b_timeStamp = 0, b_status = BLK_EMPTY,
      b_prefetched = 0, b_origCache = Empty, b_activeCnt = 0, b_pid = 0,
      b_fileName = replicate BFL_FILENAME_LEN (CHR 0x00)\<rparr>"

text \<open>\<open>strcmp(...) == 0\<close>; \<open>None\<close>: no NUL byte in the buffers, the comparison reads on behind them.\<close>

fun strcmp_eq :: "string \<Rightarrow> string \<Rightarrow> bool option" where
  "strcmp_eq (x # xs) (y # ys) =
     (if x \<noteq> y then Some False else if x = CHR 0x00 then Some True else strcmp_eq xs ys)"
| "strcmp_eq xs ys = None"

text \<open>\<open>sameBlk\<close> with the entry that \<open>getCompareBlkEntry\<close> makes of a name and an index.\<close>

definition file_sameBlk :: "file_blk \<Rightarrow> u32 \<Rightarrow> string \<Rightarrow> bool option" where
  "file_sameBlk e index name =
     map_option (\<lambda>sameFile. sameFile \<and> b_blockIndex e = index) (strcmp_eq (b_fileName e) (name_buf name))"

text \<open>The file of the table and the copy of one process.\<close>

record ftable =
  t_file :: "file_blk list"
  t_shadow :: "file_blk list"

definition set_shadow :: "nat \<Rightarrow> file_blk \<Rightarrow> ftable \<Rightarrow> ftable" where
  "set_shadow k e t = t\<lparr>t_shadow := (t_shadow t)[k := e]\<rparr>"

text \<open>
  \<open>None\<close>: the entry is not in the file, a read of it finds the end of the file over and over
  again, a write makes the file longer than the table.
\<close>

definition readFileBlockEntry :: "nat \<Rightarrow> ftable \<Rightarrow> ftable option" where
  "readFileBlockEntry k t =
     (let i = unat (b_id (t_shadow t ! k))
      in if i < length (t_file t) then Some (set_shadow k (t_file t ! i) t) else None)"

definition writeFileBlockEntry :: "nat \<Rightarrow> ftable \<Rightarrow> ftable option" where
  "writeFileBlockEntry k t =
     (let e = t_shadow t ! k; i = unat (b_id e)
      in if i < length (t_file t) then Some (t\<lparr>t_file := (t_file t)[i := e]\<rparr>) else None)"

definition file_readBin :: "u32 \<Rightarrow> u32 \<Rightarrow> ftable \<Rightarrow> ftable option" where
  "file_readBin associativity binIndex t =
     (let start = unat (binIndex * associativity); n = unat associativity
      in if start + n \<le> length (t_file t)
         then Some (t\<lparr>t_shadow := take start (t_shadow t) @ take n (drop start (t_file t))
                                  @ drop (start + n) (t_shadow t)\<rparr>)
         else None)"

definition count_up :: "u32 \<Rightarrow> nat \<Rightarrow> ftable \<Rightarrow> ftable" where
  "count_up pid k t =
     (let e = t_shadow t ! k in set_shadow k (e\<lparr>b_activeCnt := b_activeCnt e + 1, b_pid := pid\<rparr>) t)"

definition file_incBlkCnt :: "u32 \<Rightarrow> nat \<Rightarrow> ftable \<Rightarrow> (ftable \<times> int) option" where
  "file_incBlkCnt pid k t =
     (let curCnt = uint (b_activeCnt (t_shadow t ! k))
      in map_option (\<lambda>t. (t, curCnt)) (writeFileBlockEntry k (count_up pid k t)))"

definition file_decBlkCnt :: "u32 \<Rightarrow> nat \<Rightarrow> ftable \<Rightarrow> (ftable \<times> int) option" where
  "file_decBlkCnt pid k t =
     (let e = t_shadow t ! k; curCnt = uint (b_activeCnt e);
          t = set_shadow k (e\<lparr>b_activeCnt := b_activeCnt e - 1, b_pid := pid\<rparr>) t
      in map_option (\<lambda>t. (t, curCnt)) (writeFileBlockEntry k t))"

definition file_anyUsers :: "nat \<Rightarrow> ftable \<Rightarrow> (ftable \<times> bool) option" where
  "file_anyUsers k t =
     map_option (\<lambda>t. (t, b_activeCnt (t_shadow t ! k) \<noteq> 0)) (readFileBlockEntry k t)"

definition file_blockSet ::
  "u32 \<Rightarrow> u64 \<Rightarrow> nat \<Rightarrow> string \<Rightarrow> u32 \<Rightarrow> blk_status \<Rightarrow> CacheType \<Rightarrow> int \<Rightarrow> int \<Rightarrow> ftable \<Rightarrow> ftable option" where
  "file_blockSet pid now k name blockIndex status type prefetched activeUpdate t =
     (let e = t_shadow t ! k;
          e = e\<lparr>b_fileName := name_buf name\<rparr>;
          e = e\<lparr>b_fileIndex := 0\<rparr>;
          e = e\<lparr>b_blockIndex := blockIndex\<rparr>;
          e = e\<lparr>b_timeStamp := ucast now\<rparr>;
          e = e\<lparr>b_origCache := type\<rparr>;
          e = e\<lparr>b_status := status\<rparr>;
          e = (if 0 \<le> prefetched then e\<lparr>b_prefetched := of_int prefetched\<rparr> else e);
          e = (if 0 < activeUpdate then e\<lparr>b_activeCnt := b_activeCnt e + 1\<rparr>
               else if activeUpdate < 0 then e\<lparr>b_activeCnt := b_activeCnt e - 1\<rparr> else e);
          e = e\<lparr>b_pid := pid\<rparr>
      in writeFileBlockEntry k (set_shadow k e t))"

text \<open>
  \<open>blockAvailable\<close> takes no lock. An available block whose cache of origin is not known yet makes
  it read the entry again, into the place of a pointer: \<open>PollSmash\<close>.
\<close>

datatype poll = PollWait | PollAvail CacheType | PollSmash

definition file_blockAvailable :: "nat \<Rightarrow> ftable \<Rightarrow> (ftable \<times> poll) option" where
  "file_blockAvailable k t =
     (do { t \<leftarrow> readFileBlockEntry k t;
           let e = t_shadow t ! k;
           Some (t, if b_status e \<noteq> BLK_AVAIL then PollWait
                    else if b_origCache e = Empty then PollSmash else PollAvail (b_origCache e)) })"

subsection \<open>Names\<close>

lemma strcmp_terminated:
  assumes "CHR 0x00 \<notin> set a" "CHR 0x00 \<notin> set b"
  shows "strcmp_eq (a @ CHR 0x00 # xs) (b @ CHR 0x00 # ys) = Some (a = b)"
  using assms
proof (induction a arbitrary: b)
  case Nil
  then show ?case by (cases b) auto
next
  case (Cons x a)
  then show ?case by (cases b) auto
qed

definition proper_name :: "string \<Rightarrow> bool" where
  "proper_name name \<longleftrightarrow> length name < BFL_FILENAME_LEN \<and> CHR 0x00 \<notin> set name"

lemma name_buf_short:
  "length name < BFL_FILENAME_LEN \<Longrightarrow>
     name_buf name = name @ CHR 0x00 # replicate (BFL_FILENAME_LEN - Suc (length name)) (CHR 0x00)"
  by (simp add: name_buf_def Let_def flip: replicate_Suc)

lemma strcmp_names: "proper_name a \<Longrightarrow> proper_name b \<Longrightarrow> strcmp_eq (name_buf a) (name_buf b) = Some (a = b)"
  by (simp add: proper_name_def name_buf_short strcmp_terminated)

lemma file_sameBlk_iff:
  "proper_name a \<Longrightarrow> proper_name b \<Longrightarrow> b_fileName e = name_buf a \<Longrightarrow>
     file_sameBlk e index b = Some (a = b \<and> b_blockIndex e = index)"
  by (simp add: file_sameBlk_def strcmp_names)

subsection \<open>Sections under the lock of a bin\<close>

text \<open>
  What the code of \<open>NewBoundedCache\<close> does with the entries of a bin while it has the lock, in any
  order: taking and giving back a reference, asking whether there are any, whether an entry is
  that of a block, whether it is available, and setting it.
\<close>

datatype sec_op =
    OInc nat | ODec nat | OUsers nat | OSame nat u32 u32 | OAvail nat
  | OSet nat u32 u32 blk_status CacheType int int u64

primrec op_entry :: "sec_op \<Rightarrow> nat" where
  "op_entry (OInc k) = k"
| "op_entry (ODec k) = k"
| "op_entry (OUsers k) = k"
| "op_entry (OSame k index fileIndex) = k"
| "op_entry (OAvail k) = k"
| "op_entry (OSet k fileIndex index status type prefetched activeUpdate now) = k"

text \<open>On the file, by a process with the file table \<open>names\<close> of its own.\<close>

fun file_op :: "u32 \<Rightarrow> (u32 \<Rightarrow> string) \<Rightarrow> sec_op \<Rightarrow> ftable \<Rightarrow> (ftable \<times> int) option" where
  "file_op pid names (OInc k) t = file_incBlkCnt pid k t"
| "file_op pid names (ODec k) t = file_decBlkCnt pid k t"
| "file_op pid names (OUsers k) t = map_option (\<lambda>(t, u). (t, of_bool u)) (file_anyUsers k t)"
| "file_op pid names (OSame k index fileIndex) t =
     map_option (\<lambda>same. (t, of_bool same)) (file_sameBlk (t_shadow t ! k) index (names fileIndex))"
| "file_op pid names (OAvail k) t = Some (t, of_bool (b_status (t_shadow t ! k) = BLK_AVAIL))"
| "file_op pid names (OSet k fileIndex index status type prefetched activeUpdate now) t =
     map_option (\<lambda>t. (t, 0))
       (file_blockSet pid now k (names fileIndex) index status type prefetched activeUpdate t)"

text \<open>On the table in memory, where a file has one index for all: \<open>gidx\<close> of its name.\<close>

fun mem_op :: "(string \<Rightarrow> u32) \<Rightarrow> (u32 \<Rightarrow> string) \<Rightarrow> sec_op \<Rightarrow> block_entry list \<Rightarrow> block_entry list \<times> int" where
  "mem_op gidx names (OInc k) xs = (xs[k := incBlkCnt (xs ! k)], uint (e_activeCnt (xs ! k)))"
| "mem_op gidx names (ODec k) xs = (let (b, old) = decBlkCnt (xs ! k) in (xs[k := b], uint old))"
| "mem_op gidx names (OUsers k) xs = (xs, of_bool (anyUsers (xs ! k)))"
| "mem_op gidx names (OSame k index fileIndex) xs =
     (xs, of_bool (sameBlk (xs ! k) index (gidx (names fileIndex))))"
| "mem_op gidx names (OAvail k) xs = (xs, of_bool (e_status (xs ! k) = BLK_AVAIL))"
| "mem_op gidx names (OSet k fileIndex index status type prefetched activeUpdate now) xs =
     (xs[k := blockSet now (xs ! k) (gidx (names fileIndex)) index status type prefetched activeUpdate], 0)"

fun run_ops :: "('o \<Rightarrow> 's \<Rightarrow> ('s \<times> int) option) \<Rightarrow> 'o list \<Rightarrow> 's \<Rightarrow> ('s \<times> int list) option" where
  "run_ops f [] s = Some (s, [])"
| "run_ops f (o1 # os) s =
     (do { (s, r) \<leftarrow> f o1 s; (s, rs) \<leftarrow> run_ops f os s; Some (s, r # rs) })"

text \<open>The shared file, and the copy and the file table of each process.\<close>

record shared_table =
  st_file :: "file_blk list"
  st_copies :: "nat \<Rightarrow> file_blk list"
  st_names :: "nat \<Rightarrow> u32 \<Rightarrow> string"

type_synonym section_run = "nat \<times> u32 \<times> sec_op list"

definition file_section ::
  "u32 \<Rightarrow> section_run \<Rightarrow> shared_table \<Rightarrow> (shared_table \<times> int list) option" where
  "file_section associativity sec s =
     (case sec of (p, bin, ops) \<Rightarrow>
        do { t \<leftarrow> file_readBin associativity bin \<lparr>t_file = st_file s, t_shadow = st_copies s p\<rparr>;
             (t, rs) \<leftarrow> run_ops (file_op (of_nat p) (st_names s p)) ops t;
             Some (s\<lparr>st_file := t_file t, st_copies := (st_copies s)(p := t_shadow t)\<rparr>, rs) })"

fun file_sections ::
  "u32 \<Rightarrow> section_run list \<Rightarrow> shared_table \<Rightarrow> (shared_table \<times> int list list) option" where
  "file_sections associativity [] s = Some (s, [])"
| "file_sections associativity (sec # secs) s =
     (do { (s, rs) \<leftarrow> file_section associativity sec s;
           (s, rss) \<leftarrow> file_sections associativity secs s;
           Some (s, rs # rss) })"

fun mem_ops ::
  "(string \<Rightarrow> u32) \<Rightarrow> (u32 \<Rightarrow> string) \<Rightarrow> sec_op list \<Rightarrow> block_entry list \<Rightarrow> block_entry list \<times> int list" where
  "mem_ops gidx names [] xs = (xs, [])"
| "mem_ops gidx names (o1 # os) xs =
     (let (xs, r) = mem_op gidx names o1 xs; (xs, rs) = mem_ops gidx names os xs in (xs, r # rs))"

fun mem_sections ::
  "(string \<Rightarrow> u32) \<Rightarrow> (nat \<Rightarrow> u32 \<Rightarrow> string) \<Rightarrow> section_run list \<Rightarrow> block_entry list \<Rightarrow>
   block_entry list \<times> int list list" where
  "mem_sections gidx names [] xs = (xs, [])"
| "mem_sections gidx names ((p, bin, ops) # secs) xs =
     (let (xs, rs) = mem_ops gidx (names p) ops xs; (xs, rss) = mem_sections gidx names secs xs
      in (xs, rs # rss))"

text \<open>
  What has to hold for an operation: it is on an entry of the bin, its file is one of \<open>N\<close>, the
  count of references neither falls below 0 nor reaches \<open>2 ^ 16\<close>, and nobody compares an entry
  that is empty (the code stops at such an entry anyway).
\<close>

definition op_ok ::
  "string set \<Rightarrow> (u32 \<Rightarrow> string) \<Rightarrow> nat \<Rightarrow> nat \<Rightarrow> block_entry list \<Rightarrow> sec_op \<Rightarrow> bool" where
  "op_ok N names lo n xs opn \<longleftrightarrow>
     lo \<le> op_entry opn \<and> op_entry opn < lo + n \<and>
     (let b = xs ! op_entry opn in
      case opn of
        OInc k \<Rightarrow> unat (e_activeCnt b) < 2 ^ 16 - 1
      | ODec k \<Rightarrow> e_activeCnt b \<noteq> 0
      | OSame k index fileIndex \<Rightarrow> names fileIndex \<in> N \<and> e_status b \<noteq> BLK_EMPTY
      | OSet k fileIndex index status type prefetched activeUpdate now \<Rightarrow>
          names fileIndex \<in> N
          \<and> (0 < activeUpdate \<longrightarrow> unat (e_activeCnt b) < 2 ^ 16 - 1)
          \<and> (activeUpdate < 0 \<longrightarrow> e_activeCnt b \<noteq> 0)
      | _ \<Rightarrow> True)"

fun ops_ok ::
  "(string \<Rightarrow> u32) \<Rightarrow> string set \<Rightarrow> (u32 \<Rightarrow> string) \<Rightarrow> nat \<Rightarrow> nat \<Rightarrow> sec_op list \<Rightarrow> block_entry list \<Rightarrow> bool" where
  "ops_ok gidx N names lo n [] xs \<longleftrightarrow> True"
| "ops_ok gidx N names lo n (o1 # os) xs \<longleftrightarrow>
     op_ok N names lo n xs o1 \<and> ops_ok gidx N names lo n os (fst (mem_op gidx names o1 xs))"

fun sections_ok ::
  "(string \<Rightarrow> u32) \<Rightarrow> string set \<Rightarrow> (nat \<Rightarrow> u32 \<Rightarrow> string) \<Rightarrow> u32 \<Rightarrow> nat \<Rightarrow> section_run list \<Rightarrow>
   block_entry list \<Rightarrow> bool" where
  "sections_ok gidx N names assoc numBins [] xs \<longleftrightarrow> True"
| "sections_ok gidx N names assoc numBins ((p, bin, ops) # secs) xs \<longleftrightarrow>
     unat bin < numBins
     \<and> ops_ok gidx N (names p) (unat bin * unat assoc) (unat assoc) ops xs
     \<and> sections_ok gidx N names assoc numBins secs (fst (mem_ops gidx (names p) ops xs))"

subsection \<open>The file behaves like the table in memory\<close>

definition ent_rel :: "(string \<Rightarrow> u32) \<Rightarrow> string set \<Rightarrow> file_blk \<Rightarrow> block_entry \<Rightarrow> bool" where
  "ent_rel gidx N e b \<longleftrightarrow>
     b_id e = e_id b \<and> b_blockIndex e = e_blockIndex b \<and> b_timeStamp e = e_timeStamp b
     \<and> b_status e = e_status b \<and> b_prefetched e = e_prefetched b \<and> b_origCache e = e_origCache b
     \<and> unat (b_activeCnt e) = unat (e_activeCnt b)
     \<and> (e_status b \<noteq> BLK_EMPTY \<longrightarrow> (\<exists>nm \<in> N. b_fileName e = name_buf nm \<and> e_fileIndex b = gidx nm))"

definition tab_rel :: "(string \<Rightarrow> u32) \<Rightarrow> string set \<Rightarrow> file_blk list \<Rightarrow> block_entry list \<Rightarrow> bool" where
  "tab_rel gidx N f xs \<longleftrightarrow> length f = length xs
     \<and> (\<forall>k < length xs. ent_rel gidx N (f ! k) (xs ! k) \<and> unat (e_id (xs ! k)) = k)"

definition synced :: "nat \<Rightarrow> nat \<Rightarrow> ftable \<Rightarrow> bool" where
  "synced lo n t \<longleftrightarrow> length (t_shadow t) = length (t_file t) \<and> lo + n \<le> length (t_file t)
     \<and> (\<forall>k. lo \<le> k \<and> k < lo + n \<longrightarrow> t_shadow t ! k = t_file t ! k)"

lemma tab_relD:
  assumes "tab_rel gidx N f xs" "k < length f"
  shows "ent_rel gidx N (f ! k) (xs ! k)" "unat (e_id (xs ! k)) = k" "unat (b_id (f ! k)) = k" "length xs = length f"
  using assms by (auto simp: tab_rel_def ent_rel_def)

lemma syncedD:
  assumes "synced lo n t" "lo \<le> k" "k < lo + n"
  shows "k < length (t_file t)" "k < length (t_shadow t)" "t_shadow t ! k = t_file t ! k"
  using assms by (auto simp: synced_def)

lemma write_entry:
  assumes rel: "tab_rel gidx N (t_file t) xs" and sy: "synced lo n t" and k: "lo \<le> k" "k < lo + n"
    and id: "b_id e = b_id (t_file t ! k)" "e_id b = e_id (xs ! k)" and eb: "ent_rel gidx N e b"
  shows "writeFileBlockEntry k (set_shadow k e t)
      = Some \<lparr>t_file = (t_file t)[k := e], t_shadow = (t_shadow t)[k := e]\<rparr>"
    "tab_rel gidx N ((t_file t)[k := e]) (xs[k := b])"
    "synced lo n \<lparr>t_file = (t_file t)[k := e], t_shadow = (t_shadow t)[k := e]\<rparr>"
proof -
  note K = syncedD [OF sy k]
  have i: "unat (b_id e) = k" using tab_relD(3) [OF rel K(1)] id(1) by simp
  show "writeFileBlockEntry k (set_shadow k e t)
      = Some \<lparr>t_file = (t_file t)[k := e], t_shadow = (t_shadow t)[k := e]\<rparr>"
    using K i by (simp add: writeFileBlockEntry_def set_shadow_def Let_def)
  show "tab_rel gidx N ((t_file t)[k := e]) (xs[k := b])"
    using rel eb tab_relD(2) [OF rel K(1)] id(2) K(1) unfolding tab_rel_def
    by (auto simp: nth_list_update)
  show "synced lo n \<lparr>t_file = (t_file t)[k := e], t_shadow = (t_shadow t)[k := e]\<rparr>"
    using sy K by (auto simp: synced_def nth_list_update)
qed

lemma unat_dec: "x \<noteq> 0 \<Longrightarrow> unat (x - 1 :: 'a::len word) = unat x - 1"
  by (metis unat_minus_one)

lemma ent_relD:
  assumes "ent_rel gidx N e b"
  shows "b_id e = e_id b" "b_blockIndex e = e_blockIndex b" "b_status e = e_status b"
    "b_prefetched e = e_prefetched b" "unat (b_activeCnt e) = unat (e_activeCnt b)"
    "uint (b_activeCnt e) = uint (e_activeCnt b)" "b_activeCnt e = 0 \<longleftrightarrow> e_activeCnt b = 0"
    "e_status b \<noteq> BLK_EMPTY \<Longrightarrow> \<exists>nm \<in> N. b_fileName e = name_buf nm \<and> e_fileIndex b = gidx nm"
proof -
  show c: "unat (b_activeCnt e) = unat (e_activeCnt b)" using assms by (simp add: ent_rel_def)
  show "uint (b_activeCnt e) = uint (e_activeCnt b)" using c by (metis uint_nat)
  show "b_activeCnt e = 0 \<longleftrightarrow> e_activeCnt b = 0" using c by (metis unat_eq_zero)
qed (use assms in \<open>simp_all add: ent_rel_def\<close>)

lemma count_rel:
  assumes "ent_rel gidx N e b"
  shows "unat (e_activeCnt b) < 2 ^ 16 - 1 \<Longrightarrow> ent_rel gidx N (e\<lparr>b_activeCnt := b_activeCnt e + 1, b_pid := pid\<rparr>) (incBlkCnt b)"
    "e_activeCnt b \<noteq> 0 \<Longrightarrow> ent_rel gidx N (e\<lparr>b_activeCnt := b_activeCnt e - 1, b_pid := pid\<rparr>) (fst (decBlkCnt b))"
proof -
  note c = ent_relD(5,7) [OF assms]
  show "ent_rel gidx N (e\<lparr>b_activeCnt := b_activeCnt e + 1, b_pid := pid\<rparr>) (incBlkCnt b)"
    if "unat (e_activeCnt b) < 2 ^ 16 - 1"
    using assms that c(1) by (simp add: ent_rel_def incBlkCnt_def unat_inc_small)
  show "ent_rel gidx N (e\<lparr>b_activeCnt := b_activeCnt e - 1, b_pid := pid\<rparr>) (fst (decBlkCnt b))"
    if "e_activeCnt b \<noteq> 0"
    using assms that c by (simp add: ent_rel_def decBlkCnt_def unat_dec)
qed

lemma set_rel:
  assumes "ent_rel gidx N e b" "nm \<in> N"
    and "0 < act \<longrightarrow> unat (e_activeCnt b) < 2 ^ 16 - 1" "act < 0 \<longrightarrow> e_activeCnt b \<noteq> 0"
    and e': "b_id e' = b_id e" "b_blockIndex e' = i" "b_timeStamp e' = ucast now" "b_status e' = st"
      "b_origCache e' = ty" "b_fileName e' = name_buf nm"
      "b_prefetched e' = (if 0 \<le> pre then of_int pre else b_prefetched e)"
      "b_activeCnt e' = (if 0 < act then b_activeCnt e + 1 else if act < 0 then b_activeCnt e - 1 else b_activeCnt e)"
  shows "ent_rel gidx N e' (blockSet now b (gidx nm) i st ty pre act)"
proof -
  note c = ent_relD(5,7) [OF assms(1)]
  have "unat (b_activeCnt e') = unat (e_activeCnt (blockSet now b (gidx nm) i st ty pre act))"
    using assms(3,4) c e'(8) by (auto simp: unat_inc_small unat_dec)
  moreover have "b_prefetched e' = e_prefetched (blockSet now b (gidx nm) i st ty pre act)"
    using e'(7) ent_relD(4) [OF assms(1)] by (simp add: blockSet_def incBlkCnt_def decBlkCnt_def Let_def)
  ultimately show ?thesis using assms(1,2) e' by (auto simp: ent_rel_def)
qed

lemma op_sim:
  assumes rel: "tab_rel gidx N (t_file t) xs" and sy: "synced lo n t" and ok: "op_ok N names lo n xs opn"
    and names: "\<forall>nm \<in> N. proper_name nm" "inj_on gidx N"
  obtains t' where "file_op pid names opn t = Some (t', snd (mem_op gidx names opn xs))"
    "tab_rel gidx N (t_file t') (fst (mem_op gidx names opn xs))" "synced lo n t'"
proof -
  define k where "k = op_entry opn"
  have k: "lo \<le> k" "k < lo + n" using ok by (simp_all add: op_ok_def k_def)
  note K = syncedD [OF sy k]
  note E = tab_relD [OF rel K(1)]
  note R = ent_relD [OF E(1)]
  note W = write_entry [OF rel sy k]
  have rd: "readFileBlockEntry k t = Some t"
    using K E(3) by (simp add: readFileBlockEntry_def set_shadow_def Let_def list_update_same_conv)
  show thesis
  proof (cases opn)
    case (OInc j)
    then have j: "j = k" by (simp add: k_def)
    have "unat (e_activeCnt (xs ! k)) < 2 ^ 16 - 1" using ok OInc j by (simp add: op_ok_def)
    note c = count_rel(1) [OF E(1) this, of pid]
    show thesis
      by (rule that, insert W [OF _ _ c] K R(6), simp_all add: OInc j file_incBlkCnt_def count_up_def Let_def incBlkCnt_def)
  next
    case (ODec j)
    then have j: "j = k" by (simp add: k_def)
    have "e_activeCnt (xs ! k) \<noteq> 0" using ok ODec j by (simp add: op_ok_def)
    note c = count_rel(2) [OF E(1) this, of pid]
    show thesis
      by (rule that, insert W [OF _ _ c] K R(6), simp_all add: ODec j file_decBlkCnt_def Let_def decBlkCnt_def)
  next
    case (OUsers j)
    then have j: "j = k" by (simp add: k_def)
    show thesis
      by (rule that [of t]) (use rel sy K R(7) in \<open>simp_all add: OUsers j file_anyUsers_def rd anyUsers_def\<close>)
  next
    case (OSame j index fileIndex)
    then have j: "j = k" by (simp add: k_def)
    have nm: "names fileIndex \<in> N" "e_status (xs ! k) \<noteq> BLK_EMPTY" using ok OSame j by (simp_all add: op_ok_def Let_def)
    obtain a where a: "a \<in> N" "b_fileName (t_file t ! k) = name_buf a" "e_fileIndex (xs ! k) = gidx a"
      using R(8) [OF nm(2)] by blast
    have "a = names fileIndex \<longleftrightarrow> gidx a = gidx (names fileIndex)" using inj_onD [OF names(2)] a(1) nm(1) by blast
    then have "file_sameBlk (t_file t ! k) index (names fileIndex) = Some (sameBlk (xs ! k) index (gidx (names fileIndex)))"
      using file_sameBlk_iff [of a "names fileIndex" "t_file t ! k" index] names(1) a nm(1) R(2)
      by (simp add: sameBlk_def)
    then show thesis by (intro that [of t]) (use rel sy K in \<open>simp_all add: OSame j\<close>)
  next
    case (OAvail j)
    then have j: "j = k" by (simp add: k_def)
    show thesis by (rule that [of t]) (use rel sy K R(3) in \<open>simp_all add: OAvail j\<close>)
  next
    case (OSet j fileIndex index st ty pre act now)
    then have j: "j = k" by (simp add: k_def)
    have nm: "names fileIndex \<in> N" "0 < act \<longrightarrow> unat (e_activeCnt (xs ! k)) < 2 ^ 16 - 1"
      "act < 0 \<longrightarrow> e_activeCnt (xs ! k) \<noteq> 0" using ok OSet j by (simp_all add: op_ok_def Let_def)
    define e where "e = (t_file t ! k)\<lparr>b_fileName := name_buf (names fileIndex), b_fileIndex := 0, b_blockIndex := index,
      b_timeStamp := ucast now, b_origCache := ty, b_status := st,
      b_prefetched := (if 0 \<le> pre then of_int pre else b_prefetched (t_file t ! k)),
      b_activeCnt := (if 0 < act then b_activeCnt (t_file t ! k) + 1
        else if act < 0 then b_activeCnt (t_file t ! k) - 1 else b_activeCnt (t_file t ! k)), b_pid := pid\<rparr>"
    have c: "ent_rel gidx N e (blockSet now (xs ! k) (gidx (names fileIndex)) index st ty pre act)"
      by (rule set_rel [OF E(1) nm]) (simp_all add: e_def)
    have "file_blockSet pid now k (names fileIndex) index st ty pre act t = writeFileBlockEntry k (set_shadow k e t)"
      using K(3) by (cases "t_file t ! k") (simp add: file_blockSet_def e_def Let_def)
    then show thesis
      by (intro that, insert W [OF _ _ c]) (simp_all add: OSet j e_def)
  qed
qed

lemma ops_sim:
  assumes "tab_rel gidx N (t_file t) xs" "synced lo n t" "ops_ok gidx N names lo n ops xs"
    and names: "\<forall>nm \<in> N. proper_name nm" "inj_on gidx N"
  shows "\<exists>t'. run_ops (file_op pid names) ops t = Some (t', snd (mem_ops gidx names ops xs))
    \<and> tab_rel gidx N (t_file t') (fst (mem_ops gidx names ops xs)) \<and> synced lo n t'"
  using assms(1-3)
proof (induction ops arbitrary: t xs)
  case (Cons opn ops)
  obtain ys r where m: "mem_op gidx names opn xs = (ys, r)" by fastforce
  have ok: "op_ok N names lo n xs opn" "ops_ok gidx N names lo n ops ys" using Cons.prems(3) m by simp_all
  obtain t1 where t1: "file_op pid names opn t = Some (t1, r)" "tab_rel gidx N (t_file t1) ys" "synced lo n t1"
    using op_sim [OF Cons.prems(1,2) ok(1) names] unfolding m fst_conv snd_conv by blast
  obtain t2 where "run_ops (file_op pid names) ops t1 = Some (t2, snd (mem_ops gidx names ops ys))"
    "tab_rel gidx N (t_file t2) (fst (mem_ops gidx names ops ys))" "synced lo n t2"
    using Cons.IH [OF t1(2,3) ok(2)] by blast
  then show ?case using t1(1) m by (intro exI [of _ t2]) (simp add: Let_def split_beta)
qed simp

lemma file_readBin_syncs:
  assumes "length (t_shadow t) = length (t_file t)" "length (t_file t) < 2 ^ 32"
    "unat bin < numBins" "numBins * unat assoc \<le> length (t_file t)"
  obtains t' where "file_readBin assoc bin t = Some t'" "t_file t' = t_file t"
    "synced (unat bin * unat assoc) (unat assoc) t'"
proof -
  let ?lo = "unat bin * unat assoc" and ?n = "unat assoc"
  have "?lo + ?n = Suc (unat bin) * ?n" by simp
  also have "\<dots> \<le> numBins * ?n" using assms(3) by (intro mult_le_mono1) simp
  finally have le: "?lo + ?n \<le> length (t_file t)" using assms(4) by simp
  have lo: "unat (bin * assoc) = ?lo"
    using le assms(2) by (simp add: unat_word_ariths(2))
  let ?sh = "take ?lo (t_shadow t) @ take ?n (drop ?lo (t_file t)) @ drop (?lo + ?n) (t_shadow t)"
  have "?sh ! k = t_file t ! k" if "?lo \<le> k" "k < ?lo + ?n" for k
    using that le assms(1) by (simp add: nth_append)
  then have "synced ?lo ?n (t\<lparr>t_shadow := ?sh\<rparr>)" using le assms(1) by (simp add: synced_def)
  then show thesis using le lo by (intro that) (simp_all add: file_readBin_def Let_def)
qed

lemma mem_ops_length: "length (fst (mem_ops gidx names ops xs)) = length xs"
proof (induction ops arbitrary: xs)
  case (Cons opn ops)
  have "length (fst (mem_op gidx names opn xs)) = length xs"
    by (cases opn) (simp_all add: split_beta)
  then show ?case using Cons.IH by (simp add: Let_def split_beta)
qed simp

lemma section_sim:
  assumes "tab_rel gidx N (st_file s) xs" and sh: "\<forall>p. length (st_copies s p) = length (st_file s)"
    and sz: "length (st_file s) < 2 ^ 32" "numBins * unat assoc \<le> length (st_file s)" "unat bin < numBins"
    and ok: "ops_ok gidx N (st_names s p) (unat bin * unat assoc) (unat assoc) ops xs"
    and names: "\<forall>nm \<in> N. proper_name nm" "inj_on gidx N"
  obtains s' where "file_section assoc (p, bin, ops) s = Some (s', snd (mem_ops gidx (st_names s p) ops xs))"
    "tab_rel gidx N (st_file s') (fst (mem_ops gidx (st_names s p) ops xs))"
    "\<forall>p. length (st_copies s' p) = length (st_file s')" "length (st_file s') = length (st_file s)"
    "st_names s' = st_names s"
proof -
  let ?t = "\<lparr>t_file = st_file s, t_shadow = st_copies s p\<rparr>"
  obtain t where t: "file_readBin assoc bin ?t = Some t" "t_file t = st_file s"
    "synced (unat bin * unat assoc) (unat assoc) t"
    by (rule file_readBin_syncs [of ?t bin numBins assoc]) (use sh sz in simp_all)
  have rel: "tab_rel gidx N (t_file t) xs" using assms(1) t(2) by simp
  obtain t' where t': "run_ops (file_op (of_nat p) (st_names s p)) ops t = Some (t', snd (mem_ops gidx (st_names s p) ops xs))"
    "tab_rel gidx N (t_file t') (fst (mem_ops gidx (st_names s p) ops xs))"
    "synced (unat bin * unat assoc) (unat assoc) t'"
    using ops_sim [OF rel t(3) ok names, of "of_nat p"] by blast
  have len: "length (t_file t') = length (st_file s)"
    using t'(2) assms(1) mem_ops_length [of gidx "st_names s p" ops xs] by (simp add: tab_rel_def)
  then have "length (t_shadow t') = length (st_file s)" using t'(3) by (simp add: synced_def)
  then show thesis
    using t(1) t'(1,2) len sh
    by (intro that [of "s\<lparr>st_file := t_file t', st_copies := (st_copies s)(p := t_shadow t')\<rparr>"])
      (simp_all add: file_section_def)
qed

text \<open>
  C13: The table of a cache in a shared file is the table of a cache in memory: whatever sections the
  processes of all machines run under the locks of the bins, each with its own numbering of the
  files and with a copy of the table that may be arbitrarily old, the answers to all their
  operations, and the entries in the end, are those of one table in memory on which the same
  operations run; and no section hangs.
\<close>

theorem file_table_like_memory:
  assumes "tab_rel gidx N (st_file s) xs" "\<forall>p. length (st_copies s p) = length (st_file s)"
    "length (st_file s) < 2 ^ 32" "numBins * unat assoc \<le> length (st_file s)"
    "sections_ok gidx N (st_names s) assoc numBins secs xs"
    "\<forall>nm \<in> N. proper_name nm" "inj_on gidx N"
  shows "\<exists>s'. file_sections assoc secs s = Some (s', snd (mem_sections gidx (st_names s) secs xs))
    \<and> tab_rel gidx N (st_file s') (fst (mem_sections gidx (st_names s) secs xs))"
  using assms(1-5)
proof (induction secs arbitrary: s xs)
  case (Cons sec secs)
  obtain p bin ops where sec: "sec = (p, bin, ops)" by (cases sec)
  have ok: "unat bin < numBins" "ops_ok gidx N (st_names s p) (unat bin * unat assoc) (unat assoc) ops xs"
    "sections_ok gidx N (st_names s) assoc numBins secs (fst (mem_ops gidx (st_names s p) ops xs))"
    using Cons.prems(5) by (simp_all add: sec)
  obtain s1 where s1: "file_section assoc (p, bin, ops) s = Some (s1, snd (mem_ops gidx (st_names s p) ops xs))"
    "tab_rel gidx N (st_file s1) (fst (mem_ops gidx (st_names s p) ops xs))"
    "\<forall>p. length (st_copies s1 p) = length (st_file s1)" "length (st_file s1) = length (st_file s)"
    "st_names s1 = st_names s"
    by (rule section_sim [OF Cons.prems(1-4) ok(1,2) assms(6,7)])
  have "\<exists>s'. file_sections assoc secs s1
      = Some (s', snd (mem_sections gidx (st_names s) secs (fst (mem_ops gidx (st_names s p) ops xs))))
    \<and> tab_rel gidx N (st_file s') (fst (mem_sections gidx (st_names s) secs (fst (mem_ops gidx (st_names s p) ops xs))))"
    using Cons.IH [OF s1(2,3)] Cons.prems(3,4) ok(3) unfolding s1(4,5) by simp
  then obtain s2 where "file_sections assoc secs s1
      = Some (s2, snd (mem_sections gidx (st_names s) secs (fst (mem_ops gidx (st_names s p) ops xs))))"
    "tab_rel gidx N (st_file s2) (fst (mem_sections gidx (st_names s) secs (fst (mem_ops gidx (st_names s p) ops xs))))"
    by blast
  then show ?case using s1(1) by (intro exI [of _ s2]) (simp add: sec Let_def split_beta)
qed simp

lemma new_table_rel:
  "n < 2 ^ 32 \<Longrightarrow> tab_rel gidx N (map (\<lambda>i. FileBlockEntry (of_nat i)) [0..<n]) (map (\<lambda>i. init_entry (of_nat i)) [0..<n])"
  by (simp add: tab_rel_def ent_rel_def FileBlockEntry_def init_entry_def unat_of_nat_small)

theorem file_table_like_memory_witness:
  "\<exists>s'. file_sections 2
       [(0, 0, [OSet 0 0 5 BLK_RES PrivateMemory (-1) 1 7, OInc 0]), (1, 0, [OSame 0 5 1, OUsers 0, ODec 0])]
       \<lparr>st_file = [FileBlockEntry 0, FileBlockEntry 1], st_copies = (\<lambda>_. [FileBlockEntry 0, FileBlockEntry 1]),
        st_names = (\<lambda>p i. if (p = 0) = (i = 0) then ''a'' else ''b'')\<rparr>
     = Some (s', [[0, 1], [1, 1, 2]])"
proof -
  let ?f = "[FileBlockEntry 0, FileBlockEntry 1]"
  let ?n = "\<lambda>p i. if (p = (0 :: nat)) = (i = (0 :: u32)) then ''a'' else ''b''"
  let ?s = "\<lparr>st_file = ?f, st_copies = (\<lambda>_. ?f), st_names = ?n\<rparr>"
  let ?g = "\<lambda>nm. if nm = ''a'' then (0 :: u32) else 1"
  let ?secs = "[(0, 0, [OSet 0 0 5 BLK_RES PrivateMemory (-1) 1 7, OInc 0]), (1, 0, [OSame 0 5 1, OUsers 0, ODec 0])]"
  let ?xs = "[init_entry 0, init_entry 1]"
  have rel: "tab_rel ?g {''a'', ''b''} (st_file ?s) ?xs"
    by (simp add: tab_rel_def ent_rel_def FileBlockEntry_def init_entry_def less_Suc_eq)
  have ok: "sections_ok ?g {''a'', ''b''} (st_names ?s) 2 1 ?secs ?xs"
    by (simp add: op_ok_def init_entry_def blockSet_def incBlkCnt_def decBlkCnt_def anyUsers_def sameBlk_def Let_def)
  have res: "snd (mem_sections ?g (st_names ?s) ?secs ?xs) = [[0, 1], [1, 1, 2]]"
    by (simp add: op_ok_def init_entry_def blockSet_def incBlkCnt_def decBlkCnt_def anyUsers_def sameBlk_def Let_def)
  have pn: "\<forall>nm \<in> {''a'', ''b''}. proper_name nm" "inj_on ?g {''a'', ''b''}"
    by (simp_all add: proper_name_def BFL_FILENAME_LEN_def)
  have sz: "\<forall>p. length (st_copies ?s p) = length (st_file ?s)" "length (st_file ?s) < 2 ^ 32"
    "1 * unat (2 :: u32) \<le> length (st_file ?s)" by simp_all
  obtain s' where "file_sections 2 ?secs ?s = Some (s', snd (mem_sections ?g (st_names ?s) ?secs ?xs))"
    using file_table_like_memory [OF rel sz ok pn] by (elim exE conjE)
  then have "file_sections 2 ?secs ?s = Some (s', [[0, 1], [1, 1, 2]])" unfolding res .
  then show ?thesis by (rule exI)
qed

subsection \<open>Polling without the lock\<close>

text \<open>
  C15: Waiting threads poll without the lock, and read the file into the copy that the other threads
  of their process work on. When that happens between the two halves of taking a reference
  (counting in the copy, writing the entry to the file), the reference is lost: the file
  stays as it was, and the block can be evicted while it is in use.
\<close>

theorem unlocked_poll_loses_reference:
  assumes "k < length (t_file t)" "length (t_shadow t) = length (t_file t)"
    "t_shadow t ! k = t_file t ! k" "unat (b_id (t_file t ! k)) = k"
  shows "(\<exists>t'. file_incBlkCnt pid k t = Some (t', uint (b_activeCnt (t_file t ! k)))
        \<and> b_activeCnt (t_file t' ! k) = b_activeCnt (t_file t ! k) + 1)
    \<and> (\<exists>t1 st t2. file_blockAvailable k (count_up pid k t) = Some (t1, st)
        \<and> writeFileBlockEntry k t1 = Some t2 \<and> t_file t2 = t_file t)"
  using assms
  by (simp add: file_incBlkCnt_def file_blockAvailable_def count_up_def writeFileBlockEntry_def
      readFileBlockEntry_def set_shadow_def Let_def)

theorem unlocked_poll_loses_reference_witness:
  "\<exists>t1 st t2. file_blockAvailable 0 (count_up 7 0 \<lparr>t_file = [FileBlockEntry 0], t_shadow = [FileBlockEntry 0]\<rparr>)
       = Some (t1, st) \<and> writeFileBlockEntry 0 t1 = Some t2 \<and> t_file t2 = [FileBlockEntry 0]"
  using unlocked_poll_loses_reference [of 0 "\<lparr>t_file = [FileBlockEntry 0], t_shadow = [FileBlockEntry 0]\<rparr>" 7]
  by (simp add: FileBlockEntry_def)

text \<open>Names of 1024 characters and more fill the buffer: a comparison of equal ones runs out of it.\<close>

lemma strcmp_unterminated: "CHR 0x00 \<notin> set a \<Longrightarrow> strcmp_eq a a = None"
  by (induction a) auto

lemma long_names_overrun:
  assumes "BFL_FILENAME_LEN \<le> length a" "CHR 0x00 \<notin> set a" "b_fileName e = name_buf a"
  shows "file_sameBlk e index a = None"
proof -
  have "name_buf a = drop (length a - BFL_FILENAME_LEN) a" using assms(1) by (simp add: name_buf_def Let_def)
  moreover have "CHR 0x00 \<notin> set (drop (length a - BFL_FILENAME_LEN) a)" using assms(2) by (meson in_set_dropD)
  ultimately show ?thesis using assms(3) by (simp add: file_sameBlk_def strcmp_unterminated)
qed

subsection \<open>Setting up the files\<close>

text \<open>
  Where a process is in the constructor. The one whose \<open>mkdir\<close> succeeds creates both files under
  temporary names and renames them, the others wait for them (the numbers count the seconds
  waited); \<open>CExit\<close>: \<open>exit(1)\<close>.
\<close>

datatype setup_pc =
    CStart | CLockOpen | CLockWrite | CLockRename | CDataOpen | CDataSize | CDataRename
  | CWaitLock nat | CWaitData nat | CReady | CExit

record setup_fs =
  i_init :: bool
  i_lockTmp :: "file_blk list option"
  i_lock :: "file_blk list option"
  i_dataTmp :: "bytes option"
  i_data :: "bytes option"

definition new_table :: "u32 \<Rightarrow> file_blk list" where
  "new_table numBlocks = map (\<lambda>i. FileBlockEntry (of_nat i)) [0..<unat numBlocks]"

definition wait_second :: "nat \<Rightarrow> (nat \<Rightarrow> setup_pc) \<Rightarrow> setup_pc" where
  "wait_second secs again = (if 100 < secs then CExit else again (Suc secs))"

text \<open>
  The byte that makes the file of the table one longer than the table is left out. A failure to
  open or to size the file of the blocks is only noted in the log.
\<close>

fun setup_step :: "u32 \<Rightarrow> u64 \<Rightarrow> nat \<Rightarrow> bool \<Rightarrow> setup_fs \<Rightarrow> setup_pc \<Rightarrow> setup_fs \<times> setup_pc" where
  "setup_step numBlocks blockSize i fails m CStart =
     (if i_init m \<or> fails then (m, CWaitLock 0) else (m\<lparr>i_init := True\<rparr>, CLockOpen))"
| "setup_step numBlocks blockSize i fails m CLockOpen =
     (if fails then (m, CExit) else (m\<lparr>i_lockTmp := Some []\<rparr>, CLockWrite))"
| "setup_step numBlocks blockSize i fails m CLockWrite =
     (if fails then (m, CExit) else (m\<lparr>i_lockTmp := Some (new_table numBlocks)\<rparr>, CLockRename))"
| "setup_step numBlocks blockSize i fails m CLockRename =
     (if fails \<or> i_lockTmp m = None then (m, CExit)
      else (m\<lparr>i_lock := i_lockTmp m, i_lockTmp := None\<rparr>, CDataOpen))"
| "setup_step numBlocks blockSize i fails m CDataOpen =
     ((if fails then m else m\<lparr>i_dataTmp := Some []\<rparr>), CDataSize)"
| "setup_step numBlocks blockSize i fails m CDataSize =
     ((if fails \<or> i_dataTmp m = None then m
       else m\<lparr>i_dataTmp := Some (replicate (unat (ucast numBlocks * blockSize) + 1) 0)\<rparr>), CDataRename)"
| "setup_step numBlocks blockSize i fails m CDataRename =
     (if fails \<or> i_dataTmp m = None then (m, CExit)
      else (m\<lparr>i_data := i_dataTmp m, i_dataTmp := None\<rparr>, CReady))"
| "setup_step numBlocks blockSize i fails m (CWaitLock secs) =
     (m, if i_lock m \<noteq> None then CWaitData 0 else wait_second secs CWaitLock)"
| "setup_step numBlocks blockSize i fails m (CWaitData secs) =
     (m, if i_data m \<noteq> None then CReady else wait_second secs CWaitData)"
| "setup_step numBlocks blockSize i fails m p = (m, p)"

text \<open>A new directory, and one in which a process has died while it set up the files.\<close>

definition fresh_dir :: setup_fs where
  "fresh_dir = \<lparr>i_init = False, i_lockTmp = None, i_lock = None, i_dataTmp = None, i_data = None\<rparr>"

definition abandoned_dir :: setup_fs where
  "abandoned_dir = fresh_dir\<lparr>i_init := True\<rparr>"

definition setup_reach :: "u32 \<Rightarrow> u64 \<Rightarrow> setup_fs \<Rightarrow> nat \<Rightarrow> setup_fs \<times> setup_pc list \<Rightarrow> bool" where
  "setup_reach numBlocks blockSize dir n s \<longleftrightarrow>
     (lk_step (setup_step numBlocks blockSize) (\<lambda>(_ :: unit) _. None) (\<lambda>_. False))\<^sup>*\<^sup>* (dir, replicate n CStart) s"

definition creating :: "setup_pc \<Rightarrow> bool" where
  "creating p \<longleftrightarrow> p \<in> {CLockOpen, CLockWrite, CLockRename, CDataOpen, CDataSize, CDataRename}"

definition table_there :: "setup_pc \<Rightarrow> bool" where
  "table_there p \<longleftrightarrow> p \<in> {CDataOpen, CDataSize, CDataRename, CReady} \<or> (\<exists>c. p = CWaitData c)"

definition setup_local :: "u32 \<Rightarrow> u64 \<Rightarrow> setup_fs \<Rightarrow> setup_pc \<Rightarrow> bool" where
  "setup_local numBlocks blockSize m p \<longleftrightarrow>
     (creating p \<longrightarrow> i_init m)
     \<and> (table_there p \<longrightarrow> i_lock m \<noteq> None)
     \<and> (p = CLockRename \<longrightarrow> i_lockTmp m = Some (new_table numBlocks))
     \<and> (p = CReady \<longrightarrow> i_data m \<noteq> None)"

definition lock_file_ok :: "u32 \<Rightarrow> file_blk list option \<Rightarrow> bool" where
  "lock_file_ok numBlocks f \<longleftrightarrow> f \<in> {None, Some (new_table numBlocks)}"

definition data_file_ok :: "u32 \<Rightarrow> u64 \<Rightarrow> bytes option \<Rightarrow> bool" where
  "data_file_ok numBlocks blockSize f \<longleftrightarrow>
     f \<in> {None, Some [], Some (replicate (unat (ucast numBlocks * blockSize) + 1) 0)}"

definition setup_files :: "u32 \<Rightarrow> u64 \<Rightarrow> setup_fs \<Rightarrow> bool" where
  "setup_files numBlocks blockSize m \<longleftrightarrow> lock_file_ok numBlocks (i_lock m)
     \<and> data_file_ok numBlocks blockSize (i_dataTmp m) \<and> data_file_ok numBlocks blockSize (i_data m)"

lemma files_ok [simp]:
  "lock_file_ok nb None" "lock_file_ok nb (Some (new_table nb))"
  "data_file_ok nb bs None" "data_file_ok nb bs (Some [])"
  "data_file_ok nb bs (Some (0 # replicate (unat (ucast nb * bs)) 0))"
  by (simp_all add: lock_file_ok_def data_file_ok_def)

lemma setup_step_own:
  assumes "setup_step nb bs i f m p = (m', p')" "setup_local nb bs m p" "setup_files nb bs m"
  shows "setup_local nb bs m' p' \<and> setup_files nb bs m'"
  using assms
  by (cases p) (simp_all add: setup_local_def setup_files_def creating_def table_there_def wait_second_def split: if_splits, auto)

text \<open>The others are not disturbed, because only the one that creates the files touches them.\<close>

lemma setup_step_other:
  assumes "setup_step nb bs i f m p = (m', p')" "setup_local nb bs m q" "\<not> (creating p \<and> creating q)"
  shows "setup_local nb bs m' q"
  using assms
  by (cases p) (auto simp: setup_local_def creating_def table_there_def wait_second_def split: if_splits)

lemma setup_step_creating:
  assumes "setup_step nb bs i f m p = (m', p')" "creating p'"
  shows "creating p \<or> \<not> i_init m"
  using assms by (cases p) (auto simp: creating_def wait_second_def split: if_splits)

definition setup_inv :: "u32 \<Rightarrow> u64 \<Rightarrow> setup_fs \<times> setup_pc list \<Rightarrow> bool" where
  "setup_inv nb bs s \<longleftrightarrow> (case s of (m, ps) \<Rightarrow>
     setup_files nb bs m
     \<and> (\<forall>i < length ps. setup_local nb bs m (ps ! i))
     \<and> (\<forall>i < length ps. \<forall>j < length ps. creating (ps ! i) \<and> creating (ps ! j) \<longrightarrow> i = j))"

lemma setup_inv_step:
  assumes "lk_step (setup_step nb bs) (\<lambda>(_ :: unit) _. None) (\<lambda>_. False) s t" "setup_inv nb bs s"
  shows "setup_inv nb bs t"
  using assms(1)
proof (cases rule: lk_step.cases)
  case (LRun i ps f m m' p)
  have inv: "setup_files nb bs m" "\<And>j. j < length ps \<Longrightarrow> setup_local nb bs m (ps ! j)"
    "\<And>j k. j < length ps \<Longrightarrow> k < length ps \<Longrightarrow> creating (ps ! j) \<Longrightarrow> creating (ps ! k) \<Longrightarrow> j = k"
    using assms(2) unfolding LRun(1) setup_inv_def prod.case by blast+
  note own = setup_step_own [OF LRun(4) inv(2) [OF LRun(3)] inv(1)]
  have loc: "setup_local nb bs m' (ps[i := p] ! j)" if "j < length ps" for j
  proof (cases "j = i")
    case False
    then have "\<not> (creating (ps ! i) \<and> creating (ps ! j))" using inv(3) [OF LRun(3) that] by blast
    then show ?thesis using setup_step_other [OF LRun(4) inv(2) [OF that]] False by simp
  qed (use own LRun(3) in simp)
  have solo: "j = i" if "j < length ps" "creating p" "creating (ps ! j)" for j
  proof -
    have "i_init m" using inv(2) [OF that(1)] that(3) by (simp add: setup_local_def)
    then have "creating (ps ! i)" using setup_step_creating [OF LRun(4) that(2)] by simp
    then show ?thesis by (rule inv(3) [OF that(1) LRun(3) that(3)])
  qed
  have here: "ps[i := p] ! i = p" using LRun(3) by simp
  have "j = k" if jk: "j < length ps" "k < length ps" "creating (ps[i := p] ! j)" "creating (ps[i := p] ! k)" for j k
  proof (cases "j = i")
    case True
    show ?thesis
    proof (cases "k = i")
      case False
      then have "creating (ps ! k)" "creating p" using jk(3,4) here True by simp_all
      from solo [OF jk(2) this(2,1)] show ?thesis using True by simp
    qed (simp add: True)
  next
    case j: False
    show ?thesis
    proof (cases "k = i")
      case True
      then have "creating (ps ! j)" "creating p" using jk(3,4) here j by simp_all
      from solo [OF jk(1) this(2,1)] show ?thesis using True by simp
    next
      case False
      then show ?thesis using jk j by (intro inv(3)) simp_all
    qed
  qed
  then show ?thesis using own loc unfolding LRun(2) setup_inv_def by (simp del: nth_list_update)
qed simp

lemma setup_reach_inv:
  assumes "setup_reach nb bs dir n s" "dir \<in> {fresh_dir, abandoned_dir}"
  shows "setup_inv nb bs s \<and> length (snd s) = n"
  using assms(1) unfolding setup_reach_def
proof (induction rule: rtranclp_induct)
  case base
  show ?case using assms(2)
    by (auto simp: setup_inv_def setup_files_def setup_local_def fresh_dir_def abandoned_dir_def creating_def table_there_def)
next
  case (step s t)
  then show ?case using setup_inv_step [OF step.hyps(2)] by (auto elim: lk_step.cases)
qed

lemma abandoned_step:
  assumes "lk_step (setup_step nb bs) (\<lambda>(_ :: unit) _. None) (\<lambda>_. False) s t"
    "fst s = abandoned_dir" "\<forall>p \<in> set (snd s). \<not> creating p \<and> \<not> table_there p"
  shows "fst t = abandoned_dir \<and> (\<forall>p \<in> set (snd t). \<not> creating p \<and> \<not> table_there p)"
  using assms(1)
proof (cases rule: lk_step.cases)
  case (LRun i ps f m m' p)
  have "\<not> creating (ps ! i)" "\<not> table_there (ps ! i)" "m = abandoned_dir" using assms(2,3) LRun(1,3) by auto
  then have "m' = m \<and> \<not> creating p \<and> \<not> table_there p" using LRun(4)
    by (cases "ps ! i") (auto simp: creating_def table_there_def wait_second_def abandoned_dir_def fresh_dir_def split: if_splits)
  then show ?thesis using assms(2,3) LRun(1,2) by (auto dest!: set_update_subset_insert [THEN subsetD])
qed simp



end
