(* ===== verification/ServerCache.thy ===== *)
theory ServerCache
  imports CacheMachine
begin

text \<open>
  The older bounded cache in memory, which the server uses: \<^verbatim>\<open>deprecated/BoundedCache.cpp\<close> with
  the store \<^verbatim>\<open>deprecated/MemoryCache.cpp\<close> (\<^verbatim>\<open>SharedMemoryCache.cpp\<close> has the same operations). Its
  table, bins, constructor and files are those of \<^verbatim>\<open>BoundedCache.thy\<close>, except that an entry has
  no id (\<open>e_id\<close> is never read here) and keeps the numbers of its file and block plus one. It
  counts the users of an entry outside of \<open>blockSet\<close>: every reference that \<open>readBlock\<close> takes is
  given back by \<open>writeBlock\<close>, so that the counts are exact.
\<close>

subsection \<open>The operations on the table\<close>

text \<open>An \<open>int\<close> from a 32-bit index; the functions return \<open>-1\<close> for none.\<close>

definition to_int :: "nat \<Rightarrow> int" where
  "to_int k = sint (of_nat k :: u32)"

definition old_sameBlk :: "block_entry \<Rightarrow> u32 \<Rightarrow> u32 \<Rightarrow> bool" where
  "old_sameBlk b index fileIndex = sameBlk b (index + 1) (fileIndex + 1)"

definition old_blockSet ::
  "u64 \<Rightarrow> bcache \<Rightarrow> nat \<Rightarrow> u32 \<Rightarrow> u32 \<Rightarrow> blk_status \<Rightarrow> CacheType \<Rightarrow> int \<Rightarrow> bcache" where
  "old_blockSet now c index fileIndex blockIndex status type prefetched =
     (let b = (c_blkIndex c ! index)\<lparr>e_fileIndex := fileIndex + 1\<rparr>;
          b = b\<lparr>e_blockIndex := blockIndex + 1\<rparr>;
          b = b\<lparr>e_timeStamp := ucast now\<rparr>;
          b = (if 0 \<le> prefetched then b\<lparr>e_prefetched := of_int prefetched\<rparr> else b);
          b = b\<lparr>e_origCache := type\<rparr>;
          b = b\<lparr>e_status := status\<rparr>
      in set_entry c index b)"

definition old_incBlkCnt :: "bcache \<Rightarrow> nat \<Rightarrow> bcache" where
  "old_incBlkCnt c blk = set_entry c blk (incBlkCnt (c_blkIndex c ! blk))"

definition old_decBlkCnt :: "bcache \<Rightarrow> nat \<Rightarrow> bcache" where
  "old_decBlkCnt c blk = set_entry c blk (fst (decBlkCnt (c_blkIndex c ! blk)))"

definition old_getBlockIndex :: "bcache \<Rightarrow> u32 \<Rightarrow> u32 \<Rightarrow> bcache \<times> int" where
  "old_getBlockIndex c index fileIndex =
     (let (c, binIndex) = getBinIndex c index fileIndex
      in (c, case find_avail (index + 1) (fileIndex + 1) (readBin c binIndex) of None \<Rightarrow> -1 | Some k \<Rightarrow> to_int k))"

text \<open>The loop of \<open>oldestBlockIndex\<close>: \<open>Inl\<close> the index and \<open>found\<close> when it returns.\<close>

fun old_scan :: "bool \<Rightarrow> u32 \<Rightarrow> u32 \<Rightarrow> (nat \<times> block_entry) list \<Rightarrow> lru \<Rightarrow> (int \<times> bool) + lru" where
  "old_scan prefetchEvict index fileIndex [] a = Inr a"
| "old_scan prefetchEvict index fileIndex ((k, b) # bs) a =
     (if e_status b = BLK_EMPTY then Inl (to_int k, False)
      else if e_status b = BLK_RES \<or> e_status b = BLK_PRE
      then if old_sameBlk b index fileIndex then Inl (to_int k, True)
           else old_scan prefetchEvict index fileIndex bs a
      else if e_status b = BLK_WR
      then if old_sameBlk b index fileIndex then Inl (to_int k, True)
           else old_scan prefetchEvict index fileIndex bs a
      else if e_status b = BLK_AVAIL
      then if old_sameBlk b index fileIndex then Inl (-1, True)
           else old_scan prefetchEvict index fileIndex bs (lru_step prefetchEvict k b a)
      else old_scan prefetchEvict index fileIndex bs a)"

definition old_oldestBlockIndex :: "bool \<Rightarrow> bcache \<Rightarrow> u32 \<Rightarrow> u32 \<Rightarrow> bcache \<times> int \<times> bool" where
  "old_oldestBlockIndex prefetchEvict c index fileIndex =
     (let (c, binIndex) = getBinIndex c index fileIndex
      in case old_scan prefetchEvict index fileIndex (readBin c binIndex) lru_init of
           Inl (k, found) \<Rightarrow> (c, k, found)
         | Inr a \<Rightarrow>
             (case (if prefetchEvict \<and> l_minPrefetchTime a \<noteq> - 1 then l_minPrefetchEntry a else None) of
                Some k \<Rightarrow> (c\<lparr>c_prefetchCollisions := c_prefetchCollisions c + 1\<rparr>, to_int k, False)
              | None \<Rightarrow>
                  (case (if l_minTime a \<noteq> - 1 then l_minEntry a else None) of
                     Some k \<Rightarrow> (c\<lparr>c_collisions := c_collisions c + 1\<rparr>, to_int k, False)
                   | None \<Rightarrow> (c, -1, False))))"

definition old_blockReserve ::
  "bool \<Rightarrow> u64 \<Rightarrow> bcache \<Rightarrow> u32 \<Rightarrow> u32 \<Rightarrow> bool \<Rightarrow> bcache \<times> bool \<times> bool \<times> int" where
  "old_blockReserve prefetchEvict now c index fileIndex prefetch =
     (let (c, reservedIndex, found) = old_oldestBlockIndex prefetchEvict c index fileIndex
      in if \<not> found \<and> -1 < reservedIndex
         then (old_blockSet now c (nat reservedIndex) fileIndex index (if prefetch then BLK_PRE else BLK_RES)
                 (c_type c) (of_bool prefetch), True, found, reservedIndex)
         else (c, False, found, reservedIndex))"

subsection \<open>Reading and writing a block\<close>

definition old_readBlock ::
  "bool \<Rightarrow> u64 \<Rightarrow> bcache \<Rightarrow> request \<Rightarrow> u64 \<Rightarrow> bcache \<times> request \<times> read_outcome" where
  "old_readBlock prefetchEvict now c req0 priority =
     (let prefetch = (priority \<noteq> 0);
          index = r_blkIndex req0; fileIndex = r_fileIndex req0;
          (m, fe) = fileMap_at (c_fileMap c) fileIndex;
          c = c\<lparr>c_fileMap := m\<rparr>;
          req = default_size fe req0
      in if r_size req \<le> c_blockSize c
         then let (c, blockIndex) = old_getBlockIndex c index fileIndex
              in if 0 \<le> blockIndex
                 then let prefetched = e_prefetched (c_blkIndex c ! nat blockIndex);
                          c = old_incBlkCnt c (nat blockIndex);
                          prefetched = (if 0 < prefetched then of_bool prefetch else prefetched);
                          c = old_blockSet now c (nat blockIndex) fileIndex index BLK_AVAIL (c_type c) (sint prefetched)
                      in (c, hit_request c (nat blockIndex) (reserve (c_level c) req), ReadHit)
                 else let (c, isReserved, found, blockIndex) = old_blockReserve prefetchEvict now c index fileIndex prefetch;
                          (c, blockIndex) =
                            (if blockIndex = -1 \<and> found then old_getBlockIndex c index fileIndex else (c, blockIndex));
                          (c, req) =
                            (if 0 \<le> blockIndex then (old_incBlkCnt c (nat blockIndex), reserve (c_level c) req)
                             else (c, req\<lparr>r_reservedMap := (r_reservedMap req)(c_level c := 0)\<rparr>))
                      in (c, req,
                          if isReserved then ReadNext (Some (nat blockIndex))
                          else if \<not> found then ReadNext None
                          else ReadWait (unat (of_int blockIndex :: u32)))
         else (c, req, ReadCrash))"

text \<open>
  \<open>writeBlock\<close>. The test \<open>status != BLK_WR || status != BLK_AVAIL || !found\<close> is always true. A count
  that is 0 before it is decremented is only logged.
\<close>

definition old_writeBlock ::
  "bool \<Rightarrow> u64 \<Rightarrow> bcache \<Rightarrow> request \<Rightarrow> bytes \<Rightarrow> bcache \<times> write_outcome" where
  "old_writeBlock prefetchEvict now c0 req src =
     (let this = c_level c0;
          release = (\<lambda>c k. if 0 < reserved req this then old_decBlkCnt c k else c)
      in if 0 < reserved req this \<or> \<not> c_terminating c0
         then
           let index = r_blkIndex req; fileIndex = r_fileIndex req;
               (c, binIndex) = getBinIndex c0 index fileIndex
           in if r_originating req = this
              then let (c, blockIndex) = old_getBlockIndex c index fileIndex
                   in (if 0 \<le> blockIndex then release c (nat blockIndex) else c, WriteDone True)
              else if r_size req \<le> c_blockSize c
              then let (c, blockIndex, found) = old_oldestBlockIndex prefetchEvict c index fileIndex
                   in if 0 \<le> blockIndex
                      then let k = nat blockIndex; entry = c_blkIndex c ! k
                           in case (if e_status entry \<noteq> BLK_WR \<or> e_status entry \<noteq> BLK_AVAIL \<or> \<not> found
                                    then let c = old_blockSet now c k fileIndex index BLK_WR (r_origType req) (sint (e_prefetched entry))
                                         in map_option (\<lambda>c. old_blockSet now c k fileIndex index BLK_AVAIL (r_origType req)
                                                              (sint (e_prefetched entry)))
                                              (setBlockData c src (of_nat k) (r_size req))
                                    else if e_status entry = BLK_AVAIL
                                    then Some (old_blockSet now c k fileIndex index BLK_AVAIL (r_origType req) (sint (e_prefetched entry)))
                                    else Some c) of
                                None \<Rightarrow> (c, WriteFault)
                              | Some c \<Rightarrow> (if found then release c k else c, WriteNext True)
                      else let (c, blockIndex) = old_getBlockIndex c index fileIndex
                           in (if 0 \<le> blockIndex \<and> found then release c (nat blockIndex) else c, WriteNext False)
              else (c, WriteNext False)
         else if r_originating req = this then (c0, WriteFreedNext True)
         else (c0, WriteNext False))"

text \<open>The constructors, \<open>addFile\<close> and the deferred wait are those of the newer cache.\<close>

definition MemoryCache :: "nat \<Rightarrow> string \<Rightarrow> CacheType \<Rightarrow> u64 \<Rightarrow> u64 \<Rightarrow> u32 \<Rightarrow> bcache option" where
  "MemoryCache level cacheName type cacheSize blockSize associativity =
     NewMemoryCache level cacheName type cacheSize blockSize associativity"

definition old_addFile :: "(string \<Rightarrow> u32) \<Rightarrow> bcache \<Rightarrow> u32 \<Rightarrow> string \<Rightarrow> u64 \<Rightarrow> u64 \<Rightarrow> bcache" where
  "old_addFile XXH32 c index filename blockSize fileSize = addFile XXH32 c index filename blockSize fileSize"

definition old_wait :: "bcache \<Rightarrow> nat \<Rightarrow> request \<Rightarrow> request option" where
  "old_wait c blockIndex req = wait_available c blockIndex req"

subsection \<open>The table as that of the newer cache\<close>

definition unshift :: "block_entry \<Rightarrow> block_entry" where
  "unshift b = b\<lparr>e_fileIndex := e_fileIndex b - 1, e_blockIndex := e_blockIndex b - 1\<rparr>"

definition table_of :: "bcache \<Rightarrow> bcache" where
  "table_of c = c\<lparr>c_blkIndex := map unshift (c_blkIndex c)\<rparr>"

lemma unshift_sel [simp]:
  "e_id (unshift b) = e_id b" "e_status (unshift b) = e_status b" "e_activeCnt (unshift b) = e_activeCnt b"
  "e_timeStamp (unshift b) = e_timeStamp b" "e_prefetched (unshift b) = e_prefetched b"
  "e_origCache (unshift b) = e_origCache b" "anyUsers (unshift b) = anyUsers b"
  "used (unshift b) = used b" "evictable (unshift b) = evictable b" "filling (unshift b) = filling b"
  "sameBlk (unshift b) i f \<longleftrightarrow> old_sameBlk b i f"
  by (auto simp: unshift_def anyUsers_def used_def evictable_def filling_def sameBlk_def old_sameBlk_def diff_eq_eq)

lemma table_of_sel [simp]:
  "c_level (table_of c) = c_level c" "c_type (table_of c) = c_type c" "c_blockSize (table_of c) = c_blockSize c"
  "c_associativity (table_of c) = c_associativity c" "c_numBlocks (table_of c) = c_numBlocks c"
  "c_numBins (table_of c) = c_numBins c" "c_fileMap (table_of c) = c_fileMap c" "c_blocks (table_of c) = c_blocks c"
  "c_terminating (table_of c) = c_terminating c" "c_blkIndex (table_of c) = map unshift (c_blkIndex c)"
  by (simp_all add: table_of_def)

lemma table_of_upd [simp]:
  "table_of (set_entry c k b) = set_entry (table_of c) k (unshift b)"
  "table_of (c\<lparr>c_blocks := bs\<rparr>) = (table_of c)\<lparr>c_blocks := bs\<rparr>"
  "table_of (counted c x y) = counted (table_of c) x y"
  by (simp_all add: table_of_def set_entry_def counted_def map_update)

lemma bins_table_of [simp]: "bin_of (table_of c) = bin_of c" "in_bin (table_of c) = in_bin c"
  by (auto intro!: bin_of_cong in_bin_cong)

lemma bin_slots_table_of [simp]: "bin_slots_of (table_of c) = bin_slots_of c"
  by (intro ext) (simp add: bin_slots_of_def)

text \<open>Index arithmetic is exact below \<open>2\<^sup>3\<^sup>1\<close> entries.\<close>

definition old_ok :: "bcache \<Rightarrow> bool" where
  "old_ok c \<longleftrightarrow> table_ok (table_of c) \<and> length (c_blkIndex c) < 2 ^ 31"

lemma to_int: "k < 2 ^ 31 \<Longrightarrow> to_int k = int k"
  by (simp add: to_int_def signed_of_nat signed_take_bit_int_eq_self)

lemma old_ok_shape:
  assumes "old_ok c"
  shows "shape (table_of c)" "shape c"
  using table_ok_shape [of "table_of c"] assms by (auto simp: old_ok_def shape_def)

lemma old_readBin:
  assumes "old_ok c"
  shows "readBin c (snd (getBinIndex c i f)) = map (\<lambda>k. (k, c_blkIndex c ! k)) (bin_slots_of c f i)"
    "k \<in> set (bin_slots_of c f i) \<longleftrightarrow> in_bin c (bin_of c f i) k"
    "in_bin c (bin_of c f i) k \<Longrightarrow> k < length (c_blkIndex c)"
  using bin_slots [OF old_ok_shape(2) [OF assms]] set_bin_slots [OF old_ok_shape(2) [OF assms]]
  by (simp_all add: bin_slots_of_def)

lemma old_slot:
  assumes "old_ok c" "k < length (c_blkIndex c)"
  shows "c_blkIndex (table_of c) ! k = unshift (c_blkIndex c ! k)" "to_int k = int k"
    "e_status (c_blkIndex c ! k) \<noteq> BLK_WR" "e_status (c_blkIndex c ! k) \<noteq> BLK_EVICT"
  using assms table_okD(3,4) [of "table_of c" k] by (auto simp: old_ok_def to_int)

subsection \<open>Where a block is\<close>

lemma old_scan_Inl:
  "old_scan pe i f (map (\<lambda>k. (k, es ! k)) ks) a = Inl (r, found) \<Longrightarrow> (\<And>k. k \<in> set ks \<Longrightarrow> e_status (es ! k) \<noteq> BLK_EVICT) \<Longrightarrow>
     \<exists>ps k qs. ks = ps @ k # qs \<and> (\<forall>p \<in> set ps. \<not> old_sameBlk (es ! p) i f \<and> used (es ! p)) \<and>
       (if found then old_sameBlk (es ! k) i f \<and> used (es ! k) \<and> r = (if e_status (es ! k) = BLK_AVAIL then - 1 else to_int k)
        else \<not> used (es ! k) \<and> r = to_int k)"
proof (induction ks arbitrary: a)
  case (Cons p ks)
  have ev: "e_status (es ! p) \<noteq> BLK_EVICT" using Cons.prems(2) by simp
  show ?case
  proof (cases "old_sameBlk (es ! p) i f \<or> \<not> used (es ! p)")
    case True
    then show ?thesis
      using Cons.prems(1) ev
      by (intro exI [of _ "[]"] exI [of _ p] exI [of _ ks])
        (cases "e_status (es ! p)"; auto simp: used_def)
  next
    case False
    then obtain a' where "old_scan pe i f (map (\<lambda>k. (k, es ! k)) ks) a' = Inl (r, found)"
      using Cons.prems(1) ev by (cases "e_status (es ! p)") (auto simp: used_def)
    then obtain ps k qs where pq: "ks = ps @ k # qs" "\<forall>p \<in> set ps. \<not> old_sameBlk (es ! p) i f \<and> used (es ! p)"
        "if found then old_sameBlk (es ! k) i f \<and> used (es ! k) \<and> r = (if e_status (es ! k) = BLK_AVAIL then - 1 else to_int k)
         else \<not> used (es ! k) \<and> r = to_int k"
      using Cons.IH [of a'] Cons.prems(2) by fastforce
    with False show ?thesis by (intro exI [of _ "p # ps"] exI [of _ k] exI [of _ qs]) simp
  qed
qed simp

lemma old_scan_Inr:
  "old_scan pe i f (map (\<lambda>k. (k, es ! k)) ks) a = Inr a' \<Longrightarrow> (\<And>k. k \<in> set ks \<Longrightarrow> e_status (es ! k) \<noteq> BLK_EVICT) \<Longrightarrow>
     lru_ok pe es seen a \<Longrightarrow>
     lru_ok pe es (seen \<union> set ks) a' \<and> (\<forall>p \<in> set ks. \<not> old_sameBlk (es ! p) i f \<and> used (es ! p))"
proof (induction ks arbitrary: a seen)
  case (Cons p ks)
  let ?a = "if e_status (es ! p) = BLK_AVAIL then lru_step pe p (es ! p) a else a"
  have p: "\<not> old_sameBlk (es ! p) i f" "used (es ! p)"
    and r: "old_scan pe i f (map (\<lambda>k. (k, es ! k)) ks) ?a = Inr a'"
    using Cons.prems(1) Cons.prems(2) [of p] by (cases "e_status (es ! p)"; auto simp: used_def split: if_splits)+
  from Cons.IH [OF r _ lru_ok_step [OF Cons.prems(3)]] Cons.prems(2) p show ?case by simp
qed simp

lemma old_find:
  assumes ok: "old_ok c" and known: "c_fileMap c f \<noteq> None"
  shows "k < length (c_blkIndex c) \<Longrightarrow> old_sameBlk (c_blkIndex c ! k) i f \<Longrightarrow> e_status (c_blkIndex c ! k) = BLK_AVAIL \<Longrightarrow>
      old_getBlockIndex c i f = (c, int k)"
    "(\<And>k. k < length (c_blkIndex c) \<Longrightarrow> old_sameBlk (c_blkIndex c ! k) i f \<Longrightarrow> e_status (c_blkIndex c ! k) \<noteq> BLK_AVAIL) \<Longrightarrow>
      old_getBlockIndex c i f = (c, - 1)"
proof -
  let ?find = "find_avail (i + 1) (f + 1) (map (\<lambda>k. (k, c_blkIndex c ! k)) (bin_slots_of c f i))"
  have gb: "old_getBlockIndex c i f = (c, case ?find of None \<Rightarrow> - 1 | Some k \<Rightarrow> to_int k)"
    by (subst old_getBlockIndex_def, subst getBinIndex_known [OF known]) (simp add: old_readBin(1) [OF ok])
  have hit: "q < length (c_blkIndex c)" "old_sameBlk (c_blkIndex c ! q) i f" "e_status (c_blkIndex c ! q) = BLK_AVAIL"
    if "?find = Some q" for q
    using find_avail_Some [OF that] old_readBin(2) [OF ok] old_readBin(3) [OF ok, of f i q]
    by (auto simp: old_sameBlk_def)
  { assume k: "k < length (c_blkIndex c)" "old_sameBlk (c_blkIndex c ! k) i f" "e_status (c_blkIndex c ! k) = BLK_AVAIL"
    note t = ok [unfolded old_ok_def, THEN conjunct1]
    have us: "used (c_blkIndex (table_of c) ! k)" and same: "sameBlk (c_blkIndex (table_of c) ! k) i f"
      using k by (simp_all add: old_slot(1) [OF ok] used_def)
    have "in_bin c (bin_of c f i) k"
      using table_okD(2) [OF t _ us] same k(1) by (simp add: sameBlk_def)
    then have "k \<in> set (bin_slots_of c f i)" using old_readBin(2) [OF ok] by simp
    then obtain q where q: "?find = Some q"
      using find_avail_None [of "i + 1" "f + 1" "c_blkIndex c"] k(2,3) unfolding old_sameBlk_def by (cases ?find) auto
    have "q = k"
      using table_ok_uniq [OF t, of k q i f] hit [OF q] k(1) us same by (simp add: old_slot(1) [OF ok] used_def)
    then show "old_getBlockIndex c i f = (c, int k)" by (simp add: gb q old_slot(2) [OF ok k(1)]) }
  { assume "\<And>k. k < length (c_blkIndex c) \<Longrightarrow> old_sameBlk (c_blkIndex c ! k) i f \<Longrightarrow> e_status (c_blkIndex c ! k) \<noteq> BLK_AVAIL"
    then have "?find = None" using hit by (cases ?find) blast+
    then show "old_getBlockIndex c i f = (c, - 1)" by (simp add: gb) }
qed

text \<open>
  The ends of \<open>oldestBlockIndex\<close>: someone fetches the block, it is there, it gets an entry that
  is empty or that no one uses, or every entry of the bin is taken.
\<close>

lemma old_oldest_cases [consumes 2, case_names fetching present fresh full]:
  assumes ok: "old_ok c" and known: "c_fileMap c f \<noteq> None"
  obtains k where "old_oldestBlockIndex pe c i f = (c, int k, True)" "k < length (c_blkIndex c)"
      "old_sameBlk (c_blkIndex c ! k) i f" "filling (c_blkIndex c ! k)"
  | k where "old_oldestBlockIndex pe c i f = (c, - 1, True)" "k < length (c_blkIndex c)"
      "old_sameBlk (c_blkIndex c ! k) i f" "e_status (c_blkIndex c ! k) = BLK_AVAIL"
  | k x y where "old_oldestBlockIndex pe c i f = (counted c x y, int k, False)" "k < length (c_blkIndex c)"
      "slot_for (table_of c) f i k" "\<not> used (c_blkIndex c ! k) \<or> evictable (c_blkIndex c ! k)"
      "\<And>p. p < length (c_blkIndex c) \<Longrightarrow> used (c_blkIndex c ! p) \<Longrightarrow> \<not> old_sameBlk (c_blkIndex c ! p) i f"
  | "old_oldestBlockIndex pe c i f = (c, - 1, False)"
      "\<And>p. in_bin c (bin_of c f i) p \<Longrightarrow> used (c_blkIndex c ! p) \<and>
         (evictable (c_blkIndex c ! p) \<longrightarrow> e_timeStamp (c_blkIndex c ! p) = - 1)"
      "\<And>p. p < length (c_blkIndex c) \<Longrightarrow> used (c_blkIndex c ! p) \<Longrightarrow> \<not> old_sameBlk (c_blkIndex c ! p) i f"
proof -
  let ?es = "c_blkIndex c" and ?ks = "bin_slots_of c f i"
  let ?scan = "old_scan pe i f (map (\<lambda>k. (k, ?es ! k)) ?ks) lru_init"
  note t = ok [unfolded old_ok_def, THEN conjunct1]
  note bin = old_readBin(2,3) [OF ok] and sl = old_slot [OF ok]
  have ob: "old_oldestBlockIndex pe c i f =
      (case ?scan of
         Inl (k, found) \<Rightarrow> (c, k, found)
       | Inr a \<Rightarrow>
           (case (if pe \<and> l_minPrefetchTime a \<noteq> - 1 then l_minPrefetchEntry a else None) of
              Some k \<Rightarrow> (c\<lparr>c_prefetchCollisions := c_prefetchCollisions c + 1\<rparr>, to_int k, False)
            | None \<Rightarrow> (case (if l_minTime a \<noteq> - 1 then l_minEntry a else None) of
                Some k \<Rightarrow> (c\<lparr>c_collisions := c_collisions c + 1\<rparr>, to_int k, False)
              | None \<Rightarrow> (c, - 1, False))))"
    by (subst old_oldestBlockIndex_def, subst getBinIndex_known [OF known]) (simp add: old_readBin(1) [OF ok])
  have ev: "e_status (?es ! k) \<noteq> BLK_EVICT" if "k \<in> set ?ks" for k
    using that bin sl(4) by blast
  have absent: "\<not> old_sameBlk (?es ! p) i f"
    if "\<And>q. in_bin c (bin_of c f i) q \<Longrightarrow> (\<exists>k \<le> q. in_bin c (bin_of c f i) k \<and> \<not> used (?es ! k)) \<or> \<not> old_sameBlk (?es ! q) i f"
      and p: "p < length ?es" "used (?es ! p)" for p
  proof -
    have "\<not> sameBlk (c_blkIndex (table_of c) ! p) i f"
    proof (rule block_absent [OF t])
      fix q assume q: "in_bin (table_of c) (bin_of (table_of c) f i) q"
      then show "(\<exists>k \<le> q. in_bin (table_of c) (bin_of (table_of c) f i) k \<and> \<not> used (c_blkIndex (table_of c) ! k)) \<or>
          \<not> sameBlk (c_blkIndex (table_of c) ! q) i f"
        using that(1) [of q] bin(2) sl(1) by (simp del: table_of_sel(10)) fastforce
    qed (use p sl(1) in simp_all)
    then show ?thesis using p sl(1) by simp
  qed
  have slot: "slot_for (table_of c) f i k"
    if "in_bin c (bin_of c f i) k" "\<And>p. p < k \<Longrightarrow> in_bin c (bin_of c f i) p \<Longrightarrow> used (?es ! p)"
      "\<And>p. p < length ?es \<Longrightarrow> used (?es ! p) \<Longrightarrow> \<not> old_sameBlk (?es ! p) i f" for k
    by (rule fresh_slot [OF t]) (use that known bin(2) sl(1) in simp_all)
  show thesis
  proof (cases ?scan)
    case (Inl r)
    obtain n found where r: "r = (n, found)" by (cases r)
    obtain ps k qs where pq: "?ks = ps @ k # qs" "\<forall>p \<in> set ps. \<not> old_sameBlk (?es ! p) i f \<and> used (?es ! p)"
        "if found then old_sameBlk (?es ! k) i f \<and> used (?es ! k) \<and> n = (if e_status (?es ! k) = BLK_AVAIL then - 1 else to_int k)
         else \<not> used (?es ! k) \<and> n = to_int k"
      using old_scan_Inl [OF Inl [unfolded r] ev] by blast
    have kb: "in_bin c (bin_of c f i) k" using bin(1) pq(1) by (metis in_set_conv_decomp)
    note k = bin(2) [OF this]
    have res: "old_oldestBlockIndex pe c i f = (c, n, found)" by (simp add: ob Inl r)
    show thesis
    proof (cases found)
      case True
      then show thesis
        using that(1,2) [of k] res pq(3) k sl(2,3,4) [OF k]
        by (cases "e_status (?es ! k)") (auto simp: used_def filling_def)
    next
      case False
      have sorted: "sorted_wrt (<) ?ks" by (simp add: bin_slots_of_def)
      have before: "p \<in> set ps" if "p < k" "in_bin c (bin_of c f i) p" for p
      proof -
        have "p \<in> set ps \<union> {k} \<union> set qs" using that(2) bin(1) [of p f i] pq(1) by auto
        moreover have "\<forall>q \<in> set qs. k < q" using sorted pq(1) by (simp add: sorted_wrt_append)
        ultimately show ?thesis using that(1) by auto
      qed
      have none: "\<not> old_sameBlk (?es ! p) i f" if "p < length ?es" "used (?es ! p)" for p
        by (rule absent [OF _ that]) (use False pq(2,3) kb before in \<open>meson not_le\<close>)
      have "c = counted c (c_collisions c) (c_prefetchCollisions c)" by (simp add: counted_self)
      then show thesis
        using that(3) [of _ _ k] False res pq(2,3) k sl(2) [OF k] slot [OF kb _ none] before none by metis
    qed
  next
    case (Inr a)
    note r = old_scan_Inr [OF Inr ev lru_ok_init]
    have lru: "lru_ok pe ?es (set ?ks) a" and all: "\<not> old_sameBlk (?es ! p) i f \<and> used (?es ! p)"
      if "in_bin c (bin_of c f i) p" for p
      using r that bin(1) by auto
    have lru: "lru_ok pe ?es (set ?ks) a" using r by simp
    have none: "\<not> old_sameBlk (?es ! p) i f" if "p < length ?es" "used (?es ! p)" for p
      by (rule absent [OF _ that]) (use all in blast)
    show thesis
    proof (cases "victim pe a")
      case None
      then have "old_oldestBlockIndex pe c i f = (c, - 1, False)"
        by (auto simp: ob Inr victim_def split: if_splits option.splits)
      then show thesis
        using that(4) none all no_victim [OF lru None] bin(1) by blast
    next
      case (Some k)
      have k: "in_bin c (bin_of c f i) k" "evictable (?es ! k)"
        using victim_chosen [OF lru Some] bin(1) by (auto simp: chosen_def)
      have "\<exists>x y. old_oldestBlockIndex pe c i f = (counted c x y, to_int k, False)"
        by (rule exI [of _ "c_collisions (fst (old_oldestBlockIndex pe c i f))"],
            rule exI [of _ "c_prefetchCollisions (fst (old_oldestBlockIndex pe c i f))"])
          (use Some in \<open>auto simp: ob Inr victim_def counted_def split: if_splits option.splits\<close>)
      then show thesis
        using that(3) [OF _ _ slot [OF k(1) _ none]] all none k(2) bin(2) [OF k(1)] sl(2) [OF bin(2) [OF k(1)]] by metis
    qed
  qed
qed

subsection \<open>The ends of a read and of a write\<close>

lemma old_blockSet_entry:
  "old_blockSet now c k f i st ty pre = set_entry c k (blockSet now (c_blkIndex c ! k) (f + 1) (i + 1) st ty pre 0)"
  by (simp add: old_blockSet_def blockSet_def Let_def)

lemma old_same_blockSet [simp]: "old_sameBlk (blockSet now b (f + 1) (i + 1) st ty pre act) i f"
  by (simp add: old_sameBlk_def sameBlk_def)

lemma incBlkCnt_sel [simp]:
  "e_id (incBlkCnt b) = e_id b" "e_status (incBlkCnt b) = e_status b" "old_sameBlk (incBlkCnt b) i f = old_sameBlk b i f"
  "e_activeCnt (incBlkCnt b) = e_activeCnt b + 1" "e_origCache (incBlkCnt b) = e_origCache b"
  by (simp_all add: incBlkCnt_def old_sameBlk_def sameBlk_def)

lemma decBlkCnt_sel [simp]:
  "e_id (fst (decBlkCnt b)) = e_id b" "e_status (fst (decBlkCnt b)) = e_status b"
  "old_sameBlk (fst (decBlkCnt b)) i f = old_sameBlk b i f"
  "e_activeCnt (fst (decBlkCnt b)) = e_activeCnt b - 1" "e_origCache (fst (decBlkCnt b)) = e_origCache b"
  by (simp_all add: decBlkCnt_def old_sameBlk_def sameBlk_def)

lemma counted_entry [simp]: "c_blkIndex (set_entry (counted c x y) k b) = (c_blkIndex c)[k := b]"
  by simp

lemma old_readBlock_cases [consumes 4, case_names hit reserve wait full]:
  assumes ok: "old_ok c" and known: "c_fileMap c (r_fileIndex r) = Some fe"
    and sz: "r_size r \<noteq> 0" "r_size r \<le> c_blockSize c"
  obtains k b where "old_readBlock pe now c r prio = (set_entry c k b, hit_request c k (reserve (c_level c) r), ReadHit)"
      "k < length (c_blkIndex c)" "old_sameBlk (c_blkIndex c ! k) (r_blkIndex r) (r_fileIndex r)"
      "e_status (c_blkIndex c ! k) = BLK_AVAIL"
      "e_id b = e_id (c_blkIndex c ! k)" "old_sameBlk b (r_blkIndex r) (r_fileIndex r)" "e_status b = BLK_AVAIL"
      "e_origCache b = c_type c" "e_activeCnt b = e_activeCnt (c_blkIndex c ! k) + 1"
  | k b x y where "old_readBlock pe now c r prio = (set_entry (counted c x y) k b, reserve (c_level c) r, ReadNext (Some k))"
      "k < length (c_blkIndex c)" "slot_for (table_of c) (r_fileIndex r) (r_blkIndex r) k"
      "\<not> used (c_blkIndex c ! k) \<or> evictable (c_blkIndex c ! k)"
      "e_id b = e_id (c_blkIndex c ! k)" "old_sameBlk b (r_blkIndex r) (r_fileIndex r)" "filling b"
      "e_origCache b = c_type c" "e_activeCnt b = e_activeCnt (c_blkIndex c ! k) + 1"
  | k where "old_readBlock pe now c r prio = (set_entry c k (incBlkCnt (c_blkIndex c ! k)), reserve (c_level c) r, ReadWait k)"
      "k < length (c_blkIndex c)" "old_sameBlk (c_blkIndex c ! k) (r_blkIndex r) (r_fileIndex r)" "filling (c_blkIndex c ! k)"
  | "old_readBlock pe now c r prio = (c, r\<lparr>r_reservedMap := (r_reservedMap r)(c_level c := 0)\<rparr>, ReadNext None)"
      "\<And>p. in_bin c (bin_of c (r_fileIndex r) (r_blkIndex r)) p \<Longrightarrow> used (c_blkIndex c ! p) \<and>
         (evictable (c_blkIndex c ! p) \<longrightarrow> e_timeStamp (c_blkIndex c ! p) = - 1)"
proof -
  let ?f = "r_fileIndex r" and ?i = "r_blkIndex r" and ?es = "c_blkIndex c"
  have known': "c_fileMap c ?f \<noteq> None" using known by simp
  have c0: "c\<lparr>c_fileMap := c_fileMap c\<rparr> = c" and r0: "default_size fe r = r"
    using sz(1) by (simp_all add: default_size_def)
  note rd = old_readBlock_def known c0 r0 sz(2) Let_def
  show thesis
  proof (cases "\<exists>k < length ?es. old_sameBlk (?es ! k) ?i ?f \<and> e_status (?es ! k) = BLK_AVAIL")
    case True
    then obtain k where k: "k < length ?es" "old_sameBlk (?es ! k) ?i ?f" "e_status (?es ! k) = BLK_AVAIL" by blast
    let ?pre = "if 0 < e_prefetched (?es ! k) then of_bool (prio \<noteq> 0) else e_prefetched (?es ! k)"
    define b where "b = blockSet now (incBlkCnt (?es ! k)) (?f + 1) (?i + 1) BLK_AVAIL (c_type c) (sint ?pre) 0"
    have "old_readBlock pe now c r prio = (set_entry c k b, hit_request c k (reserve (c_level c) r), ReadHit)"
      using k(1) by (simp add: rd old_find(1) [OF ok known' k] old_incBlkCnt_def old_blockSet_entry b_def hit_request_def)
    then show thesis using that(1) [OF _ k(1,2,3)] by (simp add: b_def)
  next
    case False
    have miss: "old_getBlockIndex c ?i ?f = (c, - 1)" by (rule old_find(2) [OF ok known']) (use False in blast)
    from ok known' show thesis
    proof (cases rule: old_oldest_cases [where pe = pe and i = ?i])
      case (fetching k)
      have "old_readBlock pe now c r prio = (set_entry c k (incBlkCnt (?es ! k)), reserve (c_level c) r, ReadWait k)"
        using fetching(1,2) ok by (simp add: rd miss old_blockReserve_def old_incBlkCnt_def old_ok_def unat_of_nat_small)
      then show thesis using that(3) fetching(2-4) by blast
    next
      case (present k)
      then show thesis using False by blast
    next
      case (fresh k x y)
      define b where "b = incBlkCnt (blockSet now (?es ! k) (?f + 1) (?i + 1) (if prio \<noteq> 0 then BLK_PRE else BLK_RES) (c_type c)
        (of_bool (prio \<noteq> 0)) 0)"
      have "old_readBlock pe now c r prio = (set_entry (counted c x y) k b, reserve (c_level c) r, ReadNext (Some k))"
        using fresh(1,2) by (simp add: rd miss old_blockReserve_def old_incBlkCnt_def old_blockSet_entry b_def)
      then show thesis
        using that(2) [OF _ fresh(2-4)] by (simp add: b_def filling_def)
    next
      case full
      have "old_readBlock pe now c r prio = (c, r\<lparr>r_reservedMap := (r_reservedMap r)(c_level c := 0)\<rparr>, ReadNext None)"
        by (simp add: rd miss old_blockReserve_def full(1))
      then show thesis using that(4) full(2) by blast
    qed
  qed
qed

lemma setBlockData_set_entry:
  "setBlockData (set_entry c k b) data j n = map_option (\<lambda>d. set_entry d k b) (setBlockData c data j n)"
  by (cases "memcpy (c_blocks c) (unat (ucast j * c_blockSize c)) data 0 (unat n)")
    (simp_all add: setBlockData_def set_entry_def)

lemma old_id: "old_ok c \<Longrightarrow> k < length (c_blkIndex c) \<Longrightarrow> e_id (c_blkIndex c ! k) = of_nat k"
  using old_ok_shape(2) [of c] by (simp add: shape_def)

lemma old_writeBlock_cases [consumes 6, case_names fill present fresh full]:
  assumes ok: "old_ok c" and known: "c_fileMap c (r_fileIndex r) \<noteq> None"
    and orig: "r_originating r \<noteq> c_level c" and act: "0 < reserved r (c_level c) \<or> \<not> c_terminating c"
    and sz: "r_size r \<le> c_blockSize c" "unat (r_size r) \<le> length src"
  obtains k b bs where "old_writeBlock pe now c r src = (set_entry (c\<lparr>c_blocks := bs\<rparr>) k b, WriteNext True)"
      "setBlockData c src (e_id (c_blkIndex c ! k)) (r_size r) = Some (c\<lparr>c_blocks := bs\<rparr>)"
      "k < length (c_blkIndex c)" "old_sameBlk (c_blkIndex c ! k) (r_blkIndex r) (r_fileIndex r)" "filling (c_blkIndex c ! k)"
      "e_id b = e_id (c_blkIndex c ! k)" "old_sameBlk b (r_blkIndex r) (r_fileIndex r)" "e_status b = BLK_AVAIL"
      "e_origCache b = r_origType r"
      "e_activeCnt b = e_activeCnt (c_blkIndex c ! k) - of_bool (0 < reserved r (c_level c))"
  | k b where "old_writeBlock pe now c r src = (set_entry c k b, WriteNext False)"
      "k < length (c_blkIndex c)" "old_sameBlk (c_blkIndex c ! k) (r_blkIndex r) (r_fileIndex r)"
      "e_status (c_blkIndex c ! k) = BLK_AVAIL"
      "e_id b = e_id (c_blkIndex c ! k)" "old_sameBlk b (r_blkIndex r) (r_fileIndex r)" "e_status b = BLK_AVAIL"
      "e_origCache b = e_origCache (c_blkIndex c ! k)"
      "e_activeCnt b = e_activeCnt (c_blkIndex c ! k) - of_bool (0 < reserved r (c_level c))"
  | k b bs x y where "old_writeBlock pe now c r src = (set_entry ((counted c x y)\<lparr>c_blocks := bs\<rparr>) k b, WriteNext True)"
      "setBlockData c src (e_id (c_blkIndex c ! k)) (r_size r) = Some (c\<lparr>c_blocks := bs\<rparr>)"
      "k < length (c_blkIndex c)" "slot_for (table_of c) (r_fileIndex r) (r_blkIndex r) k"
      "\<not> used (c_blkIndex c ! k) \<or> evictable (c_blkIndex c ! k)"
      "\<And>p. p < length (c_blkIndex c) \<Longrightarrow> used (c_blkIndex c ! p) \<Longrightarrow> \<not> old_sameBlk (c_blkIndex c ! p) (r_blkIndex r) (r_fileIndex r)"
      "e_id b = e_id (c_blkIndex c ! k)" "old_sameBlk b (r_blkIndex r) (r_fileIndex r)" "e_status b = BLK_AVAIL"
      "e_origCache b = r_origType r" "e_activeCnt b = e_activeCnt (c_blkIndex c ! k)"
  | "old_writeBlock pe now c r src = (c, WriteNext False)"
      "\<And>p. p < length (c_blkIndex c) \<Longrightarrow> used (c_blkIndex c ! p) \<Longrightarrow> \<not> old_sameBlk (c_blkIndex c ! p) (r_blkIndex r) (r_fileIndex r)"
proof -
  let ?f = "r_fileIndex r" and ?i = "r_blkIndex r" and ?es = "c_blkIndex c"
  let ?t = "0 < reserved r (c_level c)"
  obtain fe where fe: "c_fileMap c ?f = Some fe" using known by blast
  define bin where "bin = snd (getBinIndex c ?i ?f)"
  have gb: "getBinIndex c ?i ?f = (c, bin)" unfolding bin_def by (rule getBinIndex_known [OF known])
  note wr = old_writeBlock_def orig act sz(1) gb Let_def
  from ok known show thesis
  proof (cases rule: old_oldest_cases [where pe = pe and i = ?i])
    case (fetching k)
    obtain bs where bs: "setBlockData c src (e_id (?es ! k)) (r_size r) = Some (c\<lparr>c_blocks := bs\<rparr>)"
      using setBlockData_ex [OF old_ok_shape(2) [OF ok] fetching(2) sz] by blast
    define b0 where "b0 = blockSet now (blockSet now (?es ! k) (?f + 1) (?i + 1) BLK_WR (r_origType r) (sint (e_prefetched (?es ! k))) 0)
      (?f + 1) (?i + 1) BLK_AVAIL (r_origType r) (sint (e_prefetched (?es ! k))) 0"
    define b where "b = (if ?t then fst (decBlkCnt b0) else b0)"
    have "old_writeBlock pe now c r src = (set_entry (c\<lparr>c_blocks := bs\<rparr>) k b, WriteNext True)"
      using fetching(1,2) bs
      by (auto simp: wr old_blockSet_entry setBlockData_set_entry old_id [OF ok fetching(2)] b_def b0_def old_decBlkCnt_def)
    then show thesis
      using that(1) [OF _ bs fetching(2-4)] by (auto simp: b_def b0_def)
  next
    case (present k)
    define b where "b = (if ?t then fst (decBlkCnt (?es ! k)) else ?es ! k)"
    have "set_entry c k (?es ! k) = c" by (simp add: set_entry_def)
    then have "old_writeBlock pe now c r src = (set_entry c k b, WriteNext False)"
      using present(1,2) by (auto simp: wr old_find(1) [OF ok known present(2-4)] old_decBlkCnt_def b_def)
    then show thesis
      using that(2) [OF _ present(2-4)] present(3,4) by (auto simp: b_def)
  next
    case (fresh k x y)
    obtain bs where bs: "setBlockData c src (e_id (?es ! k)) (r_size r) = Some (c\<lparr>c_blocks := bs\<rparr>)"
      using setBlockData_ex [OF old_ok_shape(2) [OF ok] fresh(2) sz] by blast
    then have bs': "setBlockData (counted c x y) src (of_nat k) (r_size r) = Some ((counted c x y)\<lparr>c_blocks := bs\<rparr>)"
      by (auto simp: old_id [OF ok fresh(2)] setBlockData_def counted_def dest: arg_cong [where f = c_blocks])
    define b where "b = blockSet now (blockSet now (?es ! k) (?f + 1) (?i + 1) BLK_WR (r_origType r) (sint (e_prefetched (?es ! k))) 0)
      (?f + 1) (?i + 1) BLK_AVAIL (r_origType r) (sint (e_prefetched (?es ! k))) 0"
    have "old_writeBlock pe now c r src = (set_entry ((counted c x y)\<lparr>c_blocks := bs\<rparr>) k b, WriteNext True)"
      using fresh(1,2) bs' by (auto simp: wr old_blockSet_entry setBlockData_set_entry b_def)
    then show thesis
      using that(3) [OF _ bs fresh(2-5)] by (simp add: b_def)
  next
    case full
    have "old_getBlockIndex c ?i ?f = (c, - 1)"
      by (rule old_find(2) [OF ok known]) (use full(3) in \<open>auto simp: used_def\<close>)
    then have "old_writeBlock pe now c r src = (c, WriteNext False)" by (simp add: wr full(1))
    then show thesis using that(4) full(3) by blast
  qed
qed

lemma old_write_originating:
  assumes ok: "old_ok c" and known: "c_fileMap c (r_fileIndex r) \<noteq> None" and orig: "r_originating r = c_level c"
    and res: "reserved r (c_level c) = 1"
    and k: "k < length (c_blkIndex c)" "old_sameBlk (c_blkIndex c ! k) (r_blkIndex r) (r_fileIndex r)"
      "e_status (c_blkIndex c ! k) = BLK_AVAIL"
  shows "old_writeBlock pe now c r src = (set_entry c k (fst (decBlkCnt (c_blkIndex c ! k))), WriteDone True)"
proof -
  define bin where "bin = snd (getBinIndex c (r_blkIndex r) (r_fileIndex r))"
  have gb: "getBinIndex c (r_blkIndex r) (r_fileIndex r) = (c, bin)"
    unfolding bin_def by (rule getBinIndex_known [OF known])
  show ?thesis
    by (simp add: old_writeBlock_def res orig gb Let_def old_find(1) [OF ok known k] old_decBlkCnt_def)
qed

subsection \<open>The machine\<close>

text \<open>The machine of \<^verbatim>\<open>CacheMachine.thy\<close> with the operations of the older cache.\<close>

type_synonym ostate = "bcache \<times> client list"

inductive ostep :: "bool \<Rightarrow> content \<Rightarrow> ostate \<Rightarrow> ostate \<Rightarrow> bool" for pe content where
  ORead: "\<lbrakk>j < length cl; snd (cl ! j) = PDone; fresh_req content c r;
          old_readBlock pe now c r prio = (c', r', out)\<rbrakk> \<Longrightarrow>
     ostep pe content (c, cl) (c', cl[j := (r', phase_after out r')])"
| OBypass: "\<lbrakk>j < length cl; snd (cl ! j) = PDone; fresh_req content c r\<rbrakk> \<Longrightarrow>
     ostep pe content (c, cl) (c, cl[j := (r, PFree)])"
| OArrive: "\<lbrakk>j < length cl; cl ! j = (r, ph); ph = PFree \<or> ph = PFetch k \<or> ph = PWait k;
            \<not> r_ready r; orig \<noteq> c_level c; ty \<noteq> Empty\<rbrakk> \<Longrightarrow>
     ostep pe content (c, cl) (c, cl[j := (deliver content orig ty r, ph)])"
| OWaitDone: "\<lbrakk>j < length cl; cl ! j = (r, PWait k); \<not> r_ready r; old_wait c k r = Some r'\<rbrakk> \<Longrightarrow>
     ostep pe content (c, cl) (c, cl[j := (r', PHit k)])"
| OWrite: "\<lbrakk>j < length cl; cl ! j = (r, ph); ph \<noteq> PDone; r_ready r;
           old_writeBlock pe now c r (req_bytes c r) = (c', out)\<rbrakk> \<Longrightarrow>
     ostep pe content (c, cl) (c', cl[j := (r, PDone)])"
| OAddFile: "ostep pe content (c, cl) (old_addFile XXH32 c f nm bs fs, cl)"
| OTerminate: "ostep pe content (c, cl) (c\<lparr>c_terminating := True\<rparr>, cl)"

text \<open>The invariant of the newer cache, and counts that are exact.\<close>

definition oinv :: "content \<Rightarrow> ostate \<Rightarrow> bool" where
  "oinv content s \<longleftrightarrow>
     (case s of (c, cl) \<Rightarrow> old_ok c \<and> length cl + 2 < 2 ^ 32 \<and> minv content (table_of c, cl, length cl) \<and>
        (\<forall>k < length (c_blkIndex c). unat (e_activeCnt (c_blkIndex c ! k)) = users cl k))"

lemma oinvD:
  assumes "oinv content (c, cl)"
  shows "old_ok c" "length cl + 2 < 2 ^ 32" "minv content (table_of c, cl, length cl)"
    "k < length (c_blkIndex c) \<Longrightarrow> unat (e_activeCnt (c_blkIndex c ! k)) = users cl k"
  using assms by (simp_all add: oinv_def)

lemma users_le: "users cl k \<le> length cl"
  by (simp add: users_def count_if_le)

lemma oinvI:
  assumes m: "minv content (table_of c, cl, n)" and len: "length (c_blkIndex c) < 2 ^ 31" "length cl + 2 < 2 ^ 32"
    and cnt: "\<And>k. k < length (c_blkIndex c) \<Longrightarrow> unat (e_activeCnt (c_blkIndex c ! k)) = users cl k"
  shows "oinv content (c, cl)"
proof -
  have "minv content (table_of c, cl, length cl)"
    using m cnt users_le [of cl] by (auto simp: minv_def)
  then show ?thesis using m len cnt by (simp add: oinv_def old_ok_def minv_def)
qed

lemma getBlockData_table_of [simp]: "getBlockData (table_of c) = getBlockData c"
  by (simp add: fun_eq_iff getBlockData_def)

lemma oinv_update:
  assumes inv: "oinv content (c, cl)" and j: "j < length cl"
    and tab: "table_ok (table_of d)" "frame (table_of c) (table_of d)" "c_blkIndex d = (c_blkIndex c)[k := b]"
      "k < length (c_blkIndex c)" "c_blocks d = c_blocks c"
    and keep: "e_activeCnt (c_blkIndex c ! k) \<noteq> 0 \<Longrightarrow>
      e_fileIndex (unshift b) = e_fileIndex (unshift (c_blkIndex c ! k)) \<and>
      e_blockIndex (unshift b) = e_blockIndex (unshift (c_blkIndex c ! k)) \<and>
      (e_status (c_blkIndex c ! k) = BLK_AVAIL \<longrightarrow> e_status b = BLK_AVAIL)"
    and usedb: "used b" and dat: "e_status b = BLK_AVAIL \<Longrightarrow> slot_data content (table_of d) k"
    and x: "client_ok content (table_of d) x" "slot_of (snd x) = Some k" "slot_of (snd (cl ! j)) = None"
    and cnt: "e_activeCnt b = e_activeCnt (c_blkIndex c ! k) + 1"
    and fill: "filling b \<Longrightarrow> \<exists>i < length cl. snd (cl[j := x] ! i) = PFetch k"
  shows "oinv content (d, cl[j := x])"
proof -
  note old = oinvD [OF inv]
  have us: "users (cl[j := x]) p = users cl p + of_bool (p = k)" for p
    using users_update [OF j, of x p] x(2,3) by auto
  have wrap: "unat (e_activeCnt b) = users (cl[j := x]) k"
    unfolding cnt us [of k] using inc_no_wrap [of "e_activeCnt (c_blkIndex c ! k)" "length cl"] old(2) old(4) [of k] tab(4) users_le [of cl k]
    by simp
  have "minv content (table_of d, cl[j := x], length cl)"
  proof (rule minv_update [OF old(3) j tab(1,2)])
    show "c_blkIndex (table_of d) = (c_blkIndex (table_of c))[k := unshift b]" by (simp add: tab(3) map_update)
    show "getBlockData (table_of d) p m = getBlockData (table_of c) p m" for p m
      using tab(2,5) by (simp add: getBlockData_def frame_def)
    show "snd (cl ! j) \<noteq> PFetch p" for p using x(3) by auto
    show "unat (e_activeCnt (unshift b)) \<le> length cl" using wrap users_le [of "cl[j := x]" k] by simp
    show "slot_of (snd x) \<noteq> Some p" if "p \<noteq> k" for p using x(2) that by simp
  qed (use tab(4) keep usedb dat x(1) wrap fill in simp_all)
  then show ?thesis
    by (rule oinvI) (use old(1,2,4) tab(3) us wrap in \<open>auto simp: old_ok_def nth_list_update\<close>)
qed

lemma oinv_client:
  assumes inv: "oinv content (c, cl)" and j: "j < length cl" and x: "client_ok content (table_of c) x"
    and slot: "slot_of (snd x) = slot_of (snd (cl ! j))" and fetch: "\<And>p. snd (cl ! j) = PFetch p \<Longrightarrow> snd x = PFetch p"
  shows "oinv content (c, cl[j := x])"
proof -
  note old = oinvD [OF inv]
  have us: "users (cl[j := x]) k = users cl k" for k using users_update [OF j, of x k] slot by simp
  show ?thesis
    by (rule oinvI [OF minv_client [OF old(3) j x slot fetch order_refl]])
      (use old(1,2,4) us in \<open>auto simp: old_ok_def\<close>)
qed

text \<open>A client that is through: its slot, if it had one, was \<open>k\<close>.\<close>

lemma done_count:
  assumes inv: "oinv content (c, cl)" and j: "j < length cl" "cl ! j = (r, ph)" and k: "k < length (c_blkIndex c)"
    and cnt: "e_activeCnt b = e_activeCnt (c_blkIndex c ! k) - of_bool (slot_of ph = Some k)"
  shows "unat (e_activeCnt b) = users (cl[j := (r, PDone)]) k"
proof -
  note old = oinvD(4) [OF inv k]
  have us: "users (cl[j := (r, PDone)]) k + of_bool (slot_of ph = Some k) = users cl k"
    using users_after [OF j(1), of r k] j(2) by simp
  show ?thesis
  proof (cases "slot_of ph = Some k")
    case True
    then have "1 \<le> e_activeCnt (c_blkIndex c ! k)" using old us by (simp add: word_le_nat_alt)
    then show ?thesis using True cnt us old by (simp add: unat_diff_le)
  qed (use cnt us old in simp)
qed

lemma oinv_done:
  assumes inv: "oinv content (c, cl)" and j: "j < length cl" "cl ! j = (r, ph)"
    and m: "minv content (table_of d, cl[j := (r, PDone)], n)" "c_blkIndex d = (c_blkIndex c)[k := b]"
    and k: "k < length (c_blkIndex c)" "\<And>p. slot_of ph = Some p \<Longrightarrow> p = k"
    and cnt: "e_activeCnt b = e_activeCnt (c_blkIndex c ! k) - of_bool (slot_of ph = Some k)"
  shows "oinv content (d, cl[j := (r, PDone)])"
proof -
  note old = oinvD [OF inv]
  have "users (cl[j := (r, PDone)]) p = users cl p" if "p \<noteq> k" for p
    using users_after [OF j(1), of r p] j(2) k(2) [of p] that by (cases "slot_of ph = Some p") simp_all
  then show ?thesis
    using old(1,2,4) m(2) k(1) done_count [OF inv j k(1) cnt]
    by (intro oinvI [OF m(1)]) (auto simp: old_ok_def nth_list_update)
qed

lemma good_req_table_of [simp]: "good_req content (table_of c) r = good_req content c r"
  by (simp add: good_req_def)

lemma req_bytes_table_of [simp]: "req_bytes (table_of c) r = req_bytes c r"
  by (cases "r_data r") (simp_all add: req_bytes_def)

lemma key_unshift:
  "old_sameBlk b i f \<Longrightarrow> e_fileIndex (unshift b) = f \<and> e_blockIndex (unshift b) = i"
  using unshift_sel(11) [of b i f] by (simp add: sameBlk_def)

lemma old_free_count:
  assumes "oinv content (c, cl)" "k < length (c_blkIndex c)" "\<not> used (c_blkIndex c ! k) \<or> evictable (c_blkIndex c ! k)"
  shows "e_activeCnt (c_blkIndex c ! k) = 0"
  using free_slot_count [OF oinvD(3) [OF assms(1)], of k] assms(2,3) by simp

lemma oinv_read:
  assumes inv: "oinv content (c, cl)" and j: "j < length cl" "snd (cl ! j) = PDone"
    and r: "fresh_req content c r" and rd: "old_readBlock pe now c r prio = (c', r', out)"
  shows "oinv content (c', cl[j := (r', phase_after out r')])"
proof -
  note ok = oinvD(1) [OF inv] and m = oinvD(3) [OF inv]
  note t = minvD(1) [OF m] and ty = minvD(2) [OF m, simplified]
  have g: "good_req content c r" and fr: "r_originating r \<noteq> c_level c" "reserved r (c_level c) = 0" "\<not> r_ready r"
    using r by (simp_all add: fresh_req_def)
  then obtain fe where known: "c_fileMap c (r_fileIndex r) = Some fe"
    and sz: "r_size r \<noteq> 0" "r_size r \<le> c_blockSize c"
    by (auto simp: good_req_def)
  have nos: "slot_of (snd (cl ! j)) = None" using j(2) by simp
  from ok known sz show ?thesis
  proof (cases rule: old_readBlock_cases [where pe = pe and now = now and prio = prio])
    case (hit k b)
    have us: "used (c_blkIndex c ! k)" "used b" using hit(4,7) by (simp_all add: used_def)
    note key = key_unshift [OF hit(3)] key_unshift [OF hit(6)]
    have slot: "slot_for (table_of c) (r_fileIndex r) (r_blkIndex r) k"
      by (rule slot_for_present [OF t]) (use hit(2,3) us in simp_all)
    have e: "c' = set_entry c k b" "r' = hit_request c k (reserve (c_level c) r)" "out = ReadHit"
      using rd hit(1) by simp_all
    show ?thesis unfolding e
    proof (rule oinv_update [OF inv j(1) _ _ _ hit(2)])
      show "table_ok (table_of (set_entry c k b))"
        unfolding table_of_upd by (rule set_entry_ok [OF t slot]) (use hit us ty in simp_all)
      show "slot_data content (table_of (set_entry c k b)) k"
        unfolding table_of_upd
        by (rule slot_data_keep [OF minvD(6) [OF m]]) (use hit(2,4) key in simp_all)
      show "client_ok content (table_of (set_entry c k b)) (hit_request c k (reserve (c_level c) r),
          phase_after ReadHit (hit_request c k (reserve (c_level c) r)))"
        using g hit us ty
        by (simp add: client_ok_def phase_after_def hit_request_def good_req_def holds_slot_def)
    qed (use key us hit(7,9) nos in \<open>auto simp: phase_after_def hit_request_def filling_def\<close>)
  next
    case (reserve k b x y)
    have us: "used b" "e_status b \<noteq> BLK_AVAIL" "e_status b \<noteq> BLK_WR" "e_status b \<noteq> BLK_EVICT"
      using reserve(7) by (auto simp: used_def filling_def)
    have e: "c' = set_entry (counted c x y) k b" "r' = BoundedCache.reserve (c_level c) r" "out = ReadNext (Some k)"
      using rd reserve(1) by simp_all
    show ?thesis unfolding e
    proof (rule oinv_update [OF inv j(1) _ _ _ reserve(2)])
      show "table_ok (table_of (set_entry (counted c x y) k b))"
        unfolding table_of_upd
        by (rule set_entry_ok [OF same_table_ok [OF counted_same t] slot_for_same [OF counted_same reserve(3)]])
          (use reserve(2,5,6) us in simp_all)
      show "client_ok content (table_of (set_entry (counted c x y) k b))
          (BoundedCache.reserve (c_level c) r, phase_after (ReadNext (Some k)) (BoundedCache.reserve (c_level c) r))"
        using g fr reserve(2,6) us
        by (simp add: client_ok_def phase_after_def good_req_def holds_slot_def elsewhere_def)
      show "\<exists>i < length cl. snd (cl[j := (BoundedCache.reserve (c_level c) r,
          phase_after (ReadNext (Some k)) (BoundedCache.reserve (c_level c) r))] ! i) = PFetch k"
        using j(1) by (intro exI [of _ j]) (simp add: phase_after_def)
    qed (use us reserve(9) nos old_free_count [OF inv reserve(2,4)] in \<open>auto simp: phase_after_def\<close>)
  next
    case (wait k)
    let ?b = "incBlkCnt (c_blkIndex c ! k)"
    have us: "used (c_blkIndex c ! k)" "used ?b" using wait(4) by (auto simp: used_def filling_def)
    have st: "e_status (c_blkIndex c ! k) \<noteq> BLK_AVAIL" "e_status (c_blkIndex c ! k) \<noteq> BLK_WR"
        "e_status (c_blkIndex c ! k) \<noteq> BLK_EVICT" using wait(4) by (auto simp: filling_def)
    note key = key_unshift [OF wait(3)] key_unshift [of ?b, simplified, OF wait(3)]
    have slot: "slot_for (table_of c) (r_fileIndex r) (r_blkIndex r) k"
      by (rule slot_for_present [OF t]) (use wait(2,3) us in simp_all)
    have e: "c' = set_entry c k ?b" "r' = BoundedCache.reserve (c_level c) r" "out = ReadWait k"
      using rd wait(1) by simp_all
    obtain i where i: "i < length cl" "snd (cl ! i) = PFetch k"
      using minvD(7) [OF m, of k] wait(2,4) by auto
    then have "i \<noteq> j" using j(2) by auto
    with i have i': "\<exists>i < length cl. snd (cl[j := x] ! i) = PFetch k" for x
      by (intro exI [of _ i]) simp
    show ?thesis unfolding e
    proof (rule oinv_update [where b = "?b", OF inv j(1) _ _ _ wait(2)])
      show "table_ok (table_of (set_entry c k ?b))"
        unfolding table_of_upd by (rule set_entry_ok [OF t slot]) (use wait(2,3) us st in simp_all)
      show "client_ok content (table_of (set_entry c k ?b))
          (BoundedCache.reserve (c_level c) r, phase_after (ReadWait k) (BoundedCache.reserve (c_level c) r))"
        using g fr wait(2,3) us
        by (simp add: client_ok_def phase_after_def good_req_def holds_slot_def elsewhere_def)
    qed (use key us st nos i' in \<open>auto simp: phase_after_def\<close>)
  next
    case full
    have "(r_reservedMap r)(c_level c := 0) = r_reservedMap r" using fr(2) by auto
    then have e: "c' = c" "r' = r" "out = ReadNext None" using rd full(1) by simp_all
    show ?thesis unfolding e
      by (rule oinv_client [OF inv j(1)])
        (use g fr j(2) in \<open>auto simp: phase_after_def client_ok_def elsewhere_def\<close>)
  qed
qed

lemma oinv_write_elsewhere:
  assumes inv: "oinv content (c, cl)" and j: "j < length cl" "cl ! j = (r, ph)" and ph: "ph \<noteq> PDone"
    and away: "\<forall>k. ph \<noteq> PHit k" and ready: "r_ready r"
    and wr: "old_writeBlock pe now c r (req_bytes c r) = (c', out)"
  shows "oinv content (c', cl[j := (r, PDone)]) \<and> (\<exists>ret. out = WriteNext ret)"
proof -
  let ?ct = "content (r_fileIndex r) (r_blkIndex r)" and ?n = "length cl"
  note ok = oinvD(1) [OF inv] and m = oinvD(3) [OF inv]
  note t = minvD(1) [OF m]
  have n: "?n + 1 < 2 ^ 32" "?n + 1 + 1 < 2 ^ 32" using oinvD(2) [OF inv] by simp_all
  have x: "client_ok content (table_of c) (r, ph)" using minvD(3) [OF m j(1)] j(2) by simp
  note g = client_okD(1) [OF x ph, simplified] and ew = client_okD(4) [OF x ph away]
  have src: "req_bytes c r = ?ct" using ew ready by (simp add: elsewhere_def req_bytes_def)
  have orig: "r_originating r \<noteq> c_level c" "r_origType r \<noteq> Empty" and known: "c_fileMap c (r_fileIndex r) \<noteq> None"
    and sz: "r_size r \<le> c_blockSize c" "unat (r_size r) \<le> length (req_bytes c r)"
    using ew g src by (simp_all add: elsewhere_def good_req_def)
  have holds: "p < length (c_blkIndex c)" "used (c_blkIndex c ! p)"
      "old_sameBlk (c_blkIndex c ! p) (r_blkIndex r) (r_fileIndex r)" "reserved r (c_level c) = 1" if "slot_of ph = Some p" for p
    using client_okD(2) [OF x ph that] by (auto simp: holds_slot_def)
  have here: "p = k"
    if "slot_of ph = Some p" "k < length (c_blkIndex c)" "used (c_blkIndex c ! k)"
      "old_sameBlk (c_blkIndex c ! k) (r_blkIndex r) (r_fileIndex r)" for p k
    using table_ok_uniq [OF t, of k p "r_blkIndex r" "r_fileIndex r"] holds [OF that(1)] that(2-4) by simp
  have res: "0 < reserved r (c_level c) \<longleftrightarrow> slot_of ph = Some k"
    if "\<And>p. slot_of ph = Some p \<Longrightarrow> p = k" for k
    using that holds(4) client_okD(3) [OF x ph] by (cases "slot_of ph") auto
  have gone: "oinv content (c, cl[j := (r, PDone)])" if "slot_of ph = None"
    by (rule oinv_client [OF inv j(1)]) (use that j(2) in \<open>auto simp: client_ok_def\<close>)
  have none: "slot_of ph = None"
    if "\<And>p. p < length (c_blkIndex c) \<Longrightarrow> used (c_blkIndex c ! p) \<Longrightarrow>
         \<not> old_sameBlk (c_blkIndex c ! p) (r_blkIndex r) (r_fileIndex r)"
    using that holds by (cases "slot_of ph") auto

  have stored: "oinv content (set_entry ((counted c x y)\<lparr>c_blocks := bs\<rparr>) k b, cl[j := (r, PDone)])"
    if slot: "slot_for (table_of c) (r_fileIndex r) (r_blkIndex r) k" "k < length (c_blkIndex c)"
      and set: "setBlockData c (req_bytes c r) (e_id (c_blkIndex c ! k)) (r_size r) = Some (c\<lparr>c_blocks := bs\<rparr>)"
      and old: "\<not> used (c_blkIndex c ! k) \<or> evictable (c_blkIndex c ! k) \<or>
        filling (c_blkIndex c ! k) \<and> old_sameBlk (c_blkIndex c ! k) (r_blkIndex r) (r_fileIndex r)"
      and b: "e_id b = e_id (c_blkIndex c ! k)" "old_sameBlk b (r_blkIndex r) (r_fileIndex r)" "e_status b = BLK_AVAIL"
        "e_origCache b = r_origType r" "e_activeCnt b = e_activeCnt (c_blkIndex c ! k) - of_bool (slot_of ph = Some k)"
      and hk: "\<And>p. slot_of ph = Some p \<Longrightarrow> p = k"
    for k b bs x y
  proof -
    let ?b = "(unshift b)\<lparr>e_activeCnt := e_activeCnt (c_blkIndex c ! k)\<rparr>"
    let ?d = "set_entry ((counted (table_of c) x y)\<lparr>c_blocks := bs\<rparr>) k ?b"
    have set': "setBlockData (table_of c) ?ct (e_id (c_blkIndex (table_of c) ! k)) (r_size r) = Some ((table_of c)\<lparr>c_blocks := bs\<rparr>)"
      using set slot(2) src by (auto simp: setBlockData_def dest: arg_cong [where f = c_blocks])
    have same: "sameBlk ?b (r_blkIndex r) (r_fileIndex r)" using b(2) key_unshift [OF b(2)] by (simp add: sameBlk_def)
    have m1: "minv content (?d, cl[j := (r, PDone)], ?n + 1)"
      by (rule minv_store [where t = False, OF m j(1) n(1) _ slot(1) set' _ _ same])
        (use g slot(2) old b j(2) hk in simp_all)
    have cnt: "unat (e_activeCnt b) = users (cl[j := (r, PDone)]) k" by (rule done_count [OF inv j slot(2) b(5)])
    have "minv content (set_entry ?d k (unshift b), (cl[j := (r, PDone)])[j := (r, PDone)], ?n + 1 + 1)"
      by (rule minv_touch [OF m1, where i = "r_blkIndex r" and f = "r_fileIndex r"])
        (use j(1) n slot(2) same b key_unshift [OF b(2)] orig(2) cnt users_le [of "cl[j := (r, PDone)]" k]
          in \<open>simp_all add: sameBlk_def old_sameBlk_def\<close>)
    then have "minv content (table_of (set_entry ((counted c x y)\<lparr>c_blocks := bs\<rparr>) k b), cl[j := (r, PDone)], ?n + 1 + 1)"
      by simp
    then show ?thesis
      by (rule oinv_done [OF inv j _ _ slot(2) hk b(5)]) simp
  qed
  show ?thesis
  proof (cases "0 < reserved r (c_level c) \<or> \<not> c_terminating c")
    case False
    then have "slot_of ph = None" using holds(4) by (cases "slot_of ph") auto
    moreover have "c' = c" "out = WriteNext False"
      using wr False orig(1) by (simp_all add: old_writeBlock_def Let_def)
    ultimately show ?thesis using gone by blast
  next
    case True
    from ok known orig(1) True sz show ?thesis
    proof (cases rule: old_writeBlock_cases [where pe = pe and now = now])
      case (fill k b bs)
      have us: "used (c_blkIndex c ! k)" using fill(5) by (auto simp: used_def filling_def)
      have slot: "slot_for (table_of c) (r_fileIndex r) (r_blkIndex r) k"
        by (rule slot_for_present [OF t]) (use fill(3,4) us in simp_all)
      note hk = here [OF _ fill(3) us fill(4)]
      have "oinv content (set_entry ((counted c (c_collisions c) (c_prefetchCollisions c))\<lparr>c_blocks := bs\<rparr>) k b,
          cl[j := (r, PDone)])"
        by (rule stored [OF slot fill(3,2) _ fill(6-9)]) (use fill(4,5,10) res [OF hk] hk in simp_all)
      then show ?thesis using wr fill(1) by (auto simp: counted_self)
    next
      case (present k b)
      have us: "used (c_blkIndex c ! k)" using present(4) by (simp add: used_def)
      note hk = here [OF _ present(2) us present(3)]
      have b: "e_activeCnt b = e_activeCnt (c_blkIndex c ! k) - of_bool (slot_of ph = Some k)"
        using present(9) res [OF hk] by simp
      note cnt = done_count [OF inv j present(2) b]
      have "minv content (set_entry (table_of c) k (unshift b), cl[j := (r, PDone)], ?n + 1)"
        by (rule minv_touch [OF m j(1) n(1), where i = "r_blkIndex r" and f = "r_fileIndex r"])
          (use present j(2) hk cnt users_le [of "cl[j := (r, PDone)]" k] table_okD(5) [OF t, of k] in simp_all)
      then have "oinv content (set_entry c k b, cl[j := (r, PDone)])"
        by (intro oinv_done [OF inv j _ _ present(2) hk b]) simp_all
      then show ?thesis using wr present(1) by auto
    next
      case (fresh k b bs x y)
      have no: "slot_of ph = None" by (rule none [OF fresh(6)])
      have "oinv content (set_entry ((counted c x y)\<lparr>c_blocks := bs\<rparr>) k b, cl[j := (r, PDone)])"
        by (rule stored [OF fresh(4,3,2) _ fresh(7-10)]) (use fresh(5,11) no in auto)
      then show ?thesis using wr fresh(1) by auto
    next
      case full
      then show ?thesis using wr gone [OF none [OF full(2)]] by auto
    qed
  qed
qed

lemma oinv_write_hit:
  assumes inv: "oinv content (c, cl)" and j: "j < length cl" "cl ! j = (r, PHit k)"
  shows "old_writeBlock pe now c r src = (set_entry c k (fst (decBlkCnt (c_blkIndex c ! k))), WriteDone True)"
    "oinv content (set_entry c k (fst (decBlkCnt (c_blkIndex c ! k))), cl[j := (r, PDone)])"
proof -
  let ?e = "c_blkIndex c ! k" and ?n = "length cl"
  note m = oinvD(3) [OF inv]
  have x: "client_ok content (table_of c) (r, PHit k)" using minvD(3) [OF m j(1)] j(2) by simp
  have k: "k < length (c_blkIndex c)" using x by (simp add: client_ok_def holds_slot_def)
  then have h: "old_sameBlk ?e (r_blkIndex r) (r_fileIndex r)" "e_status ?e = BLK_AVAIL" "reserved r (c_level c) = 1"
      "r_originating r = c_level c" "c_fileMap c (r_fileIndex r) \<noteq> None"
    using x by (simp_all add: client_ok_def holds_slot_def good_req_def)
  show "old_writeBlock pe now c r src = (set_entry c k (fst (decBlkCnt ?e)), WriteDone True)"
    by (rule old_write_originating [OF oinvD(1) [OF inv] h(5,4,3) k h(1,2)])
  have cnt: "e_activeCnt (fst (decBlkCnt ?e)) = e_activeCnt ?e - of_bool (slot_of (PHit k) = Some k)" by simp
  note exact = done_count [OF inv j k cnt]
  have "minv content (set_entry (table_of c) k (unshift (fst (decBlkCnt ?e))), cl[j := (r, PDone)], ?n + 1)"
    by (rule minv_touch [OF m j(1), where i = "r_blkIndex r" and f = "r_fileIndex r"])
      (use oinvD(2) [OF inv] j(2) k h table_okD(5) [OF minvD(1) [OF m], of k] exact users_le [of "cl[j := (r, PDone)]" k]
        in simp_all)
  then show "oinv content (set_entry c k (fst (decBlkCnt ?e)), cl[j := (r, PDone)])"
    by (intro oinv_done [OF inv j _ _ k _ cnt]) simp_all
qed

lemma oinv_same_blocks:
  assumes inv: "oinv content (c, cl)" and d: "table_ok (table_of d)" "frame (table_of c) (table_of d)"
    "c_blkIndex d = c_blkIndex c" "c_blocks d = c_blocks c"
  shows "oinv content (d, cl)"
  by (rule oinvI [OF minv_same_blocks [OF oinvD(3) [OF inv] d(1,2)]])
    (use d(3,4) oinvD [OF inv] in \<open>simp_all add: old_ok_def\<close>)

lemma table_of_addFile: "table_of (addFile XXH32 c f nm bs fs) = addFile XXH32 (table_of c) f nm bs fs"
  by (simp add: addFile_def table_of_def)

lemma oinv_step:
  assumes "ostep pe content s t" "oinv content s"
  shows "oinv content t"
  using assms
proof (cases rule: ostep.cases)
  case (ORead j cl c r now prio c' r' out)
  then show ?thesis using oinv_read assms(2) by simp
next
  case (OBypass j cl c r)
  then show ?thesis
    using oinv_client [of content c cl j "(r, PFree)"] assms(2)
    by (simp add: fresh_req_def client_ok_def elsewhere_def)
next
  case (OArrive j cl r ph k orig c ty)
  let ?r = "deliver content orig ty r"
  have "client_ok content (table_of c) (r, ph)"
    using minvD(3) [OF oinvD(3) [of content c cl], of j] OArrive assms(2) by simp
  then have "client_ok content (table_of c) (?r, ph)"
    using OArrive(5,7,8)
    by (auto simp: client_ok_def deliver_def good_req_def holds_slot_def elsewhere_def)
  then show ?thesis
    using oinv_client [of content c cl j "(?r, ph)"] assms(2) OArrive by simp
next
  case (OWaitDone j cl r k c r')
  note m = oinvD(3) [of content c cl]
  have x: "client_ok content (table_of c) (r, PWait k)" using minvD(3) [OF m, of j] OWaitDone assms(2) by simp
  have k: "k < length (c_blkIndex c)" using x by (simp add: client_ok_def holds_slot_def)
  have r': "e_status (c_blkIndex c ! k) = BLK_AVAIL"
      "r' = (hit_request c k r)\<lparr>r_waitingCache := e_origCache (c_blkIndex c ! k)\<rparr>"
    using OWaitDone(6) by (simp_all add: old_wait_def wait_available_def blockAvailable_def Let_def split: if_splits)
  have "client_ok content (table_of c) (r', PHit k)"
    using x r' k minvD(2) [OF m] assms(2) OWaitDone(1)
    by (simp add: client_ok_def good_req_def holds_slot_def hit_request_def)
  then show ?thesis
    using oinv_client [of content c cl j "(r', PHit k)"] assms(2) OWaitDone by simp
next
  case (OWrite j cl r ph now c c' out)
  show ?thesis
  proof (cases "\<exists>k. ph = PHit k")
    case True
    then obtain k where "ph = PHit k" by blast
    then show ?thesis
      using oinv_write_hit [of content c cl j r k] OWrite assms(2) by simp
  next
    case False
    then show ?thesis
      using oinv_write_elsewhere [of content c cl j r ph pe now c' out] OWrite assms(2) by simp
  qed
next
  case (OAddFile c cl XXH32 f nm bs fs)
  have "oinv content (c, cl)" using OAddFile assms(2) by simp
  then show ?thesis
    using oinv_same_blocks [of content c cl "addFile XXH32 c f nm bs fs"] OAddFile
      addFile_ok [OF minvD(1) [OF oinvD(3) [of content c cl]]]
    by (auto simp: old_addFile_def table_of_addFile) (auto simp: addFile_def frame_def)
next
  case (OTerminate c cl)
  have inv: "oinv content (c, cl)" using OTerminate assms(2) by simp
  have e: "table_of (c\<lparr>c_terminating := True\<rparr>) = (table_of c)\<lparr>c_terminating := True\<rparr>" by (simp add: table_of_def)
  have "same_table (table_of c) ((table_of c)\<lparr>c_terminating := True\<rparr>)" by (simp add: same_table_def)
  from same_table_ok [OF this minvD(1) [OF oinvD(3) [OF inv]]] show ?thesis
    using OTerminate oinv_same_blocks [OF inv, of "c\<lparr>c_terminating := True\<rparr>"] by (simp add: e frame_def)
qed

lemma oinv_steps: "(ostep pe content)\<^sup>*\<^sup>* s t \<Longrightarrow> oinv content s \<Longrightarrow> oinv content t"
  by (induction rule: rtranclp_induct) (auto intro: oinv_step)

lemma oinv_start:
  assumes new: "MemoryCache level nm ty cs bs a = Some c" and ty: "ty \<noteq> Empty"
    and small: "unat (c_numBlocks c) < 2 ^ 31" "N + 2 < 2 ^ 32"
  shows "oinv content (c, replicate N (new_request 0 Base 0 0 0, PDone))"
proof -
  note new = new [unfolded MemoryCache_def]
  have t: "table_ok c" and es: "k < length (c_blkIndex c) \<Longrightarrow> e_status (c_blkIndex c ! k) = BLK_EMPTY \<and>
      e_activeCnt (c_blkIndex c ! k) = 0" for k
    using NewMemoryCache_table [OF new] by auto
  have len: "length (c_blkIndex c) = unat (c_numBlocks c)" using table_ok_shape [OF t] by (simp add: shape_def)
  have "shape (table_of c)" using table_ok_shape [OF t] by (simp add: shape_def)
  then have "table_ok (table_of c)" using es by (simp add: table_ok_def used_def Let_def)
  then have "minv content (table_of c, replicate N (new_request 0 Base 0 0 0, PDone), 0)"
    using es ty NewMemoryCache_Some(2) [OF new]
    by (simp add: minv_def client_ok_def users_def filling_def used_def)
  then show ?thesis
    by (rule oinvI) (use es len small in \<open>simp_all add: users_def\<close>)
qed

definition old_reaches :: "bool \<Rightarrow> content \<Rightarrow> bcache \<Rightarrow> nat \<Rightarrow> ostate \<Rightarrow> bool" where
  "old_reaches pe content c0 N s \<longleftrightarrow>
     (\<exists>level nm ty cs bs a. MemoryCache level nm ty cs bs a = Some c0 \<and> ty \<noteq> Empty) \<and>
     unat (c_numBlocks c0) < 2 ^ 31 \<and> N + 2 < 2 ^ 32 \<and>
     (ostep pe content)\<^sup>*\<^sup>* (c0, replicate N (new_request 0 Base 0 0 0, PDone)) s"

lemma old_reaches_inv: "old_reaches pe content c0 N s \<Longrightarrow> oinv content s"
  unfolding old_reaches_def by (elim conjE exE) (rule oinv_steps [OF _ oinv_start])

subsection \<open>Runs that can be computed\<close>

fun old_exec1 :: "bool \<Rightarrow> content \<Rightarrow> event \<Rightarrow> ostate \<Rightarrow> ostate option" where
  "old_exec1 pe content (ERead j r prio now) (c, cl) =
     (if j < length cl \<and> snd (cl ! j) = PDone \<and> fresh_req content c r
      then let (c', r', out) = old_readBlock pe now c r prio in Some (c', cl[j := (r', phase_after out r')])
      else None)"
| "old_exec1 pe content (EArrive j) (c, cl) =
     (if j < length cl \<and> \<not> r_ready (fst (cl ! j)) \<and> c_level c \<noteq> 9 \<and>
         (case snd (cl ! j) of PFree \<Rightarrow> True | PFetch _ \<Rightarrow> True | PWait _ \<Rightarrow> True | _ \<Rightarrow> False)
      then Some (c, cl[j := (deliver content 9 Network (fst (cl ! j)), snd (cl ! j))])
      else None)"
| "old_exec1 pe content (EWaitDone j) (c, cl) =
     (if j < length cl \<and> \<not> r_ready (fst (cl ! j))
      then case snd (cl ! j) of
          PWait k \<Rightarrow> map_option (\<lambda>r'. (c, cl[j := (r', PHit k)])) (old_wait c k (fst (cl ! j)))
        | _ \<Rightarrow> None
      else None)"
| "old_exec1 pe content (EWrite j now) (c, cl) =
     (if j < length cl \<and> snd (cl ! j) \<noteq> PDone \<and> r_ready (fst (cl ! j))
      then Some (fst (old_writeBlock pe now c (fst (cl ! j)) (req_bytes c (fst (cl ! j)))), cl[j := (fst (cl ! j), PDone)])
      else None)"
| "old_exec1 pe content (EAddFile f nm bs fs) (c, cl) = Some (old_addFile (\<lambda>_. 0) c f nm bs fs, cl)"

fun old_exec :: "bool \<Rightarrow> content \<Rightarrow> event list \<Rightarrow> ostate \<Rightarrow> ostate option" where
  "old_exec pe content [] s = Some s"
| "old_exec pe content (e # es) s =
     (case old_exec1 pe content e s of None \<Rightarrow> None | Some t \<Rightarrow> old_exec pe content es t)"

lemma old_exec1_step: "old_exec1 pe content e s = Some t \<Longrightarrow> ostep pe content s t"
proof (induction pe content e s rule: old_exec1.induct)
  case (1 pe content j r prio now c cl)
  obtain c' r' out where rd: "old_readBlock pe now c r prio = (c', r', out)" by (metis prod_cases3)
  have g: "j < length cl" "snd (cl ! j) = PDone" "fresh_req content c r" and t: "t = (c', cl[j := (r', phase_after out r')])"
    using 1 rd by (auto split: if_splits)
  show ?case unfolding t by (rule ostep.ORead [OF g rd])
next
  case (2 pe content j c cl)
  obtain r ph where x: "cl ! j = (r, ph)" by fastforce
  have g: "j < length cl" "\<not> r_ready r" "9 \<noteq> c_level c" and t: "t = (c, cl[j := (deliver content 9 Network r, ph)])"
      and p: "ph = PFree \<or> (\<exists>k. ph = PFetch k \<or> ph = PWait k)"
    using 2 x by (auto split: if_splits phase.splits)
  then obtain k where "ph = PFree \<or> ph = PFetch k \<or> ph = PWait k" by blast
  then show ?case unfolding t using ostep.OArrive [OF g(1) x _ g(2,3)] by blast
next
  case (3 pe content j c cl)
  obtain r ph where x: "cl ! j = (r, ph)" by fastforce
  then show ?case
    using 3 by (auto intro!: ostep.OWaitDone split: if_splits phase.splits)
next
  case (4 pe content j now c cl)
  obtain r ph where x: "cl ! j = (r, ph)" by fastforce
  obtain c' out where w: "old_writeBlock pe now c r (req_bytes c r) = (c', out)" by fastforce
  have g: "j < length cl" "ph \<noteq> PDone" "r_ready r" and t: "t = (c', cl[j := (r, PDone)])"
    using 4 x w by (auto split: if_splits)
  show ?case unfolding t by (rule ostep.OWrite [OF g(1) x g(2,3) w])
next
  case (5 pe content f nm bs fs c cl)
  then show ?case by (auto intro: ostep.OAddFile)
qed

lemma old_exec_steps: "old_exec pe content es s = Some t \<Longrightarrow> (ostep pe content)\<^sup>*\<^sup>* s t"
proof (induction es arbitrary: s)
  case (Cons e es)
  then obtain u where u: "old_exec1 pe content e s = Some u" "old_exec pe content es u = Some t"
    by (auto split: option.splits)
  show ?case by (rule converse_rtranclp_into_rtranclp [OF old_exec1_step [OF u(1)] Cons.IH [OF u(2)]])
qed simp

text \<open>The example of \<^verbatim>\<open>CacheMachine.thy\<close>, and what follows when all requests come back.\<close>

definition odemo :: ostate where
  "odemo = the (old_exec False demo_content demo_events (demo_cache, replicate 3 (new_request 0 Base 0 0 0, PDone)))"

definition odemo_back :: ostate where
  "odemo_back = the (old_exec False demo_content (demo_events @ [EWrite 1 14, EArrive 2, EWrite 2 15])
     (demo_cache, replicate 3 (new_request 0 Base 0 0 0, PDone)))"

abbreviation (input) odemo_c :: bcache where "odemo_c \<equiv> fst odemo"
abbreviation (input) odemo_cl :: "client list" where "odemo_cl \<equiv> snd odemo"

lemma old_reaches_exec:
  assumes "\<not> Option.is_none (old_exec False demo_content es (demo_cache, replicate 3 (new_request 0 Base 0 0 0, PDone)))"
  shows "old_reaches False demo_content demo_cache 3
    (the (old_exec False demo_content es (demo_cache, replicate 3 (new_request 0 Base 0 0 0, PDone))))"
proof -
  have c: "MemoryCache 1 ''m'' PrivateMemory 4 2 0 = Some demo_cache"
    by (simp add: demo_cache_def MemoryCache_def NewMemoryCache_def Let_def)
  have "unat (c_numBlocks demo_cache) < 2 ^ 31" by (simp add: demo_cache_def NewMemoryCache_def Let_def)
  then show ?thesis
    using c old_exec_steps [of False demo_content es "(demo_cache, replicate 3 (new_request 0 Base 0 0 0, PDone))"] assms
    unfolding old_reaches_def Option.is_none_def by (intro conjI) (fastforce | auto)+
qed

lemma odemo_reaches: "old_reaches False demo_content demo_cache 3 (odemo_c, odemo_cl)"
  unfolding prod.collapse odemo_def by (rule old_reaches_exec) code_simp

lemma odemo_back_reaches: "old_reaches False demo_content demo_cache 3 (fst odemo_back, snd odemo_back)"
  unfolding prod.collapse odemo_back_def by (rule old_reaches_exec) code_simp

subsection \<open>What the cache guarantees\<close>

text \<open>
  C10: the counts of the cache of the server are exact: whatever the interleaving, the count of an
  entry is the number of outstanding requests that refer to it. Every reference taken is given
  back once, none is lost, and the count never falls below 0.
\<close>

theorem old_counts_exact:
  assumes "old_reaches pe content c0 N (c, cl)" "k < length (c_blkIndex c)"
  shows "unat (e_activeCnt (c_blkIndex c ! k)) = users cl k"
  by (rule oinvD(4) [OF old_reaches_inv [OF assms(1)] assms(2)])

theorem old_counts_exact_witness: "users odemo_cl 0 = 1 \<and> unat (e_activeCnt (c_blkIndex odemo_c ! 0)) = 1"
proof -
  have "0 < length (c_blkIndex odemo_c)" "users odemo_cl 0 = 1" by code_simp+
  then show ?thesis using old_counts_exact [OF odemo_reaches, of 0] by simp
qed

text \<open>
  a request that the cache of the server answers points to the content of its block until it is
  written back, and bringing a request back neither faults nor hands on a deleted request.
\<close>

theorem old_hit_safe:
  assumes r: "old_reaches pe content c0 N (c, cl)" and j: "j < length cl" "cl ! j = (r, ph)" "ph \<noteq> PDone" "r_ready r"
  shows "(\<forall>k. ph = PHit k \<longrightarrow> r_data r = DBlock (c_level c) k \<and>
      getBlockData c k (unat (r_size r)) = Some (content (r_fileIndex r) (r_blkIndex r))) \<and>
    snd (old_writeBlock pe now c r (req_bytes c r)) \<in> {WriteDone True, WriteNext True, WriteNext False}"
proof -
  note inv = old_reaches_inv [OF r]
  note m = oinvD(3) [OF inv]
  show ?thesis
  proof (cases "\<exists>k. ph = PHit k")
    case True
    then obtain k where k: "ph = PHit k" by blast
    have x: "client_ok content (table_of c) (r, PHit k)" using minvD(3) [OF m j(1)] j(2) k by simp
    have kl: "k < length (c_blkIndex c)" using x by (simp add: client_ok_def holds_slot_def)
    then have "slot_data content (table_of c) k" "r_data r = DBlock (c_level c) k"
        "good_req content c r" "old_sameBlk (c_blkIndex c ! k) (r_blkIndex r) (r_fileIndex r)"
      using minvD(6) [OF m, of k] x by (simp_all add: client_ok_def holds_slot_def)
    then show ?thesis
      using oinv_write_hit(1) [OF inv j(1) j(2) [unfolded k]] kl k key_unshift
      by (auto simp: slot_data_def good_req_def Let_def)
  next
    case False
    obtain c' out where w: "old_writeBlock pe now c r (req_bytes c r) = (c', out)" by fastforce
    show ?thesis
      using oinv_write_elsewhere [OF inv j(1,2,3) _ j(4) w] False w by auto
  qed
qed

theorem old_hit_safe_witness: "getBlockData odemo_c 0 2 = Some [1, 5]"
proof -
  let ?r = "fst (odemo_cl ! 1)"
  have "snd (odemo_cl ! 1) = PHit 0" by code_simp
  then have x: "odemo_cl ! 1 = (?r, PHit 0)" by (simp add: prod_eq_iff)
  have r: "1 < length odemo_cl" "r_ready ?r" "unat (r_size ?r) = 2" "r_fileIndex ?r = 1" "r_blkIndex ?r = 5" by code_simp+
  have "getBlockData odemo_c 0 (unat (r_size ?r)) = Some (demo_content (r_fileIndex ?r) (r_blkIndex ?r))"
    using old_hit_safe [OF odemo_reaches r(1) x _ r(2), where now = 14] by blast
  then show ?thesis unfolding r(3-5) by (simp add: demo_content_def)
qed

text \<open>
  C11: the cache of the server recovers: when all requests have come back, no block of a bin is
  pinned, so that any block that is asked for is there or gets an entry (unless the bin holds
  one with the greatest time stamp, which is never chosen).
\<close>

theorem old_cache_recovers:
  assumes r: "old_reaches pe content c0 N (c, cl)" and home: "\<forall>x \<in> set cl. snd x = PDone"
    and req: "fresh_req content c r" and stamps: "\<forall>b \<in> set (c_blkIndex c). e_timeStamp b \<noteq> - 1"
  shows "(\<exists>k. snd (snd (old_readBlock pe now c r prio)) = ReadNext (Some k)) \<or> snd (snd (old_readBlock pe now c r prio)) = ReadHit"
proof -
  note inv = old_reaches_inv [OF r]
  note ok = oinvD(1) [OF inv] and m = oinvD(3) [OF inv]
  have users0: "users cl k = 0" for k using home by (auto simp: users_def filter_empty_conv)
  have idle: "e_activeCnt (c_blkIndex c ! k) = 0" "\<not> filling (c_blkIndex c ! k)" if "k < length (c_blkIndex c)" for k
  proof -
    show "e_activeCnt (c_blkIndex c ! k) = 0" using oinvD(4) [OF inv that] users0 [of k] by (simp add: unat_eq_0)
    show "\<not> filling (c_blkIndex c ! k)"
      using minvD(7) [OF m, of k] that home nth_mem [of _ cl] by fastforce
  qed
  obtain fe where known: "c_fileMap c (r_fileIndex r) = Some fe" and sz: "r_size r \<noteq> 0" "r_size r \<le> c_blockSize c"
    using req by (auto simp: fresh_req_def good_req_def)
  from ok known sz show ?thesis
  proof (cases rule: old_readBlock_cases [where pe = pe and now = now and prio = prio])
    case full
    let ?k = "bin_of c (r_fileIndex r) (r_blkIndex r) * unat (c_associativity c)"
    have "0 < unat (c_associativity c)" using old_ok_shape(2) [OF ok] by (simp add: shape_def)
    then have b: "in_bin c (bin_of c (r_fileIndex r) (r_blkIndex r)) ?k" by (simp add: in_bin_def)
    note k = old_readBin(3) [OF ok b]
    have "used (c_blkIndex c ! ?k)" "evictable (c_blkIndex c ! ?k) \<Longrightarrow> e_timeStamp (c_blkIndex c ! ?k) = - 1"
      using full(2) [OF b] by blast+
    moreover have "evictable (c_blkIndex c ! ?k)"
      using idle [OF k] old_slot(3,4) [OF ok k] calculation(1)
      by (cases "e_status (c_blkIndex c ! ?k)") (auto simp: evictable_def anyUsers_def used_def filling_def)
    ultimately show ?thesis using stamps k by auto
  next
    case (wait k)
    then show ?thesis using idle(2) by blast
  qed auto
qed

theorem old_cache_recovers_witness:
  "\<exists>k. snd (snd (old_readBlock False 20 (fst odemo_back) (new_request 0 Base 9 1 2) 0)) = ReadNext (Some k)"
proof -
  have s: "list_all (\<lambda>x. snd x = PDone) (snd odemo_back)" "list_all (\<lambda>b. e_timeStamp b \<noteq> - 1) (c_blkIndex (fst odemo_back))"
      "fresh_req demo_content (fst odemo_back) (new_request 0 Base 9 1 2)"
      "snd (snd (old_readBlock False 20 (fst odemo_back) (new_request 0 Base 9 1 2) 0)) \<noteq> ReadHit"
    by code_simp+
  show ?thesis
    using old_cache_recovers [OF odemo_back_reaches s(1) [unfolded list_all_iff] s(3) s(2) [unfolded list_all_iff], of 20 0] s by (simp add: list_all_iff)
qed

end
