(* ===== verification/FileStore.thy ===== *)
theory FileStore
  imports ServerCache "HOL-Library.Monad_Syntax"
begin

text \<open>
  The store of \<^verbatim>\<open>deprecated/FileCache.cpp\<close>, which keeps the blocks of the older bounded cache in a
  file: the loops over \<open>pread\<close> and \<open>pwrite\<close>, the file that the constructor opens, and the block
  operations. The table and its operations are those of \<^verbatim>\<open>ServerCache.thy\<close>. A store is an
  interface (\<open>block_store\<close>) that the stores in memory and in a file both provide.
\<close>

subsection \<open>Files of the operating system\<close>

text \<open>
  A file and what the next calls do: fail (below 0) or transfer at most so many bytes; when there
  are no more such entries, a call transfers what it can. The system transfers at most
  \<open>0x7ffff000\<close> bytes at once, so that the count fits the \<open>int\<close> that the code keeps it in.
\<close>

record kfile =
  kf_bytes :: bytes
  kf_sched :: "int list"

definition transfer :: "kfile \<Rightarrow> nat \<Rightarrow> kfile \<times> int" where
  "transfer f n =
     (case kf_sched f of
        [] \<Rightarrow> (f, int (min n 0x7ffff000))
      | c # cs \<Rightarrow> (f\<lparr>kf_sched := cs\<rparr>, if c < 0 then -1 else int (min (nat c) (min n 0x7ffff000))))"

definition write_at :: "bytes \<Rightarrow> nat \<Rightarrow> bytes \<Rightarrow> bytes" where
  "write_at b off d =
     (if d = [] then b else take off (b @ replicate (off - length b) 0) @ d @ drop (off + length d) b)"

definition sys_pwrite :: "kfile \<Rightarrow> bytes \<Rightarrow> u64 \<Rightarrow> kfile \<times> int" where
  "sys_pwrite f data offset =
     (let (f, n) = transfer f (length data)
      in if n < 0 then (f, -1) else (f\<lparr>kf_bytes := write_at (kf_bytes f) (unat offset) (take (nat n) data)\<rparr>, n))"

definition sys_pread :: "kfile \<Rightarrow> nat \<Rightarrow> u64 \<Rightarrow> kfile \<times> int \<times> bytes" where
  "sys_pread f sz offset =
     (let (g, n) = transfer f (min sz (length (kf_bytes f) - unat offset))
      in if n < 0 then (g, -1, []) else (g, n, take (nat n) (drop (unat offset) (kf_bytes f))))"

subsection \<open>The store\<close>

text \<open>
  The loops go on after an error and after a call that transfers nothing. \<open>None\<close>: the loop does
  not end, or the buffer is too short.
\<close>

partial_function (option) pwriteToFile :: "kfile \<Rightarrow> u64 \<Rightarrow> bytes \<Rightarrow> nat \<Rightarrow> u64 \<Rightarrow> kfile option" where
  "pwriteToFile f sz buff local offset =
     (if sz \<noteq> 0
      then do {
        data \<leftarrow> mem_slice local (unat sz) buff;
        let (f, bytes) = sys_pwrite f data offset;
        if 0 \<le> bytes
        then pwriteToFile f (sz - of_int bytes) buff (local + nat bytes) (offset + of_int bytes)
        else pwriteToFile f sz buff local offset
      }
      else Some f)"

partial_function (option) preadFromFile :: "kfile \<Rightarrow> u64 \<Rightarrow> bytes \<Rightarrow> nat \<Rightarrow> u64 \<Rightarrow> (kfile \<times> bytes) option" where
  "preadFromFile f sz buff local offset =
     (if sz \<noteq> 0
      then do {
        let (f, bytes, data) = sys_pread f (unat sz) offset;
        if 0 \<le> bytes
        then do {
          buff \<leftarrow> blit buff local data;
          preadFromFile f (sz - of_int bytes) buff (local + nat bytes) (offset + of_int bytes)
        }
        else preadFromFile f sz buff local offset
      }
      else Some (f, buff))"

text \<open>The failure of \<open>fsync\<close> is only logged. A new buffer has any contents.\<close>

definition file_setBlockData :: "u64 \<Rightarrow> bytes \<Rightarrow> u32 \<Rightarrow> u64 \<Rightarrow> kfile \<Rightarrow> kfile option" where
  "file_setBlockData blockSize data blockIndex sz f = pwriteToFile f sz data 0 (ucast blockIndex * blockSize)"

definition file_getBlockData :: "(nat \<Rightarrow> u8) \<Rightarrow> u64 \<Rightarrow> u32 \<Rightarrow> kfile \<Rightarrow> (kfile \<times> bytes) option" where
  "file_getBlockData junk blockSize blockIndex f =
     preadFromFile f blockSize (map junk [0..<unat blockSize]) 0 (ucast blockIndex * blockSize)"

text \<open>
  The constructor: the file that is there is taken over when \<open>reuseFileCache\<close> says so, as it is;
  else it gets the size of the cache, with one byte behind.
\<close>

definition open_store :: "bool \<Rightarrow> bytes option \<Rightarrow> u32 \<Rightarrow> u64 \<Rightarrow> int list \<Rightarrow> kfile" where
  "open_store reuseFileCache existing numBlocks blockSize sched =
     (case (if reuseFileCache then existing else None) of
        Some b \<Rightarrow> \<lparr>kf_bytes = b, kf_sched = sched\<rparr>
      | None \<Rightarrow> \<lparr>kf_bytes = replicate (unat (ucast numBlocks * blockSize)) 0 @ [0], kf_sched = sched\<rparr>)"

subsection \<open>The loops\<close>

lemma transfer_cases:
  obtains "transfer f n = (f\<lparr>kf_sched := tl (kf_sched f)\<rparr>, - 1)" "kf_sched f \<noteq> []"
  | m where "transfer f n = (f\<lparr>kf_sched := tl (kf_sched f)\<rparr>, int m)" "m \<le> n" "m \<le> 0x7ffff000"
      "m = 0 \<longrightarrow> n = 0 \<or> kf_sched f \<noteq> []"
proof (cases "kf_sched f")
  case Nil
  then have "f = f\<lparr>kf_sched := tl (kf_sched f)\<rparr>" by simp
  then have "transfer f n = (f\<lparr>kf_sched := tl (kf_sched f)\<rparr>, int (min n 0x7ffff000))"
    using Nil by (simp add: transfer_def)
  then show thesis using that(2) by fastforce
next
  case (Cons c cs)
  show thesis
  proof (cases "c < 0")
    case True
    then show thesis using that(1) Cons by (simp add: transfer_def)
  next
    case False
    have "transfer f n = (f\<lparr>kf_sched := tl (kf_sched f)\<rparr>, int (min (nat c) (min n 0x7ffff000)))"
      using False Cons by (simp add: transfer_def)
    then show thesis using that(2) Cons by (metis list.discI min.cobounded1 min.cobounded2 min.coboundedI2)
  qed
qed

lemma write_at_in_range:
  "off + length d \<le> length b \<Longrightarrow> write_at b off d = take off b @ d @ drop (off + length d) b"
  by (simp add: write_at_def)

lemma write_at_more:
  assumes "off + length d \<le> length b" "n \<le> length d"
  shows "write_at (write_at b off (take n d)) (off + n) (drop n d) = write_at b off d"
proof -
  have 1: "write_at b off (take n d) = take off b @ take n d @ drop (off + n) b"
    using assms by (simp add: write_at_in_range min_absorb2)
  have "length (write_at b off (take n d)) = length b" unfolding 1 using assms by simp
  then have 2: "write_at (write_at b off (take n d)) (off + n) (drop n d)
      = take (off + n) (write_at b off (take n d)) @ drop n d @ drop (off + length d) (write_at b off (take n d))"
    using assms by (subst write_at_in_range) simp_all
  have 3: "take n d @ drop n d @ x = d @ x" for x by (metis append.assoc append_take_drop_id)
  show ?thesis
    unfolding 2 unfolding 1 using assms by (simp add: write_at_in_range min_absorb2 min_absorb1 3 add.commute)
qed

lemma length_write_at: "off + length d \<le> length b \<Longrightarrow> length (write_at b off d) = length b"
  by (simp add: write_at_in_range)

lemma advance:
  fixes sz offset :: u64
  assumes "n \<le> unat sz" "unat offset + unat sz < 2 ^ 63"
  shows "unat (sz - of_nat n) = unat sz - n" "unat (offset + of_nat n) = unat offset + n"
proof -
  have n: "unat (of_nat n :: u64) = n" using assms unat_bound [of sz] by (intro unat_of_nat_small) simp
  then have "of_nat n \<le> sz" using assms(1) by (simp add: word_le_nat_alt)
  then show "unat (sz - of_nat n) = unat sz - n" using n by (simp add: unat_diff_le)
  show "unat (offset + of_nat n) = unat offset + n" using n assms by (subst unat_add_small) simp_all
qed

lemma pwriteToFile_writes:
  assumes "local + unat sz \<le> length buff" "unat offset + unat sz \<le> length (kf_bytes f)" "unat offset + unat sz < 2 ^ 63"
  shows "\<exists>g. pwriteToFile f sz buff local offset = Some g \<and>
    kf_bytes g = write_at (kf_bytes f) (unat offset) (take (unat sz) (drop local buff))"
  using assms
proof (induction "unat sz + length (kf_sched f)" arbitrary: f sz local offset rule: less_induct)
  case less
  show ?case
  proof (cases "sz = 0")
    case True
    then show ?thesis by (subst pwriteToFile.simps) (simp add: write_at_def)
  next
    case False
    define d where "d = take (unat sz) (drop local buff)"
    have d: "length d = unat sz" "mem_slice local (unat sz) buff = Some d"
      using less.prems(1) by (simp_all add: d_def mem_slice_def)
    have s0: "0 < unat sz" using False by (simp add: unat_gt_0)
    let ?f = "f\<lparr>kf_sched := tl (kf_sched f)\<rparr>"
    show ?thesis
    proof (cases rule: transfer_cases [of f "length d"])
      case 1
      then have "pwriteToFile f sz buff local offset = pwriteToFile ?f sz buff local offset"
        using False d(2) by (subst pwriteToFile.simps) (simp add: sys_pwrite_def)
      then show ?thesis using less.hyps [of sz ?f local offset] less.prems 1(2) by simp
    next
      case (2 m)
      let ?g = "?f\<lparr>kf_bytes := write_at (kf_bytes f) (unat offset) (take m d)\<rparr>"
      have m: "m \<le> unat sz" using 2(2) d(1) by simp
      note adv = advance [OF m less.prems(3)]
      have step: "pwriteToFile f sz buff local offset
          = pwriteToFile ?g (sz - of_nat m) buff (local + m) (offset + of_nat m)"
        using False d(2) 2(1) by (subst pwriteToFile.simps) (simp add: sys_pwrite_def)
      have len: "length (kf_bytes ?g) = length (kf_bytes f)"
        using less.prems(2) d(1) m by (simp add: length_write_at min_absorb2)
      have "unat (sz - of_nat m) + length (kf_sched ?g) < unat sz + length (kf_sched f)"
        using adv(1) m s0 2(4) d(1) by (cases "m = 0") (auto simp: neq_Nil_conv)
      then have "\<exists>h. pwriteToFile ?g (sz - of_nat m) buff (local + m) (offset + of_nat m) = Some h \<and>
          kf_bytes h = write_at (kf_bytes ?g) (unat (offset + of_nat m))
            (take (unat (sz - of_nat m)) (drop (local + m) buff))"
        using less.hyps [of "sz - of_nat m" ?g "local + m" "offset + of_nat m"] less.prems adv m len by simp
      moreover have "take (unat (sz - of_nat m)) (drop (local + m) buff) = drop m d"
        by (simp add: d_def adv drop_take add.commute)
      moreover have "write_at (write_at (kf_bytes f) (unat offset) (take m d)) (unat offset + m) (drop m d)
          = write_at (kf_bytes f) (unat offset) d"
        using less.prems(2) d(1) m by (intro write_at_more) simp_all
      ultimately show ?thesis using step adv(2) by (simp add: d_def)
    qed
  qed
qed

lemma preadFromFile_reads:
  assumes "local + unat sz \<le> length buff" "unat offset + unat sz \<le> length (kf_bytes f)" "unat offset + unat sz < 2 ^ 63"
  shows "\<exists>g. preadFromFile f sz buff local offset
      = Some (g, take local buff @ take (unat sz) (drop (unat offset) (kf_bytes f)) @ drop (local + unat sz) buff) \<and>
    kf_bytes g = kf_bytes f"
  using assms
proof (induction "unat sz + length (kf_sched f)" arbitrary: f sz buff local offset rule: less_induct)
  case less
  show ?case
  proof (cases "sz = 0")
    case True
    then show ?thesis by (subst preadFromFile.simps) simp
  next
    case False
    let ?f = "f\<lparr>kf_sched := tl (kf_sched f)\<rparr>"
    have left: "min (unat sz) (length (kf_bytes f) - unat offset) = unat sz" using less.prems(2) by simp
    show ?thesis
    proof (cases rule: transfer_cases [of f "unat sz"])
      case 1
      then have "preadFromFile f sz buff local offset = preadFromFile ?f sz buff local offset"
        using False by (subst preadFromFile.simps) (simp add: sys_pread_def left)
      then show ?thesis using less.hyps [of sz ?f local buff offset] less.prems 1(2) by simp
    next
      case (2 m)
      note adv = advance [OF 2(2) less.prems(3)]
      define d where "d = take m (drop (unat offset) (kf_bytes f))"
      define buff' where "buff' = take local buff @ d @ drop (local + m) buff"
      have d: "length d = m" "blit buff local d = Some buff'"
        using less.prems(1,2) 2(2) by (simp_all add: d_def buff'_def blit_def)
      have step: "preadFromFile f sz buff local offset
          = preadFromFile ?f (sz - of_nat m) buff' (local + m) (offset + of_nat m)"
        using False d(2) 2(1) by (subst preadFromFile.simps) (simp add: sys_pread_def left d_def)
      have s0: "0 < unat sz" using False by (simp add: unat_gt_0)
      then have "unat (sz - of_nat m) + length (kf_sched ?f) < unat sz + length (kf_sched f)"
        using adv(1) 2(2,4) by (cases "m = 0") (auto simp: neq_Nil_conv)
      moreover have l': "length buff' = length buff" using d(1) less.prems(1) 2(2) by (simp add: buff'_def)
      ultimately obtain g where g: "preadFromFile ?f (sz - of_nat m) buff' (local + m) (offset + of_nat m)
          = Some (g, take (local + m) buff' @ take (unat sz - m) (drop (unat offset + m) (kf_bytes f)) @ drop (local + unat sz) buff')"
          "kf_bytes g = kf_bytes f"
        using less.hyps [of "sz - of_nat m" ?f "local + m" buff' "offset + of_nat m"] less.prems adv 2(2) by auto
      have "take (local + m) buff' = take local buff @ d" "drop (local + unat sz) buff' = drop (local + unat sz) buff"
        using d(1) less.prems(1) 2(2) by (simp_all add: buff'_def add.commute)
      moreover have "d @ take (unat sz - m) (drop (unat offset + m) (kf_bytes f)) = take (unat sz) (drop (unat offset) (kf_bytes f))"
        using take_add [of m "unat sz - m" "drop (unat offset) (kf_bytes f)"] 2(2) by (simp add: d_def add.commute)
      ultimately show ?thesis using step g by (metis append.assoc)
    qed
  qed
qed

text \<open>Behind the end of the file the loop reads nothing for ever.\<close>

lemma preadFromFile_returns:
  "preadFromFile f sz buff local offset = Some r \<Longrightarrow>
     unat offset + unat sz < 2 ^ 63 \<longrightarrow> sz \<noteq> 0 \<longrightarrow> unat offset + unat sz \<le> length (kf_bytes f)"
proof (erule preadFromFile.raw_induct [where P = "\<lambda>f sz buff local offset r.
    unat offset + unat sz < 2 ^ 63 \<longrightarrow> sz \<noteq> 0 \<longrightarrow> unat offset + unat sz \<le> length (kf_bytes f)", rotated], intro impI)
  fix go :: "kfile \<Rightarrow> u64 \<Rightarrow> bytes \<Rightarrow> nat \<Rightarrow> u64 \<Rightarrow> (kfile \<times> bytes) option"
    and f :: kfile and sz :: u64 and buff local and offset :: u64 and r
  assume IH: "\<And>f sz buff local offset r. go f sz buff local offset = Some r \<Longrightarrow>
      unat offset + unat sz < 2 ^ 63 \<longrightarrow> sz \<noteq> 0 \<longrightarrow> unat offset + unat sz \<le> length (kf_bytes f)"
    and run: "(if sz \<noteq> 0
      then let (f, bytes, data) = sys_pread f (unat sz) offset
           in if 0 \<le> bytes
              then Option.bind (blit buff local data)
                (\<lambda>buff. go f (sz - of_int bytes) buff (local + nat bytes) (offset + of_int bytes))
              else go f sz buff local offset
      else Some (f, buff)) = Some r"
    and b: "unat offset + unat sz < 2 ^ 63" and z: "sz \<noteq> 0"
  let ?left = "min (unat sz) (length (kf_bytes f) - unat offset)" and ?f = "f\<lparr>kf_sched := tl (kf_sched f)\<rparr>"
  show "unat offset + unat sz \<le> length (kf_bytes f)"
  proof (cases rule: transfer_cases [of f ?left])
    case 1
    then have "go ?f sz buff local offset = Some r" using run z by (simp add: sys_pread_def)
    from IH [OF this] show ?thesis using b z by simp
  next
    case (2 m)
    have m: "m \<le> unat sz" using 2(2) by simp
    note adv = advance [OF m b]
    obtain buff' where go: "go ?f (sz - of_nat m) buff' (local + m) (offset + of_nat m) = Some r"
      using run z 2(1) by (auto simp: sys_pread_def bind_eq_Some_conv)
    show ?thesis
    proof (cases "sz - of_nat m = 0")
      case True
      then have "unat sz = m" using adv(1) m by simp
      moreover have "0 < unat sz" using z by (simp add: unat_gt_0)
      ultimately show ?thesis using 2(2) by (simp split: if_splits add: min_def)
    next
      case False
      then show ?thesis using IH [OF go] adv b m by simp
    qed
  qed
qed

subsection \<open>The interface of a store\<close>

text \<open>Writing a block is always possible, changes that block only, and is what a later read finds.\<close>

locale block_store =
  fixes put :: "'s \<Rightarrow> nat \<Rightarrow> bytes \<Rightarrow> 's option"
    and get :: "'s \<Rightarrow> nat \<Rightarrow> nat \<Rightarrow> bytes option"
    and good :: "'s \<Rightarrow> bool"
    and blocks :: nat
    and block_size :: nat
  assumes put_total: "good s \<Longrightarrow> k < blocks \<Longrightarrow> length d \<le> block_size \<Longrightarrow> \<exists>s'. put s k d = Some s' \<and> good s'"
    and put_same: "good s \<Longrightarrow> k < blocks \<Longrightarrow> length d \<le> block_size \<Longrightarrow> put s k d = Some s' \<Longrightarrow> get s' k (length d) = Some d"
    and put_other: "good s \<Longrightarrow> k < blocks \<Longrightarrow> length d \<le> block_size \<Longrightarrow> put s k d = Some s' \<Longrightarrow>
      p < blocks \<Longrightarrow> p \<noteq> k \<Longrightarrow> n \<le> block_size \<Longrightarrow> get s' p n = get s p n"

text \<open>Writing block after block.\<close>

fun puts :: "('s \<Rightarrow> nat \<Rightarrow> bytes \<Rightarrow> 's option) \<Rightarrow> (nat \<times> bytes) list \<Rightarrow> 's \<Rightarrow> 's option" where
  "puts put [] s = Some s"
| "puts put ((k, d) # ws) s = Option.bind (put s k d) (puts put ws)"

context block_store begin

lemma puts_last:
  assumes "good s" "\<forall>(k, d) \<in> set ws. k < blocks \<and> length d \<le> block_size"
  shows "\<exists>s'. puts put ws s = Some s' \<and> good s' \<and>
    (\<forall>k d. map_of (rev ws) k = Some d \<longrightarrow> get s' k (length d) = Some d) \<and>
    (\<forall>p n. p < blocks \<longrightarrow> map_of (rev ws) p = None \<longrightarrow> n \<le> block_size \<longrightarrow> get s' p n = get s p n)"
  using assms
proof (induction ws arbitrary: s)
  case (Cons w ws)
  obtain k d where w: "w = (k, d)" by (cases w)
  have kd: "k < blocks" "length d \<le> block_size" using Cons.prems(2) w by auto
  obtain s1 where s1: "put s k d = Some s1" "good s1" using put_total [OF Cons.prems(1) kd] by blast
  note same = put_same [OF Cons.prems(1) kd s1(1)] and other = put_other [OF Cons.prems(1) kd s1(1)]
  obtain s' where s': "puts put ws s1 = Some s'" "good s'"
      "\<forall>k d. map_of (rev ws) k = Some d \<longrightarrow> get s' k (length d) = Some d"
      "\<forall>p n. p < blocks \<longrightarrow> map_of (rev ws) p = None \<longrightarrow> n \<le> block_size \<longrightarrow> get s' p n = get s1 p n"
    using Cons.IH [OF s1(2)] Cons.prems(2) by auto
  have "get s' q (length e) = Some e" if "map_of (rev (w # ws)) q = Some e" for q e
    using that s'(3,4) same kd w by (cases "map_of (rev ws) q") (auto simp: map_add_def split: if_splits)
  moreover have "get s' p n = get s p n" if "p < blocks" "map_of (rev (w # ws)) p = None" "n \<le> block_size" for p n
    using that s'(4) other [of p n] w by (auto simp: map_add_def split: option.splits if_splits)
  ultimately show ?case using s1(1) s'(1,2) w by auto
qed simp

end

text \<open>The store in memory.\<close>

definition mem_put :: "bcache \<Rightarrow> nat \<Rightarrow> bytes \<Rightarrow> bcache option" where
  "mem_put c k d = setBlockData c d (of_nat k) (of_nat (length d))"

definition mem_good :: "nat \<Rightarrow> u64 \<Rightarrow> bcache \<Rightarrow> bool" where
  "mem_good n bs c \<longleftrightarrow> shape c \<and> length (c_blkIndex c) = n \<and> c_blockSize c = bs"

lemma length_word: "n \<le> unat (bs :: u64) \<Longrightarrow> unat (of_nat n :: u64) = n"
  using unat_bound [of bs] by (intro unat_of_nat_small) simp

interpretation mem: block_store mem_put getBlockData "mem_good n bs" n "unat bs" for n :: nat and bs :: u64
proof
  fix c :: bcache and k :: nat and d :: bytes
  assume g: "mem_good n bs c" and k: "k < n" and d: "length d \<le> unat bs"
  have sh: "shape c" and kl: "k < length (c_blkIndex c)" and bs: "c_blockSize c = bs"
    using g k by (simp_all add: mem_good_def)
  have id: "e_id (c_blkIndex c ! k) = of_nat k" using sh kl by (simp add: shape_def)
  note len = length_word [OF d]
  have sz: "(of_nat (length d) :: u64) \<le> c_blockSize c" "unat (of_nat (length d) :: u64) \<le> length d"
    using d len bs by (simp_all add: word_le_nat_alt)
  obtain b where b: "mem_put c k d = Some (c\<lparr>c_blocks := b\<rparr>)"
    using setBlockData_ex [OF sh kl sz] by (auto simp: mem_put_def id)
  note eff = setBlockData_D [OF sh kl sz b [unfolded mem_put_def, folded id]]
  have sh': "shape (c\<lparr>c_blocks := b\<rparr>)" using sh eff(1) by (simp add: shape_def)
  show "\<exists>s'. mem_put c k d = Some s' \<and> mem_good n bs s'" using b sh' g by (simp add: mem_good_def)
  fix s'
  assume p: "mem_put c k d = Some s'"
  then have s': "s' = c\<lparr>c_blocks := b\<rparr>" using b by simp
  show "getBlockData s' k (length d) = Some d" using eff(2) [OF _ _ _ sh'] len by (simp add: s')
  fix p l
  assume pl: "p < n" "p \<noteq> k" "l \<le> unat bs"
  then have "p < length (c_blkIndex c)" using g by (simp add: mem_good_def)
  then show "getBlockData s' p l = getBlockData c p l"
    using eff(3) [OF _ pl(2)] pl(3) bs getBlockData_eq [OF sh] getBlockData_eq [OF sh'] by (simp add: s')
qed

text \<open>The store in a file; \<open>get\<close> reads the whole block.\<close>

definition file_put :: "u64 \<Rightarrow> kfile \<Rightarrow> nat \<Rightarrow> bytes \<Rightarrow> kfile option" where
  "file_put bs f k d = file_setBlockData bs d (of_nat k) (of_nat (length d)) f"

definition file_get :: "(nat \<Rightarrow> u8) \<Rightarrow> u64 \<Rightarrow> kfile \<Rightarrow> nat \<Rightarrow> nat \<Rightarrow> bytes option" where
  "file_get junk bs f k n = map_option (\<lambda>(f, b). take n b) (file_getBlockData junk bs (of_nat k) f)"

definition file_good :: "nat \<Rightarrow> u64 \<Rightarrow> kfile \<Rightarrow> bool" where
  "file_good n bs f \<longleftrightarrow> n < 2 ^ 32 \<and> n * unat bs < 2 ^ 63 \<and> n * unat bs \<le> length (kf_bytes f)"

lemma file_block:
  assumes "file_good n bs f" "k < n"
  shows "unat (ucast (of_nat k :: u32) * bs) = k * unat bs" "k * unat bs + unat bs \<le> length (kf_bytes f)"
    "k * unat bs + unat bs < 2 ^ 63"
proof -
  have "Suc k * unat bs \<le> n * unat bs" using assms(2) by (intro mult_le_mono1) simp
  then show le: "k * unat bs + unat bs \<le> length (kf_bytes f)" "k * unat bs + unat bs < 2 ^ 63"
    using assms(1) by (simp_all add: file_good_def)
  have "k < 2 ^ 32" using assms by (simp add: file_good_def)
  then have "unat (ucast (of_nat k :: u32) :: u64) = k"
    by (simp add: unsigned_ucast_eq take_bit_nat_eq_self unsigned_of_nat)
  then show "unat (ucast (of_nat k :: u32) * bs) = k * unat bs"
    using le(2) by (subst unat_mult_small) simp_all
qed

lemma slice_before: "i + l \<le> j \<Longrightarrow> j \<le> length b \<Longrightarrow> take l (drop i (take j b @ x)) = take l (drop i b)"
  by (simp add: take_drop min_absorb1)

lemma slice_after:
  "j + length d \<le> i \<Longrightarrow> j + length d \<le> length b \<Longrightarrow> drop i (take j b @ d @ drop (j + length d) b) = drop i b"
  by simp

lemma file_get_eq:
  assumes "file_good n bs f" "k < n" "l \<le> unat bs"
  shows "file_get junk bs f k l = Some (take l (drop (k * unat bs) (kf_bytes f)))"
proof -
  note b = file_block [OF assms(1,2)]
  have "\<exists>g. file_getBlockData junk bs (of_nat k) f = Some (g, take (unat bs) (drop (k * unat bs) (kf_bytes f)))"
    using preadFromFile_reads [of 0 bs "map junk [0..<unat bs]" "ucast (of_nat k :: u32) * bs" f] b
    by (auto simp: file_getBlockData_def)
  then show ?thesis using assms(3) by (auto simp: file_get_def min_absorb1)
qed

interpretation disk: block_store "file_put bs" "file_get junk bs" "file_good n bs" n "unat bs"
  for junk :: "nat \<Rightarrow> u8" and n :: nat and bs :: u64
proof
  fix f :: kfile and k :: nat and d :: bytes
  assume g: "file_good n bs f" and k: "k < n" and d: "length d \<le> unat bs"
  note b = file_block [OF g k]
  note len = length_word [OF d]
  obtain h where h: "file_put bs f k d = Some h" "kf_bytes h = write_at (kf_bytes f) (k * unat bs) d"
    using pwriteToFile_writes [of 0 "of_nat (length d)" d "ucast (of_nat k :: u32) * bs" f] b d len
    by (auto simp: file_put_def file_setBlockData_def)
  have w: "kf_bytes h = take (k * unat bs) (kf_bytes f) @ d @ drop (k * unat bs + length d) (kf_bytes f)"
    using h(2) b d by (simp add: write_at_in_range)
  have gh: "file_good n bs h" using g h(2) b d by (simp add: file_good_def length_write_at)
  then show "\<exists>s'. file_put bs f k d = Some s' \<and> file_good n bs s'" using h(1) by blast
  fix s'
  assume "file_put bs f k d = Some s'"
  then have s': "s' = h" using h(1) by simp
  show "file_get junk bs s' k (length d) = Some d"
    using file_get_eq [OF gh k d] b by (simp add: s' w min_absorb2)
  fix p l
  assume pl: "p < n" "p \<noteq> k" "l \<le> unat bs"
  have "take l (drop (p * unat bs) (kf_bytes h)) = take l (drop (p * unat bs) (kf_bytes f))"
  proof (cases "p < k")
    case True
    then have "Suc p * unat bs \<le> k * unat bs" by (intro mult_le_mono1) simp
    then show ?thesis unfolding w using pl(3) b(2) by (intro slice_before) simp_all
  next
    case False
    then have "Suc k * unat bs \<le> p * unat bs" using pl(2) by (intro mult_le_mono1) simp
    then show ?thesis unfolding w using d b(2) by (subst slice_after) simp_all
  qed
  then show "file_get junk bs s' p l = file_get junk bs f p l"
    using file_get_eq [OF gh pl(1,3)] file_get_eq [OF g pl(1,3)] by (simp add: s')
qed

subsection \<open>What the store guarantees\<close>

lemma open_store_good:
  assumes "unat n * unat bs < 2 ^ 63"
  shows "file_good (unat n) bs (open_store False existing n bs sched)"
proof -
  have "unat (ucast n :: u64) = unat n" using unat_bound [of n] by (simp add: unsigned_ucast_eq take_bit_nat_eq_self)
  then have "unat (ucast n * bs) = unat n * unat bs" using assms by (subst unat_mult_small) simp_all
  then show ?thesis using assms unat_bound [of n] by (simp add: file_good_def open_store_def)
qed

text \<open>
  C12: a new file keeps the blocks of a cache as well as the memory does: after any writes of blocks,
  each through as many failing and partial calls of the operating system as may be, every block
  reads as it was last written, in the file and in memory.
\<close>

theorem file_store_like_memory:
  assumes new: "MemoryCache level nm ty cs bs a = Some c" and fits: "unat (c_numBlocks c) * unat bs < 2 ^ 63"
    and ws: "\<forall>(k, d) \<in> set ws. k < unat (c_numBlocks c) \<and> length d \<le> unat bs"
  shows "\<exists>f' c'. puts (file_put bs) ws (open_store False existing (c_numBlocks c) bs sched) = Some f' \<and> puts mem_put ws c = Some c' \<and>
    (\<forall>k d. map_of (rev ws) k = Some d \<longrightarrow>
      file_get junk bs f' k (length d) = Some d \<and> getBlockData c' k (length d) = Some d)"
proof -
  note new = new [unfolded MemoryCache_def]
  have t: "table_ok c" using NewMemoryCache_table [OF new] by blast
  have "mem_good (unat (c_numBlocks c)) bs c"
    using table_ok_shape [OF t] NewMemoryCache_Some(3) [OF new] by (simp add: mem_good_def shape_def)
  note m = mem.puts_last [OF this ws]
  note d = disk.puts_last [OF open_store_good [OF fits] ws, of existing sched junk]
  obtain c' where c': "puts mem_put ws c = Some c'" "\<forall>k d. map_of (rev ws) k = Some d \<longrightarrow> getBlockData c' k (length d) = Some d"
    using m by (elim exE conjE) (rule that)
  obtain f' where f': "puts (file_put bs) ws (open_store False existing (c_numBlocks c) bs sched) = Some f'"
      "\<forall>k d. map_of (rev ws) k = Some d \<longrightarrow> file_get junk bs f' k (length d) = Some d"
    using d by (elim exE conjE) (rule that)
  show ?thesis by (intro exI conjI) (rule f'(1), rule c'(1), use c'(2) f'(2) in blast)
qed

theorem file_store_like_memory_witness:
  "\<exists>f'. puts (file_put 2) [(1, [5, 6]), (0, [7, 8]), (1, [9])]
      (open_store False None (c_numBlocks demo_cache) 2 [-1, 0, 1, -1, 1, 1]) = Some f' \<and> file_get (\<lambda>_. 3) 2 f' 1 1 = Some [9]"
proof -
  have c: "MemoryCache 1 ''m'' PrivateMemory 4 2 0 = Some demo_cache" and n: "c_numBlocks demo_cache = 2"
    by (simp_all add: demo_cache_def MemoryCache_def NewMemoryCache_def Let_def)
  have "\<forall>(k, d) \<in> set [(1, [5, 6]), (0, [7, 8]), (1, [9])]. k < unat (c_numBlocks demo_cache) \<and> length d \<le> unat (2 :: u64)"
    by (simp add: n)
  from file_store_like_memory [OF c _ this, of None "[-1, 0, 1, -1, 1, 1]" "\<lambda>_. 3"]
  obtain f' where f': "puts (file_put 2) [(1, [5, 6]), (0, [7, 8]), (1, [9])]
      (open_store False None (c_numBlocks demo_cache) 2 [-1, 0, 1, -1, 1, 1]) = Some f'"
      "\<forall>k d. map_of (rev [(1, [5, 6]), (0, [7, 8]), (1, [9 :: u8])]) k = Some d \<longrightarrow> file_get (\<lambda>_. 3) 2 f' k (length d) = Some d"
    by (auto simp: n simp del: puts.simps map_of.simps)
  from f'(2) have "file_get (\<lambda>_. 3) 2 f' 1 (length [9 :: u8]) = Some [9]" by (rule allE [of _ 1]) simp
  then show ?thesis using f'(1) by auto
qed

text \<open>
  reading a block returns exactly when the file holds all of it. A call that fails does not stop
  the loop, nor does the end of the file: with a file that is shorter than the cache (which
  \<open>reuseFileCache\<close> takes over as it is), a read behind its end goes on for ever.
\<close>

theorem file_read_returns_iff:
  assumes "bs \<noteq> 0" "unat (ucast k * bs) + unat bs < 2 ^ 63"
  shows "(\<exists>r. file_getBlockData junk bs k f = Some r) \<longleftrightarrow> unat (ucast k * bs) + unat bs \<le> length (kf_bytes f)"
proof
  assume "\<exists>r. file_getBlockData junk bs k f = Some r"
  then show "unat (ucast k * bs) + unat bs \<le> length (kf_bytes f)"
    using preadFromFile_returns [of f bs] assms unfolding file_getBlockData_def by blast
next
  assume "unat (ucast k * bs) + unat bs \<le> length (kf_bytes f)"
  then show "\<exists>r. file_getBlockData junk bs k f = Some r"
    using preadFromFile_reads [of 0 bs "map junk [0..<unat bs]" "ucast k * bs" f] assms(2)
    unfolding file_getBlockData_def by auto
qed

theorem file_read_returns_iff_witness:
  "file_getBlockData (\<lambda>_. 0) 2 1 (open_store True (Some [1, 2, 3]) 2 2 []) = None"
  using file_read_returns_iff [of 2 1 "\<lambda>_. 0" "open_store True (Some [1, 2, 3]) 2 2 []"]
  by (cases "file_getBlockData (\<lambda>_. 0) 2 1 (open_store True (Some [1, 2, 3]) 2 2 [])") (auto simp: open_store_def)

end
