(* ===== verification/ServerFileCache.thy ===== *)
theory ServerFileCache
  imports FileTable FileStore
begin

text \<open>
  The optional level of the server whose table is a file that several servers share:
  \<^verbatim>\<open>deprecated/BoundedFilelockCache.cpp\<close>, over the older bounded cache. Unlike the newer cache in
  shared files (\<^verbatim>\<open>FileTable.thy\<close>) it keeps no copy of the table: every operation reads an entry
  into a variable of its own and writes it back. \<open>None\<close>: the entry is not in the file, so that
  the loop over \<open>pread\<close> does not end.
\<close>

subsection \<open>Entries\<close>

record server_blk =
  s_fileIndex :: u32
  s_blockIndex :: u32
  s_timeStamp :: u32
  s_status :: blk_status
  s_prefetched :: u32
  s_origCache :: CacheType
  s_active :: u16
  s_fileName :: string

text \<open>
  The constructor clears as many bytes as \<open>active\<close> and \<open>fileName\<close> have, but from \<open>fileName\<close> on:
  \<open>active\<close> is what was in memory, \<open>junk\<close>.
\<close>

definition fresh_blk :: "u16 \<Rightarrow> server_blk" where
  "fresh_blk junk =
     \<lparr>s_fileIndex = 0, s_blockIndex = 0, s_timeStamp = 0, s_status = BLK_EMPTY, s_prefetched = 0,
      s_origCache = Empty, s_active = junk, s_fileName = replicate BFL_FILENAME_LEN (CHR 0x00)\<rparr>"

type_synonym stable = "server_blk list"

definition sf_readFileBlockEntry :: "nat \<Rightarrow> stable \<Rightarrow> server_blk option" where
  "sf_readFileBlockEntry k f = (if k < length f then Some (f ! k) else None)"

definition sf_writeFileBlockEntry :: "nat \<Rightarrow> server_blk \<Rightarrow> stable \<Rightarrow> stable option" where
  "sf_writeFileBlockEntry k e f = (if k < length f then Some (f[k := e]) else None)"

text \<open>\<open>decBlkCnt\<close> adds one, too.\<close>

definition sf_incBlkCnt :: "nat \<Rightarrow> stable \<Rightarrow> (stable \<times> int) option" where
  "sf_incBlkCnt k f =
     (do { e \<leftarrow> sf_readFileBlockEntry k f;
           f \<leftarrow> sf_writeFileBlockEntry k (e\<lparr>s_active := s_active e + 1\<rparr>) f;
           Some (f, -1) })"

definition sf_decBlkCnt :: "nat \<Rightarrow> stable \<Rightarrow> (stable \<times> int) option" where
  "sf_decBlkCnt k f =
     (do { e \<leftarrow> sf_readFileBlockEntry k f;
           f \<leftarrow> sf_writeFileBlockEntry k (e\<lparr>s_active := s_active e + 1\<rparr>) f;
           Some (f, -1) })"

definition sf_anyUsers :: "nat \<Rightarrow> stable \<Rightarrow> bool option" where
  "sf_anyUsers k f = map_option (\<lambda>e. s_active e \<noteq> 0) (sf_readFileBlockEntry k f)"

definition sf_blockSet ::
  "u16 \<Rightarrow> u64 \<Rightarrow> nat \<Rightarrow> string \<Rightarrow> u32 \<Rightarrow> blk_status \<Rightarrow> CacheType \<Rightarrow> int \<Rightarrow> stable \<Rightarrow> stable option" where
  "sf_blockSet junk now index name blockIndex status type prefetched f =
     (let e = (fresh_blk junk)\<lparr>s_fileName := name_buf name\<rparr>;
          e = e\<lparr>s_fileIndex := 0\<rparr>;
          e = e\<lparr>s_blockIndex := blockIndex + 1\<rparr>;
          e = e\<lparr>s_status := status\<rparr>;
          e = e\<lparr>s_timeStamp := ucast now\<rparr>;
          e = e\<lparr>s_origCache := type\<rparr>;
          e = (if 0 \<le> prefetched then e\<lparr>s_prefetched := of_int prefetched\<rparr> else e)
      in sf_writeFileBlockEntry index e f)"

text \<open>\<open>sameBlk\<close> with what \<open>getCompareBlkEntry\<close> makes of a name and an index.\<close>

definition sf_sameBlk :: "server_blk \<Rightarrow> u32 \<Rightarrow> string \<Rightarrow> bool option" where
  "sf_sameBlk e index name =
     map_option (\<lambda>sameFile. sameFile \<and> s_blockIndex e = index + 1) (strcmp_eq (s_fileName e) (name_buf name))"

definition sf_readBin :: "u32 \<Rightarrow> u32 \<Rightarrow> stable \<Rightarrow> server_blk list option" where
  "sf_readBin associativity binIndex f =
     (let start = unat binIndex * unat associativity; n = unat associativity
      in if start + n \<le> length f then Some (take n (drop start f)) else None)"

text \<open>
  \<open>blockAvailable\<close>, which takes no lock, with the entries that its reads of the file find one
  after the other. As long as the cache of origin is not known it reads again; \<open>None\<close>: it is
  still reading. The result is \<open>Some\<close> the cache of origin when the block is available.
\<close>

fun sf_orig :: "server_blk list \<Rightarrow> CacheType option" where
  "sf_orig [] = None"
| "sf_orig (e # es) = (if s_origCache e = Empty then sf_orig es else Some (s_origCache e))"

fun sf_blockAvailable :: "server_blk list \<Rightarrow> CacheType option option" where
  "sf_blockAvailable [] = None"
| "sf_blockAvailable (e # es) =
     (if s_status e = BLK_AVAIL then map_option Some (sf_orig (e # es)) else Some None)"

subsection \<open>The search in a bin\<close>

text \<open>The entries with their places, which the code computes from \<open>getBinOffset\<close>.\<close>

definition sf_bin :: "u32 \<Rightarrow> u32 \<Rightarrow> stable \<Rightarrow> (nat \<times> server_blk) list option" where
  "sf_bin associativity binIndex f =
     map_option (\<lambda>es. zip (map (\<lambda>i. unat (of_nat i + binIndex * associativity)) [0..<length es]) es)
       (sf_readBin associativity binIndex f)"

fun sf_getBlockIndex :: "u32 \<Rightarrow> string \<Rightarrow> (nat \<times> server_blk) list \<Rightarrow> int option" where
  "sf_getBlockIndex index name [] = Some (-1)"
| "sf_getBlockIndex index name ((k, e) # es) =
     (do { same \<leftarrow> sf_sameBlk e index name;
           if same \<and> s_status e = BLK_AVAIL then Some (to_int k) else sf_getBlockIndex index name es })"

text \<open>An entry as the search sees it; \<open>anyUsers\<close> reads it again, under the same lock.\<close>

definition mem_view :: "server_blk \<Rightarrow> block_entry" where
  "mem_view e =
     \<lparr>e_id = 0, e_fileIndex = s_fileIndex e, e_blockIndex = s_blockIndex e, e_timeStamp = s_timeStamp e,
      e_status = s_status e, e_prefetched = s_prefetched e, e_origCache = s_origCache e,
      e_activeCnt = ucast (s_active e)\<rparr>"

fun sf_scan ::
  "bool \<Rightarrow> u32 \<Rightarrow> string \<Rightarrow> (nat \<times> server_blk) list \<Rightarrow> lru \<Rightarrow> ((int \<times> bool) + lru) option" where
  "sf_scan prefetchEvict index name [] a = Some (Inr a)"
| "sf_scan prefetchEvict index name ((k, e) # es) a =
     (if s_status e = BLK_EMPTY then Some (Inl (to_int k, False))
      else if s_status e \<in> {BLK_RES, BLK_PRE, BLK_WR}
      then do { same \<leftarrow> sf_sameBlk e index name;
                if same then Some (Inl (to_int k, True)) else sf_scan prefetchEvict index name es a }
      else if s_status e = BLK_AVAIL
      then do { same \<leftarrow> sf_sameBlk e index name;
                if same then Some (Inl (-1, True))
                else sf_scan prefetchEvict index name es (lru_step prefetchEvict k (mem_view e) a) }
      else sf_scan prefetchEvict index name es a)"

text \<open>The result: the index and whether the block was found. The counters of evictions are left out.\<close>

definition sf_oldestBlockIndex ::
  "bool \<Rightarrow> u32 \<Rightarrow> string \<Rightarrow> (nat \<times> server_blk) list \<Rightarrow> (int \<times> bool) option" where
  "sf_oldestBlockIndex prefetchEvict index name bin =
     map_option
       (\<lambda>res. case res of
          Inl kf \<Rightarrow> kf
        | Inr a \<Rightarrow>
            (case (if prefetchEvict \<and> l_minPrefetchTime a \<noteq> - 1 then l_minPrefetchEntry a else None) of
               Some k \<Rightarrow> (to_int k, False)
             | None \<Rightarrow>
                 (case (if l_minTime a \<noteq> - 1 then l_minEntry a else None) of
                    Some k \<Rightarrow> (to_int k, False)
                  | None \<Rightarrow> (-1, False))))
       (sf_scan prefetchEvict index name bin lru_init)"

definition sf_blockReserve ::
  "bool \<Rightarrow> u16 \<Rightarrow> u64 \<Rightarrow> CacheType \<Rightarrow> u32 \<Rightarrow> string \<Rightarrow> u32 \<Rightarrow> u32 \<Rightarrow> bool \<Rightarrow> stable
   \<Rightarrow> (stable \<times> bool \<times> bool \<times> int) option" where
  "sf_blockReserve prefetchEvict junk now type index name associativity binIndex prefetch f =
     (do { bin \<leftarrow> sf_bin associativity binIndex f;
           (reservedIndex, found) \<leftarrow> sf_oldestBlockIndex prefetchEvict index name bin;
           if \<not> found \<and> -1 < reservedIndex
           then do { f \<leftarrow> sf_blockSet junk now (nat reservedIndex) name index
                            (if prefetch then BLK_PRE else BLK_RES) type (of_bool prefetch) f;
                     Some (f, True, found, reservedIndex) }
           else Some (f, False, found, reservedIndex) })"

subsection \<open>The blocks\<close>

definition sf_setBlockData :: "u64 \<Rightarrow> bytes \<Rightarrow> u32 \<Rightarrow> u64 \<Rightarrow> kfile \<Rightarrow> kfile option" where
  "sf_setBlockData blockSize data blockIndex sz f = pwriteToFile f sz data 0 (ucast blockIndex * blockSize)"

definition sf_getBlockData :: "(nat \<Rightarrow> u8) \<Rightarrow> u64 \<Rightarrow> u32 \<Rightarrow> kfile \<Rightarrow> (kfile \<times> bytes) option" where
  "sf_getBlockData junk blockSize blockIndex f =
     preadFromFile f blockSize (map junk [0..<unat blockSize]) 0 (ucast blockIndex * blockSize)"

subsection \<open>The search is that of the cache in memory\<close>

text \<open>An entry of the file and the entry in memory with the same block; \<open>gidx\<close> numbers the files.\<close>

definition sent_rel :: "(string \<Rightarrow> u32) \<Rightarrow> string set \<Rightarrow> server_blk \<Rightarrow> block_entry \<Rightarrow> bool" where
  "sent_rel gidx N e b \<longleftrightarrow>
     s_blockIndex e = e_blockIndex b \<and> s_timeStamp e = e_timeStamp b \<and> s_status e = e_status b
     \<and> s_prefetched e = e_prefetched b \<and> (s_active e \<noteq> 0 \<longleftrightarrow> e_activeCnt b \<noteq> 0)
     \<and> (e_status b \<noteq> BLK_EMPTY \<longrightarrow> (\<exists>nm \<in> N. s_fileName e = name_buf nm \<and> e_fileIndex b = gidx nm + 1))"

lemma sf_sameBlk_rel:
  assumes "sent_rel gidx N e b" "e_status b \<noteq> BLK_EMPTY" "inj_on gidx N" "\<forall>nm \<in> N. proper_name nm" "name \<in> N"
  shows "sf_sameBlk e index name = Some (old_sameBlk b index (gidx name))"
proof -
  obtain nm where nm: "nm \<in> N" "s_fileName e = name_buf nm" "e_fileIndex b = gidx nm + 1"
    using assms(1,2) by (auto simp: sent_rel_def)
  have "nm = name \<longleftrightarrow> gidx nm = gidx name" using assms(3,5) nm(1) by (auto dest: inj_onD)
  then show ?thesis
    using assms nm strcmp_names [of nm name]
    by (simp add: sf_sameBlk_def old_sameBlk_def sameBlk_def sent_rel_def conj_commute)
qed

lemma ucast_count [simp]: "(ucast (x :: u16) :: u32) = 0 \<longleftrightarrow> x = 0"
proof -
  have "unat (ucast x :: u32) = unat x"
    using unat_bound [of x] by (simp add: unsigned_ucast_eq take_bit_nat_eq_self)
  then show ?thesis by (metis unat_eq_0)
qed

lemma mem_view_rel:
  assumes "sent_rel gidx N e b"
  shows "lru_step pe k (mem_view e) a = lru_step pe k b a"
  using assms by (simp add: lru_step_def mem_view_def anyUsers_def sent_rel_def Let_def)

lemma sf_scan_like_memory:
  assumes "list_all2 (\<lambda>(k, e) (k', b). k = k' \<and> sent_rel gidx N e b) es bs"
    and N: "inj_on gidx N" "\<forall>nm \<in> N. proper_name nm" "name \<in> N"
  shows "sf_scan pe index name es a = Some (old_scan pe index (gidx name) bs a)"
  using assms(1)
proof (induction es arbitrary: bs a)
  case (Cons x es)
  obtain k e b bs' where xb: "x = (k, e)" "bs = (k, b) # bs'" "sent_rel gidx N e b"
      "list_all2 (\<lambda>(k, e) (k', b). k = k' \<and> sent_rel gidx N e b) es bs'"
    using Cons.prems by (cases x; cases bs) auto
  note ih = Cons.IH [OF xb(4)]
  have "s_status e = e_status b" using xb(3) by (simp add: sent_rel_def)
  then show ?case
    using ih sf_sameBlk_rel [OF xb(3) _ N] mem_view_rel [OF xb(3)] xb(1,2)
    by (cases "e_status b") simp_all
qed simp

lemma sf_getBlockIndex_like_memory:
  assumes "list_all2 (\<lambda>(k, e) (k', b). k = k' \<and> sent_rel gidx N e b) es bs"
    and N: "inj_on gidx N" "\<forall>nm \<in> N. proper_name nm" "name \<in> N"
    and used: "\<forall>(k, b) \<in> set bs. e_status b \<noteq> BLK_EMPTY"
  shows "sf_getBlockIndex index name es
    = Some (case find_avail (index + 1) (gidx name + 1) bs of None \<Rightarrow> -1 | Some k \<Rightarrow> to_int k)"
  using assms(1) used
proof (induction es arbitrary: bs)
  case (Cons x es)
  obtain k e b bs' where xb: "x = (k, e)" "bs = (k, b) # bs'" "sent_rel gidx N e b"
      "list_all2 (\<lambda>(k, e) (k', b). k = k' \<and> sent_rel gidx N e b) es bs'"
    using Cons.prems(1) by (cases x; cases bs) auto
  have "e_status b \<noteq> BLK_EMPTY" using Cons.prems(2) xb(2) by simp
  from sf_sameBlk_rel [OF xb(3) this N] show ?case
    using Cons.IH [OF xb(4)] Cons.prems(2) xb by (simp add: sent_rel_def old_sameBlk_def)
qed simp

subsection \<open>What the counts count\<close>

text \<open>
  What the older cache does with an entry, under the lock of its bin: \<open>readBlock\<close> reserves it for
  a block, or will wait for it, \<open>writeBlock\<close> fills it, and gives the reference back when the
  request had one, \<open>readBlock\<close> finds its block, \<open>writeBlock\<close> gives the reference of a hit back.
\<close>

datatype s_event =
    SReserve u16 u64 string u32 blk_status CacheType int
  | SFill u16 u16 u64 string u32 CacheType int bool
  | SHit u16 u64 string u32 CacheType int
  | SWait | SBack

fun sf_event :: "nat \<Rightarrow> s_event \<Rightarrow> stable \<Rightarrow> stable option" where
  "sf_event k (SReserve junk now name index status type prefetched) f =
     (do { f \<leftarrow> sf_blockSet junk now k name index status type prefetched f;
           map_option fst (sf_incBlkCnt k f) })"
| "sf_event k (SFill junk1 junk2 now name index type prefetched had) f =
     (do { f \<leftarrow> sf_blockSet junk1 now k name index BLK_WR type prefetched f;
           f \<leftarrow> sf_blockSet junk2 now k name index BLK_AVAIL type prefetched f;
           if had then map_option fst (sf_decBlkCnt k f) else Some f })"
| "sf_event k (SHit junk now name index type prefetched) f =
     (do { (f, cnt) \<leftarrow> sf_incBlkCnt k f;
           sf_blockSet junk now k name index BLK_AVAIL type prefetched f })"
| "sf_event k SWait f = map_option fst (sf_incBlkCnt k f)"
| "sf_event k SBack f = map_option fst (sf_decBlkCnt k f)"

fun sf_events :: "(nat \<times> s_event) list \<Rightarrow> stable \<Rightarrow> stable option" where
  "sf_events [] f = Some f"
| "sf_events ((k, ev) # evs) f = (do { f \<leftarrow> sf_event k ev f; sf_events evs f })"

text \<open>The count after an event; what it was before matters to the return of a hit only.\<close>

fun count_after :: "s_event \<Rightarrow> u16 \<Rightarrow> u16" where
  "count_after (SReserve junk now name index status type prefetched) a = junk + 1"
| "count_after (SFill junk1 junk2 now name index type prefetched had) a = junk2 + of_bool had"
| "count_after (SHit junk now name index type prefetched) a = junk"
| "count_after SWait a = a + 1"
| "count_after SBack a = a + 1"

definition events_of :: "nat \<Rightarrow> (nat \<times> s_event) list \<Rightarrow> s_event list" where
  "events_of k evs = map snd (filter (\<lambda>x. fst x = k) evs)"

lemma sf_event_count:
  assumes "sf_event k ev f = Some f'"
  shows "length f' = length f" "k < length f"
    "s_active (f' ! k) = count_after ev (s_active (f ! k))"
    "j \<noteq> k \<Longrightarrow> f' ! j = f ! j"
  using assms
  by (cases ev; auto simp: sf_incBlkCnt_def sf_decBlkCnt_def sf_blockSet_def sf_readFileBlockEntry_def
      sf_writeFileBlockEntry_def Let_def fresh_blk_def split: if_splits Option.bind_splits)+

lemma sf_events_count:
  "sf_events evs f = Some f' \<Longrightarrow>
     length f' = length f \<and> s_active (f' ! k) = fold count_after (events_of k evs) (s_active (f ! k))"
proof (induction evs arbitrary: f)
  case (Cons x evs)
  obtain j ev where x: "x = (j, ev)" by (cases x)
  obtain g where g: "sf_event j ev f = Some g" "sf_events evs g = Some f'"
    using Cons.prems x by (auto split: Option.bind_splits)
  show ?case
    using Cons.IH [OF g(2)] sf_event_count [OF g(1)] x by (cases "j = k") (auto simp: events_of_def)
qed (simp add: events_of_def)

text \<open>With zeros in the memory of new entries, every request with a reservation that comes back counts.\<close>

fun clean :: "s_event \<Rightarrow> bool" where
  "clean (SReserve junk now name index status type prefetched) \<longleftrightarrow> junk = 0"
| "clean (SFill junk1 junk2 now name index type prefetched had) \<longleftrightarrow> junk2 = 0 \<and> had"
| "clean (SHit junk now name index type prefetched) \<longleftrightarrow> junk = 0"
| "clean SWait \<longleftrightarrow> True"
| "clean SBack \<longleftrightarrow> True"

fun is_hit :: "s_event \<Rightarrow> bool" where
  "is_hit (SHit junk now name index type prefetched) \<longleftrightarrow> True"
| "is_hit ev \<longleftrightarrow> False"

lemma count_bound:
  assumes "\<forall>ev \<in> set evs. clean ev" "unat a + length evs < 2 ^ 16"
  shows "unat (fold count_after evs a) \<le> unat a + length evs
    \<and> (evs \<noteq> [] \<longrightarrow> (fold count_after evs a = 0 \<longleftrightarrow> is_hit (last evs)))"
  using assms
proof (induction evs rule: rev_induct)
  case (snoc ev evs)
  define b where "b = fold count_after evs a"
  have b: "unat b \<le> unat a + length evs" using snoc by (simp add: b_def)
  have inc: "unat (b + 1) = Suc (unat b)" using b snoc.prems(2) by (intro unat_inc_small) simp
  then have "b + 1 \<noteq> 0" by (metis nat.distinct(1) unat_0)
  then show ?case
    using snoc.prems(1) b inc unfolding b_def
    by (cases ev) auto
qed simp

text \<open>
  The counts are upside down: when the requests have come back that had an entry reserved or
  found, the entry counts as used, and it counts as unused right after a hit, as long as the
  request that hit it is under way. So a bin all of whose requests have come back, and that is
  full, never again has room for another block.
\<close>

lemma sf_users_inverted:
  assumes "sf_events evs f = Some f'" "\<forall>x \<in> set evs. clean (snd x)" "k < length f"
    "unat (s_active (f ! k)) + length evs < 2 ^ 16" "events_of k evs \<noteq> []"
  shows "sf_anyUsers k f' = Some (\<not> is_hit (last (events_of k evs)))"
proof -
  note c = sf_events_count [OF assms(1), of k]
  have "length (events_of k evs) \<le> length evs" by (simp add: events_of_def)
  moreover have "\<forall>ev \<in> set (events_of k evs). clean ev" using assms(2) by (auto simp: events_of_def)
  ultimately have "s_active (f' ! k) = 0 \<longleftrightarrow> is_hit (last (events_of k evs))"
    using c assms(4,5) count_bound [of "events_of k evs" "s_active (f ! k)"] by simp
  then show ?thesis using c assms(3) by (simp add: sf_anyUsers_def sf_readFileBlockEntry_def)
qed

lemma sf_scan_all_used:
  assumes "\<forall>(k, e) \<in> set bin. s_status e = BLK_AVAIL \<and> s_active e \<noteq> 0 \<and> sf_sameBlk e index name = Some False"
  shows "sf_scan pe index name bin a = Some (Inr a)"
  using assms
proof (induction bin)
  case (Cons x bin)
  obtain k e where x: "x = (k, e)" by (cases x)
  have "lru_step pe k (mem_view e) a = a"
    using Cons.prems x by (simp add: lru_step_def mem_view_def anyUsers_def)
  then show ?case using Cons x by simp
qed simp

theorem server_bin_stuck:
  assumes run: "sf_events evs f0 = Some f" and clean: "\<forall>x \<in> set evs. clean (snd x)" and few: "length evs < 2 ^ 16"
    and new: "\<forall>e \<in> set f0. s_active e = 0"
    and bin: "unat bin * unat assoc + unat assoc \<le> length f"
    and full: "\<forall>k. unat bin * unat assoc \<le> k \<and> k < unat bin * unat assoc + unat assoc \<longrightarrow>
      s_status (f ! k) = BLK_AVAIL \<and> sf_sameBlk (f ! k) index name = Some False
      \<and> events_of k evs \<noteq> [] \<and> \<not> is_hit (last (events_of k evs))"
  shows "sf_blockReserve pe junk now type index name assoc bin prefetch f = Some (f, False, False, -1)"
proof -
  let ?s = "unat bin * unat assoc" and ?n = "unat assoc"
  have len: "length f = length f0" using sf_events_count [OF run] by blast
  have users: "s_active (f ! k) \<noteq> 0" if "?s \<le> k" "k < ?s + ?n" for k
    using sf_users_inverted [OF run clean, of k] that full bin len few new
    by (auto simp: sf_anyUsers_def sf_readFileBlockEntry_def)
  obtain ps where b: "sf_bin assoc bin f = Some (zip ps (take ?n (drop ?s f)))"
    using bin by (simp add: sf_bin_def sf_readBin_def Let_def)
  have "s_status e = BLK_AVAIL \<and> s_active e \<noteq> 0 \<and> sf_sameBlk e index name = Some False"
    if "(k, e) \<in> set (zip ps (take ?n (drop ?s f)))" for k e
  proof -
    have "e \<in> set (take ?n (drop ?s f))" using that by (rule set_zip_rightD)
    then obtain i where "i < ?n" "e = f ! (?s + i)" using bin by (auto simp: in_set_conv_nth)
    then show ?thesis using full users [of "?s + i"] by auto
  qed
  then have "sf_scan pe index name (zip ps (take ?n (drop ?s f))) lru_init = Some (Inr lru_init)"
    by (intro sf_scan_all_used) auto
  then show ?thesis
    by (simp add: sf_blockReserve_def b sf_oldestBlockIndex_def lru_init_def)
qed

text \<open>One block, read and brought by one request, fills a cache of one entry for good.\<close>

theorem server_bin_stuck_witness:
  "\<exists>f. sf_events [(0, SReserve 0 1 ''a'' 3 BLK_RES BoundedGlobalFile 0), (0, SFill 0 0 2 ''a'' 3 Network 0 True)] [fresh_blk 0] = Some f
    \<and> sf_blockReserve False 0 3 BoundedGlobalFile 4 ''a'' 1 0 False f = Some (f, False, False, -1)"
proof -
  let ?evs = "[(0, SReserve 0 1 ''a'' 3 BLK_RES BoundedGlobalFile 0), (0, SFill 0 0 2 ''a'' 3 Network 0 True)]"
  obtain f where f: "sf_events ?evs [fresh_blk 0] = Some f" "length f = 1" "s_status (f ! 0) = BLK_AVAIL"
      "s_fileName (f ! 0) = name_buf ''a''" "s_blockIndex (f ! 0) = 4"
    by (simp add: sf_incBlkCnt_def sf_decBlkCnt_def sf_blockSet_def sf_readFileBlockEntry_def
        sf_writeFileBlockEntry_def Let_def)
  have "strcmp_eq (name_buf ''a'') (name_buf ''a'') = Some True"
    using strcmp_names [of "''a''" "''a''"] by (simp add: proper_name_def BFL_FILENAME_LEN_def)
  then have same: "sf_sameBlk (f ! 0) 4 ''a'' = Some False" using f(4,5) by (simp add: sf_sameBlk_def)
  have "sf_blockReserve False 0 3 BoundedGlobalFile 4 ''a'' 1 0 False f = Some (f, False, False, -1)"
    by (rule server_bin_stuck [OF f(1)]) (use f(2,3) same in \<open>simp_all add: fresh_blk_def events_of_def\<close>)
  then show ?thesis using f(1) by blast
qed

end
