(* ===== verification/WriteBuffer.thy ===== *)
theory WriteBuffer
  imports TaskPool CacheCore
begin

text \<open>
  Writing blocks to the caches in the background: \<open>bufferWrite\<close> and the wait in the destructor of
  \<open>Cache\<close> (\<^verbatim>\<open>src/caches/Cache.cpp\<close>), composed with the thread pool that does the writing
  (\<^verbatim>\<open>src/common/ThreadPool.cpp\<close>). The setting \<open>bufferFileCacheWrites\<close> is the constant true, so the
  branch that writes at once is never taken. The caches in shared files do the same once more,
  with a pool and a counter \<open>_myOutstandingWrites\<close> of their own.
\<close>

text \<open>
  The state: \<open>_outstandingWrites\<close>, the requests that threads have counted but not yet given to the
  pool, the number of writes that are over but still counted, and the pool.
\<close>

type_synonym wb_state = "u64 \<times> request multiset \<times> nat \<times> (request list, request) tstate"

inductive wb_step :: "wb_state \<Rightarrow> wb_state \<Rightarrow> bool" where
  WbCount: "wb_step (n, pending, over, T) (n + 1, add_mset req pending, over, T)"
| WbQueue: "wb_step (n, add_mset req pending, over, (p, tm, added, run))
     (n, pending, over, (addTask fifo_push req p, tm, added @ [req], run))"
| WbPool: "tstep fifo_push fifo_pop (p, tm, added, run) (p', tm', added, run') \<Longrightarrow>
     wb_step (n, pending, over, (p, tm, added, run))
       (n, pending, over + (length run' - length run), (p', tm', added, run'))"
| WbUncount: "wb_step (n, pending, Suc over, T) (n - 1, pending, over, T)"

inductive_cases wb_stepE: "wb_step s t"

text \<open>The destructor goes on when the counter is 0.\<close>

definition writes_done :: "wb_state \<Rightarrow> bool" where
  "writes_done s \<longleftrightarrow> fst s = 0"

definition wb_reach :: "u32 \<Rightarrow> wb_state \<Rightarrow> bool" where
  "wb_reach maxThreads s \<longleftrightarrow> wb_step\<^sup>*\<^sup>* (0, {#}, 0, pool_start maxThreads []) s"

lemma tstep_run: "tstep push pop (p, tm, added, run) (p', tm', added', run') \<Longrightarrow> \<exists>ts. run' = run @ ts"
  by (cases rule: tstep.cases, assumption) auto

text \<open>The counter, up to multiples of \<open>2 ^ 64\<close>, and what the pool sees of the steps.\<close>

definition wb_inv :: "u32 \<Rightarrow> wb_state \<Rightarrow> bool" where
  "wb_inv maxThreads s \<longleftrightarrow> (case s of (n, pending, over, (p, tm, added, run)) \<Rightarrow>
     n + of_nat (length run) = of_nat (size pending + length added + over)
     \<and> over \<le> length run
     \<and> (tstep fifo_push fifo_pop)\<^sup>*\<^sup>* (pool_start maxThreads []) (p, tm, added, run))"

lemma wb_inv_step:
  assumes "wb_step s t" "wb_inv maxThreads s"
  shows "wb_inv maxThreads t"
  using assms(1)
proof (cases rule: wb_step.cases)
  case (WbCount n pending over T req)
  then show ?thesis using assms(2) by (cases T) (auto simp: wb_inv_def algebra_simps)
next
  case (WbQueue n req pending over p tm added run)
  have "tstep fifo_push fifo_pop (p, tm, added, run) (addTask fifo_push req p, tm, added @ [req], run)"
    by (rule TAdd)
  then show ?thesis using WbQueue assms(2)
    by (auto simp: wb_inv_def algebra_simps intro: rtranclp.rtrancl_into_rtrancl)
next
  case (WbPool p tm added run p' tm' run' n pending over)
  obtain ts where ts: "run' = run @ ts" using tstep_run [OF WbPool(3)] by blast
  have inv: "n + of_nat (length run) = of_nat (size pending + length added + over)" "over \<le> length run"
    "(tstep fifo_push fifo_pop)\<^sup>*\<^sup>* (pool_start maxThreads []) (p, tm, added, run)"
    using assms(2) WbPool(1) by (simp_all add: wb_inv_def)
  have "n + of_nat (length run') = of_nat (size pending + length added + (over + length ts))"
    using inv(1) ts by (simp add: algebra_simps)
  then show ?thesis
    using rtranclp.rtrancl_into_rtrancl [OF inv(3) WbPool(3)] inv(2) ts WbPool(2) by (simp add: wb_inv_def)
next
  case (WbUncount n pending over T)
  then show ?thesis using assms(2) by (cases T) (auto simp: wb_inv_def algebra_simps)
qed

lemma wb_reach_inv: "wb_reach maxThreads s \<Longrightarrow> wb_inv maxThreads s"
  unfolding wb_reach_def
proof (induction rule: rtranclp_induct)
  case base
  then show ?case by (simp add: wb_inv_def pool_start_def)
next
  case (step s t)
  then show ?case by (blast intro: wb_inv_step)
qed

text \<open>
  C29: The counter of outstanding writes is exact: in every interleaving of \<open>bufferWrite\<close> in any number
  of threads with the threads of the pool, it is 0 exactly when every request that was handed to
  \<open>bufferWrite\<close> has been written, each as often as it was handed over, and none is on its way;
  with one thread in the pool, as the settings have it, in the order in which they came. So the
  destructor, which waits for 0, neither goes on too early nor waits for nothing.
\<close>

theorem buffered_writes_finish:
  assumes "wb_reach maxThreads (n, pending, over, (p, tm, added, run))"
    "unat maxThreads < 2 ^ 31" "size pending + length added < 2 ^ 64"
  shows "(writes_done (n, pending, over, (p, tm, added, run)) \<longleftrightarrow>
      pending = {#} \<and> over = 0 \<and> mset run = mset added \<and> tp_queue p = [] \<and> all_running p = {#})
    \<and> (writes_done (n, pending, over, (p, tm, added, run)) \<and> maxThreads = 1 \<longrightarrow> run = added)"
proof -
  have cnt: "n + of_nat (length run) = of_nat (size pending + length added + over)" and ov: "over \<le> length run"
    and reach: "(tstep fifo_push fifo_pop)\<^sup>*\<^sup>* (pool_start maxThreads []) (p, tm, added, run)"
    using wb_reach_inv [OF assms(1)] by (simp_all add: wb_inv_def)
  have cons: "mset added = mset (tp_queue p) + all_running p + mset run"
    using fifo.tasks_conserved [OF reach _ assms(2)] by (simp add: fifo.conserved_def)
  have len: "length added = length (tp_queue p) + size (all_running p) + length run"
    using arg_cong [OF cons, of size] by simp
  define d where "d = size pending + (length (tp_queue p) + size (all_running p)) + over"
  have "n = of_nat d" using cnt len by (simp add: d_def algebra_simps)
  moreover have "d < 2 ^ 64" using assms(3) len ov by (simp add: d_def)
  ultimately have "unat n = d" by (simp add: unat_of_nat_small)
  then have "n = 0 \<longleftrightarrow> d = 0" by (metis unat_eq_zero)
  then have iff: "n = 0 \<longleftrightarrow> pending = {#} \<and> over = 0 \<and> mset run = mset added \<and> tp_queue p = [] \<and> all_running p = {#}"
    using cons by (auto simp: d_def)
  moreover have "run = added" if "n = 0" "maxThreads = 1"
    using one_thread_all_run [OF reach] that iff by (metis mset_eq_length order_refl unat_1)
  ultimately show ?thesis by (simp add: writes_done_def)
qed

text \<open>Runs that can be computed.\<close>

datatype wb_event = BCount request | BQueue request | BPool "request task_event" | BUncount

fun wb_exec1 :: "wb_event \<Rightarrow> wb_state \<Rightarrow> wb_state option" where
  "wb_exec1 (BCount req) (n, pending, over, T) = Some (n + 1, add_mset req pending, over, T)"
| "wb_exec1 (BQueue req) (n, pending, over, (p, tm, added, run)) =
     (if req \<in># pending
      then Some (n, pending - {#req#}, over, (addTask fifo_push req p, tm, added @ [req], run)) else None)"
| "wb_exec1 (BPool e) (n, pending, over, (p, tm, added, run)) =
     (case task_exec1 fifo_push fifo_pop e (p, tm, added, run) of
        Some (p', tm', added', run') \<Rightarrow>
          if added' = added then Some (n, pending, over + (length run' - length run), (p', tm', added, run'))
          else None
      | None \<Rightarrow> None)"
| "wb_exec1 BUncount (n, pending, over, T) =
     (if over = 0 then None else Some (n - 1, pending, over - 1, T))"

fun wb_exec :: "wb_event list \<Rightarrow> wb_state \<Rightarrow> wb_state option" where
  "wb_exec [] s = Some s"
| "wb_exec (e # es) s = Option.bind (wb_exec1 e s) (wb_exec es)"

lemma wb_exec1_step: "wb_exec1 e s = Some s' \<Longrightarrow> wb_step s s'"
proof (induction e s rule: wb_exec1.induct)
  case (2 req n pending over p tm added run)
  then have "pending = add_mset req (pending - {#req#})" by (simp split: if_splits)
  then show ?case using 2 WbQueue [of n req "pending - {#req#}" over p tm added run] by (simp split: if_splits)
next
  case (3 e n pending over p tm added run)
  then obtain p' tm' run' where "task_exec1 fifo_push fifo_pop e (p, tm, added, run) = Some (p', tm', added, run')"
    "s' = (n, pending, over + (length run' - length run), (p', tm', added, run'))"
    by (auto split: option.splits if_splits prod.splits)
  then show ?case using task_exec1_step WbPool by blast
next
  case (4 n pending over T)
  then show ?case using WbUncount [of n pending "over - 1" T] by (simp split: if_splits)
qed (auto intro: wb_step.intros)

lemma wb_exec_steps: "wb_exec es s = Some s' \<Longrightarrow> wb_step\<^sup>*\<^sup>* s s'"
proof (induction es arbitrary: s)
  case (Cons e es)
  then obtain u where u: "wb_exec1 e s = Some u" "wb_exec es u = Some s'"
    by (cases "wb_exec1 e s") auto
  show ?case by (rule converse_rtranclp_into_rtranclp [OF wb_exec1_step [OF u(1)] Cons.IH [OF u(2)]])
qed simp

theorem buffered_writes_finish_witness:
  "\<exists>n pending over p tm added run. wb_reach 1 (n, pending, over, (p, tm, added, run))
     \<and> writes_done (n, pending, over, (p, tm, added, run))
     \<and> run = [new_request 1 Base 7 0 4, new_request 1 Base 8 0 4]"
proof -
  let ?a = "new_request 1 Base 7 0 4" and ?b = "new_request 1 Base 8 0 4"
  let ?w = "BPool (EWork 0)"
  let ?es = "[BPool (EThreads 1), BCount ?a, BQueue ?a, ?w, BCount ?b, ?w, BQueue ?b, ?w, BUncount, ?w, ?w, ?w, BUncount]"
  obtain n pending over p tm added run where r: "wb_exec ?es (0, {#}, 0, pool_start 1 [])
      = Some (n, pending, over, (p, tm, added, run))"
    and n: "n = 0" "size pending + length added < 2 ^ 64" "run = [?a, ?b]"
    by (simp add: pool_start_def new_pool_def addThreads_def worker_step_def take_task_def addTask_def fifo_push_def Let_def)
  have reach: "wb_reach 1 (n, pending, over, (p, tm, added, run))"
    unfolding wb_reach_def by (rule wb_exec_steps [OF r])
  have "writes_done (n, pending, over, (p, tm, added, run))" using n(1) by (simp add: writes_done_def)
  moreover have "run = added" using buffered_writes_finish [OF reach _ n(2)] calculation by simp
  ultimately show ?thesis using reach n(3) by (intro exI conjI)
qed

end
